(* ===== verification/Prelude.thy ===== *)
theory Prelude
  imports Main "HOL-Library.Char_ord" "HOL-Library.List_Lexorder" "HOL-Library.Product_Lexorder"
begin

text \<open>
  Shared vocabulary of the development: texts, the execution budget of the
  comparison engine (\<open>struct Budget\<close> of \<open>HyperCompare/core/compare.hpp\<close>), the
  computations that run under it (state passing with failures as values), and the
  rules by which the component theories reason about such computations.

  A computation takes the mutable part of a run, the number of \<open>Budget::Check\<close> calls
  made so far (\<open>ticks\<close>) and the work counter (\<open>steps\<close>), and returns a failure code or a
  value together with the new state.  Everything a run reads from outside the program
  (the clock, the cancellation flag, the memory callbacks, the unspecified parts of the
  C++ standard library) is a field of the budget, indexed by the number of checks made
  so far, so that two consecutive reads may differ.
\<close>

section \<open>Texts and failures\<close>

type_synonym str = "char list"
type_synonym failure = string

abbreviation LF :: char where "LF \<equiv> CHR 0x0A"
abbreviation CR :: char where "CR \<equiv> CHR 0x0D"

section \<open>Budget and computations\<close>

record world =
  ticks :: nat
  steps :: nat

type_synonym 'a comp = "world \<Rightarrow> (failure + 'a) \<times> world"

record budget =
  deadline :: nat
  canceled :: "(nat \<Rightarrow> bool) option"
  traceBytes :: nat
  maxSteps :: nat
  memoryCheck :: "(nat \<Rightarrow> failure option) option"
  memoryReserve :: "(nat \<Rightarrow> nat \<Rightarrow> failure option) option"
  rangesOnly :: bool
  clock :: "nat \<Rightarrow> nat"
  sortCalls :: "nat \<Rightarrow> nat"
  hashOf :: "str \<Rightarrow> nat"

definition ret :: "'a \<Rightarrow> 'a comp" where
  "ret v = (\<lambda>w. (Inr v, w))"

definition throw :: "failure \<Rightarrow> 'a comp" where
  "throw e = (\<lambda>w. (Inl e, w))"

definition seq :: "'a comp \<Rightarrow> ('a \<Rightarrow> 'b comp) \<Rightarrow> 'b comp" where
  "seq m f = (\<lambda>w. case m w of (Inl e, w') \<Rightarrow> (Inl e, w') | (Inr v, w') \<Rightarrow> f v w')"

text \<open>\<open>try { m } catch (const Failure& e) { h(e) }\<close>: the state reached by \<open>m\<close> is kept.\<close>

definition catch :: "'a comp \<Rightarrow> (failure \<Rightarrow> 'a comp) \<Rightarrow> 'a comp" where
  "catch m h = (\<lambda>w. case m w of (Inl e, w') \<Rightarrow> h e w' | (Inr v, w') \<Rightarrow> (Inr v, w'))"

definition onlyIf :: "bool \<Rightarrow> unit comp \<Rightarrow> unit comp" where
  "onlyIf b m = (if b then m else ret ())"

definition tick :: "unit comp" where
  "tick = (\<lambda>w. (Inr (), w\<lparr>ticks := Suc (ticks w)\<rparr>))"

definition observe :: "(nat \<Rightarrow> failure option) \<Rightarrow> unit comp" where
  "observe f = (\<lambda>w. case f (ticks w) of None \<Rightarrow> (Inr (), w) | Some e \<Rightarrow> (Inl e, w))"

text \<open>\<open>Budget::Check\<close>: cancellation first, then the deadline, then the memory callback.\<close>

definition check :: "budget \<Rightarrow> unit comp" where
  "check L = seq tick (\<lambda>_.
     seq (observe (\<lambda>t. case canceled L of None \<Rightarrow> None
                     | Some flag \<Rightarrow> if flag t then Some ''Canceled'' else None)) (\<lambda>_.
     seq (observe (\<lambda>t. if deadline L \<le> clock L t then Some ''Timeout'' else None)) (\<lambda>_.
     observe (\<lambda>t. case memoryCheck L of None \<Rightarrow> None | Some f \<Rightarrow> f t))))"

text \<open>
  \<open>Limits.memoryReserve_ ? Limits.memoryReserve_(n) : {}\<close>: the callback may refuse by throwing.
\<close>

definition reserve :: "budget \<Rightarrow> nat \<Rightarrow> unit comp" where
  "reserve L n = observe (\<lambda>t. case memoryReserve L of None \<Rightarrow> None | Some f \<Rightarrow> f t n)"

text \<open>
  The work counter: \<open>if (++steps > Limits.steps_) throw Failure("DiffWorkLimit");
  if ((steps & 1023) == 0) Limits.Check();\<close>
\<close>

definition countStep :: "budget \<Rightarrow> unit comp" where
  "countStep L = (\<lambda>w. let w' = w\<lparr>steps := Suc (steps w)\<rparr> in
     if maxSteps L < steps w' then (Inl ''DiffWorkLimit'', w')
     else if steps w' mod 1024 = 0 then check L w' else (Inr (), w'))"

text \<open>\<open>std::uint64_t steps = 0;\<close>: every diff starts its own counter.\<close>

definition resetSteps :: "unit comp" where
  "resetSteps = (\<lambda>w. (Inr (), w\<lparr>steps := 0\<rparr>))"

fun repeatStep :: "budget \<Rightarrow> nat \<Rightarrow> unit comp" where
  "repeatStep L 0 = ret ()"
| "repeatStep L (Suc n) = seq (countStep L) (\<lambda>_. repeatStep L n)"

text \<open>The environment failures: what the callbacks of a budget can throw.\<close>

definition envFailure :: "budget \<Rightarrow> failure \<Rightarrow> bool" where
  "envFailure L e \<longleftrightarrow>
     (case canceled L of None \<Rightarrow> False | Some f \<Rightarrow> (\<exists>t. f t) \<and> e = ''Canceled'')
   \<or> (\<exists>t. deadline L \<le> clock L t) \<and> e = ''Timeout''
   \<or> (case memoryCheck L of None \<Rightarrow> False | Some f \<Rightarrow> \<exists>t. f t = Some e)
   \<or> (case memoryReserve L of None \<Rightarrow> False | Some f \<Rightarrow> \<exists>t n. f t n = Some e)"

text \<open>A quiet budget: nothing outside the program ever interrupts the run.\<close>

definition quiet :: "budget \<Rightarrow> bool" where
  "quiet L \<longleftrightarrow> (\<forall>e. \<not> envFailure L e)"

text \<open>The default budget of \<open>compare.hpp\<close>, with a clock that never reaches the deadline.\<close>

definition defaultBudget :: budget where
  "defaultBudget = \<lparr>deadline = 10, canceled = None, traceBytes = 64 * 1024 * 1024,
     maxSteps = 50000000, memoryCheck = None, memoryReserve = None, rangesOnly = False,
     clock = (\<lambda>_. 0), sortCalls = (\<lambda>n. n * n), hashOf = length\<rparr>"

definition world0 :: world where
  "world0 = \<lparr>ticks = 0, steps = 0\<rparr>"

section \<open>Reasoning about computations\<close>

text \<open>
  \<open>spec L c m P E\<close>: from every state, \<open>m\<close> either returns a value that satisfies \<open>P\<close> after at
  most \<open>c\<close> counted steps, or fails with a code that satisfies \<open>E\<close>, or fails with
  \<open>DiffWorkLimit\<close>, in which case it counts steps and the limit is below the number allowed.
\<close>

definition spec :: "budget \<Rightarrow> nat \<Rightarrow> 'a comp \<Rightarrow> ('a \<Rightarrow> bool) \<Rightarrow> (failure \<Rightarrow> bool) \<Rightarrow> bool" where
  "spec L c m P E \<longleftrightarrow> (\<forall>w. case m w of
       (Inr v, w') \<Rightarrow> P v \<and> steps w' \<le> steps w + c
     | (Inl e, w') \<Rightarrow> E e \<or> (e = ''DiffWorkLimit'' \<and> 0 < c \<and> maxSteps L < steps w + c))"

text \<open>\<open>yields m P E\<close>: the same without the account of steps.\<close>

definition yields :: "'a comp \<Rightarrow> ('a \<Rightarrow> bool) \<Rightarrow> (failure \<Rightarrow> bool) \<Rightarrow> bool" where
  "yields m P E \<longleftrightarrow> (\<forall>w. case fst (m w) of Inr v \<Rightarrow> P v | Inl e \<Rightarrow> E e)"

named_theorems yields_rules
named_theorems spec_rules

lemma yieldsI:
  assumes "\<And>w v w'. m w = (Inr v, w') \<Longrightarrow> P v" and "\<And>w e w'. m w = (Inl e, w') \<Longrightarrow> E e"
  shows "yields m P E"
  unfolding yields_def
proof (rule allI)
  fix w
  show "case fst (m w) of Inl e \<Rightarrow> E e | Inr v \<Rightarrow> P v"
    using assms [of w] by (cases "m w") (auto split: sum.split)
qed

lemma yieldsD: "yields m P E \<Longrightarrow> m w = (Inr v, w') \<Longrightarrow> P v"
  unfolding yields_def by (drule allE [of _ w], assumption) simp_all

lemma yieldsD_error: "yields m P E \<Longrightarrow> m w = (Inl e, w') \<Longrightarrow> E e"
  unfolding yields_def by (drule allE [of _ w], assumption) simp_all

lemma yields_at: "yields m P E \<Longrightarrow> case fst (m w) of Inl e \<Rightarrow> E e | Inr v \<Rightarrow> P v"
  by (simp add: yields_def)

lemma yields_ret [yields_rules]: "P v \<Longrightarrow> yields (ret v) P E"
  by (simp add: yields_def ret_def)

lemma yields_throw [yields_rules]: "E e \<Longrightarrow> yields (throw e) P E"
  by (simp add: yields_def throw_def)

lemma seq_Inr: "seq m f w = (Inr v, w'') \<Longrightarrow>
    \<exists>u w'. m w = (Inr u, w') \<and> f u w' = (Inr v, w'')"
  by (auto simp: seq_def split: prod.splits sum.splits)

lemma seq_Inl: "seq m f w = (Inl e, w'') \<Longrightarrow>
    m w = (Inl e, w'') \<or> (\<exists>u w'. m w = (Inr u, w') \<and> f u w' = (Inl e, w''))"
  by (auto simp: seq_def split: prod.splits sum.splits)

text \<open>For recursions below a \<open>seq\<close> whose measure depends on the value that is passed on.\<close>

lemma seq_cong:
  "m = m' \<Longrightarrow> (\<And>v w w'. m' w = (Inr v, w') \<Longrightarrow> f v = f' v) \<Longrightarrow> seq m f = seq m' f'"
  by (rule ext) (auto simp: seq_def split: prod.splits sum.splits)

lemma seq_assoc: "seq m (\<lambda>v. seq (f v) g) = seq (seq m f) g"
  by (rule ext) (simp add: seq_def split: prod.splits sum.splits)

lemma yields_seq:
  assumes "yields m Q E" and "\<And>v. Q v \<Longrightarrow> yields (f v) P E"
  shows "yields (seq m f) P E"
  by (rule yieldsI) (blast dest: seq_Inr seq_Inl yieldsD [OF assms(1)] yieldsD_error [OF assms(1)]
      yieldsD [OF assms(2)] yieldsD_error [OF assms(2)])+

lemma yields_seq_run:
  assumes "yields m Q E" and "\<And>v w w'. m w = (Inr v, w') \<Longrightarrow> Q v \<Longrightarrow> yields (f v) P E"
  shows "yields (seq m f) P E"
proof (rule yieldsI)
  fix w v w'' assume "seq m f w = (Inr v, w'')"
  then obtain u w' where "m w = (Inr u, w')" "f u w' = (Inr v, w'')" by (blast dest: seq_Inr)
  then show "P v" using yieldsD [OF assms(1)] yieldsD [OF assms(2)] by blast
next
  fix w e w'' assume "seq m f w = (Inl e, w'')"
  then show "E e"
    using yieldsD [OF assms(1)] yieldsD_error [OF assms(1)] yieldsD_error [OF assms(2)]
    by (blast dest: seq_Inl)
qed

lemma yields_weaken:
  "yields m Q F \<Longrightarrow> (\<And>v. Q v \<Longrightarrow> P v) \<Longrightarrow> (\<And>e. F e \<Longrightarrow> E e) \<Longrightarrow> yields m P E"
  by (rule yieldsI) (blast dest: yieldsD yieldsD_error)+

lemma yields_if [yields_rules]:
  "(b \<Longrightarrow> yields m P E) \<Longrightarrow> (\<not> b \<Longrightarrow> yields n P E) \<Longrightarrow> yields (if b then m else n) P E"
  by simp

lemma yields_prod [yields_rules]:
  "(\<And>x y. v = (x, y) \<Longrightarrow> yields (f x y) P E) \<Longrightarrow> yields (case v of (x, y) \<Rightarrow> f x y) P E"
  by (cases v) simp

lemma yields_option [yields_rules]:
  "(v = None \<Longrightarrow> yields m P E) \<Longrightarrow> (\<And>x. v = Some x \<Longrightarrow> yields (f x) P E) \<Longrightarrow>
    yields (case v of None \<Rightarrow> m | Some x \<Rightarrow> f x) P E"
  by (cases v) simp_all

lemma yields_trivial: "yields m (\<lambda>_. True) (\<lambda>_. True)"
  by (rule yieldsI) simp_all

lemma yields_conj:
  "yields m P E \<Longrightarrow> yields m Q F \<Longrightarrow> yields m (\<lambda>v. P v \<and> Q v) (\<lambda>e. E e \<and> F e)"
  by (rule yieldsI) (auto dest: yieldsD yieldsD_error)

lemma yields_catch:
  assumes "yields m P F" and "\<And>e. F e \<Longrightarrow> yields (h e) P E"
  shows "yields (catch m h) P E"
proof (rule yieldsI)
  fix w v w' assume "catch m h w = (Inr v, w')"
  then show "P v"
    by (auto simp: catch_def split: prod.splits sum.splits
        dest: yieldsD [OF assms(1)] yieldsD_error [OF assms(1)] yieldsD [OF assms(2)])
next
  fix w e w' assume "catch m h w = (Inl e, w')"
  then show "E e"
    by (auto simp: catch_def split: prod.splits sum.splits
        dest: yieldsD_error [OF assms(1)] yieldsD_error [OF assms(2)])
qed

subsection \<open>The same rules with the account of steps\<close>

lemma specI:
  assumes "\<And>w v w'. m w = (Inr v, w') \<Longrightarrow> P v \<and> steps w' \<le> steps w + c"
    and "\<And>w e w'. m w = (Inl e, w') \<Longrightarrow>
      E e \<or> (e = ''DiffWorkLimit'' \<and> 0 < c \<and> maxSteps L < steps w + c)"
  shows "spec L c m P E"
  unfolding spec_def
proof (rule allI)
  fix w
  show "case m w of (Inl e, w') \<Rightarrow> E e \<or> e = ''DiffWorkLimit'' \<and> 0 < c \<and> maxSteps L < steps w + c
      | (Inr v, w') \<Rightarrow> P v \<and> steps w' \<le> steps w + c"
    using assms [of w] by (cases "m w") (auto split: sum.split)
qed

lemma specD: "spec L c m P E \<Longrightarrow> m w = (Inr v, w') \<Longrightarrow> P v \<and> steps w' \<le> steps w + c"
  unfolding spec_def by (drule allE [of _ w], assumption) simp_all

lemma specD_error: "spec L c m P E \<Longrightarrow> m w = (Inl e, w') \<Longrightarrow>
    E e \<or> (e = ''DiffWorkLimit'' \<and> 0 < c \<and> maxSteps L < steps w + c)"
  unfolding spec_def by (drule allE [of _ w], assumption) simp_all

lemma spec_ret [spec_rules]: "P v \<Longrightarrow> spec L c (ret v) P E"
  by (simp add: spec_def ret_def)

lemma spec_throw [spec_rules]: "E e \<Longrightarrow> spec L c (throw e) P E"
  by (simp add: spec_def throw_def)

lemma spec_seq:
  assumes "spec L c m Q E" and "\<And>v. Q v \<Longrightarrow> spec L d (f v) P E"
  shows "spec L (c + d) (seq m f) P E"
proof (rule specI)
  fix w v w'' assume "seq m f w = (Inr v, w'')"
  then obtain u w' where "m w = (Inr u, w')" "f u w' = (Inr v, w'')" by (blast dest: seq_Inr)
  then show "P v \<and> steps w'' \<le> steps w + (c + d)"
    using specD [OF assms(1)] specD [OF assms(2)] by fastforce
next
  fix w e w'' assume "seq m f w = (Inl e, w'')"
  then consider "m w = (Inl e, w'')" | u w' where "m w = (Inr u, w')" "f u w' = (Inl e, w'')"
    by (blast dest: seq_Inl)
  then show "E e \<or> e = ''DiffWorkLimit'' \<and> 0 < c + d \<and> maxSteps L < steps w + (c + d)"
  proof cases
    case 1
    then show ?thesis using specD_error [OF assms(1)] by fastforce
  next
    case 2
    then show ?thesis
      using specD [OF assms(1)] specD_error [OF assms(2)] by fastforce
  qed
qed

lemma spec_weaken:
  assumes "spec L d m Q F" "d \<le> c" "\<And>v. Q v \<Longrightarrow> P v" "\<And>e. F e \<Longrightarrow> E e"
  shows "spec L c m P E"
  by (rule specI) (use assms(2-) in \<open>fastforce dest: specD [OF assms(1)] specD_error [OF assms(1)]\<close>)+

text \<open>The form used in proofs: split an allowance between a computation and what follows it.\<close>

lemma spec_step:
  assumes "spec L c m Q E" and "c \<le> a" and "\<And>v. Q v \<Longrightarrow> spec L (a - c) (f v) P E"
  shows "spec L a (seq m f) P E"
  using spec_seq [OF assms(1,3)] assms(2) by simp

lemma spec_if [spec_rules]:
  "(b \<Longrightarrow> spec L c m P E) \<Longrightarrow> (\<not> b \<Longrightarrow> spec L c n P E) \<Longrightarrow> spec L c (if b then m else n) P E"
  by simp

lemma yields_of_spec: "spec L c m P E \<Longrightarrow> yields m P (\<lambda>e. E e \<or> e = ''DiffWorkLimit'')"
  by (rule yieldsI) (auto dest: specD specD_error)

lemma yields_of_free_spec: "spec L 0 m P E \<Longrightarrow> yields m P E"
  by (rule yieldsI) (auto dest: specD specD_error)

section \<open>The primitives\<close>

lemma check_run:
  "check L w = (Inr v, w') \<Longrightarrow> steps w' = steps w"
  "check L w = (Inl e, w') \<Longrightarrow> envFailure L e"
  by (auto simp: check_def seq_def tick_def observe_def envFailure_def
      split: option.splits if_splits prod.splits sum.splits)

lemma reserve_run:
  "reserve L n w = (Inr v, w') \<Longrightarrow> steps w' = steps w"
  "reserve L n w = (Inl e, w') \<Longrightarrow> envFailure L e"
  by (auto simp: reserve_def observe_def envFailure_def split: option.splits)

lemma spec_check: "(\<And>e. envFailure L e \<Longrightarrow> E e) \<Longrightarrow> spec L 0 (check L) (\<lambda>_. True) E"
  by (rule specI) (auto dest: check_run)

lemma spec_reserve: "(\<And>e. envFailure L e \<Longrightarrow> E e) \<Longrightarrow> spec L 0 (reserve L n) (\<lambda>_. True) E"
  by (rule specI) (auto dest: reserve_run)

lemma spec_countStep: "(\<And>e. envFailure L e \<Longrightarrow> E e) \<Longrightarrow> spec L 1 (countStep L) (\<lambda>_. True) E"
  by (rule specI) (auto simp: countStep_def Let_def split: if_splits dest: check_run)

lemma spec_repeatStep:
  "(\<And>e. envFailure L e \<Longrightarrow> E e) \<Longrightarrow> spec L n (repeatStep L n) (\<lambda>_. True) E"
proof (induction n)
  case (Suc n)
  then show ?case
    by (auto intro!: spec_step [OF spec_countStep])
qed (simp add: spec_ret)

lemma yields_check: "(\<And>e. envFailure L e \<Longrightarrow> E e) \<Longrightarrow> yields (check L) (\<lambda>_. True) E"
  by (rule yieldsI) (auto dest: check_run)

lemma yields_reserve: "(\<And>e. envFailure L e \<Longrightarrow> E e) \<Longrightarrow> yields (reserve L n) (\<lambda>_. True) E"
  by (rule yieldsI) (auto dest: reserve_run)

lemma yields_countStep:
  "(\<And>e. envFailure L e \<Longrightarrow> E e) \<Longrightarrow> E ''DiffWorkLimit'' \<Longrightarrow> yields (countStep L) (\<lambda>_. True) E"
  by (rule yieldsI) (auto simp: countStep_def Let_def split: if_splits dest: check_run)

lemma yields_repeatStep:
  "(\<And>e. envFailure L e \<Longrightarrow> E e) \<Longrightarrow> E ''DiffWorkLimit'' \<Longrightarrow> yields (repeatStep L n) (\<lambda>_. True) E"
  by (induction n) (auto intro!: yields_ret yields_seq [OF yields_countStep])

lemma yields_resetSteps: "yields resetSteps (\<lambda>_. True) E"
  by (rule yieldsI) (auto simp: resetSteps_def)

text \<open>After the counter has been reset, the limit is compared with the work of this run alone.\<close>

lemma fresh_of_spec:
  assumes "spec L c m P E"
  shows "yields (seq resetSteps (\<lambda>_. m)) P (\<lambda>e. E e \<or> (e = ''DiffWorkLimit'' \<and> maxSteps L < c))"
proof (rule yieldsI)
  fix w v w' assume "seq resetSteps (\<lambda>_. m) w = (Inr v, w')"
  then show "P v" using specD [OF assms] by (auto simp: seq_def resetSteps_def)
next
  fix w e w' assume "seq resetSteps (\<lambda>_. m) w = (Inl e, w')"
  then have "m (w\<lparr>steps := 0\<rparr>) = (Inl e, w')" by (simp add: seq_def resetSteps_def)
  from specD_error [OF assms this] show "E e \<or> (e = ''DiffWorkLimit'' \<and> maxSteps L < c)" by auto
qed

lemma yields_onlyIf:
  "(b \<Longrightarrow> yields m (\<lambda>_. True) E) \<Longrightarrow> yields (onlyIf b m) (\<lambda>_. True) E"
  by (simp add: onlyIf_def yields_ret)

lemma spec_onlyIf:
  "(b \<Longrightarrow> spec L c m (\<lambda>_. True) E) \<Longrightarrow> spec L c (onlyIf b m) (\<lambda>_. True) E"
  by (simp add: onlyIf_def spec_ret)

section \<open>Unsigned 64-bit arithmetic\<close>

text \<open>
  \<open>std::size_t\<close> and \<open>std::uint64_t\<close> are natural numbers below \<open>2 ^ 64\<close>; where a sum or a
  difference of the source can leave that range, the wrap-around is written out.
\<close>

abbreviation two64 :: nat where "two64 \<equiv> 18446744073709551616"

definition plus64 :: "nat \<Rightarrow> nat \<Rightarrow> nat" where
  "plus64 a b = (a + b) mod two64"

definition minus64 :: "nat \<Rightarrow> nat \<Rightarrow> nat" where
  "minus64 a b = (a + two64 - b) mod two64"

lemma plus64_exact [simp]: "a + b < two64 \<Longrightarrow> plus64 a b = a + b"
  by (simp add: plus64_def)

lemma minus64_exact [simp]: "b \<le> a \<Longrightarrow> a < two64 \<Longrightarrow> minus64 a b = a - b"
  unfolding minus64_def by (metis Nat.add_diff_assoc2 mod_add_self2 mod_less less_imp_diff_less)

section \<open>Running a computation\<close>

text \<open>The rules that evaluate a computation on a concrete state.\<close>

lemmas budget_run = seq_def ret_def throw_def catch_def onlyIf_def check_def tick_def observe_def
  reserve_def countStep_def resetSteps_def Let_def

lemma quiet_default: "quiet defaultBudget"
  by (simp add: quiet_def envFailure_def defaultBudget_def)

end
