(* ===== verification/Lines.thy ===== *)
theory Lines
  imports Prelude
begin

text \<open>
  The line index of \<open>HyperCompare/core/compare.cpp\<close>: \<open>scanLines\<close>, \<open>CountLines\<close> and
  \<open>SplitLines\<close>.  A line keeps its terminator (LF, CR or CRLF).  A \<open>string_view\<close> of the
  text is modelled by its characters; its position is the sum of the lengths of the
  lines before it (\<open>lineOffset\<close>).  The reference \<open>splitText\<close> says what the index is
  without limits, checks or loop state; the scanner returns exactly it, or names the
  limit that the text exceeds.
\<close>

section \<open>The scanner\<close>

text \<open>The lambda \<open>emit\<close>, with the line it cuts out of the text.\<close>

definition emitLine :: "nat \<Rightarrow> str \<Rightarrow> str list \<Rightarrow> str list comp" where
  "emitLine maxLines line out =
    (if length out = maxLines then throw ''LineLimit'' else ret (out @ [line]))"

text \<open>
  The body of the \<open>for\<close> loop: \<open>i\<close> is the index of the next character, \<open>nc\<close> is \<open>nextCheck\<close>,
  \<open>cur\<close> the characters since \<open>start\<close>, \<open>out\<close> the lines emitted so far (\<open>count\<close> is its length).
\<close>

fun scanLoop :: "budget \<Rightarrow> nat \<Rightarrow> nat \<Rightarrow> str \<Rightarrow> nat \<Rightarrow> nat \<Rightarrow> str \<Rightarrow> str list \<Rightarrow> (str \<times> str list) comp" where
  "scanLoop L maxLines maxBytes [] i nc cur out = ret (cur, out)"
| "scanLoop L maxLines maxBytes (c # cs) i nc cur out =
    seq (onlyIf (nc \<le> i) (check L)) (\<lambda>_.
      let nc' = (if nc \<le> i then i + 4096 else nc);
          isEnd = (c = LF \<or> c = CR);
          pair = (c = CR \<and> cs \<noteq> [] \<and> hd cs = LF);
          cur' = cur @ (if pair then [c, hd cs] else [c]);
          i' = (if pair then i + 1 else i);
          rest = (if pair then tl cs else cs)
      in if maxBytes < length cur' then throw ''LongLineLimit''
         else if isEnd then
           seq (emitLine maxLines cur' out) (\<lambda>out'.
             scanLoop L maxLines maxBytes rest (i' + 1) nc' [] out')
         else scanLoop L maxLines maxBytes rest (i' + 1) nc' cur' out)"

definition scanLines :: "str \<Rightarrow> budget \<Rightarrow> nat \<Rightarrow> nat \<Rightarrow> str list comp" where
  "scanLines t L maxLines maxBytes =
    seq (check L) (\<lambda>_.
    seq (scanLoop L maxLines maxBytes t 0 0 [] []) (\<lambda>(cur, out).
    seq (if cur = [] then ret out else emitLine maxLines cur out) (\<lambda>lines.
    seq (check L) (\<lambda>_. ret lines))))"

definition CountLines :: "str \<Rightarrow> budget \<Rightarrow> nat \<Rightarrow> nat \<Rightarrow> nat comp" where
  "CountLines t L maxLines maxBytes =
    seq (scanLines t L maxLines maxBytes) (\<lambda>lines. ret (length lines))"

definition SplitLines :: "str \<Rightarrow> budget \<Rightarrow> nat \<Rightarrow> nat \<Rightarrow> str list comp" where
  "SplitLines t L maxLines maxBytes =
    seq (CountLines t L maxLines maxBytes) (\<lambda>_. scanLines t L maxLines maxBytes)"

text \<open>The default arguments of both functions: two million lines of any length a \<open>size_t\<close> holds.\<close>

definition defaultMaxLines :: nat where
  "defaultMaxLines = 2000000"

definition defaultMaxBytes :: nat where
  "defaultMaxBytes = 2 ^ 64 - 1"

section \<open>The reference line index\<close>

fun splitText :: "str \<Rightarrow> str list" where
  "splitText [] = []"
| "splitText (c # cs) =
    (if c = CR \<and> cs \<noteq> [] \<and> hd cs = LF then [c, hd cs] # splitText (tl cs)
     else if c = LF \<or> c = CR then [c] # splitText cs
     else (case splitText cs of [] \<Rightarrow> [[c]] | l # ls \<Rightarrow> (c # l) # ls))"

text \<open>The characters \<open>cur\<close> of an unfinished line, followed by the rest of the text.\<close>

definition glue :: "str \<Rightarrow> str list \<Rightarrow> str list" where
  "glue cur ls = (if cur = [] then ls else case ls of [] \<Rightarrow> [cur] | l # r \<Rightarrow> (cur @ l) # r)"

definition lineOffset :: "str list \<Rightarrow> nat \<Rightarrow> nat" where
  "lineOffset ls i = length (concat (take i ls))"

lemma glue_Nil [simp]: "glue [] ls = ls"
  by (simp add: glue_def)

lemma glue_one: "cur \<noteq> [] \<Longrightarrow> glue cur [] = [cur]"
  by (simp add: glue_def)

lemma glue_Cons: "glue cur (l # ls) = (cur @ l) # ls"
  by (simp add: glue_def)

lemma splitText_other:
  "c \<noteq> LF \<Longrightarrow> c \<noteq> CR \<Longrightarrow> splitText (c # cs) = glue [c] (splitText cs)"
  by (simp add: glue_def split: list.split)

lemma glue_glue: "glue cur (glue [c] ls) = glue (cur @ [c]) ls"
  by (auto simp: glue_def split: list.splits)

lemma concat_splitText [simp]: "concat (splitText t) = t"
  by (induction t rule: splitText.induct) (auto split: list.splits simp: neq_Nil_conv)

lemma splitText_nonempty: "[] \<notin> set (splitText t)"
  by (induction t rule: splitText.induct) (auto split: list.splits)

lemma splitText_Nil_iff [simp]: "splitText t = [] \<longleftrightarrow> t = []"
  using concat_splitText [of t] by (cases t) (auto split: list.splits)

lemma splitText_inject: "splitText s = splitText t \<longleftrightarrow> s = t"
  by (metis concat_splitText)

lemma sum_list_splitText: "sum_list (map length (splitText t)) = length t"
  by (simp flip: length_concat)

lemma length_splitText: "length (splitText t) \<le> length t"
  by (induction t rule: splitText.induct) (auto split: list.splits)

subsection \<open>The shape of a line\<close>

text \<open>A body without terminators, closed by LF, CRLF or CR.\<close>

definition closedLine :: "str \<Rightarrow> bool" where
  "closedLine l \<longleftrightarrow> (\<exists>body. LF \<notin> set body \<and> CR \<notin> set body \<and>
     (l = body @ [LF] \<or> l = body @ [CR, LF] \<or> l = body @ [CR]))"

definition openLine :: "str \<Rightarrow> bool" where
  "openLine l \<longleftrightarrow> l \<noteq> [] \<and> LF \<notin> set l \<and> CR \<notin> set l"

text \<open>
  Every line is closed, except that the last one may be open (no final terminator), and a
  lone CR is never followed by a line that starts with LF (the two would be one CRLF).
\<close>

fun lineShape :: "str list \<Rightarrow> bool" where
  "lineShape [] = True"
| "lineShape [l] = (closedLine l \<or> openLine l)"
| "lineShape (l # m # ls) = (closedLine l \<and> (last l = CR \<longrightarrow> hd m \<noteq> LF) \<and> lineShape (m # ls))"

lemma closedLine_base:
  "closedLine [LF]" "closedLine [CR]" "closedLine [CR, LF]"
  by (auto simp: closedLine_def intro: exI [of _ "[]"])

lemma closedLine_Cons:
  assumes "closedLine l" "c \<noteq> LF" "c \<noteq> CR"
  shows "closedLine (c # l)"
proof -
  obtain b where "LF \<notin> set b" "CR \<notin> set b" "l = b @ [LF] \<or> l = b @ [CR, LF] \<or> l = b @ [CR]"
    using assms(1) by (auto simp: closedLine_def)
  then show ?thesis using assms(2,3) unfolding closedLine_def
    by (intro exI [of _ "c # b"]) auto
qed

lemma closedLine_ne: "closedLine l \<Longrightarrow> l \<noteq> []"
  by (auto simp: closedLine_def)

lemma lineShape_Cons:
  "closedLine l \<Longrightarrow> (ls \<noteq> [] \<Longrightarrow> last l = CR \<Longrightarrow> hd (hd ls) \<noteq> LF) \<Longrightarrow> lineShape ls \<Longrightarrow> lineShape (l # ls)"
  by (cases ls) auto

lemma lineShape_extend:
  "lineShape (l # ls) \<Longrightarrow> c \<noteq> LF \<Longrightarrow> c \<noteq> CR \<Longrightarrow> lineShape ((c # l) # ls)"
  by (cases ls) (auto intro: closedLine_Cons simp: openLine_def dest: closedLine_ne)

lemma hd_hd_splitText: "t \<noteq> [] \<Longrightarrow> hd (hd (splitText t)) = hd t"
  by (cases t) (auto split: list.splits)

lemma lineShape_splitText: "lineShape (splitText t)"
proof (induction t rule: splitText.induct)
  case (2 c cs)
  consider (pair) "c = CR" "cs \<noteq> []" "hd cs = LF"
    | (one) "c = LF \<or> c = CR" "\<not> (c = CR \<and> cs \<noteq> [] \<and> hd cs = LF)"
    | (other) "c \<noteq> LF" "c \<noteq> CR" by blast
  then show ?case
  proof cases
    case pair
    then show ?thesis using 2 by (auto intro: lineShape_Cons closedLine_base)
  next
    case one
    then show ?thesis using 2 by (auto intro!: lineShape_Cons closedLine_base simp: hd_hd_splitText)
  next
    case other
    then have IH: "lineShape (splitText cs)" using 2 by blast
    then show ?thesis using other
      by (auto simp: openLine_def intro: lineShape_extend split: list.splits)
  qed
qed simp

text \<open>A list of lines of that shape is the index of its concatenation.\<close>

lemma splitText_append_open:
  "LF \<notin> set b \<Longrightarrow> CR \<notin> set b \<Longrightarrow> splitText (b @ t) = glue b (splitText t)"
proof (induction b)
  case (Cons c b)
  then have "splitText ((c # b) @ t) = glue [c] (glue b (splitText t))"
    by (auto simp: splitText_other simp del: splitText.simps)
  also have "\<dots> = glue (c # b) (splitText t)"
    by (auto simp: glue_def split: list.splits)
  finally show ?case .
qed simp

lemma splitText_closed:
  assumes "closedLine l" "last l = CR \<Longrightarrow> t = [] \<or> hd t \<noteq> LF"
  shows "splitText (l @ t) = l # splitText t"
proof -
  obtain b where b: "LF \<notin> set b" "CR \<notin> set b" "l = b @ [LF] \<or> l = b @ [CR, LF] \<or> l = b @ [CR]"
    using assms(1) by (auto simp: closedLine_def)
  have *: "splitText (b @ e @ t) = glue b (splitText (e @ t))" for e
    by (rule splitText_append_open) (use b in auto)
  from b(3) show ?thesis
    by (elim disjE) (use * [of "[LF]"] * [of "[CR, LF]"] * [of "[CR]"] assms(2) in
      \<open>auto simp: glue_Cons\<close>)
qed

lemma splitText_open: "openLine l \<Longrightarrow> splitText l = [l]"
  using splitText_append_open [of l "[]"] by (auto simp: openLine_def glue_def)

lemma lineShape_nonempty: "lineShape ls \<Longrightarrow> [] \<notin> set ls"
  by (induction ls rule: lineShape.induct) (auto simp: openLine_def dest: closedLine_ne)

lemma splitText_concat: "lineShape ls \<Longrightarrow> splitText (concat ls) = ls"
proof (induction ls rule: lineShape.induct)
  case (2 l)
  then show ?case using splitText_closed [of l "[]"] by (auto intro: splitText_open)
next
  case (3 l m ls)
  then have m: "m \<noteq> []" "hd (concat (m # ls)) = hd m"
    using lineShape_nonempty [of "m # ls"] by auto
  have "splitText (l @ concat (m # ls)) = l # splitText (concat (m # ls))"
    by (rule splitText_closed) (use 3 m in auto)
  with 3 show ?case by simp
qed simp

section \<open>The scanner computes the reference index\<close>

text \<open>The two limits, as conditions on the text.\<close>

definition withinLimits :: "nat \<Rightarrow> nat \<Rightarrow> str list \<Rightarrow> bool" where
  "withinLimits maxLines maxBytes ls \<longleftrightarrow> length ls \<le> maxLines \<and> (\<forall>l \<in> set ls. length l \<le> maxBytes)"

definition limitFailure :: "nat \<Rightarrow> nat \<Rightarrow> str list \<Rightarrow> failure \<Rightarrow> bool" where
  "limitFailure maxLines maxBytes ls e \<longleftrightarrow>
     (e = ''LineLimit'' \<and> maxLines < length ls)
   \<or> (e = ''LongLineLimit'' \<and> (\<exists>l \<in> set ls. maxBytes < length l))"

lemma glue_long:
  "maxBytes < length cur \<Longrightarrow> \<exists>l \<in> set (glue cur ls). maxBytes < length l"
  by (cases ls) (auto simp: glue_def)

definition scanError :: "budget \<Rightarrow> nat \<Rightarrow> nat \<Rightarrow> str list \<Rightarrow> failure \<Rightarrow> bool" where
  "scanError L maxLines maxBytes ls e \<longleftrightarrow> envFailure L e \<or> limitFailure maxLines maxBytes ls e"

lemma scanError_env: "envFailure L e \<Longrightarrow> scanError L maxLines maxBytes ls e"
  by (simp add: scanError_def)

lemma scan_check: "spec L 0 (onlyIf b (check L)) (\<lambda>_. True) (scanError L maxLines maxBytes ls)"
  by (intro spec_onlyIf spec_check scanError_env)

lemma splitText_pair: "c = CR \<and> cs \<noteq> [] \<and> hd cs = LF \<Longrightarrow>
    splitText (c # cs) = [c, hd cs] # splitText (tl cs)"
  by simp

lemma splitText_single: "c = LF \<or> c = CR \<Longrightarrow> \<not> (c = CR \<and> cs \<noteq> [] \<and> hd cs = LF) \<Longrightarrow>
    splitText (c # cs) = [c] # splitText cs"
  by auto

declare splitText.simps(2) [simp del]

lemma scanLoop_spec:
  assumes "length out \<le> maxLines" "\<forall>l \<in> set out. length l \<le> maxBytes" "length cur \<le> maxBytes"
  shows "spec L 0 (scanLoop L maxLines maxBytes rest i nc cur out)
    (\<lambda>(cur', out'). out' @ glue cur' [] = out @ glue cur (splitText rest) \<and> length out' \<le> maxLines
       \<and> (\<forall>l \<in> set out'. length l \<le> maxBytes) \<and> length cur' \<le> maxBytes)
    (scanError L maxLines maxBytes (out @ glue cur (splitText rest)))"
  using assms
proof (induction L maxLines maxBytes rest i nc cur out rule: scanLoop.induct)
  case (1 L maxLines maxBytes i nc cur out)
  then show ?case by (simp add: spec_ret)
next
  case (2 L maxLines maxBytes c cs i nc cur out)
  let ?T = "out @ glue cur (splitText (c # cs))"
  define pair where "pair = (c = CR \<and> cs \<noteq> [] \<and> hd cs = LF)"
  define isEnd where "isEnd = (c = LF \<or> c = CR)"
  define cur' where "cur' = cur @ (if pair then [c, hd cs] else [c])"
  define rest where "rest = (if pair then tl cs else cs)"
  have closed: "isEnd \<Longrightarrow> ?T = (out @ [cur']) @ splitText rest"
    by (cases pair) (auto simp: isEnd_def pair_def cur'_def rest_def splitText_pair splitText_single glue_Cons)
  have opened: "\<not> isEnd \<Longrightarrow> ?T = out @ glue cur' (splitText rest)"
    by (auto simp: isEnd_def pair_def cur'_def rest_def splitText_other glue_glue)
  have long: "maxBytes < length cur' \<Longrightarrow> scanError L maxLines maxBytes ?T ''LongLineLimit''"
    unfolding scanError_def limitFailure_def
    by (cases isEnd) (use closed opened glue_long [of maxBytes cur' "splitText rest"] in auto)
  have many: "isEnd \<Longrightarrow> length out = maxLines \<Longrightarrow> scanError L maxLines maxBytes ?T ''LineLimit''"
    using closed by (simp add: scanError_def limitFailure_def)
  let ?P = "\<lambda>(d, o'). o' @ glue d [] = ?T \<and> length o' \<le> maxLines
      \<and> (\<forall>l \<in> set o'. length l \<le> maxBytes) \<and> length d \<le> maxBytes"
  note IH = 2(1,2) [OF refl refl refl refl refl refl, folded pair_def isEnd_def cur'_def rest_def]
  have emit: "isEnd \<Longrightarrow> spec L 0 (emitLine maxLines cur' out)
      (\<lambda>o'. o' = out @ [cur'] \<and> length out < maxLines) (scanError L maxLines maxBytes ?T)"
    using many 2(3) by (auto simp: emitLine_def intro!: spec_ret spec_throw)
  have next_line: "isEnd \<Longrightarrow> length out < maxLines \<Longrightarrow> \<not> maxBytes < length cur' \<Longrightarrow>
      spec L 0 (scanLoop L maxLines maxBytes rest ((if pair then i + 1 else i) + 1)
        (if nc \<le> i then i + 4096 else nc) [] (out @ [cur'])) ?P (scanError L maxLines maxBytes ?T)"
    using IH(1) [of "out @ [cur']"] 2(3-5) closed by (auto simp: less_Suc_eq_le)
  have same_line: "\<not> isEnd \<Longrightarrow> \<not> maxBytes < length cur' \<Longrightarrow>
      spec L 0 (scanLoop L maxLines maxBytes rest ((if pair then i + 1 else i) + 1)
        (if nc \<le> i then i + 4096 else nc) cur' out) ?P (scanError L maxLines maxBytes ?T)"
    using IH(2) 2(3-5) opened by auto
  show ?case
    unfolding scanLoop.simps Let_def pair_def [symmetric] isEnd_def [symmetric]
      cur'_def [symmetric] rest_def [symmetric]
    using long next_line same_line
    by (auto intro!: spec_step [OF scan_check] spec_step [OF emit] spec_throw)
qed

lemma scanLines_spec:
  "spec L 0 (scanLines t L maxLines maxBytes)
    (\<lambda>ls. ls = splitText t \<and> withinLimits maxLines maxBytes ls)
    (scanError L maxLines maxBytes (splitText t))"
proof -
  have loop: "spec L 0 (scanLoop L maxLines maxBytes t 0 0 [] [])
    (\<lambda>(cur, out). out @ glue cur [] = splitText t \<and> length out \<le> maxLines
       \<and> (\<forall>l \<in> set out. length l \<le> maxBytes) \<and> length cur \<le> maxBytes)
    (scanError L maxLines maxBytes (splitText t))"
    using scanLoop_spec [of "[]" maxLines maxBytes "[]" L t 0 0] by simp
  have last: "spec L 0 (if cur = [] then ret out else emitLine maxLines cur out)
    (\<lambda>ls. ls = splitText t \<and> withinLimits maxLines maxBytes ls)
    (scanError L maxLines maxBytes (splitText t))"
    if "out @ glue cur [] = splitText t" "length out \<le> maxLines"
      "\<forall>l \<in> set out. length l \<le> maxBytes" "length cur \<le> maxBytes" for cur out
    using that by (auto simp: withinLimits_def scanError_def limitFailure_def glue_one emitLine_def
        simp flip: that(1) intro!: spec_ret spec_throw)
  show ?thesis unfolding scanLines_def
    by (auto intro!: spec_step [OF spec_check] spec_step [OF loop]
        spec_step [OF last] spec_ret intro: scanError_env split del: if_split)
qed

lemma CountLines_spec:
  "spec L 0 (CountLines t L maxLines maxBytes)
    (\<lambda>n. n = length (splitText t) \<and> withinLimits maxLines maxBytes (splitText t))
    (scanError L maxLines maxBytes (splitText t))"
  unfolding CountLines_def by (rule spec_step [OF scanLines_spec] spec_ret | auto)+

lemma SplitLines_spec:
  "spec L 0 (SplitLines t L maxLines maxBytes)
    (\<lambda>ls. ls = splitText t \<and> withinLimits maxLines maxBytes ls)
    (scanError L maxLines maxBytes (splitText t))"
  unfolding SplitLines_def by (rule spec_step [OF CountLines_spec] | simp add: scanLines_spec)+

lemmas CountLines_yields = CountLines_spec [THEN yields_of_spec]
lemmas SplitLines_yields = SplitLines_spec [THEN yields_of_spec]

lemma quiet_no_failure: "quiet L \<Longrightarrow> \<not> envFailure L e"
  by (simp add: quiet_def)

lemma scanError_not_work_limit: "\<not> limitFailure maxLines maxBytes ls ''DiffWorkLimit''"
  by (simp add: limitFailure_def)

section \<open>Properties\<close>

text \<open>C5: \<open>SplitLines\<close> either returns exactly the lines of the text, and then both limits hold,
  or it fails with a failure of the environment or with the name of a limit that the text
  really exceeds; it never drops, merges or invents a line.\<close>

theorem SplitLines_exact:
  "case fst (SplitLines t L maxLines maxBytes w) of
     Inr ls \<Rightarrow> ls = splitText t \<and> withinLimits maxLines maxBytes ls
   | Inl e \<Rightarrow> envFailure L e \<or> limitFailure maxLines maxBytes (splitText t) e"
proof (cases "SplitLines t L maxLines maxBytes w")
  case (Pair r w')
  show ?thesis
  proof (cases r)
    case (Inl e)
    then have "scanError L maxLines maxBytes (splitText t) e
        \<or> e = ''DiffWorkLimit'' \<and> (0::nat) < 0 \<and> maxSteps L < steps w + 0"
      using specD_error [OF SplitLines_spec] Pair by blast
    then show ?thesis using Pair Inl by (auto simp: scanError_def)
  next
    case (Inr ls)
    then show ?thesis using specD [OF SplitLines_spec] Pair by auto
  qed
qed

end
