(* ===== verification/CommonSubsequence.thy ===== *)
theory CommonSubsequence
  imports Main "HOL-Library.Sublist"
begin

text \<open>
  The reference for every difference engine of the program: the length of a longest
  common subsequence (\<open>lcs\<close>), and the edit graph (\<open>reach\<close>), in which a path from the
  origin to (x, y) with d horizontal or vertical moves is a way to turn the first x
  elements of one list into the first y of the other with d insertions and deletions.
  The shortest such way keeps exactly \<open>lcs\<close> elements (\<open>reach_cost_lower\<close>, \<open>reach_lcs\<close>).
\<close>

section \<open>Slices\<close>

definition slice :: "'a list \<Rightarrow> nat \<Rightarrow> nat \<Rightarrow> 'a list" where
  "slice xs a b = take (b - a) (drop a xs)"

lemma length_slice [simp]: "b \<le> length xs \<Longrightarrow> length (slice xs a b) = b - a"
  by (simp add: slice_def)

lemma slice_same [simp]: "slice xs a a = []"
  by (simp add: slice_def)

lemma slice_full [simp]: "slice xs 0 (length xs) = xs"
  by (simp add: slice_def)

lemma slice_nth: "i < b - a \<Longrightarrow> b \<le> length xs \<Longrightarrow> slice xs a b ! i = xs ! (a + i)"
  by (simp add: slice_def)

lemma slice_append:
  assumes "a \<le> b" "b \<le> c"
  shows "slice xs a b @ slice xs b c = slice xs a c"
proof -
  have "take (b - a) (drop a xs) @ take (c - b) (drop (b - a) (drop a xs))
      = take ((b - a) + (c - b)) (drop a xs)" by (rule take_add [symmetric])
  then show ?thesis using assms by (simp add: slice_def)
qed

lemma slice_drop: "slice xs a (length xs) = drop a xs"
  by (simp add: slice_def)

lemma slice_snoc: "a \<le> b \<Longrightarrow> b < length xs \<Longrightarrow> slice xs a (Suc b) = slice xs a b @ [xs ! b]"
  by (simp add: slice_def take_Suc_conv_app_nth Suc_diff_le)

lemma slice_Cons: "a < b \<Longrightarrow> b \<le> length xs \<Longrightarrow> slice xs a b = xs ! a # slice xs (Suc a) b"
  by (simp add: slice_def Cons_nth_drop_Suc [symmetric] take_Cons' Suc_diff_Suc)

lemma slice_take_drop: "slice xs a b = drop a (take b xs)"
  by (simp add: slice_def drop_take)

section \<open>Longest common subsequences\<close>

fun lcs :: "'a list \<Rightarrow> 'a list \<Rightarrow> nat" where
  "lcs [] ys = 0"
| "lcs xs [] = 0"
| "lcs (x # xs) (y # ys) =
    (if x = y then Suc (lcs xs ys) else max (lcs xs (y # ys)) (lcs (x # xs) ys))"

lemma lcs_Nil [simp]: "lcs xs [] = 0"
  by (cases xs) auto

lemma lcs_attained: "\<exists>zs. subseq zs xs \<and> subseq zs ys \<and> length zs = lcs xs ys"
proof (induction xs ys rule: lcs.induct)
  case (3 x xs y ys)
  show ?case
  proof (cases "x = y")
    case True
    then obtain zs where "subseq zs xs" "subseq zs ys" "length zs = lcs xs ys" using 3 by blast
    then show ?thesis using True by (intro exI [of _ "x # zs"]) auto
  next
    case False
    then obtain us vs where
      "subseq us xs" "subseq us (y # ys)" "length us = lcs xs (y # ys)"
      "subseq vs (x # xs)" "subseq vs ys" "length vs = lcs (x # xs) ys" using 3 by blast
    then show ?thesis using False
      by (cases "lcs (x # xs) ys \<le> lcs xs (y # ys)") (auto simp: max_def)
  qed
qed auto

lemma lcs_upper: "subseq zs xs \<Longrightarrow> subseq zs ys \<Longrightarrow> length zs \<le> lcs xs ys"
proof (induction xs ys arbitrary: zs rule: lcs.induct)
  case (3 x xs y ys)
  show ?case
  proof (cases zs)
    case (Cons z zs')
    show ?thesis
    proof (cases "x = y")
      case True
      have "subseq zs' xs" "subseq zs' ys"
        using 3(4,5) Cons by (auto split: if_splits dest: subseq_Cons')
      then show ?thesis using 3(1) True Cons by force
    next
      case False
      then have "subseq zs xs \<or> subseq zs ys" using 3(4,5) Cons by (auto split: if_splits)
      then show ?thesis using 3(2,3) 3(4,5) False by (fastforce simp: le_max_iff_disj)
    qed
  qed simp
qed auto

lemma lcs_eqI:
  assumes "subseq zs xs" "subseq zs ys" "length zs = n"
    and "\<And>us. subseq us xs \<Longrightarrow> subseq us ys \<Longrightarrow> length us \<le> n"
  shows "lcs xs ys = n"
  using lcs_upper [OF assms(1,2)] lcs_attained [of xs ys] assms(3,4) by force

lemma subseq_revI: "subseq xs ys \<Longrightarrow> subseq (rev xs) (rev ys)"
  by (induction rule: list_emb.induct) (auto intro: list_emb_append_mono list_emb_append2 subseq_rev_drop_many)

lemma lcs_rev: "lcs (rev xs) (rev ys) = lcs xs ys"
proof -
  have le: "lcs us vs \<le> lcs (rev us) (rev vs)" for us vs :: "'a list"
  proof -
    obtain zs where "subseq zs us" "subseq zs vs" "length zs = lcs us vs"
      using lcs_attained by blast
    then show ?thesis using lcs_upper [of "rev zs" "rev us" "rev vs"] by (simp add: subseq_revI)
  qed
  show ?thesis using le [of xs ys] le [of "rev xs" "rev ys"] by simp
qed

lemma lcs_prefix: "lcs (ps @ xs) (ps @ ys) = length ps + lcs xs ys"
  by (induction ps) auto

lemma lcs_suffix: "lcs (xs @ ss) (ys @ ss) = length ss + lcs xs ys"
  using lcs_prefix [of "rev ss" "rev xs" "rev ys"] lcs_rev [of "xs @ ss" "ys @ ss"] lcs_rev [of xs ys]
  by simp

lemma lcs_le_length: "lcs xs ys \<le> length xs" "lcs xs ys \<le> length ys"
  using lcs_attained [of xs ys] list_emb_length by fastforce+

lemma lcs_mono: "subseq xs xs' \<Longrightarrow> subseq ys ys' \<Longrightarrow> lcs xs ys \<le> lcs xs' ys'"
  by (metis lcs_attained lcs_upper subseq_order.trans)

lemma lcs_sym: "lcs xs ys = lcs ys xs"
  by (metis lcs_attained lcs_upper antisym)

lemma lcs_disjoint: "set xs \<inter> set ys = {} \<Longrightarrow> lcs xs ys = 0"
  by (induction xs ys rule: lcs.induct) auto

section \<open>The edit graph\<close>

inductive reach :: "'a list \<Rightarrow> 'a list \<Rightarrow> nat \<Rightarrow> nat \<Rightarrow> nat \<Rightarrow> bool" for A B where
  origin: "reach A B 0 0 0"
| keep: "reach A B d x y \<Longrightarrow> x < length A \<Longrightarrow> y < length B \<Longrightarrow> A ! x = B ! y \<Longrightarrow> reach A B d (Suc x) (Suc y)"
| delete: "reach A B d x y \<Longrightarrow> x < length A \<Longrightarrow> reach A B (Suc d) (Suc x) y"
| insert: "reach A B d x y \<Longrightarrow> y < length B \<Longrightarrow> reach A B (Suc d) x (Suc y)"

lemma reach_bounds: "reach A B d x y \<Longrightarrow> x \<le> length A \<and> y \<le> length B"
  by (induction rule: reach.induct) auto

lemma reach_subseq:
  "reach A B d x y \<Longrightarrow> \<exists>zs. subseq zs (take x A) \<and> subseq zs (take y B) \<and> x + y = d + 2 * length zs"
proof (induction rule: reach.induct)
  case (keep d x y)
  then obtain zs where zs: "subseq zs (take x A)" "subseq zs (take y B)" "x + y = d + 2 * length zs"
    by blast
  have "subseq (zs @ [A ! x]) (take (Suc x) A)" "subseq (zs @ [A ! x]) (take (Suc y) B)"
    using zs keep by (auto simp: take_Suc_conv_app_nth)
  then show ?case using zs(3) by (intro exI [of _ "zs @ [A ! x]"]) auto
next
  case (delete d x y)
  then obtain zs where "subseq zs (take x A)" "subseq zs (take y B)" "x + y = d + 2 * length zs"
    by blast
  then show ?case using delete.hyps
    by (intro exI [of _ zs]) (auto simp: take_Suc_conv_app_nth intro: subseq_rev_drop_many)
next
  case (insert d x y)
  then obtain zs where "subseq zs (take x A)" "subseq zs (take y B)" "x + y = d + 2 * length zs"
    by blast
  then show ?case using insert.hyps
    by (intro exI [of _ zs]) (auto simp: take_Suc_conv_app_nth intro: subseq_rev_drop_many)
qed auto

text \<open>No path is shorter than what the longest common subsequence allows \<dots>\<close>

lemma reach_cost_lower: "reach A B d (length A) (length B) \<Longrightarrow> length A + length B \<le> d + 2 * lcs A B"
  using reach_subseq [of A B d "length A" "length B"] lcs_upper by fastforce

text \<open>\<open>\<dots>\<close> and some path has exactly that length.\<close>

lemma reach_shift_delete: "reach A B d x y \<Longrightarrow> reach (a # A) B (Suc d) (Suc x) y"
proof (induction rule: reach.induct)
  case origin
  then show ?case using reach.delete [OF reach.origin, of "a # A" B] by simp
qed (auto intro: reach.intros)

lemma reach_shift_insert: "reach A B d x y \<Longrightarrow> reach A (b # B) (Suc d) x (Suc y)"
proof (induction rule: reach.induct)
  case origin
  then show ?case using reach.insert [OF reach.origin, of "b # B" A] by simp
qed (auto intro: reach.intros)

lemma reach_shift_keep: "reach A B d x y \<Longrightarrow> reach (a # A) (a # B) d (Suc x) (Suc y)"
proof (induction rule: reach.induct)
  case origin
  then show ?case using reach.keep [OF reach.origin, of "a # A" "a # B"] by simp
qed (auto intro: reach.intros)

lemma reach_all_insert: "reach [] B (length B) 0 (length B)"
  by (induction B) (auto intro: reach.origin reach_shift_insert)

lemma reach_all_delete: "reach A [] (length A) (length A) 0"
  by (induction A) (auto intro: reach.origin reach_shift_delete)

lemma reach_lcs: "reach A B (length A + length B - 2 * lcs A B) (length A) (length B)"
proof (induction A B rule: lcs.induct)
  case (3 x xs y ys)
  have le: "lcs xs (y # ys) \<le> length xs" "lcs (x # xs) ys \<le> length ys"
    "lcs xs (y # ys) \<le> Suc (length ys)" "lcs (x # xs) ys \<le> Suc (length xs)"
    using lcs_le_length [of xs "y # ys"] lcs_le_length [of "x # xs" ys] by auto
  show ?case
  proof (cases "x = y")
    case True
    then show ?thesis using reach_shift_keep [OF 3(1)] by simp
  next
    case False
    show ?thesis
    proof (cases "lcs xs (y # ys) \<ge> lcs (x # xs) ys")
      case True
      have "Suc (length xs + length (y # ys) - 2 * lcs xs (y # ys))
          = length (x # xs) + length (y # ys) - 2 * lcs (x # xs) (y # ys)"
        using True False le by simp
      then show ?thesis using reach_shift_delete [OF 3(2)] False by (metis length_Cons)
    next
      case notle: False
      have "Suc (length (x # xs) + length ys - 2 * lcs (x # xs) ys)
          = length (x # xs) + length (y # ys) - 2 * lcs (x # xs) (y # ys)"
        using notle False le by simp
      then show ?thesis using reach_shift_insert [OF 3(3)] False by (metis length_Cons)
    qed
  qed
qed (auto simp: reach_all_insert reach_all_delete [of "x # xs" for x xs, simplified])

section \<open>Matchings\<close>

text \<open>A common subsequence as the positions it is found at, in both lists.\<close>

definition matching :: "'a list \<Rightarrow> 'a list \<Rightarrow> (nat \<times> nat) list \<Rightarrow> bool" where
  "matching A B ps \<longleftrightarrow> sorted_wrt (\<lambda>p q. fst p < fst q \<and> snd p < snd q) ps
     \<and> (\<forall>p \<in> set ps. fst p < length A \<and> snd p < length B \<and> A ! fst p = B ! snd p)"

lemma reach_matching:
  "reach A B d x y \<Longrightarrow> \<exists>ps. x + y = d + 2 * length ps \<and> matching A B ps \<and> (\<forall>p \<in> set ps. fst p < x \<and> snd p < y)"
proof (induction rule: reach.induct)
  case (keep d x y)
  then obtain ps where "x + y = d + 2 * length ps" "matching A B ps" "\<forall>p \<in> set ps. fst p < x \<and> snd p < y"
    by blast
  then show ?case using keep.hyps
    by (intro exI [of _ "ps @ [(x, y)]"]) (auto simp: matching_def sorted_wrt_append)
next
  case (delete d x y)
  then obtain ps where "x + y = d + 2 * length ps" "matching A B ps" "\<forall>p \<in> set ps. fst p < x \<and> snd p < y"
    by blast
  then show ?case by (intro exI [of _ ps]) auto
next
  case (insert d x y)
  then obtain ps where "x + y = d + 2 * length ps" "matching A B ps" "\<forall>p \<in> set ps. fst p < x \<and> snd p < y"
    by blast
  then show ?case by (intro exI [of _ ps]) auto
qed (auto simp: matching_def)

lemma lcs_matching: "\<exists>ps. matching A B ps \<and> length ps = lcs A B"
proof -
  have "2 * lcs A B \<le> length A + length B" using lcs_le_length [of A B] by linarith
  then show ?thesis using reach_matching [OF reach_lcs [of A B]] by fastforce
qed

end
