(* ===== verification/EditScript.thy ===== *)
theory EditScript
  imports Lines CommonSubsequence
begin

text \<open>
  Edit scripts: \<open>struct Edit\<close> of \<open>compare.hpp\<close>, \<open>append\<close> and \<open>Apply\<close> of \<open>compare.cpp\<close>,
  and what a script means.  \<open>script l r a b es\<close> says that the edits, in order, turn the
  lines of \<open>l\<close> from position \<open>a\<close> into the lines of \<open>r\<close> from position \<open>b\<close>: between two
  edits the lines are equal.  \<open>diffOf\<close> adds what the difference engines promise their
  clients: two edits are separated by at least one kept line, and an edit carries the
  text of the lines it inserts.  The locale \<open>differ\<close> is that promise as an interface.
\<close>

section \<open>Edits\<close>

record edit =
  eBegin :: nat
  eEnd :: nat
  oBegin :: nat
  oEnd :: nat
  replacement :: str

definition mkEdit :: "nat \<Rightarrow> nat \<Rightarrow> nat \<Rightarrow> nat \<Rightarrow> str \<Rightarrow> edit" where
  "mkEdit a b c d t = \<lparr>eBegin = a, eEnd = b, oBegin = c, oEnd = d, replacement = t\<rparr>"

lemma mkEdit_sel [simp]:
  "eBegin (mkEdit a b c d t) = a" "eEnd (mkEdit a b c d t) = b"
  "oBegin (mkEdit a b c d t) = c" "oEnd (mkEdit a b c d t) = d"
  "replacement (mkEdit a b c d t) = t"
  by (simp_all add: mkEdit_def)

text \<open>\<open>append\<close>: \<open>Text.at(i)\<close> throws for an index out of range.\<close>

function appendLines :: "str \<Rightarrow> str list \<Rightarrow> nat \<Rightarrow> nat \<Rightarrow> str comp" where
  "appendLines out ls i e =
    (if i < e then (if i < length ls then appendLines (out @ ls ! i) ls (Suc i) e
                    else throw ''out_of_range'')
     else ret out)"
  by pat_completeness auto
termination
  by (relation "measure (\<lambda>(out, ls, i, e). e - i)") auto

declare appendLines.simps [simp del]

fun applyEdits :: "str list \<Rightarrow> edit list \<Rightarrow> nat \<Rightarrow> str \<Rightarrow> (nat \<times> str) comp" where
  "applyEdits ls [] cursor out = ret (cursor, out)"
| "applyEdits ls (e # es) cursor out =
    (if eBegin e < cursor \<or> eEnd e < eBegin e \<or> length ls < eEnd e then throw ''InvalidEdit''
     else seq (appendLines out ls cursor (eBegin e)) (\<lambda>out'.
       applyEdits ls es (eEnd e) (out' @ replacement e)))"

text \<open>\<open>Apply\<close>; \<open>D\<close> is the budget that the default argument of \<open>SplitLines\<close> constructs.\<close>

definition Apply :: "budget \<Rightarrow> str \<Rightarrow> edit list \<Rightarrow> str comp" where
  "Apply D base es =
    seq (SplitLines base D defaultMaxLines defaultMaxBytes) (\<lambda>ls.
    seq (applyEdits ls es 0 []) (\<lambda>(cursor, out).
    appendLines out ls cursor (length ls)))"

text \<open>\<open>lineOffset ls i\<close> is the byte at which line \<open>i\<close> begins.\<close>

lemma lineOffset_split: "i \<le> j \<Longrightarrow> lineOffset ls j = lineOffset ls i + length (concat (slice ls i j))"
proof -
  assume "i \<le> j"
  then have "take j ls = take i ls @ slice ls i j"
    by (metis le_add_diff_inverse slice_def take_add)
  then show ?thesis by (simp add: lineOffset_def)
qed

lemma lineOffset_mono: "i \<le> j \<Longrightarrow> lineOffset ls i \<le> lineOffset ls j"
  by (simp add: lineOffset_split)

lemma lineOffset_full: "lineOffset ls (length ls) = length (concat ls)"
  by (simp add: lineOffset_def)

lemma lineOffset_le: "lineOffset ls i \<le> length (concat ls)"
  using lineOffset_mono [of i "max i (length ls)" ls] by (simp add: lineOffset_def)

section \<open>Scripts\<close>

fun script :: "'a list \<Rightarrow> 'a list \<Rightarrow> nat \<Rightarrow> nat \<Rightarrow> edit list \<Rightarrow> bool" where
  "script l r a b [] \<longleftrightarrow> a \<le> length l \<and> b \<le> length r \<and> drop a l = drop b r"
| "script l r a b (e # es) \<longleftrightarrow>
     a \<le> eBegin e \<and> eBegin e \<le> eEnd e \<and> eEnd e \<le> length l
   \<and> b \<le> oBegin e \<and> oBegin e \<le> oEnd e \<and> oEnd e \<le> length r
   \<and> slice l a (eBegin e) = slice r b (oBegin e)
   \<and> (eBegin e < eEnd e \<or> oBegin e < oEnd e)
   \<and> script l r (eEnd e) (oEnd e) es"

fun separated :: "edit list \<Rightarrow> bool" where
  "separated (e # f # es) \<longleftrightarrow> eEnd e < eBegin f \<and> separated (f # es)"
| "separated _ \<longleftrightarrow> True"

definition filled :: "budget \<Rightarrow> str list \<Rightarrow> edit \<Rightarrow> bool" where
  "filled L r e \<longleftrightarrow>
     replacement e = (if rangesOnly L then [] else concat (slice r (oBegin e) (oEnd e)))"

definition diffOf :: "budget \<Rightarrow> str list \<Rightarrow> str list \<Rightarrow> edit list \<Rightarrow> bool" where
  "diffOf L l r es \<longleftrightarrow> script l r 0 0 es \<and> separated es \<and> (\<forall>e \<in> set es. filled L r e)"

definition scriptCost :: "edit list \<Rightarrow> nat" where
  "scriptCost es = sum_list (map (\<lambda>e. (eEnd e - eBegin e) + (oEnd e - oBegin e)) es)"

text \<open>A shortest script: it keeps as many lines as any common subsequence has.\<close>

definition shortest :: "'a list \<Rightarrow> 'a list \<Rightarrow> edit list \<Rightarrow> bool" where
  "shortest l r es \<longleftrightarrow> scriptCost es + 2 * lcs l r = length l + length r"

lemma scriptCost_simps [simp]:
  "scriptCost [] = 0"
  "scriptCost (e # es) = (eEnd e - eBegin e) + (oEnd e - oBegin e) + scriptCost es"
  "scriptCost (xs @ ys) = scriptCost xs + scriptCost ys"
  by (simp_all add: scriptCost_def)

lemma script_bounds: "script l r a b es \<Longrightarrow> a \<le> length l \<and> b \<le> length r"
  by (induction es arbitrary: a b) auto

lemma script_gap:
  "script l r a b (e # es) \<Longrightarrow> oBegin e - b = eBegin e - a"
  by (drule script.simps(2) [THEN iffD1], elim conjE)
     (drule arg_cong [of "slice l a (eBegin e)" _ length], simp)

lemma script_tail: "script l r a b [] \<Longrightarrow> length l - a = length r - b"
  by (simp, metis length_drop)

lemma script_edit:
  "script l r a b es \<Longrightarrow> e \<in> set es \<Longrightarrow>
    a \<le> eBegin e \<and> b \<le> oBegin e \<and> eBegin e \<le> eEnd e \<and> eEnd e \<le> length l
    \<and> oBegin e \<le> oEnd e \<and> oEnd e \<le> length r \<and> (eBegin e < eEnd e \<or> oBegin e < oEnd e)"
proof (induction es arbitrary: a b)
  case (Cons f es)
  show ?case
  proof (cases "e = f")
    case False
    then show ?thesis using Cons.IH [of "eEnd f" "oEnd f"] Cons.prems by fastforce
  qed (use Cons.prems in auto)
qed simp

subsection \<open>A script is a path of the edit graph\<close>

lemma reach_keeps:
  "reach l r d a b \<Longrightarrow> slice l a x = slice r b y \<Longrightarrow> a \<le> x \<Longrightarrow> x \<le> length l \<Longrightarrow> b \<le> y \<Longrightarrow> y \<le> length r
    \<Longrightarrow> reach l r d x y"
proof (induction "x - a" arbitrary: a b)
  case 0
  then have "y - b = 0" by (metis length_slice diff_is_0_eq' le_refl)
  then show ?case using 0 by simp
next
  case (Suc k)
  have "y - b = x - a" using Suc.prems by (metis length_slice)
  then have lt: "a < x" "b < y" using Suc.hyps(2) by auto
  then have cons: "l ! a = r ! b" "slice l (Suc a) x = slice r (Suc b) y"
    using Suc.prems by (simp_all add: slice_Cons [of a x l] slice_Cons [of b y r])
  have "reach l r d (Suc a) (Suc b)"
    by (rule reach.keep) (use Suc.prems lt cons in auto)
  then show ?case using Suc.hyps(1) [of "Suc a" "Suc b"] Suc.hyps(2) Suc.prems lt cons by simp
qed

lemma reach_deletes: "reach l r d a b \<Longrightarrow> a + k \<le> length l \<Longrightarrow> reach l r (d + k) (a + k) b"
  by (induction k) (auto intro: reach.delete)

lemma reach_inserts: "reach l r d a b \<Longrightarrow> b + k \<le> length r \<Longrightarrow> reach l r (d + k) a (b + k)"
  by (induction k) (auto intro: reach.insert)

lemma reach_script:
  "reach l r d a b \<Longrightarrow> script l r a b es \<Longrightarrow> reach l r (d + scriptCost es) (length l) (length r)"
proof (induction es arbitrary: d a b)
  case Nil
  then show ?case
    using reach_keeps [of l r d a b "length l" "length r"] by (simp add: slice_drop)
next
  case (Cons e es)
  have "reach l r d (eBegin e) (oBegin e)"
    by (rule reach_keeps [OF Cons.prems(1)]) (use Cons.prems(2) in auto)
  from reach_inserts [OF reach_deletes [OF this, of "eEnd e - eBegin e"], of "oEnd e - oBegin e"]
  have "reach l r (d + ((eEnd e - eBegin e) + (oEnd e - oBegin e))) (eEnd e) (oEnd e)"
    using Cons.prems(2) by (simp add: add.assoc)
  from Cons.IH [OF this] show ?case using Cons.prems(2) by (simp add: add.assoc)
qed

lemma script_cost_lower: "script l r 0 0 es \<Longrightarrow> length l + length r \<le> scriptCost es + 2 * lcs l r"
  using reach_cost_lower [of l r "scriptCost es"] reach_script [OF reach.origin] by force

lemma shortest_minimal:
  "shortest l r es \<Longrightarrow> script l r 0 0 fs \<Longrightarrow> scriptCost es \<le> scriptCost fs"
  using script_cost_lower [of l r fs] by (simp add: shortest_def)

section \<open>Scripts under construction\<close>

text \<open>
  The edits found so far, up to line \<open>x\<close> of \<open>l\<close> and line \<open>y\<close> of \<open>r\<close>: what the engines that
  emit edits from left to right keep true.
\<close>

fun spansTo :: "'a list \<Rightarrow> 'a list \<Rightarrow> nat \<Rightarrow> nat \<Rightarrow> edit list \<Rightarrow> nat \<Rightarrow> nat \<Rightarrow> bool" where
  "spansTo l r a b [] x y \<longleftrightarrow> a \<le> x \<and> x \<le> length l \<and> b \<le> y \<and> y \<le> length r \<and> slice l a x = slice r b y"
| "spansTo l r a b (e # es) x y \<longleftrightarrow>
     spansTo l r a b [] (eBegin e) (oBegin e)
   \<and> eBegin e \<le> eEnd e \<and> eEnd e \<le> length l \<and> oBegin e \<le> oEnd e \<and> oEnd e \<le> length r
   \<and> (eBegin e < eEnd e \<or> oBegin e < oEnd e) \<and> spansTo l r (eEnd e) (oEnd e) es x y"

lemma spansTo_script: "spansTo l r a b es (length l) (length r) \<Longrightarrow> script l r a b es"
  by (induction es arbitrary: a b) (auto simp: slice_drop)

lemma spansTo_trans:
  assumes "spansTo l r a b [] x y" "spansTo l r x y [] x' y'"
  shows "spansTo l r a b [] x' y'"
proof -
  have le: "a \<le> x" "x \<le> x'" "b \<le> y" "y \<le> y'" using assms by auto
  from slice_append [OF le(1,2), of l] slice_append [OF le(3,4), of r] show ?thesis using assms by (metis order_trans spansTo.simps(1))
qed

lemma spansTo_keeps:
  "spansTo l r a b es x y \<Longrightarrow> spansTo l r x y [] x' y' \<Longrightarrow> spansTo l r a b es x' y'"
proof (induction es arbitrary: a b)
  case Nil
  then show ?case by (rule spansTo_trans)
qed (simp del: spansTo.simps(1))

lemma spansTo_snoc:
  "spansTo l r a b (es @ [e]) x y \<longleftrightarrow> spansTo l r a b es (eBegin e) (oBegin e)
   \<and> eBegin e \<le> eEnd e \<and> eEnd e \<le> length l \<and> oBegin e \<le> oEnd e \<and> oEnd e \<le> length r
   \<and> (eBegin e < eEnd e \<or> oBegin e < oEnd e) \<and> spansTo l r (eEnd e) (oEnd e) [] x y"
  by (induction es arbitrary: a b) (auto simp del: spansTo.simps(1))

lemma separated_snoc:
  "separated (es @ [e]) \<longleftrightarrow> separated es \<and> (es = [] \<or> eEnd (last es) < eBegin e)"
  by (induction es rule: separated.induct) auto

definition grown :: "budget \<Rightarrow> str list \<Rightarrow> str list \<Rightarrow> edit list \<Rightarrow> nat \<Rightarrow> nat \<Rightarrow> bool" where
  "grown L l r es x y \<longleftrightarrow> spansTo l r 0 0 es x y \<and> separated es \<and> (\<forall>e \<in> set es. filled L r e)"

lemma grown_start: "grown L l r [] 0 0"
  by (simp add: grown_def)

lemma grown_final: "grown L l r es (length l) (length r) \<Longrightarrow> diffOf L l r es"
  using spansTo_script by (auto simp: grown_def diffOf_def)

lemma grown_keeps: "grown L l r es x y \<Longrightarrow> spansTo l r x y [] x' y' \<Longrightarrow> grown L l r es x' y'"
  using spansTo_keeps by (simp add: grown_def) blast

lemma spansTo_Nil_diff: "spansTo l r a b [] x y \<Longrightarrow> x - a = y - b"
  by (auto dest: arg_cong [of _ _ length])

lemma grown_last:
  assumes "grown L l r es x y" "es \<noteq> []"
  shows "spansTo l r (eEnd (last es)) (oEnd (last es)) [] x y"
  using assms spansTo_snoc [of l r 0 0 "butlast es" "last es" x y] by (simp add: grown_def)

lemma grown_bounds: "grown L l r es x y \<Longrightarrow> x \<le> length l \<and> y \<le> length r"
proof (cases "es = []")
  case False
  then show "grown L l r es x y \<Longrightarrow> ?thesis" using grown_last [of L l r es x y] by simp
qed (simp add: grown_def)

text \<open>A new edit begins past the last one; otherwise the last one is extended.\<close>

lemma grown_new:
  assumes "grown L l r es x y" "es = [] \<or> eEnd (last es) < x"
    and "eBegin e = x" "oBegin e = y" "x \<le> eEnd e" "eEnd e \<le> length l" "y \<le> oEnd e" "oEnd e \<le> length r"
    and "x < eEnd e \<or> y < oEnd e" "filled L r e"
  shows "grown L l r (es @ [e]) (eEnd e) (oEnd e)"
  using assms by (simp add: grown_def spansTo_snoc separated_snoc)

lemma grown_extend:
  assumes "grown L l r (es @ [f]) (eEnd f) (oEnd f)"
    and "eBegin e = eBegin f" "oBegin e = oBegin f" "eEnd f \<le> eEnd e" "eEnd e \<le> length l"
    and "oEnd f \<le> oEnd e" "oEnd e \<le> length r" "filled L r e"
  shows "grown L l r (es @ [e]) (eEnd e) (oEnd e)"
  using assms by (auto simp: grown_def spansTo_snoc separated_snoc)

section \<open>Frames\<close>

text \<open>The lines outside the range that the engine is called on.\<close>

definition framed :: "'a list \<Rightarrow> 'a list \<Rightarrow> nat \<Rightarrow> nat \<Rightarrow> bool" where
  "framed l r pre suf \<longleftrightarrow> pre + suf \<le> length l \<and> pre + suf \<le> length r \<and> take pre l = take pre r
     \<and> drop (length l - suf) l = drop (length r - suf) r"

lemma framed_start: "framed l r pre suf \<Longrightarrow> spansTo l r 0 0 [] pre pre"
  by (simp add: framed_def slice_def)

lemma framed_end:
  "framed l r pre suf \<Longrightarrow> spansTo l r (length l - suf) (length r - suf) [] (length l) (length r)"
  by (simp add: framed_def slice_drop)

abbreviation middle :: "'a list \<Rightarrow> nat \<Rightarrow> nat \<Rightarrow> 'a list" where
  "middle l pre suf \<equiv> slice l pre (length l - suf)"

lemma slice_split:
  assumes "pre + suf \<le> length l"
  shows "take pre l @ middle l pre suf @ drop (length l - suf) l = l"
proof -
  have "slice l 0 pre @ middle l pre suf = slice l 0 (length l - suf)"
    using assms by (intro slice_append) auto
  moreover have "slice l 0 (length l - suf) @ slice l (length l - suf) (length l) = l"
    using slice_append [of 0 "length l - suf" "length l" l] by simp
  moreover have "slice l 0 pre = take pre l" by (simp add: slice_def)
  ultimately show ?thesis by (metis append_assoc slice_drop)
qed

lemma lcs_framed: "framed l r pre suf \<Longrightarrow> lcs l r = pre + lcs (middle l pre suf) (middle r pre suf) + suf"
proof -
  assume f: "framed l r pre suf"
  let ?P = "take pre l" and ?S = "drop (length l - suf) l"
  have "lcs l r = lcs (?P @ middle l pre suf @ ?S) (?P @ middle r pre suf @ ?S)"
    using slice_split [of pre suf l] slice_split [of pre suf r] f by (simp add: framed_def)
  also have "\<dots> = length ?P + (length ?S + lcs (middle l pre suf) (middle r pre suf))"
    by (simp only: lcs_prefix lcs_suffix)
  finally show ?thesis using f by (simp add: framed_def)
qed

lemma shortest_framed:
  assumes "framed l r pre suf" "script l r 0 0 es"
    and "scriptCost es + 2 * k = length (middle l pre suf) + length (middle r pre suf)"
    and "lcs (middle l pre suf) (middle r pre suf) \<le> k"
  shows "shortest l r es"
proof -
  define u v c where "u = length (middle l pre suf)" and "v = length (middle r pre suf)"
    and "c = lcs (middle l pre suf) (middle r pre suf)"
  have "u + (pre + suf) = length l" "v + (pre + suf) = length r"
    using assms(1) by (auto simp: framed_def u_def v_def)
  moreover have "scriptCost es + 2 * k = u + v" "c \<le> k" "lcs l r = pre + c + suf"
    using assms(3,4) lcs_framed [OF assms(1)] by (simp_all only: u_def v_def c_def)
  ultimately show ?thesis unfolding shortest_def using script_cost_lower [OF assms(2)] by linarith
qed

section \<open>Applying a script\<close>

lemma appendLines_spec:
  "e \<le> length ls \<Longrightarrow> i \<le> e \<Longrightarrow> appendLines out ls i e = ret (out @ concat (slice ls i e))"
proof (induction out ls i e rule: appendLines.induct)
  case (1 out ls i e)
  then show ?case
    by (cases "i < e") (simp_all add: appendLines.simps [of out ls i e] appendLines.simps [of out ls e e] slice_Cons [of i e ls])
qed

lemma applyEdits_script:
  "script l r a b es \<Longrightarrow> \<forall>e \<in> set es. replacement e = concat (slice r (oBegin e) (oEnd e)) \<Longrightarrow>
    yields (applyEdits l es a out)
      (\<lambda>(c, out'). c \<le> length l \<and> out' @ concat (drop c l) = out @ concat (drop b r)) E"
proof (induction es arbitrary: a b out)
  case (Cons e es)
  let ?out = "out @ concat (slice r b (oBegin e)) @ concat (slice r (oBegin e) (oEnd e))"
  have "yields (applyEdits l es (eEnd e) ?out)
      (\<lambda>(c, out'). c \<le> length l \<and> out' @ concat (drop c l) = ?out @ concat (drop (oEnd e) r)) E"
    by (rule Cons.IH) (use Cons.prems in auto)
  moreover have "?out @ concat (drop (oEnd e) r) = out @ concat (drop b r)"
    using Cons.prems by (simp flip: concat_append slice_drop add: slice_append)
  moreover have "appendLines out l a (eBegin e) = ret (out @ concat (slice r b (oBegin e)))"
    using Cons.prems by (subst appendLines_spec) auto
  ultimately show ?case using Cons.prems by (auto simp: seq_def ret_def)
qed (auto intro: yields_ret)

lemma Apply_diffOf:
  assumes "diffOf L (splitText base) (splitText other) es" "\<not> rangesOnly L"
  shows "yields (Apply D base es) (\<lambda>t. t = other)
    (\<lambda>e. scanError D defaultMaxLines defaultMaxBytes (splitText base) e \<or> e = ''DiffWorkLimit'')"
proof -
  have es: "script (splitText base) (splitText other) 0 0 es"
    "\<forall>e \<in> set es. replacement e = concat (slice (splitText other) (oBegin e) (oEnd e))"
    using assms by (auto simp: diffOf_def filled_def)
  show ?thesis unfolding Apply_def
    by (rule yields_seq [OF SplitLines_yields], clarify, rule yields_seq [OF applyEdits_script [OF es]])
       (auto simp: appendLines_spec slice_drop intro: yields_ret)
qed

section \<open>The interface of a difference engine\<close>

text \<open>
  What \<open>Merge\<close>, the alignment maps and the merge plans rely on: the engine answers with a
  script between the lines of its arguments, or fails with a code it declares.
\<close>

locale differ =
  fixes diff :: "str \<Rightarrow> str \<Rightarrow> budget \<Rightarrow> edit list comp"
    and failure :: "budget \<Rightarrow> failure \<Rightarrow> bool"
  assumes diff_yields: "yields (diff l r L) (diffOf L (splitText l) (splitText r)) (failure L)"
begin

lemma diff_result: "diff l r L w = (Inr es, w') \<Longrightarrow> diffOf L (splitText l) (splitText r) es"
  by (rule yieldsD [OF diff_yields])

lemma diff_apply:
  assumes "\<not> rangesOnly L"
  shows "yields (seq (diff l r L) (Apply D l)) (\<lambda>t. t = r)
    (\<lambda>e. failure L e \<or> scanError D defaultMaxLines defaultMaxBytes (splitText l) e
       \<or> e = ''DiffWorkLimit'')"
  by (rule yields_seq [OF yields_weaken [OF diff_yields]])
     (auto intro: yields_weaken [OF Apply_diffOf [OF _ assms]])

end

end
