(* ===== verification/Myers.thy ===== *)
theory Myers
  imports EditScript
begin

text \<open>
  The greedy difference engine of \<open>Diff\<close> (\<open>compare.cpp\<close>): the rows of furthest reaching
  points with their bounded history (\<open>snake\<close>, \<open>rowLoop\<close>, \<open>depthLoop\<close>), the walk back
  through the history (\<open>backtrack\<close>) and the grouping of the operations into edits
  (\<open>editsOf\<close>).  The lines compared are the spans of \<open>left\<close> and \<open>right\<close> after a common
  prefix of \<open>p\<close> lines, of \<open>n\<close> and \<open>m\<close> lines; \<open>std::int64_t\<close> coordinates are integers.

  The lemmas show that a row of the code holds the furthest reaching point of every
  diagonal (\<open>furthest\<close>), that such a point dominates every path of the edit graph and is
  itself reached, that the search stops at the length of a shortest script and not
  before, and that the walk back spells such a script.
\<close>

section \<open>The search\<close>

function snake :: "budget \<Rightarrow> str list \<Rightarrow> str list \<Rightarrow> nat \<Rightarrow> int \<Rightarrow> int \<Rightarrow> int \<Rightarrow> int \<Rightarrow> (int \<times> int) comp" where
  "snake L left right p n m x y =
    (if x < n \<and> y < m \<and> 0 \<le> x \<and> 0 \<le> y \<and> left ! (p + nat x) = right ! (p + nat y)
     then seq (countStep L) (\<lambda>_. snake L left right p n m (x + 1) (y + 1))
     else ret (x, y))"
  by pat_completeness auto
termination
  by (relation "measure (\<lambda>(L, left, right, p, n, m, x, y). nat (n - x))") auto

function rowLoop :: "budget \<Rightarrow> str list \<Rightarrow> str list \<Rightarrow> nat \<Rightarrow> int \<Rightarrow> int \<Rightarrow> nat \<Rightarrow> int list \<Rightarrow> nat \<Rightarrow> int list
    \<Rightarrow> (int list \<times> bool) comp" where
  "rowLoop L left right p n m d previous i row =
    (if i \<le> d then
       seq (countStep L) (\<lambda>_.
       let k = 2 * int i - int d;
           x0 = (if d = 0 then 0
                 else if i = 0 \<or> (i \<noteq> d \<and> previous ! (i - 1) < previous ! i) then previous ! i
                 else previous ! (i - 1) + 1)
       in seq (snake L left right p n m x0 (x0 - k)) (\<lambda>(x, y).
          let row' = row[i := x] in
          if n \<le> x \<and> m \<le> y then ret (row', True)
          else rowLoop L left right p n m d previous (Suc i) row'))
     else ret (row, False))"
  by pat_completeness auto
termination
  by (relation "measure (\<lambda>(L, left, right, p, n, m, d, previous, i, row). Suc d - i)") auto

text \<open>The outcome of the search: the distance with the history, or a history that is full.\<close>

datatype search = Found nat "int list list" | TraceFull

function depthLoop :: "budget \<Rightarrow> str list \<Rightarrow> str list \<Rightarrow> nat \<Rightarrow> int \<Rightarrow> int \<Rightarrow> nat \<Rightarrow> nat \<Rightarrow> nat \<Rightarrow> int list list
    \<Rightarrow> search comp" where
  "depthLoop L left right p n m traceLimit d bytes trace =
    (if int d \<le> n + m then
       seq (check L) (\<lambda>_.
       let cost = (d + 1) * 8 in
       if traceLimit < cost \<or> traceLimit - cost < bytes then ret TraceFull
       else seq (rowLoop L left right p n m d (if d = 0 then [] else last trace) 0 (replicate (d + 1) 0)) (\<lambda>(row, done).
         if done then ret (Found d (trace @ [row]))
         else depthLoop L left right p n m traceLimit (Suc d) (bytes + cost) (trace @ [row])))
     else ret (Found 0 trace))"
  by pat_completeness auto
termination
  by (relation "measure (\<lambda>(L, left, right, p, n, m, traceLimit, d, bytes, trace). nat (n + m + 1 - int d))") auto

declare snake.simps [simp del] rowLoop.simps [simp del] depthLoop.simps [simp del]

section \<open>The walk back\<close>

text \<open>The operations: \<open>'='\<close>, \<open>'-'\<close> and \<open>'+'\<close>.\<close>

datatype operation = Keep | Del | Ins

text \<open>
  \<open>while (x > px && y > py) \{ operations.push_back('='); --x; --y; \}\<close>.  The list is kept in
  the order that the final \<open>std::reverse\<close> gives it.
\<close>

function backDiagonal :: "int \<Rightarrow> int \<Rightarrow> int \<Rightarrow> int \<Rightarrow> operation list \<Rightarrow> int \<times> int \<times> operation list" where
  "backDiagonal px py x y ops =
    (if px < x \<and> py < y then backDiagonal px py (x - 1) (y - 1) (Keep # ops) else (x, y, ops))"
  by pat_completeness auto
termination
  by (relation "measure (\<lambda>(px, py, x, y, ops). nat (x - px))") auto

declare backDiagonal.simps [simp del]

definition backStep :: "int list \<Rightarrow> nat \<Rightarrow> int \<Rightarrow> int \<Rightarrow> operation list \<Rightarrow> int \<times> int \<times> operation list" where
  "backStep previous d x y ops =
    (let k = x - y; i = nat ((k + int d) div 2);
         isInsert = (i = 0 \<or> (i \<noteq> d \<and> previous ! (i - 1) < previous ! i));
         px = previous ! (if isInsert then i else i - 1);
         py = px - (k + (if isInsert then 1 else -1));
         (x', y', ops') = backDiagonal px py x y ops
     in (px, py, (if isInsert then Ins else Del) # ops'))"

fun backtrack :: "budget \<Rightarrow> int list list \<Rightarrow> nat \<Rightarrow> int \<Rightarrow> int \<Rightarrow> operation list \<Rightarrow> (int \<times> int \<times> operation list) comp" where
  "backtrack L trace 0 x y ops = ret (x, y, ops)"
| "backtrack L trace (Suc d) x y ops =
    seq (check L) (\<lambda>_. case backStep (trace ! d) (Suc d) x y ops of
      (px, py, ops') \<Rightarrow> backtrack L trace d px py ops')"

definition operationsOf :: "budget \<Rightarrow> int \<Rightarrow> int \<Rightarrow> nat \<Rightarrow> int list list \<Rightarrow> operation list comp" where
  "operationsOf L n m distance trace =
    seq (backtrack L trace distance n m []) (\<lambda>(x, y, ops).
      case backDiagonal 0 0 x y ops of (x', y', ops') \<Rightarrow> ret ops')"

section \<open>Operations to edits\<close>

definition updateLast :: "(edit \<Rightarrow> edit) \<Rightarrow> edit list \<Rightarrow> edit list" where
  "updateLast f es = butlast es @ [f (last es)]"

fun editsOf :: "budget \<Rightarrow> str list \<Rightarrow> operation list \<Rightarrow> nat \<Rightarrow> nat \<Rightarrow> bool \<Rightarrow> edit list \<Rightarrow> edit list" where
  "editsOf L right [] a b isOpen edits = edits"
| "editsOf L right (Keep # ops) a b isOpen edits = editsOf L right ops (a + 1) (b + 1) False edits"
| "editsOf L right (Del # ops) a b isOpen edits =
    (let edits' = (if isOpen then edits else edits @ [mkEdit a a b b []])
     in editsOf L right ops (a + 1) b True (updateLast (\<lambda>e. e\<lparr>eEnd := a + 1\<rparr>) edits'))"
| "editsOf L right (Ins # ops) a b isOpen edits =
    (let edits' = (if isOpen then edits else edits @ [mkEdit a a b b []])
     in editsOf L right ops a (b + 1) True (updateLast (\<lambda>e.
          e\<lparr>replacement := replacement e @ (if rangesOnly L then [] else right ! b), oEnd := b + 1\<rparr>) edits'))"

section \<open>Furthest reaching points\<close>

function snk :: "'a list \<Rightarrow> 'a list \<Rightarrow> int \<Rightarrow> int \<Rightarrow> int" where
  "snk A B x y =
    (if x < int (length A) \<and> y < int (length B) \<and> 0 \<le> x \<and> 0 \<le> y \<and> A ! nat x = B ! nat y
     then snk A B (x + 1) (y + 1) else x)"
  by pat_completeness auto
termination
  by (relation "measure (\<lambda>(A, B, x, y). nat (int (length A) - x))") auto

declare snk.simps [simp del]

fun furthest :: "'a list \<Rightarrow> 'a list \<Rightarrow> nat \<Rightarrow> int \<Rightarrow> int" where
  "furthest A B 0 k = snk A B 0 (- k)"
| "furthest A B (Suc d) k =
    (let x0 = (if k = - int (Suc d) \<or> (k \<noteq> int (Suc d) \<and> furthest A B d (k - 1) < furthest A B d (k + 1))
               then furthest A B d (k + 1) else furthest A B d (k - 1) + 1)
     in snk A B x0 (x0 - k))"

declare furthest.simps(2) [simp del]

definition rowOf :: "'a list \<Rightarrow> 'a list \<Rightarrow> nat \<Rightarrow> int list" where
  "rowOf A B d = map (\<lambda>i. furthest A B d (2 * int i - int d)) [0..<Suc d]"

definition stops :: "'a list \<Rightarrow> 'a list \<Rightarrow> nat \<Rightarrow> int \<Rightarrow> bool" where
  "stops A B d k \<longleftrightarrow> int (length A) \<le> furthest A B d k \<and> int (length B) \<le> furthest A B d k - k"

text \<open>The diagonals of row \<open>d\<close>.\<close>

definition diagonal :: "nat \<Rightarrow> int \<Rightarrow> bool" where
  "diagonal d k \<longleftrightarrow> \<bar>k\<bar> \<le> int d \<and> even (k + int d)"

lemma snk_ge: "x \<le> snk A B x y"
proof (induction A B x y rule: snk.induct)
  case (1 A B x y)
  then show ?case by (subst snk.simps) auto
qed

lemma snk_stuck:
  "z = snk A B x y \<Longrightarrow> \<not> (z < int (length A) \<and> z - (x - y) < int (length B) \<and> 0 \<le> z \<and> 0 \<le> z - (x - y)
     \<and> A ! nat z = B ! nat (z - (x - y)))"
proof (induction A B x y rule: snk.induct)
  case (1 A B x y)
  show ?case
  proof (cases "x < int (length A) \<and> y < int (length B) \<and> 0 \<le> x \<and> 0 \<le> y \<and> A ! nat x = B ! nat y")
    case True
    then show ?thesis using 1 by (simp add: snk.simps [of A B x y])
  next
    case False
    then have "z = x" using 1(2) by (subst (asm) snk.simps) auto
    then show ?thesis using False by auto
  qed
qed

text \<open>A point inside the grid or past its edge, reached with at most \<open>d\<close> edits once clipped.\<close>

definition clipped :: "'a list \<Rightarrow> 'a list \<Rightarrow> nat \<Rightarrow> int \<Rightarrow> int \<Rightarrow> bool" where
  "clipped A B d x y \<longleftrightarrow> 0 \<le> x \<and> 0 \<le> y \<and> (\<exists>d'. reach A B d' (nat (min x (int (length A)))) (nat (min y (int (length B))))
     \<and> int d' + max 0 (x - int (length A)) + max 0 (y - int (length B)) \<le> int d)"

lemma clipped_delete: "clipped A B d x y \<Longrightarrow> clipped A B (Suc d) (x + 1) y"
proof -
  assume "clipped A B d x y"
  then obtain d' where d': "reach A B d' (nat (min x (int (length A)))) (nat (min y (int (length B))))"
    "int d' + max 0 (x - int (length A)) + max 0 (y - int (length B)) \<le> int d" "0 \<le> x" "0 \<le> y"
    by (auto simp: clipped_def)
  show ?thesis
  proof (cases "x < int (length A)")
    case True
    have "nat (min (x + 1) (int (length A))) = Suc (nat (min x (int (length A))))" using True d' by auto
    moreover have "nat (min x (int (length A))) < length A" using True d' by auto
    ultimately show ?thesis using True d' reach.delete [OF d'(1)]
      unfolding clipped_def by (intro conjI exI [of _ "Suc d'"]) auto
  next
    case False
    then show ?thesis using d' unfolding clipped_def by (intro conjI exI [of _ d']) auto
  qed
qed

lemma clipped_insert: "clipped A B d x y \<Longrightarrow> clipped A B (Suc d) x (y + 1)"
proof -
  assume "clipped A B d x y"
  then obtain d' where d': "reach A B d' (nat (min x (int (length A)))) (nat (min y (int (length B))))"
    "int d' + max 0 (x - int (length A)) + max 0 (y - int (length B)) \<le> int d" "0 \<le> x" "0 \<le> y"
    by (auto simp: clipped_def)
  show ?thesis
  proof (cases "y < int (length B)")
    case True
    have "nat (min (y + 1) (int (length B))) = Suc (nat (min y (int (length B))))" using True d' by auto
    moreover have "nat (min y (int (length B))) < length B" using True d' by auto
    ultimately show ?thesis using True d' reach.insert [OF d'(1)]
      unfolding clipped_def by (intro conjI exI [of _ "Suc d'"]) auto
  next
    case False
    then show ?thesis using d' unfolding clipped_def by (intro conjI exI [of _ d']) auto
  qed
qed

lemma clipped_snk: "clipped A B d x y \<Longrightarrow> clipped A B d (snk A B x y) (snk A B x y - (x - y))"
proof (induction A B x y rule: snk.induct)
  case (1 A B x y)
  show ?case
  proof (cases "x < int (length A) \<and> y < int (length B) \<and> 0 \<le> x \<and> 0 \<le> y \<and> A ! nat x = B ! nat y")
    case True
    obtain d' where "reach A B d' (nat x) (nat y)" "int d' \<le> int d"
      using 1(2) True by (auto simp: clipped_def min_def max_def)
    then have "reach A B d' (Suc (nat x)) (Suc (nat y))"
      using True by (intro reach.keep) auto
    then have "clipped A B d (x + 1) (y + 1)"
      using True \<open>int d' \<le> int d\<close> unfolding clipped_def
      by (intro conjI exI [of _ d']) (auto simp: nat_add_distrib min_def)
    then show ?thesis using 1(1) True by (simp add: snk.simps [of A B x y])
  next
    case False
    then have "snk A B x y = x" by (subst snk.simps) auto
    then show ?thesis using 1(2) by simp
  qed
qed

lemma diagonal_step:
  assumes "diagonal (Suc d) k"
  shows "k \<noteq> int (Suc d) \<Longrightarrow> diagonal d (k + 1)" "k \<noteq> - int (Suc d) \<Longrightarrow> diagonal d (k - 1)"
  using assms unfolding diagonal_def by presburger+

text \<open>The point from which the snake of a diagonal starts.\<close>

fun start :: "'a list \<Rightarrow> 'a list \<Rightarrow> nat \<Rightarrow> int \<Rightarrow> int" where
  "start A B 0 k = 0"
| "start A B (Suc d) k =
    (if k = - int (Suc d) \<or> (k \<noteq> int (Suc d) \<and> furthest A B d (k - 1) < furthest A B d (k + 1))
     then furthest A B d (k + 1) else furthest A B d (k - 1) + 1)"

lemma furthest_start: "furthest A B d k = snk A B (start A B d k) (start A B d k - k)"
  by (cases d) (simp_all add: furthest.simps(2) Let_def)

lemma furthest_ge_start: "start A B d k \<le> furthest A B d k"
  by (simp add: furthest_start snk_ge)

declare start.simps(2) [simp del]

lemma start_furthest_clipped:
  "diagonal d k \<Longrightarrow> clipped A B d (start A B d k) (start A B d k - k)
     \<and> clipped A B d (furthest A B d k) (furthest A B d k - k)"
proof (induction d arbitrary: k)
  case 0
  then have "k = 0" by (auto simp: diagonal_def)
  moreover have "clipped A B 0 0 0" using reach.origin [of A B] by (auto simp: clipped_def)
  ultimately show ?case using clipped_snk [of A B 0 0 0] by simp
next
  case (Suc d)
  define ins where "ins \<longleftrightarrow> k = - int (Suc d) \<or> (k \<noteq> int (Suc d) \<and> furthest A B d (k - 1) < furthest A B d (k + 1))"
  define x0 where "x0 = (if ins then furthest A B d (k + 1) else furthest A B d (k - 1) + 1)"
  have x0: "start A B (Suc d) k = x0" by (simp add: x0_def ins_def start.simps(2))
  have "clipped A B (Suc d) x0 (x0 - k)"
  proof (cases ins)
    case True
    then have "k \<noteq> int (Suc d)" by (auto simp: ins_def)
    from Suc.IH [OF diagonal_step(1) [OF Suc.prems this]]
    show ?thesis using clipped_insert True by (fastforce simp: x0_def algebra_simps)
  next
    case False
    then have "k \<noteq> - int (Suc d)" by (auto simp: ins_def)
    from Suc.IH [OF diagonal_step(2) [OF Suc.prems this], THEN conjunct2, THEN clipped_delete]
    show ?thesis using False by (simp add: x0_def algebra_simps)
  qed
  from this clipped_snk [OF this] show ?case by (simp add: x0 furthest_start)
qed

lemmas furthest_clipped = start_furthest_clipped [THEN conjunct2]
lemmas start_clipped = start_furthest_clipped [THEN conjunct1]

lemma start_nonneg: "diagonal d k \<Longrightarrow> 0 \<le> start A B d k \<and> 0 \<le> start A B d k - k"
  using start_clipped [of d k A B] by (simp add: clipped_def)

text \<open>A furthest point dominates every path that ends on its diagonal with as many edits.\<close>

lemma reach_diagonal: "reach A B d x y \<Longrightarrow> diagonal d (int x - int y)"
  by (induction rule: reach.induct) (auto simp: diagonal_def)

lemma furthest_stuck:
  assumes "diagonal d k" "z = furthest A B d k"
  shows "\<not> (z < int (length A) \<and> z - k < int (length B) \<and> A ! nat z = B ! nat (z - k))"
proof -
  have "0 \<le> z" "0 \<le> z - k"
    using furthest_clipped [OF assms(1), of A B] assms(2) by (auto simp: clipped_def)
  moreover have "z = snk A B (start A B d k) (start A B d k - k)"
    using assms by (simp add: furthest_start)
  ultimately show ?thesis using snk_stuck by force
qed

lemma furthest_Suc_delete:
  assumes "diagonal d k"
  shows "furthest A B d k + 1 \<le> furthest A B (Suc d) (k + 1)"
proof -
  have "furthest A B d k + 1 \<le> start A B (Suc d) (k + 1)"
    using assms by (auto simp: start.simps(2) diagonal_def)
  then show ?thesis using furthest_ge_start order_trans by blast
qed

lemma furthest_Suc_insert:
  assumes "diagonal d k"
  shows "furthest A B d k \<le> furthest A B (Suc d) (k - 1)"
proof -
  have "furthest A B d k \<le> start A B (Suc d) (k - 1)"
    using assms by (auto simp: start.simps(2) diagonal_def)
  then show ?thesis using furthest_ge_start order_trans by blast
qed

lemma furthest_dominates: "reach A B d x y \<Longrightarrow> int x \<le> furthest A B d (int x - int y)"
proof (induction rule: reach.induct)
  case (keep d x y)
  let ?z = "furthest A B d (int x - int y)"
  have "?z \<noteq> int x"
    using furthest_stuck [OF reach_diagonal [OF keep.hyps(1)] refl, of A B] keep.hyps by auto
  then show ?case using keep.IH by simp
next
  case (delete d x y)
  have eq: "int (Suc x) - int y = int x - int y + 1" by simp
  show ?case unfolding eq
    using furthest_Suc_delete [OF reach_diagonal [OF delete.hyps(1)], of A B] delete.IH by linarith
next
  case (insert d x y)
  have eq: "int x - int (Suc y) = int x - int y - 1" by simp
  show ?case unfolding eq
    using furthest_Suc_insert [OF reach_diagonal [OF insert.hyps(1)], of A B] insert.IH by linarith
qed (auto simp: snk_ge)

section \<open>Where the search stops\<close>

definition editDistance :: "'a list \<Rightarrow> 'a list \<Rightarrow> nat" where
  "editDistance A B = length A + length B - 2 * lcs A B"

abbreviation target :: "'a list \<Rightarrow> 'a list \<Rightarrow> int" where
  "target A B \<equiv> int (length A) - int (length B)"

lemma editDistance_lower: "reach A B d (length A) (length B) \<Longrightarrow> editDistance A B \<le> d"
  using reach_cost_lower [of A B d] by (simp add: editDistance_def)

lemma target_diagonal: "diagonal (editDistance A B) (target A B)"
  using reach_diagonal [OF reach_lcs [of A B]] by (simp add: editDistance_def)

lemma stops_distance: "stops A B (editDistance A B) (target A B)"
  using furthest_dominates [OF reach_lcs [of A B]] by (simp add: stops_def editDistance_def)

lemma stops_reach:
  assumes "diagonal d k" "stops A B d k"
  shows "editDistance A B \<le> d"
    and "d = editDistance A B \<Longrightarrow> furthest A B d k = int (length A) \<and> k = target A B"
proof -
  let ?x = "furthest A B d k"
  obtain d' where d': "reach A B d' (length A) (length B)"
    "int d' + (?x - int (length A)) + (?x - k - int (length B)) \<le> int d"
    using furthest_clipped [OF assms(1), of A B] assms(2)
    by (auto simp: clipped_def stops_def min_def max_def split: if_splits)
  from editDistance_lower [OF d'(1)] d'(2) assms(2)
  show "editDistance A B \<le> d" and "d = editDistance A B \<Longrightarrow> ?x = int (length A) \<and> k = target A B"
    by (auto simp: stops_def)
qed

lemma furthest_at_target: "furthest A B (editDistance A B) (target A B) = int (length A)"
  using stops_reach(2) [OF target_diagonal stops_distance] by simp

section \<open>The monadic search computes the rows\<close>

text \<open>The spans compared: \<open>A\<close> and \<open>B\<close> are what \<open>left\<close> and \<open>right\<close> hold after the prefix.\<close>

definition spans :: "str list \<Rightarrow> str list \<Rightarrow> nat \<Rightarrow> str list \<Rightarrow> str list \<Rightarrow> bool" where
  "spans left right p A B \<longleftrightarrow>
     (\<forall>i < length A. left ! (p + i) = A ! i) \<and> (\<forall>i < length B. right ! (p + i) = B ! i)"

lemma snake_spec:
  assumes "spans left right p A B" "n = int (length A)" "m = int (length B)"
  shows "spec L (nat (n - x)) (snake L left right p n m x y)
    (\<lambda>(x', y'). x' = snk A B x y \<and> y' = x' - (x - y)) (envFailure L)"
  using assms
proof (induction L left right p n m x y rule: snake.induct)
  case (1 L left right p n m x y)
  show ?case
  proof (cases "x < n \<and> y < m \<and> 0 \<le> x \<and> 0 \<le> y \<and> left ! (p + nat x) = right ! (p + nat y)")
    case True
    then have eq: "A ! nat x = B ! nat y" using 1(2-) by (auto simp: spans_def)
    have code: "snake L left right p n m x y
        = seq (countStep L) (\<lambda>_. snake L left right p n m (x + 1) (y + 1))"
      using True by (subst snake.simps) simp
    have ref: "snk A B x y = snk A B (x + 1) (y + 1)"
      using True eq 1(2-) by (subst snk.simps) simp
    have "nat (n - x) - 1 = nat (n - (x + 1))" "1 \<le> nat (n - x)" using True by auto
    then show ?thesis unfolding code ref
      using 1(1) [OF True] 1(2-) by (intro spec_step [OF spec_countStep]) auto
  next
    case False
    have "snk A B x y = x"
      using False 1(2-) by (subst snk.simps) (auto simp: spans_def)
    then show ?thesis using False
      by (auto simp: snake.simps [of L left right p n m x y] intro!: spec_ret)
  qed
qed

lemma rowOf_nth: "i \<le> d \<Longrightarrow> rowOf A B d ! i = furthest A B d (2 * int i - int d)"
  unfolding rowOf_def by (subst nth_map) (auto simp del: upt_Suc)

lemma row_diagonal: "i \<le> d \<Longrightarrow> diagonal d (2 * int i - int d)"
  by (auto simp: diagonal_def)

text \<open>The choice of the code, by index, is the choice of \<open>furthest\<close>, by diagonal.\<close>

lemma row_neighbours:
  assumes "i \<le> Suc d" "k = 2 * int i - int (Suc d)"
  shows "i \<noteq> 0 \<Longrightarrow> rowOf A B d ! (i - 1) = furthest A B d (k - 1)"
    and "i \<noteq> Suc d \<Longrightarrow> rowOf A B d ! i = furthest A B d (k + 1)"
proof -
  assume "i \<noteq> 0"
  then have eq: "2 * int (i - 1) - int d = k - 1" using assms by (simp add: of_nat_diff)
  have "i - 1 \<le> d" using assms by simp
  from rowOf_nth [OF this, of A B] show "rowOf A B d ! (i - 1) = furthest A B d (k - 1)"
    unfolding eq .
next
  assume "i \<noteq> Suc d"
  then have "i \<le> d" using assms by simp
  have eq: "2 * int i - int d = k + 1" using assms by simp
  from rowOf_nth [OF \<open>i \<le> d\<close>, of A B] show "rowOf A B d ! i = furthest A B d (k + 1)"
    unfolding eq .
qed

lemma row_choice:
  assumes "i \<le> Suc d" "k = 2 * int i - int (Suc d)"
  shows "(i = 0 \<or> (i \<noteq> Suc d \<and> rowOf A B d ! (i - 1) < rowOf A B d ! i))
    \<longleftrightarrow> (k = - int (Suc d) \<or> (k \<noteq> int (Suc d) \<and> furthest A B d (k - 1) < furthest A B d (k + 1)))"
  using row_neighbours [OF assms, of A B] assms by auto

lemma row_start:
  assumes "i \<le> Suc d" "k = 2 * int i - int (Suc d)"
  shows "(if i = 0 \<or> (i \<noteq> Suc d \<and> rowOf A B d ! (i - 1) < rowOf A B d ! i)
          then rowOf A B d ! i else rowOf A B d ! (i - 1) + 1) = start A B (Suc d) k"
  unfolding row_choice [OF assms] start.simps(2)
  using row_neighbours [OF assms, of A B] assms by auto

lemma rowLoop_spec:
  assumes "spans left right p A B" "n = int (length A)" "m = int (length B)"
    and "\<And>d'. d = Suc d' \<Longrightarrow> previous = rowOf A B d'"
    and "i \<le> Suc d" "length row = Suc d"
    and "\<forall>j < i. row ! j = furthest A B d (2 * int j - int d) \<and> \<not> stops A B d (2 * int j - int d)"
  shows "spec L ((Suc d - i) * Suc (length A)) (rowLoop L left right p n m d previous i row)
    (\<lambda>(row', done). if done then \<exists>j \<le> d. stops A B d (2 * int j - int d)
       else row' = rowOf A B d \<and> (\<forall>j \<le> d. \<not> stops A B d (2 * int j - int d)))
    (envFailure L)"
  using assms
proof (induction L left right p n m d previous i row rule: rowLoop.induct)
  case (1 L left right p n m d previous i row)
  show ?case
  proof (cases "i \<le> d")
    case False
    then have i: "i = Suc d" using 1 by simp
    then have row: "row = rowOf A B d"
      using 1 by (intro nth_equalityI) (auto simp: rowOf_def simp del: upt_Suc)
    have code: "rowLoop L left right p n m d previous i row = ret (row, False)"
      using False by (subst rowLoop.simps) simp
    show ?thesis unfolding code using 1(8) i row
      by (intro spec_ret) (auto simp: less_Suc_eq_le)
  next
    case True
    define k where "k = 2 * int i - int d"
    define x0 where "x0 = (if d = 0 then 0
        else if i = 0 \<or> (i \<noteq> d \<and> previous ! (i - 1) < previous ! i) then previous ! i
        else previous ! (i - 1) + 1)"
    have x0: "x0 = start A B d k"
    proof (cases d)
      case (Suc d')
      have "x0 = (if i = 0 \<or> (i \<noteq> Suc d' \<and> rowOf A B d' ! (i - 1) < rowOf A B d' ! i)
          then rowOf A B d' ! i else rowOf A B d' ! (i - 1) + 1)"
        unfolding x0_def 1(5) [OF Suc] using Suc by (simp only: nat.distinct if_False)
      also have "\<dots> = start A B (Suc d') k"
        by (rule row_start) (use True Suc in \<open>simp_all add: k_def\<close>)
      finally show ?thesis by (simp only: Suc)
    qed (simp add: x0_def)
    have "0 \<le> x0" using start_nonneg [OF row_diagonal [OF True], of A B] by (simp add: x0 k_def)
    have snake: "spec L (length A) (snake L left right p n m x0 (x0 - k))
        (\<lambda>(x, y). x = furthest A B d k \<and> y = x - k) (envFailure L)"
      by (rule spec_weaken [OF snake_spec [OF 1(2-4)]])
         (use \<open>0 \<le> x0\<close> 1(3) in \<open>auto simp: furthest_start x0\<close>)
    have split: "(Suc d - i) * Suc (length A) = Suc (length A + (Suc d - Suc i) * Suc (length A))"
      using True by (simp add: Suc_diff_le)
    have inside: "i < length row" using 1(7) True by simp
    have IH: "spec L ((Suc d - Suc i) * Suc (length A))
        (rowLoop L left right p n m d previous (Suc i) (row[i := furthest A B d k]))
        (\<lambda>(row', done). if done then \<exists>j \<le> d. stops A B d (2 * int j - int d)
           else row' = rowOf A B d \<and> (\<forall>j \<le> d. \<not> stops A B d (2 * int j - int d))) (envFailure L)"
      if "\<not> (n \<le> furthest A B d k \<and> m \<le> furthest A B d k - k)"
      by (rule 1(1) [OF True refl refl refl]) (use 1(2-) that True inside in
        \<open>auto simp: k_def nth_list_update stops_def less_Suc_eq\<close>)
    let ?x = "furthest A B d k"
    let ?P = "\<lambda>(row', done). if done then \<exists>j \<le> d. stops A B d (2 * int j - int d)
        else row' = rowOf A B d \<and> (\<forall>j \<le> d. \<not> stops A B d (2 * int j - int d))"
    have rest: "spec L ((Suc d - Suc i) * Suc (length A))
        (if n \<le> ?x \<and> m \<le> ?x - k then ret (row[i := ?x], True)
         else rowLoop L left right p n m d previous (Suc i) (row[i := ?x])) ?P (envFailure L)"
    proof (rule spec_if)
      assume "n \<le> ?x \<and> m \<le> ?x - k"
      then have "stops A B d (2 * int i - int d)" using 1(3,4) by (simp add: stops_def k_def)
      then show "spec L ((Suc d - Suc i) * Suc (length A)) (ret (row[i := ?x], True)) ?P (envFailure L)"
        using True by (intro spec_ret) auto
    qed (rule IH)
    have code: "rowLoop L left right p n m d previous i row =
        seq (countStep L) (\<lambda>_. seq (snake L left right p n m x0 (x0 - k)) (\<lambda>(x, y).
          if n \<le> x \<and> m \<le> y then ret (row[i := x], True)
          else rowLoop L left right p n m d previous (Suc i) (row[i := x])))"
      by (subst rowLoop.simps) (simp only: True if_True Let_def k_def x0_def)
    show ?thesis unfolding code split
    proof (rule spec_step [OF spec_countStep], assumption)
      fix u :: unit
      show "spec L (Suc (length A + (Suc d - Suc i) * Suc (length A)) - 1)
          (seq (snake L left right p n m x0 (x0 - k)) (\<lambda>(x, y).
            if n \<le> x \<and> m \<le> y then ret (row[i := x], True)
            else rowLoop L left right p n m d previous (Suc i) (row[i := x]))) ?P (envFailure L)"
        unfolding diff_Suc_1
        by (rule spec_seq [OF snake]) (use rest in \<open>auto simp only: split: prod.splits\<close>)
    qed simp
  qed
qed

lemma stops_row:
  "\<exists>j \<le> d. stops A B d (2 * int j - int d) \<Longrightarrow> editDistance A B \<le> d"
  using stops_reach(1) row_diagonal by blast

lemma row_stops:
  assumes "\<forall>j \<le> d. \<not> stops A B d (2 * int j - int d)"
  shows "d \<noteq> editDistance A B"
proof
  assume d: "d = editDistance A B"
  let ?j = "nat ((target A B + int d) div 2)"
  have "target A B = 2 * int ?j - int d" "?j \<le> d"
    using target_diagonal [of A B] unfolding d [symmetric] diagonal_def by (auto elim!: evenE)
  then show False using assms stops_distance [of A B] d by metis
qed

lemma editDistance_le: "editDistance A B \<le> length A + length B"
  by (simp add: editDistance_def)

definition found :: "str list \<Rightarrow> str list \<Rightarrow> nat \<Rightarrow> search \<Rightarrow> bool" where
  "found A B traceLimit r = (case r of
     Found d trace \<Rightarrow> d = editDistance A B \<and> (\<forall>j < d. trace ! j = rowOf A B j)
   | TraceFull \<Rightarrow> traceLimit < 4 * (Suc (editDistance A B) * Suc (Suc (editDistance A B))))"

lemma depthLoop_spec:
  assumes "spans left right p A B" "n = int (length A)" "m = int (length B)"
    and "d \<le> editDistance A B" "bytes = 4 * (d * Suc d)"
    and "trace = map (rowOf A B) [0..<d]"
  shows "spec L ((Suc (editDistance A B) - d) * (Suc (editDistance A B) * Suc (length A)))
    (depthLoop L left right p n m traceLimit d bytes trace) (found A B traceLimit) (envFailure L)"
  using assms
proof (induction L left right p n m traceLimit d bytes trace rule: depthLoop.induct)
  case (1 L left right p n m traceLimit d bytes trace)
  let ?D = "editDistance A B"
  let ?W = "Suc ?D * Suc (length A)"
  let ?next = "\<lambda>row. depthLoop L left right p n m traceLimit (Suc d) (bytes + (d + 1) * 8) (trace @ [row])"
  let ?full = "traceLimit < (d + 1) * 8 \<or> traceLimit - (d + 1) * 8 < bytes"
  have within: "int d \<le> n + m" using 1(3,4) \<open>d \<le> ?D\<close> editDistance_le [of A B] by linarith
  have code: "depthLoop L left right p n m traceLimit d bytes trace = seq (check L) (\<lambda>_.
      if ?full then ret TraceFull
      else seq (rowLoop L left right p n m d (if d = 0 then [] else last trace) 0 (replicate (d + 1) 0)) (\<lambda>(row, done).
        if done then ret (Found d (trace @ [row])) else ?next row))"
    using within by (subst depthLoop.simps) (simp only: if_True Let_def)
  have width: "Suc d * Suc (length A) \<le> ?W" using \<open>d \<le> ?D\<close> by (intro mult_le_mono1) simp
  have "Suc ?D - d = Suc (Suc ?D - Suc d)" using \<open>d \<le> ?D\<close> by simp
  then have split: "(Suc ?D - d) * ?W = ?W + (Suc ?D - Suc d) * ?W" by (simp only: mult_Suc)
  have row: "spec L ?W (rowLoop L left right p n m d (if d = 0 then [] else last trace) 0 (replicate (d + 1) 0))
      (\<lambda>(row, done). if done then \<exists>j \<le> d. stops A B d (2 * int j - int d)
         else row = rowOf A B d \<and> (\<forall>j \<le> d. \<not> stops A B d (2 * int j - int d))) (envFailure L)"
    by (rule spec_weaken [OF rowLoop_spec [OF 1(2-4)] _ _ ]) (use width 1(7) in auto)
  have full: "found A B traceLimit TraceFull" if ?full
  proof -
    have "traceLimit < 4 * (Suc d * Suc (Suc d))" using that 1(6) by auto
    also have "\<dots> \<le> 4 * (Suc ?D * Suc (Suc ?D))" using \<open>d \<le> ?D\<close> by (intro mult_le_mono) auto
    finally show ?thesis by (simp add: found_def)
  qed
  have found: "found A B traceLimit (Found d (trace @ [row]))"
    if "\<exists>j \<le> d. stops A B d (2 * int j - int d)" for row
    using stops_row [OF that] \<open>d \<le> ?D\<close> 1(7) by (auto simp: found_def nth_append)
  have more: "spec L ((Suc ?D - Suc d) * ?W) (?next (rowOf A B d)) (found A B traceLimit) (envFailure L)"
    if "\<not> ?full" "\<forall>j \<le> d. \<not> stops A B d (2 * int j - int d)"
    by (rule 1(1) [OF within refl that(1), of False])
       (use row_stops [OF that(2)] 1(2-) in auto)
  show ?case unfolding code split
  proof (rule spec_step [OF spec_check], assumption)
    show "spec L (?W + (Suc ?D - Suc d) * ?W - 0) (if ?full then ret TraceFull
      else seq (rowLoop L left right p n m d (if d = 0 then [] else last trace) 0 (replicate (d + 1) 0)) (\<lambda>(row, done).
        if done then ret (Found d (trace @ [row])) else ?next row)) (found A B traceLimit) (envFailure L)"
      unfolding diff_zero
      by (rule spec_if, rule spec_ret, erule full, rule spec_seq [OF row])
         (use found more in \<open>auto simp only: split: prod.splits if_splits intro!: spec_ret\<close>)
  qed simp
qed

end
