(* ===== verification/WalkBack.thy ===== *)
theory WalkBack
  imports Myers
begin

text \<open>
  What the walk back through the history of the greedy search yields
  (\<open>backtrack\<close>, \<open>operationsOf\<close> and \<open>editsOf\<close> of theory \<open>Myers\<close>): the operations
  are a path of the edit graph of least cost (\<open>path\<close>, \<open>pathCost\<close>), and the edits
  grouped from a path form a script of the same cost.
\<close>

section \<open>The walk back spells a shortest path\<close>

fun path :: "'a list \<Rightarrow> 'a list \<Rightarrow> nat \<Rightarrow> nat \<Rightarrow> operation list \<Rightarrow> bool" where
  "path l r a b [] \<longleftrightarrow> a \<le> length l \<and> b \<le> length r \<and> drop a l = drop b r"
| "path l r a b (Keep # ops) \<longleftrightarrow>
     a < length l \<and> b < length r \<and> l ! a = r ! b \<and> path l r (Suc a) (Suc b) ops"
| "path l r a b (Del # ops) \<longleftrightarrow> a < length l \<and> path l r (Suc a) b ops"
| "path l r a b (Ins # ops) \<longleftrightarrow> b < length r \<and> path l r a (Suc b) ops"

fun pathCost :: "operation list \<Rightarrow> nat" where
  "pathCost [] = 0"
| "pathCost (Keep # ops) = pathCost ops"
| "pathCost (Del # ops) = Suc (pathCost ops)"
| "pathCost (Ins # ops) = Suc (pathCost ops)"

lemma pathCost_keeps [simp]: "pathCost (replicate k Keep @ ops) = pathCost ops"
  by (induction k) simp_all

lemma path_bounds: "path l r a b ops \<Longrightarrow> a \<le> length l \<and> b \<le> length r"
  by (induction l r a b ops rule: path.induct) auto

lemma path_context:
  "path A B a b ops \<Longrightarrow> path (P @ A @ S) (P @ B @ S) (length P + a) (length P + b) ops"
  by (induction A B a b ops rule: path.induct) (auto simp: nth_append)

lemma backDiagonal_eq:
  "t = nat (min (x - px) (y - py)) \<Longrightarrow>
    backDiagonal px py x y ops = (x - int t, y - int t, replicate t Keep @ ops)"
proof (induction t arbitrary: x y ops)
  case 0
  then show ?case by (subst backDiagonal.simps) (auto simp: min_def split: if_splits)
next
  case (Suc t)
  then have "px < x \<and> py < y" "t = nat (min (x - 1 - px) (y - 1 - py))"
    by (auto simp: min_def split: if_splits)
  then show ?case using Suc.IH [of "x - 1" "y - 1" "Keep # ops"]
    by (subst backDiagonal.simps) (simp add: replicate_app_Cons_same)
qed

lemma path_snk:
  "path A B (nat (snk A B x y)) (nat (snk A B x y - (x - y))) ops \<Longrightarrow> 0 \<le> x \<Longrightarrow> 0 \<le> y \<Longrightarrow>
    path A B (nat x) (nat y) (replicate (nat (snk A B x y - x)) Keep @ ops)"
proof (induction A B x y rule: snk.induct)
  case (1 A B x y)
  show ?case
  proof (cases "x < int (length A) \<and> y < int (length B) \<and> 0 \<le> x \<and> 0 \<le> y \<and> A ! nat x = B ! nat y")
    case True
    have ref: "snk A B x y = snk A B (x + 1) (y + 1)" using True by (subst snk.simps) simp
    have "nat (snk A B (x + 1) (y + 1) - x) = Suc (nat (snk A B (x + 1) (y + 1) - (x + 1)))"
      using snk_ge [of "x + 1" A B "y + 1"] by linarith
    moreover have "path A B (Suc (nat x)) (Suc (nat y))
        (replicate (nat (snk A B (x + 1) (y + 1) - (x + 1))) Keep @ ops)"
      using 1(1) [OF True] 1(2-) True unfolding ref by (simp add: nat_add_distrib)
    ultimately show ?thesis using True unfolding ref by (simp add: nat_less_iff)
  next
    case False
    then have "snk A B x y = x" by (subst snk.simps) auto
    then show ?thesis using 1(2) by simp
  qed
qed

text \<open>The point from which a walk leaves row \<open>d\<close>, and the choice that the history dictates.\<close>

lemma backStep_eq:
  assumes "diagonal (Suc d) k" "x = furthest A B (Suc d) k" "previous = rowOf A B d"
  shows "\<exists>k' op. diagonal d k' \<and> op \<in> {Ins, Del}
    \<and> start A B (Suc d) k = furthest A B d k' + (if op = Ins then 0 else 1)
    \<and> k' = (if op = Ins then k + 1 else k - 1)
    \<and> backStep previous (Suc d) x (x - k) ops
        = (furthest A B d k', furthest A B d k' - k',
           op # replicate (nat (x - start A B (Suc d) k)) Keep @ ops)"
proof -
  define i where "i = nat ((k + int (Suc d)) div 2)"
  have i: "i \<le> Suc d" "k = 2 * int i - int (Suc d)"
    using assms(1) unfolding i_def diagonal_def by (auto elim!: evenE)
  define ins where "ins \<longleftrightarrow> i = 0 \<or> (i \<noteq> Suc d \<and> previous ! (i - 1) < previous ! i)"
  define k' where "k' = (if ins then k + 1 else k - 1)"
  define px where "px = previous ! (if ins then i else i - 1)"
  have px: "px = furthest A B d k'"
    using row_neighbours [OF i, of A B] by (auto simp: px_def k'_def ins_def assms(3))
  have diag: "diagonal d k'"
    using diagonal_step [OF assms(1)] i by (auto simp: k'_def ins_def)
  have st: "start A B (Suc d) k = px + (if ins then 0 else 1)"
    using row_start [OF i, of A B] by (auto simp: px_def ins_def assms(3) split: if_splits)
  let ?t = "nat (x - start A B (Suc d) k)"
  have ge: "start A B (Suc d) k \<le> x" using furthest_ge_start assms(2) by simp
  have walk: "backDiagonal px (px - k') x (x - k) ops
      = (x - int ?t, x - k - int ?t, replicate ?t Keep @ ops)"
    by (rule backDiagonal_eq) (use ge in \<open>auto simp: st k'_def\<close>)
  have run: "backStep previous (Suc d) x (x - k) ops
      = (px, px - k', (if ins then Ins else Del) # replicate ?t Keep @ ops)"
  proof -
    have eq: "x - (x - k) = k" "k + (if ins then 1 else - 1) = k'" by (auto simp: k'_def)
    show ?thesis
      unfolding backStep_def Let_def eq(1) i_def [symmetric] ins_def [symmetric] px_def [symmetric]
        eq(2) walk by simp
  qed
  show ?thesis
    by (rule exI [of _ k'], rule exI [of _ "if ins then Ins else Del"])
       (use diag st run px in \<open>auto simp: k'_def\<close>)
qed

text \<open>Where the walk stands: on the furthest point of a diagonal, with a path from there to the end.\<close>

definition onPath :: "'a list \<Rightarrow> 'a list \<Rightarrow> nat \<Rightarrow> int \<Rightarrow> int \<Rightarrow> operation list \<Rightarrow> bool" where
  "onPath A B d x y ops \<longleftrightarrow> diagonal d (x - y) \<and> x = furthest A B d (x - y)
     \<and> path A B (nat x) (nat y) ops \<and> d + pathCost ops = editDistance A B"

lemma onPath_start:
  assumes "onPath A B d x y ops"
  shows "path A B (nat (start A B d (x - y))) (nat (start A B d (x - y) - (x - y)))
    (replicate (nat (x - start A B d (x - y))) Keep @ ops)"
proof -
  let ?x = "start A B d (x - y)"
  have eq: "snk A B ?x (?x - (x - y)) = x" "x - (x - y) = y" "?x - (?x - (x - y)) = x - y"
    using assms furthest_start [of A B d "x - y"] by (auto simp: onPath_def)
  have "path A B (nat ?x) (nat (?x - (x - y))) (replicate (nat (snk A B ?x (?x - (x - y)) - ?x)) Keep @ ops)"
    by (rule path_snk) (use assms start_nonneg [of d "x - y" A B] in \<open>auto simp: eq onPath_def\<close>)
  then show ?thesis by (simp only: eq)
qed

lemma onPath_step:
  assumes "onPath A B (Suc d) x y ops" "backStep (rowOf A B d) (Suc d) x y ops = (px, py, ops')"
  shows "onPath A B d px py ops'"
proof -
  let ?k = "x - y" and ?x = "start A B (Suc d) (x - y)"
  have k: "diagonal (Suc d) ?k" "x = furthest A B (Suc d) ?k" using assms(1) by (auto simp: onPath_def)
  have y: "x - ?k = y" by simp
  obtain k' op where step: "diagonal d k' \<and> op \<in> {Ins, Del}
      \<and> ?x = furthest A B d k' + (if op = Ins then 0 else 1)
      \<and> k' = (if op = Ins then ?k + 1 else ?k - 1)
      \<and> backStep (rowOf A B d) (Suc d) x y ops
        = (furthest A B d k', furthest A B d k' - k', op # replicate (nat (x - ?x)) Keep @ ops)"
    using backStep_eq [OF k refl, of ops] unfolding y by blast
  then have "(px, py, ops') = (furthest A B d k', furthest A B d k' - k',
      op # replicate (nat (x - ?x)) Keep @ ops)"
    using assms(2) by (elim conjE) (simp only:)
  with step have k': "diagonal d k'" "op \<in> {Ins, Del}"
    "?x = furthest A B d k' + (if op = Ins then 0 else 1)"
    "k' = (if op = Ins then ?k + 1 else ?k - 1)"
    "px = furthest A B d k'" "py = furthest A B d k' - k'"
    "ops' = op # replicate (nat (x - ?x)) Keep @ ops"
    by (elim conjE, simp only: prod.inject)+
  have nonneg: "0 \<le> px" "0 \<le> py"
    using furthest_clipped [OF k'(1), of A B] k'(5,6) by (auto simp: clipped_def)
  have rest: "path A B (nat ?x) (nat (?x - ?k)) (replicate (nat (x - ?x)) Keep @ ops)"
    by (rule onPath_start [OF assms(1)])
  note inside = path_bounds [OF rest]
  have "path A B (nat px) (nat py) ops'"
  proof (cases "op = Ins")
    case True
    then have "?x = px" "nat (?x - ?k) = Suc (nat py)" using k' nonneg by auto
    then show ?thesis using rest inside True k'(7) by simp
  next
    case False
    then have "nat ?x = Suc (nat px)" "?x - ?k = py" "op = Del" using k' nonneg by auto
    then show ?thesis using rest inside k'(7) by simp
  qed
  moreover have "d + pathCost ops' = editDistance A B"
    using assms(1) k'(2,7) by (auto simp: onPath_def)
  ultimately show ?thesis using k' by (simp add: onPath_def)
qed

lemma backtrack_spec:
  "onPath A B d x y ops \<Longrightarrow> \<forall>j < d. trace ! j = rowOf A B j \<Longrightarrow>
    spec L 0 (backtrack L trace d x y ops) (\<lambda>(x', y', ops'). onPath A B 0 x' y' ops') (envFailure L)"
proof (induction d arbitrary: x y ops)
  case (Suc d)
  obtain px py ops' where step: "backStep (rowOf A B d) (Suc d) x y ops = (px, py, ops')"
    by (cases "backStep (rowOf A B d) (Suc d) x y ops") auto
  have "spec L 0 (backtrack L trace d px py ops') (\<lambda>(x', y', ops'). onPath A B 0 x' y' ops') (envFailure L)"
    by (rule Suc.IH) (use onPath_step [OF Suc.prems(1) step] Suc.prems(2) in auto)
  then show ?case using Suc.prems(2) step
    by (auto intro!: spec_step [OF spec_check])
qed (auto intro: spec_ret)

lemma operationsOf_spec:
  assumes "n = int (length A)" "m = int (length B)" "\<forall>j < editDistance A B. trace ! j = rowOf A B j"
  shows "spec L 0 (operationsOf L n m (editDistance A B) trace)
    (\<lambda>ops. path A B 0 0 ops \<and> pathCost ops = editDistance A B) (envFailure L)"
proof -
  have "onPath A B (editDistance A B) n m []"
    using target_diagonal [of A B] furthest_at_target [of A B] assms(1,2) by (simp add: onPath_def)
  note walk = backtrack_spec [OF this assms(3)]
  have last: "path A B 0 0 ops' \<and> pathCost ops' = editDistance A B"
    if p: "onPath A B 0 x y ops" and b: "backDiagonal 0 0 x y ops = (x', y', ops')" for x y ops x' y' ops'
  proof -
    have "x = y" using p by (simp add: onPath_def diagonal_def)
    moreover from this have "0 \<le> x"
      using p snk_ge [of 0 A B 0] by (simp add: onPath_def)
    moreover from calculation have "ops' = replicate (nat x) Keep @ ops"
      using backDiagonal_eq [of "nat x" x 0 y 0 ops] b by auto
    ultimately show ?thesis using onPath_start [OF p] p by (simp add: onPath_def)
  qed
  show ?thesis unfolding operationsOf_def
    by (rule spec_seq [OF walk, where d = 0, simplified])
       (auto intro!: spec_ret split: prod.splits dest: last)
qed

section \<open>Edits from a path\<close>

lemma script_keep:
  assumes "l ! a = r ! b" "a < length l" "b < length r" "script l r (Suc a) (Suc b) es"
  shows "script l r a b es"
proof (cases es)
  case Nil
  then show ?thesis
    using assms by (simp add: Cons_nth_drop_Suc [symmetric, of a l] Cons_nth_drop_Suc [symmetric, of b r])
next
  case (Cons e es')
  then show ?thesis
    using assms slice_Cons [of a "eBegin e" l] slice_Cons [of b "oBegin e" r] by simp
qed

definition scripted :: "budget \<Rightarrow> str list \<Rightarrow> str list \<Rightarrow> nat \<Rightarrow> nat \<Rightarrow> edit list \<Rightarrow> nat \<Rightarrow> bool" where
  "scripted L l r a b es c \<longleftrightarrow> script l r a b es \<and> separated es \<and> (\<forall>e \<in> set es. filled L r e)
     \<and> scriptCost es = c"

lemma updateLast_append [simp]: "xs \<noteq> [] \<Longrightarrow> updateLast f (es @ xs) = es @ updateLast f xs"
  by (simp add: updateLast_def butlast_append)

lemma updateLast_single [simp]: "updateLast f [e] = [f e]"
  by (simp add: updateLast_def)

lemma updateLast_ne [simp]: "updateLast f xs \<noteq> []"
  by (simp add: updateLast_def)

lemma editsOf_append:
  "isOpen \<longrightarrow> xs \<noteq> [] \<Longrightarrow>
    editsOf L right ops a b isOpen (es @ xs) = es @ editsOf L right ops a b isOpen xs"
proof (induction ops arbitrary: a b isOpen xs)
  case (Cons op ops)
  show ?case
    by (cases op) (use Cons in \<open>simp_all add: Let_def\<close>)
qed simp

lemma separated_Cons:
  "separated (e # es) \<longleftrightarrow> separated es \<and> (case es of [] \<Rightarrow> True | f # _ \<Rightarrow> eEnd e < eBegin f)"
  by (cases es) auto

text \<open>An edit under construction: what it spans so far and the text it has collected.\<close>

definition pending :: "budget \<Rightarrow> str list \<Rightarrow> nat \<Rightarrow> nat \<Rightarrow> edit \<Rightarrow> bool" where
  "pending L r a b e \<longleftrightarrow> eEnd e = a \<and> oEnd e = b \<and> eBegin e \<le> a \<and> oBegin e \<le> b
     \<and> (eBegin e < a \<or> oBegin e < b) \<and> filled L r e"

lemma pending_Del:
  "eEnd e = a \<Longrightarrow> oEnd e = b \<Longrightarrow> eBegin e \<le> a \<Longrightarrow> oBegin e \<le> b \<Longrightarrow> filled L r e \<Longrightarrow>
    pending L r (Suc a) b (e\<lparr>eEnd := Suc a\<rparr>)"
  by (simp add: pending_def filled_def)

lemma pending_Ins:
  "eEnd e = a \<Longrightarrow> oEnd e = b \<Longrightarrow> eBegin e \<le> a \<Longrightarrow> oBegin e \<le> b \<Longrightarrow> filled L r e \<Longrightarrow> b < length r \<Longrightarrow>
    pending L r a (Suc b) (e\<lparr>replacement := replacement e @ (if rangesOnly L then [] else r ! b),
      oEnd := Suc b\<rparr>)"
  by (simp add: pending_def filled_def slice_snoc)

lemma pending_fresh: "filled L r (mkEdit a a b b [])"
  by (simp add: filled_def)

lemma editsOf_scripted:
  "path l r a b ops \<Longrightarrow>
     scripted L l r a b (editsOf L r ops a b False []) (pathCost ops)
     \<and> (\<forall>e. pending L r a b e \<longrightarrow> scripted L l r (eBegin e) (oBegin e) (editsOf L r ops a b True [e])
          (pathCost ops + (a - eBegin e) + (b - oBegin e)))"
proof (induction ops arbitrary: a b)
  case Nil
  then show ?case by (auto simp: scripted_def pending_def)
next
  case (Cons op ops)
  show ?case
  proof (cases op)
    case Keep
    let ?es = "editsOf L r ops (Suc a) (Suc b) False []"
    have tail: "scripted L l r (Suc a) (Suc b) ?es (pathCost ops)"
      and keep: "l ! a = r ! b" "a < length l" "b < length r"
      using Cons Keep by auto
    have scr: "script l r a b ?es" using script_keep [OF keep] tail by (simp add: scripted_def)
    have grown: "scripted L l r (eBegin e) (oBegin e) (e # ?es) (pathCost ops + (a - eBegin e) + (b - oBegin e))"
      if "pending L r a b e" for e
      using that scr tail keep
      by (auto simp: scripted_def pending_def separated_Cons split: list.splits)
    have "editsOf L r (op # ops) a b True [e] = e # ?es" for e
      using editsOf_append [of False "[]" L r ops "Suc a" "Suc b" "[e]"] Keep by simp
    moreover have "scripted L l r a b (editsOf L r (op # ops) a b False []) (pathCost (op # ops))"
      using Keep tail scr by (simp add: scripted_def)
    ultimately show ?thesis using grown Keep by simp
  next
    case Del
    have tail: "scripted L l r (eBegin e) (oBegin e) (editsOf L r ops (Suc a) b True [e])
          (pathCost ops + (Suc a - eBegin e) + (b - oBegin e))" if "pending L r (Suc a) b e" for e
      using Cons.IH [of "Suc a" b] Cons.prems Del that by simp
    show ?thesis
    proof (intro conjI allI impI)
      show "scripted L l r a b (editsOf L r (op # ops) a b False []) (pathCost (op # ops))"
        using tail [OF pending_Del [OF _ _ _ _ pending_fresh [of L r a b]]] Del by simp
    next
      fix e assume "pending L r a b e"
      then show "scripted L l r (eBegin e) (oBegin e) (editsOf L r (op # ops) a b True [e])
          (pathCost (op # ops) + (a - eBegin e) + (b - oBegin e))"
        using tail [OF pending_Del [of e a b]] Del by (simp add: pending_def Suc_diff_le)
    qed
  next
    case Ins
    have tail: "scripted L l r (eBegin e) (oBegin e) (editsOf L r ops a (Suc b) True [e])
          (pathCost ops + (a - eBegin e) + (Suc b - oBegin e))" if "pending L r a (Suc b) e" for e
      using Cons.IH [of a "Suc b"] Cons.prems Ins that by simp
    have b: "b < length r" using Cons.prems Ins by simp
    show ?thesis
    proof (intro conjI allI impI)
      show "scripted L l r a b (editsOf L r (op # ops) a b False []) (pathCost (op # ops))"
        using tail [OF pending_Ins [OF _ _ _ _ pending_fresh [of L r a b] b]] Ins by simp
    next
      fix e assume "pending L r a b e"
      then show "scripted L l r (eBegin e) (oBegin e) (editsOf L r (op # ops) a b True [e])
          (pathCost (op # ops) + (a - eBegin e) + (b - oBegin e))"
        using tail [OF pending_Ins [of e a b, OF _ _ _ _ _ b]] Ins by (simp add: pending_def Suc_diff_le)
    qed
  qed
qed

end
