(* ===== verification/LinearDiff.thy ===== *)
theory LinearDiff
  imports EditScript
begin

text \<open>
  The linear space difference engine (\<open>LinearDiff\<close> of \<open>HyperCompare/core/linearDiff.cpp\<close>):
  a stack of at most 128 ranges, each trimmed and then split at a point that lies on the
  furthest paths from both of its corners.  A \<open>Range\<close> is \<open>(a, endA, b, endB)\<close>; the stack is
  a list with \<open>pending[count - 1]\<close> first, so \<open>count\<close> is its length.

  The lemmas show that, whatever point a partition answers with, the guard on that point
  makes the loop end, and that the edits emitted are a script with separated edits.
\<close>

type_synonym range = "nat \<times> nat \<times> nat \<times> nat"

definition LinearDiffWorkspaceBytes :: "nat \<Rightarrow> nat" where
  "LinearDiffWorkspaceBytes lines = (2 * ((lines + 1) div 2) + 3) * 2 * 8 + 128 * 32"

section \<open>Emitting edits\<close>

function collectLines :: "budget \<Rightarrow> str list \<Rightarrow> nat \<Rightarrow> nat \<Rightarrow> str \<Rightarrow> str comp" where
  "collectLines L ls i e out =
    (if i < e then seq (countStep L) (\<lambda>_. collectLines L ls (Suc i) e (out @ ls ! i)) else ret out)"
  by pat_completeness auto
termination
  by (relation "measure (\<lambda>(L, ls, i, e, out). e - i)") auto

declare collectLines.simps [simp del]

definition emitRange :: "budget \<Rightarrow> str list \<Rightarrow> edit list \<Rightarrow> range \<Rightarrow> edit list comp" where
  "emitRange L right edits r = (case r of (a, ea, b, eb) \<Rightarrow>
     if a = ea \<and> b = eb then ret edits
     else let edits' = (if edits = [] \<or> eEnd (last edits) \<noteq> a \<or> oEnd (last edits) \<noteq> b
                        then edits @ [mkEdit a a b b []] else edits);
              e = (last edits')\<lparr>eEnd := ea, oEnd := eb\<rparr>
          in if rangesOnly L then ret (butlast edits' @ [e])
             else seq (collectLines L right b eb (replacement e)) (\<lambda>t.
               ret (butlast edits' @ [e\<lparr>replacement := t\<rparr>])))"

section \<open>The partition of a range\<close>

function forwardSnake :: "budget \<Rightarrow> str list \<Rightarrow> str list \<Rightarrow> range \<Rightarrow> int \<Rightarrow> int \<Rightarrow> (int \<times> int) comp" where
  "forwardSnake L left right (a, ea, b, eb) x y =
    (if x < int (ea - a) \<and> y < int (eb - b) \<and> left ! (a + nat x) = right ! (b + nat y)
     then seq (countStep L) (\<lambda>_. forwardSnake L left right (a, ea, b, eb) (x + 1) (y + 1))
     else ret (x, y))"
  by pat_completeness auto
termination
  by (relation "measure (\<lambda>(L, left, right, (a, ea, b, eb), x, y). nat (int (ea - a) - x))") auto

function reverseSnake :: "budget \<Rightarrow> str list \<Rightarrow> str list \<Rightarrow> range \<Rightarrow> int \<Rightarrow> int \<Rightarrow> (int \<times> int) comp" where
  "reverseSnake L left right (a, ea, b, eb) x y =
    (if x < int (ea - a) \<and> y < int (eb - b) \<and> left ! (ea - 1 - nat x) = right ! (eb - 1 - nat y)
     then seq (countStep L) (\<lambda>_. reverseSnake L left right (a, ea, b, eb) (x + 1) (y + 1))
     else ret (x, y))"
  by pat_completeness auto
termination
  by (relation "measure (\<lambda>(L, left, right, (a, ea, b, eb), x, y). nat (int (ea - a) - x))") auto

text \<open>\<open>k == -d || (k != d && v[at - 1] < v[at + 1]) ? v[at + 1] : v[at - 1] + 1\<close>\<close>

definition furthestStart :: "int list \<Rightarrow> int \<Rightarrow> int \<Rightarrow> nat \<Rightarrow> int" where
  "furthestStart v d k at =
    (if k = - d \<or> (k \<noteq> d \<and> v ! (at - 1) < v ! (at + 1)) then v ! (at + 1) else v ! (at - 1) + 1)"

text \<open>One sweep of the forward diagonals \<open>k, k + 2, ..., d\<close>.\<close>

function forwardRow :: "budget \<Rightarrow> str list \<Rightarrow> str list \<Rightarrow> range \<Rightarrow> int \<Rightarrow> int \<Rightarrow> int list \<Rightarrow> int \<Rightarrow> int list
    \<Rightarrow> (int list \<times> (nat \<times> nat) option) comp" where
  "forwardRow L left right (a, ea, b, eb) offset d reverse k forward =
    (if k \<le> d then
       seq (countStep L) (\<lambda>_.
       let n = int (ea - a); m = int (eb - b); delta = n - m; at = nat (offset + k);
           x0 = furthestStart forward d k at; y0 = x0 - k
       in if x0 < 0 \<or> y0 < 0 \<or> n < x0 \<or> m < y0
          then forwardRow L left right (a, ea, b, eb) offset d reverse (k + 2) (forward[at := -1])
          else seq (forwardSnake L left right (a, ea, b, eb) x0 y0) (\<lambda>(x, y).
            let forward' = forward[at := x]; opposing = delta - k;
                back = reverse ! nat (offset + opposing)
            in if delta mod 2 \<noteq> 0 \<and> - (d - 1) \<le> opposing \<and> opposing \<le> d - 1
                  \<and> 0 \<le> back \<and> n - back \<le> x
               then ret (forward', Some (a + nat x, b + nat y))
               else forwardRow L left right (a, ea, b, eb) offset d reverse (k + 2) forward'))
     else ret (forward, None))"
  by pat_completeness auto
termination
  by (relation "measure (\<lambda>(L, left, right, r, offset, d, reverse, k, forward). nat (d + 1 - k))") auto

text \<open>One sweep of the reverse diagonals.\<close>

function reverseRow :: "budget \<Rightarrow> str list \<Rightarrow> str list \<Rightarrow> range \<Rightarrow> int \<Rightarrow> int \<Rightarrow> int list \<Rightarrow> int \<Rightarrow> int list
    \<Rightarrow> (int list \<times> (nat \<times> nat) option) comp" where
  "reverseRow L left right (a, ea, b, eb) offset d forward k reverse =
    (if k \<le> d then
       seq (countStep L) (\<lambda>_.
       let n = int (ea - a); m = int (eb - b); delta = n - m; at = nat (offset + k);
           x0 = furthestStart reverse d k at; y0 = x0 - k
       in if x0 < 0 \<or> y0 < 0 \<or> n < x0 \<or> m < y0
          then reverseRow L left right (a, ea, b, eb) offset d forward (k + 2) (reverse[at := -1])
          else seq (reverseSnake L left right (a, ea, b, eb) x0 y0) (\<lambda>(x, y).
            let reverse' = reverse[at := x]; opposing = delta - k;
                fx = forward ! nat (offset + opposing)
            in if delta mod 2 = 0 \<and> - d \<le> opposing \<and> opposing \<le> d \<and> 0 \<le> fx \<and> n - x \<le> fx
               then ret (reverse', Some (a + nat fx, b + nat (fx - opposing)))
               else reverseRow L left right (a, ea, b, eb) offset d forward (k + 2) reverse'))
     else ret (reverse, None))"
  by pat_completeness auto
termination
  by (relation "measure (\<lambda>(L, left, right, r, offset, d, forward, k, reverse). nat (d + 1 - k))") auto

declare forwardSnake.simps [simp del] reverseSnake.simps [simp del]
  forwardRow.simps [simp del] reverseRow.simps [simp del]

function partitionLoop :: "budget \<Rightarrow> str list \<Rightarrow> str list \<Rightarrow> range \<Rightarrow> int \<Rightarrow> int \<Rightarrow> int list \<Rightarrow> int list
    \<Rightarrow> (nat \<times> nat) comp" where
  "partitionLoop L left right r maximum d forward reverse =
    (if d \<le> maximum then
       seq (check L) (\<lambda>_.
       seq (forwardRow L left right r (maximum + 1) d reverse (- d) forward) (\<lambda>(forward', hit).
       case hit of Some p \<Rightarrow> ret p
       | None \<Rightarrow> seq (reverseRow L left right r (maximum + 1) d forward' (- d) reverse) (\<lambda>(reverse', hit').
         case hit' of Some p \<Rightarrow> ret p
         | None \<Rightarrow> partitionLoop L left right r maximum (d + 1) forward' reverse')))
     else throw ''DiffPartition'')"
  by pat_completeness auto
termination
  by (relation "measure (\<lambda>(L, left, right, r, maximum, d, forward, reverse). nat (maximum + 1 - d))") auto

declare partitionLoop.simps [simp del]

text \<open>
  The vectors are reused between partitions; each partition first fills the
  \<open>2 * maximum + 3\<close> entries that it reads.
\<close>

definition partitionRange :: "budget \<Rightarrow> str list \<Rightarrow> str list \<Rightarrow> range \<Rightarrow> (nat \<times> nat) comp" where
  "partitionRange L left right r = (case r of (a, ea, b, eb) \<Rightarrow>
     let maximum = (int (ea - a) + int (eb - b) + 1) div 2;
         v = (replicate (nat (2 * maximum + 3)) (-1))[nat (maximum + 2) := 0]
     in partitionLoop L left right r maximum 0 v v)"

section \<open>The ranges\<close>

function trimFront :: "budget \<Rightarrow> str list \<Rightarrow> str list \<Rightarrow> range \<Rightarrow> range comp" where
  "trimFront L left right (a, ea, b, eb) =
    (if a < ea \<and> b < eb \<and> left ! a = right ! b
     then seq (countStep L) (\<lambda>_. trimFront L left right (Suc a, ea, Suc b, eb))
     else ret (a, ea, b, eb))"
  by pat_completeness auto
termination
  by (relation "measure (\<lambda>(L, left, right, (a, ea, b, eb)). ea - a)") auto

function trimBack :: "budget \<Rightarrow> str list \<Rightarrow> str list \<Rightarrow> range \<Rightarrow> range comp" where
  "trimBack L left right (a, ea, b, eb) =
    (if a < ea \<and> b < eb \<and> left ! (ea - 1) = right ! (eb - 1)
     then seq (countStep L) (\<lambda>_. trimBack L left right (a, ea - 1, b, eb - 1))
     else ret (a, ea, b, eb))"
  by pat_completeness auto
termination
  by (relation "measure (\<lambda>(L, left, right, (a, ea, b, eb)). ea - a)") auto

function findLine :: "budget \<Rightarrow> str list \<Rightarrow> str \<Rightarrow> nat \<Rightarrow> nat \<Rightarrow> nat comp" where
  "findLine L ls t at e =
    (if at < e then seq (countStep L) (\<lambda>_. if ls ! at = t then ret at else findLine L ls t (Suc at) e)
     else ret at)"
  by pat_completeness auto
termination
  by (relation "measure (\<lambda>(L, ls, t, at, e). e - at)") auto

declare trimFront.simps [simp del] trimBack.simps [simp del] findLine.simps [simp del]

text \<open>
  The body of \<open>while (count)\<close> after the range has been trimmed: the edits so far and the
  ranges pushed, the one on top first.  \<open>count\<close> is the number of ranges that still wait.
\<close>

definition splitRange :: "budget \<Rightarrow> str list \<Rightarrow> str list \<Rightarrow> nat \<Rightarrow> edit list \<Rightarrow> range
    \<Rightarrow> (edit list \<times> range list) comp" where
  "splitRange L left right count edits r = (case r of (a, ea, b, eb) \<Rightarrow>
     if a = ea \<or> b = eb then seq (emitRange L right edits r) (\<lambda>es. ret (es, []))
     else if ea - a = 1 then
       seq (findLine L right (left ! a) b eb) (\<lambda>at.
       if at = eb then seq (emitRange L right edits r) (\<lambda>es. ret (es, []))
       else seq (emitRange L right edits (a, a, b, at)) (\<lambda>es.
            seq (emitRange L right es (ea, ea, at + 1, eb)) (\<lambda>es'. ret (es', []))))
     else if eb - b = 1 then
       seq (findLine L left (right ! b) a ea) (\<lambda>at.
       if at = ea then seq (emitRange L right edits r) (\<lambda>es. ret (es, []))
       else seq (emitRange L right edits (a, at, b, b)) (\<lambda>es.
            seq (emitRange L right es (at + 1, ea, eb, eb)) (\<lambda>es'. ret (es', []))))
     else seq (partitionRange L left right r) (\<lambda>(x, y).
       if (x = a \<and> y = b) \<or> (x = ea \<and> y = eb) \<or> x < a \<or> ea < x \<or> y < b \<or> eb < y
       then throw ''DiffPartition''
       else if 128 < count + 2 then throw ''DiffMemoryLimit''
       else ret (edits, [(a, x, b, y), (x, ea, y, eb)])))"

definition stepRange :: "budget \<Rightarrow> str list \<Rightarrow> str list \<Rightarrow> nat \<Rightarrow> edit list \<Rightarrow> range
    \<Rightarrow> (edit list \<times> range list) comp" where
  "stepRange L left right count edits r =
    seq (check L) (\<lambda>_. seq (trimFront L left right r) (\<lambda>r'. seq (trimBack L left right r') (\<lambda>r''.
      splitRange L left right count edits r'')))"

subsection \<open>The loop ends\<close>

fun rangeSize :: "range \<Rightarrow> nat" where
  "rangeSize (a, ea, b, eb) = (ea - a) + (eb - b)"

definition weight :: "range \<Rightarrow> nat" where
  "weight r = max 1 (2 * rangeSize r - 1)"

definition stackWeight :: "range list \<Rightarrow> nat" where
  "stackWeight rs = sum_list (map weight rs)"

lemma stackWeight_simps [simp]:
  "stackWeight [] = 0" "stackWeight (r # rs) = weight r + stackWeight rs"
  "stackWeight (rs @ ss) = stackWeight rs + stackWeight ss"
  by (simp_all add: stackWeight_def)

text \<open>What the engine can fail with, besides the failures of the environment.\<close>

definition workFailure :: "budget \<Rightarrow> failure \<Rightarrow> bool" where
  "workFailure L e \<longleftrightarrow> envFailure L e \<or> e \<in> {''DiffWorkLimit'', ''DiffMemoryLimit'', ''DiffPartition''}"

lemma work_step: "yields (countStep L) (\<lambda>_. True) (workFailure L)"
  "yields (check L) (\<lambda>_. True) (workFailure L)"
  by (auto intro!: yields_countStep yields_check simp: workFailure_def)

text \<open>Trimming moves an end of the range past lines that are equal on both sides.\<close>

fun cutFront :: "str list \<Rightarrow> str list \<Rightarrow> range \<Rightarrow> range \<Rightarrow> bool" where
  "cutFront left right (a, ea, b, eb) r' \<longleftrightarrow> (\<exists>k. r' = (a + k, ea, b + k, eb)
     \<and> (k = 0 \<or> a + k \<le> ea \<and> b + k \<le> eb) \<and> (\<forall>i < k. left ! (a + i) = right ! (b + i)))"

fun cutBack :: "str list \<Rightarrow> str list \<Rightarrow> range \<Rightarrow> range \<Rightarrow> bool" where
  "cutBack left right (a, ea, b, eb) r' \<longleftrightarrow> (\<exists>k. r' = (a, ea - k, b, eb - k)
     \<and> (k = 0 \<or> a + k \<le> ea \<and> b + k \<le> eb)
     \<and> (\<forall>i < k. left ! (ea - k + i) = right ! (eb - k + i)))"

lemma cutFront_Suc:
  assumes "a < ea" "b < eb" "left ! a = right ! b" "cutFront left right (Suc a, ea, Suc b, eb) r'"
  shows "cutFront left right (a, ea, b, eb) r'"
proof -
  obtain k where k: "r' = (Suc a + k, ea, Suc b + k, eb)" "k = 0 \<or> Suc a + k \<le> ea \<and> Suc b + k \<le> eb"
    "\<forall>i < k. left ! (Suc a + i) = right ! (Suc b + i)"
    using assms(4) by auto
  have "\<forall>i < Suc k. left ! (a + i) = right ! (b + i)"
    using k(3) assms(3) by (simp add: All_less_Suc2)
  then show ?thesis using k(1,2) assms(1,2) by (auto intro!: exI [of _ "Suc k"])
qed

lemma cutBack_Suc:
  assumes "a < ea" "b < eb" "left ! (ea - 1) = right ! (eb - 1)"
    "cutBack left right (a, ea - 1, b, eb - 1) r'"
  shows "cutBack left right (a, ea, b, eb) r'"
proof -
  obtain k where k: "r' = (a, ea - 1 - k, b, eb - 1 - k)"
    "k = 0 \<or> a + k \<le> ea - 1 \<and> b + k \<le> eb - 1"
    "\<forall>i < k. left ! (ea - 1 - k + i) = right ! (eb - 1 - k + i)"
    using assms(4) by auto
  have le: "k \<le> ea - 1" "k \<le> eb - 1" using k(2) by auto
  have "left ! (ea - Suc k + i) = right ! (eb - Suc k + i)" if "i < Suc k" for i
  proof (cases "i = k")
    case True
    have "ea - Suc k + k = ea - 1" "eb - Suc k + k = eb - 1" using le assms(1,2) by linarith+
    then show ?thesis using True assms(3) by simp
  next
    case False
    then show ?thesis using k(3) that by simp
  qed
  then show ?thesis using k(1,2) assms(1,2) unfolding cutBack.simps
    by (intro exI [of _ "Suc k"]) (simp, linarith)
qed

lemma trimFront_yields:
  "yields (trimFront L left right r) (cutFront left right r) (workFailure L)"
proof (induction L left right r rule: trimFront.induct)
  case (1 L left right a ea b eb)
  show ?case
  proof (cases "a < ea \<and> b < eb \<and> left ! a = right ! b")
    case True
    have code: "trimFront L left right (a, ea, b, eb)
        = seq (countStep L) (\<lambda>_. trimFront L left right (Suc a, ea, Suc b, eb))"
      using True by (subst trimFront.simps) (simp only: if_True simp_thms)
    show ?thesis unfolding code
      by (rule yields_seq [OF work_step(1)], rule yields_weaken [OF 1 [OF True]])
         (use True cutFront_Suc in blast)+
  next
    case False
    then show ?thesis by (subst trimFront.simps) (auto intro!: yields_ret exI [of _ 0])
  qed
qed

lemma trimBack_yields:
  "yields (trimBack L left right r) (cutBack left right r) (workFailure L)"
proof (induction L left right r rule: trimBack.induct)
  case (1 L left right a ea b eb)
  show ?case
  proof (cases "a < ea \<and> b < eb \<and> left ! (ea - 1) = right ! (eb - 1)")
    case True
    have code: "trimBack L left right (a, ea, b, eb)
        = seq (countStep L) (\<lambda>_. trimBack L left right (a, ea - 1, b, eb - 1))"
      using True by (subst trimBack.simps) (simp only: if_True simp_thms)
    show ?thesis unfolding code
      by (rule yields_seq [OF work_step(1)], rule yields_weaken [OF 1 [OF True]])
         (use True cutBack_Suc in blast)+
  next
    case False
    then show ?thesis by (subst trimBack.simps) (auto intro!: yields_ret exI [of _ 0])
  qed
qed

subsection \<open>The edits are a script\<close>

lemma collectLines_yields:
  "i \<le> e \<Longrightarrow> e \<le> length ls \<Longrightarrow>
    yields (collectLines L ls i e out) (\<lambda>t. t = out @ concat (slice ls i e)) (workFailure L)"
proof (induction L ls i e out rule: collectLines.induct)
  case (1 L ls i e out)
  show ?case
  proof (cases "i < e")
    case True
    have code: "collectLines L ls i e out
        = seq (countStep L) (\<lambda>_. collectLines L ls (Suc i) e (out @ ls ! i))"
      using True by (subst collectLines.simps) simp
    have unfold: "concat (slice ls i e) = ls ! i @ concat (slice ls (Suc i) e)"
      using True 1(3) by (simp add: slice_Cons [of i e])
    show ?thesis unfolding code
      by (rule yields_seq [OF work_step(1)], rule yields_weaken [OF 1(1) [OF True]])
         (use True 1(3) unfold in auto)
  next
    case False
    then show ?thesis using 1(2)
      by (subst collectLines.simps) (auto intro: yields_ret)
  qed
qed

lemma filled_text:
  "filled L r (e\<lparr>replacement := t\<rparr>) \<longleftrightarrow> t = (if rangesOnly L then [] else concat (slice r (oBegin e) (oEnd e)))"
  by (simp add: filled_def)

text \<open>The edit that \<open>emit\<close> works on, and what becomes of it.\<close>

lemma grown_emit:
  assumes "grown L l r es a b" "a \<le> ea" "ea \<le> length l" "b \<le> eb" "eb \<le> length r" "a < ea \<or> b < eb"
    and es': "es' = (if es = [] \<or> eEnd (last es) \<noteq> a \<or> oEnd (last es) \<noteq> b
                then es @ [mkEdit a a b b []] else es)"
  shows "es' \<noteq> [] \<and> oBegin (last es') \<le> b
    \<and> replacement (last es') = (if rangesOnly L then [] else concat (slice r (oBegin (last es')) b))
    \<and> (\<forall>e. eBegin e = eBegin (last es') \<longrightarrow> oBegin e = oBegin (last es') \<longrightarrow> eEnd e = ea \<longrightarrow> oEnd e = eb
         \<longrightarrow> filled L r e \<longrightarrow> grown L l r (butlast es' @ [e]) ea eb)"
proof (cases "es = [] \<or> eEnd (last es) \<noteq> a \<or> oEnd (last es) \<noteq> b")
  case True
  have "es = [] \<or> eEnd (last es) < a"
    using True grown_last [OF assms(1)] spansTo_Nil_diff [OF grown_last [OF assms(1)]] by fastforce
  then have "grown L l r (es @ [e]) ea eb"
    if "eBegin e = a" "oBegin e = b" "eEnd e = ea" "oEnd e = eb" "filled L r e" for e
    using grown_new [OF assms(1), of e] that assms(2-6) by simp
  then show ?thesis using True es' by simp
next
  case False
  let ?f = "last es"
  have es: "es = butlast es @ [?f]" "es' = es" "eEnd ?f = a" "oEnd ?f = b" using False es' by auto
  have "spansTo l r 0 0 (butlast es @ [?f]) a b" "filled L r ?f"
    using assms(1) False es(1) by (auto simp: grown_def)
  then have "oBegin ?f \<le> b"
    "replacement ?f = (if rangesOnly L then [] else concat (slice r (oBegin ?f) b))"
    using False by (simp_all add: spansTo_snoc filled_def)
  moreover have "grown L l r (butlast es @ [e]) ea eb"
    if "eBegin e = eBegin ?f" "oBegin e = oBegin ?f" "eEnd e = ea" "oEnd e = eb" "filled L r e" for e
    using grown_extend [of L l r "butlast es" ?f e] assms(1-6) es that by simp
  ultimately show ?thesis using False es(2) by simp
qed

lemma emitRange_yields:
  assumes "grown L l r es a b" "a \<le> ea" "ea \<le> length l" "b \<le> eb" "eb \<le> length r"
  shows "yields (emitRange L r es (a, ea, b, eb)) (\<lambda>es'. grown L l r es' ea eb) (workFailure L)"
proof (cases "a = ea \<and> b = eb")
  case True
  then show ?thesis using assms(1) by (simp add: emitRange_def yields_ret)
next
  case False
  define es' where "es' = (if es = [] \<or> eEnd (last es) \<noteq> a \<or> oEnd (last es) \<noteq> b
                then es @ [mkEdit a a b b []] else es)"
  define e where "e = (last es')\<lparr>eEnd := ea, oEnd := eb\<rparr>"
  have "a < ea \<or> b < eb" using False assms by auto
  note emit = grown_emit [OF assms this es'_def]
  have code: "emitRange L r es (a, ea, b, eb) =
      (if rangesOnly L then ret (butlast es' @ [e])
       else seq (collectLines L r b eb (replacement e)) (\<lambda>t. ret (butlast es' @ [e\<lparr>replacement := t\<rparr>])))"
    unfolding emitRange_def Let_def es'_def e_def prod.case using False by (simp only: if_False)
  have ranges: "grown L l r (butlast es' @ [e]) ea eb" if "rangesOnly L"
    using emit that by (simp add: e_def filled_def)
  have "concat (slice r (oBegin (last es')) b) @ concat (slice r b eb)
      = concat (slice r (oBegin (last es')) eb)"
    using emit assms(4) by (simp flip: concat_append add: slice_append)
  then have texts: "grown L l r (butlast es' @ [e\<lparr>replacement := replacement e @ concat (slice r b eb)\<rparr>]) ea eb"
    if "\<not> rangesOnly L"
    using emit that by (simp add: e_def filled_def)
  show ?thesis unfolding code
    by (rule yields_if, rule yields_ret, erule ranges, rule yields_seq [OF collectLines_yields [OF assms(4,5)]])
       (use texts in \<open>auto intro: yields_ret\<close>)
qed

text \<open>The ranges that wait: between two of them, and after the last one, the lines are equal.\<close>

fun chain :: "str list \<Rightarrow> str list \<Rightarrow> nat \<Rightarrow> nat \<Rightarrow> range list \<Rightarrow> bool" where
  "chain l r x y [] \<longleftrightarrow> spansTo l r x y [] (length l) (length r)"
| "chain l r x y ((a, ea, b, eb) # rs) \<longleftrightarrow>
     spansTo l r x y [] a b \<and> a \<le> ea \<and> b \<le> eb \<and> ea \<le> length l \<and> eb \<le> length r \<and> chain l r ea eb rs"

lemma chain_keeps:
  assumes "spansTo l r x y [] x' y'" "chain l r x' y' rs"
  shows "chain l r x y rs"
proof (cases rs)
  case Nil
  then show ?thesis using assms spansTo_trans by (metis chain.simps(1))
next
  case (Cons q rs')
  obtain a ea b eb where "q = (a, ea, b, eb)" by (cases q)
  then show ?thesis
    using assms spansTo_trans [of l r x y x' y' a b] Cons by (simp del: spansTo.simps)
qed

lemma spansTo_run:
  assumes "\<forall>i < k. l ! (a + i) = r ! (b + i)" "a + k \<le> length l" "b + k \<le> length r"
  shows "spansTo l r a b [] (a + k) (b + k)"
proof -
  have "slice l a (a + k) = slice r b (b + k)"
    by (rule nth_equalityI) (use assms in \<open>simp_all add: slice_nth\<close>)
  then show ?thesis using assms by simp
qed

lemma findLine_yields:
  "yields (findLine L ls t i e) (\<lambda>at. i \<le> e \<longrightarrow> i \<le> at \<and> at \<le> e \<and> (at < e \<longrightarrow> ls ! at = t)) (workFailure L)"
proof (induction L ls t i e rule: findLine.induct)
  case (1 L ls t i e)
  show ?case
  proof (cases "i < e")
    case True
    have code: "findLine L ls t i e
        = seq (countStep L) (\<lambda>_. if ls ! i = t then ret i else findLine L ls t (Suc i) e)"
      using True by (subst findLine.simps) (simp only: if_True)
    show ?thesis unfolding code
      by (rule yields_seq [OF work_step(1)], rule yields_if, rule yields_ret, simp add: True,
          rule yields_weaken [OF 1(1) [OF True]]) (use True in auto)
  next
    case False
    then show ?thesis by (subst findLine.simps) (auto intro: yields_ret)
  qed
qed

subsection \<open>One range\<close>

text \<open>
  What the loop keeps true: the edits reach a point from which the waiting ranges continue.
\<close>

definition progress :: "budget \<Rightarrow> str list \<Rightarrow> str list \<Rightarrow> edit list \<Rightarrow> range list \<Rightarrow> bool" where
  "progress L l r es rs \<longleftrightarrow> (\<exists>x y. grown L l r es x y \<and> chain l r x y rs)"

lemma progress_pop:
  "progress L l r es ((a, ea, b, eb) # rs) \<Longrightarrow>
    grown L l r es a b \<and> a \<le> ea \<and> ea \<le> length l \<and> b \<le> eb \<and> eb \<le> length r \<and> chain l r ea eb rs"
  using grown_keeps by (auto simp: progress_def simp del: spansTo.simps)

lemma progress_push:
  "grown L l r es a b \<Longrightarrow> chain l r a b rs \<Longrightarrow> progress L l r es rs"
  by (auto simp: progress_def)

lemma spansTo_refl: "a \<le> length l \<Longrightarrow> b \<le> length r \<Longrightarrow> spansTo l r a b [] a b"
  by simp

lemma progress_trim:
  assumes "progress L l r es ((a, ea, b, eb) # rs)"
    and "cutFront l r (a, ea, b, eb) q" "cutBack l r q q'"
  shows "progress L l r es (q' # rs) \<and> rangeSize q' \<le> rangeSize (a, ea, b, eb)"
proof -
  note p = progress_pop [OF assms(1)]
  obtain i where i: "q = (a + i, ea, b + i, eb)" "i = 0 \<or> a + i \<le> ea \<and> b + i \<le> eb"
    "\<forall>j < i. l ! (a + j) = r ! (b + j)" using assms(2) by auto
  then have i': "a + i \<le> ea" "b + i \<le> eb" using p by auto
  have front: "grown L l r es (a + i) (b + i)"
    by (rule grown_keeps [OF _ spansTo_run]) (use p i i' in auto)
  obtain k where k: "q' = (a + i, ea - k, b + i, eb - k)" "k = 0 \<or> a + i + k \<le> ea \<and> b + i + k \<le> eb"
    "\<forall>j < k. l ! (ea - k + j) = r ! (eb - k + j)" using assms(3) i(1) by auto
  then have k': "a + i \<le> ea - k" "b + i \<le> eb - k" "k \<le> ea" "k \<le> eb" using i' by auto
  have "spansTo l r (ea - k) (eb - k) [] (ea - k + k) (eb - k + k)"
    by (rule spansTo_run) (use p k' k(3) in auto)
  then have "spansTo l r (ea - k) (eb - k) [] ea eb"
    using k'(3,4) by (simp only: le_add_diff_inverse2)
  from chain_keeps [OF this] have "chain l r (ea - k) (eb - k) rs" using p by blast
  moreover have "ea - k \<le> length l" "eb - k \<le> length r" using p by linarith+
  ultimately have "chain l r (a + i) (b + i) (q' # rs)"
    using k(1) k'(1,2) grown_bounds [OF front] by simp
  from progress_push [OF front this] k(1) show ?thesis by auto
qed

lemma forwardSnake_yields: "yields (forwardSnake L l r q x y) (\<lambda>_. True) (workFailure L)"
proof (induction L l r q x y rule: forwardSnake.induct)
  case (1 L left right a ea b eb x y)
  then show ?case
    by (subst forwardSnake.simps) (auto intro!: yields_rules yields_seq [OF work_step(1)])
qed

lemma reverseSnake_yields: "yields (reverseSnake L l r q x y) (\<lambda>_. True) (workFailure L)"
proof (induction L l r q x y rule: reverseSnake.induct)
  case (1 L left right a ea b eb x y)
  then show ?case
    by (subst reverseSnake.simps) (auto intro!: yields_rules yields_seq [OF work_step(1)])
qed

lemma forwardRow_yields: "yields (forwardRow L l r q offset d opp k v) (\<lambda>_. True) (workFailure L)"
proof (induction L l r q offset d opp k v rule: forwardRow.induct)
  case (1 L left right a ea b eb offset d opp k v)
  show ?case
    by (subst forwardRow.simps, unfold Let_def, intro yields_rules yields_seq [OF work_step(1)]
         yields_seq [OF forwardSnake_yields] TrueI) (rule 1; (assumption | rule refl))+
qed

lemma reverseRow_yields: "yields (reverseRow L l r q offset d opp k v) (\<lambda>_. True) (workFailure L)"
proof (induction L l r q offset d opp k v rule: reverseRow.induct)
  case (1 L left right a ea b eb offset d opp k v)
  show ?case
    by (subst reverseRow.simps, unfold Let_def, intro yields_rules yields_seq [OF work_step(1)]
         yields_seq [OF reverseSnake_yields] TrueI) (rule 1; (assumption | rule refl))+
qed

lemma partitionLoop_yields: "yields (partitionLoop L l r q maximum d v u) (\<lambda>_. True) (workFailure L)"
proof (induction L l r q maximum d v u rule: partitionLoop.induct)
  case (1 L left right q maximum d v u)
  have "workFailure L ''DiffPartition''" by (simp add: workFailure_def)
  then show ?case
    by (subst partitionLoop.simps, intro yields_rules yields_seq [OF work_step(2)]
         yields_seq [OF forwardRow_yields] yields_seq [OF reverseRow_yields] TrueI)
       ((rule 1; (assumption | rule refl)) | assumption)+
qed

lemma partitionRange_yields: "yields (partitionRange L l r q) (\<lambda>_. True) (workFailure L)"
  by (auto simp: partitionRange_def Let_def intro: partitionLoop_yields split: prod.splits)

lemma splitRange_yields:
  assumes "progress L l r es (q # rs)"
  shows "yields (splitRange L l r count es q) (\<lambda>(es', qs). progress L l r es' (qs @ rs)
     \<and> stackWeight qs < weight q \<and> (qs \<noteq> [] \<longrightarrow> count + length qs \<le> 128)) (workFailure L)"
    (is "yields _ ?P _")
proof -
  obtain a ea b eb where q: "q = (a, ea, b, eb)" by (cases q)
  have p: "grown L l r es a b" "a \<le> ea" "ea \<le> length l" "b \<le> eb" "eb \<le> length r" "chain l r ea eb rs"
    using progress_pop [OF assms [unfolded q]] by blast+
  have emit: "yields (emitRange L r es' (a', x, b', y)) (\<lambda>es''. grown L l r es'' x y) (workFailure L)"
    if "grown L l r es' a' b'" "a' \<le> x" "x \<le> ea" "b' \<le> y" "y \<le> eb" for es' a' b' x y
    by (rule emitRange_yields [OF that(1)]) (use p that in linarith)+
  have finish: "yields (seq (emitRange L r es' (a', ea, b', eb)) (\<lambda>es. ret (es, []))) ?P (workFailure L)"
    if "grown L l r es' a' b'" "a' \<le> ea" "b' \<le> eb" for es' a' b'
  proof (rule yields_seq [OF emit [OF that(1,2) order_refl that(3) order_refl]])
    fix es'' assume "grown L l r es'' ea eb"
    then show "yields (ret (es'', [])) ?P (workFailure L)"
      by (intro yields_ret) (use p progress_push in \<open>simp add: weight_def\<close>)
  qed
  have matched: "grown L l r es' (a' + 1) (b' + 1)"
    if "grown L l r es' a' b'" "l ! a' = r ! b'" "a' < length l" "b' < length r" for es' a' b'
    by (rule grown_keeps [OF that(1)], rule spansTo_run) (use that in simp_all)
  have around: "yields (seq (emitRange L r es (a, x, b, y)) (\<lambda>es1.
      seq (emitRange L r es1 (x + 1, ea, y + 1, eb)) (\<lambda>es2. ret (es2, [])))) ?P (workFailure L)"
    if "a \<le> x" "x < ea" "b \<le> y" "y < eb" "l ! x = r ! y" for x y
    by (rule yields_seq [OF emit [OF p(1) that(1) less_imp_le [OF that(2)] that(3)
          less_imp_le [OF that(4)]]], rule finish, erule matched) (use p that in auto)
  show ?thesis
  proof (cases "a = ea \<or> b = eb")
    case True
    then have code: "splitRange L l r count es q = seq (emitRange L r es (a, ea, b, eb)) (\<lambda>es. ret (es, []))"
      unfolding splitRange_def q prod.case by simp
    show ?thesis unfolding code by (rule finish) (use p in auto)
  next
    case nonempty: False
    show ?thesis
    proof (cases "ea - a = 1")
      case True
      then have ea: "ea = a + 1" by simp
      have code: "splitRange L l r count es q = seq (findLine L r (l ! a) b eb) (\<lambda>at.
         if at = eb then seq (emitRange L r es (a, ea, b, eb)) (\<lambda>es. ret (es, []))
         else seq (emitRange L r es (a, a, b, at)) (\<lambda>es.
            seq (emitRange L r es (a + 1, ea, at + 1, eb)) (\<lambda>es'. ret (es', []))))"
        unfolding splitRange_def q prod.case using nonempty True ea by (simp cong: if_cong)
      show ?thesis unfolding code
        by (rule yields_seq [OF findLine_yields], rule yields_if, rule finish [OF p(1,2,4)],
            rule around) (use p nonempty ea in auto)
    next
      case wide: False
      show ?thesis
      proof (cases "eb - b = 1")
        case True
        then have eb: "eb = b + 1" by simp
        have code: "splitRange L l r count es q = seq (findLine L l (r ! b) a ea) (\<lambda>at.
           if at = ea then seq (emitRange L r es (a, ea, b, eb)) (\<lambda>es. ret (es, []))
           else seq (emitRange L r es (a, at, b, b)) (\<lambda>es.
              seq (emitRange L r es (at + 1, ea, b + 1, eb)) (\<lambda>es'. ret (es', []))))"
          unfolding splitRange_def q prod.case using nonempty wide True eb by (simp cong: if_cong)
        show ?thesis unfolding code
          by (rule yields_seq [OF findLine_yields], rule yields_if, rule finish [OF p(1,2,4)],
              rule around) (use p nonempty eb in auto)
      next
        case False
        have code: "splitRange L l r count es q = seq (partitionRange L l r q) (\<lambda>(x, y).
           if (x = a \<and> y = b) \<or> (x = ea \<and> y = eb) \<or> x < a \<or> ea < x \<or> y < b \<or> eb < y
           then throw ''DiffPartition''
           else if 128 < count + 2 then throw ''DiffMemoryLimit''
           else ret (es, [(a, x, b, y), (x, ea, y, eb)]))"
          unfolding splitRange_def q prod.case using nonempty wide False by simp
        have pushed: "?P (es, [(a, x, b, y), (x, ea, y, eb)])"
          if "\<not> (x = a \<and> y = b \<or> x = ea \<and> y = eb \<or> x < a \<or> ea < x \<or> y < b \<or> eb < y)"
            "\<not> 128 < count + 2" for x y
        proof -
          have inner: "a \<le> x" "x \<le> ea" "b \<le> y" "y \<le> eb" using that(1) by auto
          have "(a < x \<or> b < y) \<and> (x < ea \<or> y < eb)" using that(1) by auto
          then have "weight (a, x, b, y) + weight (x, ea, y, eb) < weight q"
            using inner by (auto simp: q weight_def)
          moreover have "progress L l r es ([(a, x, b, y), (x, ea, y, eb)] @ rs)"
            by (rule progress_push [OF p(1)]) (use p inner in auto)
          ultimately show ?thesis using that(2) by simp
        qed
        have failures: "workFailure L ''DiffPartition''" "workFailure L ''DiffMemoryLimit''"
          by (simp_all add: workFailure_def)
        show ?thesis unfolding code
          by (rule yields_seq [OF partitionRange_yields], intro yields_rules)
             ((rule failures | rule pushed); assumption?)+
      qed
    qed
  qed
qed

section \<open>The engine\<close>

lemma stepRange_yields:
  assumes "progress L l r es (q # rs)"
  shows "yields (stepRange L l r count es q) (\<lambda>(es', qs). progress L l r es' (qs @ rs)
     \<and> (qs \<noteq> [] \<longrightarrow> count + length qs \<le> 128)) (workFailure L)"
proof -
  obtain a ea b eb where q: "q = (a, ea, b, eb)" by (cases q)
  show ?thesis unfolding stepRange_def
    by (rule yields_seq [OF work_step(2)], rule yields_seq [OF trimFront_yields],
        rule yields_seq [OF trimBack_yields], rule yields_weaken [OF splitRange_yields])
       (use progress_trim assms q in \<open>auto split: prod.splits\<close>)
qed

text \<open>The guard alone makes the waiting ranges smaller, whatever the lines are.\<close>

lemma weight_pos: "0 < weight q"
  by (simp add: weight_def)

lemma weight_split:
  assumes "\<not> (x = a \<and> y = b \<or> x = ea \<and> y = eb \<or> x < a \<or> ea < x \<or> y < b \<or> eb < y)"
  shows "stackWeight [(a, x, b, y), (x, ea, y, eb)] < weight (a, ea, b, eb)"
proof -
  have inner: "a \<le> x" "x \<le> ea" "b \<le> y" "y \<le> eb" using assms by auto
  have "(a < x \<or> b < y) \<and> (x < ea \<or> y < eb)" using assms by auto
  then show ?thesis using inner by (auto simp: weight_def)
qed

lemma splitRange_shrinks:
  "yields (splitRange L l r count es q) (\<lambda>v. stackWeight (snd v) < weight q) (\<lambda>_. True)"
proof -
  obtain a ea b eb where q: "q = (a, ea, b, eb)" by (cases q)
  have empty: "stackWeight (snd (es', [])) < weight q'" for es' :: "edit list" and q'
    by (simp add: weight_pos)
  show ?thesis unfolding splitRange_def q prod.case
    by (intro yields_rules yields_seq [OF yields_trivial] TrueI empty)
       (unfold snd_conv, rule weight_split)
qed

lemma rangeSize_cut:
  "cutFront l r q q' \<Longrightarrow> rangeSize q' \<le> rangeSize q"
  "cutBack l r q q' \<Longrightarrow> rangeSize q' \<le> rangeSize q"
  by (cases q, auto)+

lemma stepRange_shrinks:
  "yields (stepRange L l r count es q) (\<lambda>v. stackWeight (snd v) < weight q) (\<lambda>_. True)"
  unfolding stepRange_def
proof (rule yields_seq [OF yields_trivial], rule yields_seq [OF yields_weaken [OF trimFront_yields]])
  fix q' assume "cutFront l r q q'"
  then have front: "rangeSize q' \<le> rangeSize q" by (rule rangeSize_cut)
  show "yields (seq (trimBack L l r q') (splitRange L l r count es))
      (\<lambda>v. stackWeight (snd v) < weight q) (\<lambda>_. True)"
  proof (rule yields_seq [OF yields_weaken [OF trimBack_yields]])
    fix q'' assume "cutBack l r q' q''"
    then have "weight q'' \<le> weight q"
      using rangeSize_cut(2) [of l r q' q''] front by (auto simp: weight_def)
    then show "yields (splitRange L l r count es q'') (\<lambda>v. stackWeight (snd v) < weight q) (\<lambda>_. True)"
      by (rule_tac yields_weaken [OF splitRange_shrinks]) auto
  qed auto
qed auto

declare seq_cong [fundef_cong]

function linearLoop :: "budget \<Rightarrow> str list \<Rightarrow> str list \<Rightarrow> edit list \<Rightarrow> range list \<Rightarrow> edit list comp" where
  "linearLoop L left right edits [] = ret edits"
| "linearLoop L left right edits (r # pending) =
    seq (stepRange L left right (length pending) edits r) (\<lambda>v.
      linearLoop L left right (fst v) (snd v @ pending))"
  by pat_completeness auto
termination
proof (relation "measure (\<lambda>(L, left, right, edits, pending). stackWeight pending)", goal_cases)
  case (2 L left right edits r pending v w w')
  then show ?case using yieldsD [OF stepRange_shrinks] by fastforce
qed simp

declare seq_cong [fundef_cong del]
declare linearLoop.simps(2) [simp del]

definition LinearDiff :: "str list \<Rightarrow> str list \<Rightarrow> nat \<Rightarrow> nat \<Rightarrow> budget \<Rightarrow> edit list comp" where
  "LinearDiff left right pre suf L =
    seq (check L) (\<lambda>_.
    if length left < pre \<or> length right < pre \<or> length left - pre < suf \<or> length right - pre < suf
    then throw ''InvalidDiffRange''
    else if traceBytes L < LinearDiffWorkspaceBytes (length left + length right - 2 * (pre + suf))
    then throw ''DiffMemoryLimit''
    else seq (linearLoop L left right [] [(pre, length left - suf, pre, length right - suf)]) (\<lambda>edits.
         seq (check L) (\<lambda>_. ret edits)))"

lemma linearLoop_yields:
  "progress L l r es rs \<Longrightarrow> yields (linearLoop L l r es rs) (diffOf L l r) (workFailure L)"
proof (induction L l r es rs rule: linearLoop.induct)
  case (1 L l r es)
  then obtain x y where "grown L l r es x y" "spansTo l r x y [] (length l) (length r)"
    unfolding progress_def chain.simps by blast
  then show ?case
    unfolding linearLoop.simps by (blast intro: yields_ret grown_final grown_keeps)
next
  case (2 L l r es q rs)
  show ?case unfolding linearLoop.simps
  proof (rule yields_seq_run [OF stepRange_yields [OF 2(2)]])
    fix v w w'
    assume run: "stepRange L l r (length rs) es q w = (Inr v, w')"
      and "case v of (es', qs) \<Rightarrow> progress L l r es' (qs @ rs) \<and> (qs \<noteq> [] \<longrightarrow> length rs + length qs \<le> 128)"
    then have "progress L l r (fst v) (snd v @ rs)" by (simp add: case_prod_beta)
    then show "yields (linearLoop L l r (fst v) (snd v @ rs)) (diffOf L l r) (workFailure L)"
      by (rule 2(1) [OF run])
  qed
qed

lemma LinearDiff_yields:
  assumes "framed l r pre suf"
  shows "yields (LinearDiff l r pre suf L) (diffOf L l r) (workFailure L)"
proof -
  have guard: "\<not> (length l < pre \<or> length r < pre \<or> length l - pre < suf \<or> length r - pre < suf)"
    using assms by (auto simp: framed_def)
  have "grown L l r [] pre pre"
    using grown_keeps [OF grown_start framed_start [OF assms]] .
  moreover have "chain l r pre pre [(pre, length l - suf, pre, length r - suf)]"
    using framed_end [OF assms] assms by (auto simp: framed_def)
  ultimately have start: "progress L l r [] [(pre, length l - suf, pre, length r - suf)]"
    by (rule progress_push)
  show ?thesis unfolding LinearDiff_def if_not_P [OF guard]
    by (rule yields_seq [OF work_step(2)], rule yields_if, rule yields_throw, simp add: workFailure_def,
        rule yields_seq [OF linearLoop_yields [OF start]], rule yields_seq [OF work_step(2)], erule yields_ret)
qed

end
