(* ===== verification/Patience.thy ===== *)
theory Patience
  imports Prelude
begin

text \<open>
  The search for a longest increasing chain that three parts of the comparison engine
  share (\<open>SparseDiff\<close> of \<open>linearDiff.cpp\<close>, \<open>wordAnchors\<close> of \<open>inlineDiff.cpp\<close> and
  \<open>WithSimilarLines\<close> of \<open>alignmentMap.cpp\<close>): \<open>tails\<close> holds, for every chain length, the
  index of the candidate with the least key that ends such a chain; a candidate goes to
  the slot that \<open>std::lower_bound\<close> finds and remembers its predecessor in \<open>previous\<close>; the
  chain is read backwards from the last tail.

  The lemmas show that the halving loop of \<open>std::lower_bound\<close> finds the partition point,
  that the chain read back is increasing, and that no increasing chain is longer.
\<close>

section \<open>Bounds by halving\<close>

text \<open>
  \<open>std::lower_bound\<close> with \<open>p i\<close> for "the element at \<open>i\<close> is less than the value";
  \<open>std::upper_bound\<close> with \<open>p i\<close> for "the value is not less than the element at \<open>i\<close>".
\<close>

function boundIndex :: "(nat \<Rightarrow> bool) \<Rightarrow> nat \<Rightarrow> nat \<Rightarrow> nat" where
  "boundIndex p first len =
    (if len = 0 then first
     else let half = len div 2; mid = first + half
          in if p mid then boundIndex p (mid + 1) (len - half - 1) else boundIndex p first half)"
  by pat_completeness auto
termination
  by (relation "measure (\<lambda>(p, first, len). len)") auto

declare boundIndex.simps [simp del]

lemma boundIndex_spec:
  assumes "\<And>i j. first \<le> i \<Longrightarrow> i \<le> j \<Longrightarrow> j < first + len \<Longrightarrow> p j \<Longrightarrow> p i"
  shows "first \<le> boundIndex p first len \<and> boundIndex p first len \<le> first + len
    \<and> (\<forall>i. first \<le> i \<longrightarrow> i < first + len \<longrightarrow> (p i \<longleftrightarrow> i < boundIndex p first len))"
  using assms
proof (induction p first len rule: boundIndex.induct)
  case (1 p first len)
  show ?case
  proof (cases "len = 0")
    case True
    then show ?thesis by (simp add: boundIndex.simps [of p first 0])
  next
    case False
    define half where "half = len div 2"
    define mid where "mid = first + half"
    have mid: "first \<le> mid" "mid < first + len" using False by (auto simp: mid_def half_def)
    show ?thesis
    proof (cases "p mid")
      case True
      have eq: "boundIndex p first len = boundIndex p (mid + 1) (len - half - 1)"
        using False True by (subst boundIndex.simps) (simp add: Let_def half_def mid_def)
      have len': "mid + 1 + (len - half - 1) = first + len" using mid by (simp add: mid_def)
      have IH: "mid + 1 \<le> boundIndex p (mid + 1) (len - half - 1)
          \<and> boundIndex p (mid + 1) (len - half - 1) \<le> mid + 1 + (len - half - 1)
          \<and> (\<forall>i. mid + 1 \<le> i \<longrightarrow> i < mid + 1 + (len - half - 1)
               \<longrightarrow> (p i \<longleftrightarrow> i < boundIndex p (mid + 1) (len - half - 1)))"
        by (rule 1(1) [OF False half_def mid_def True]) (use 1(3) mid len' in auto)
      have low: "p i" if "first \<le> i" "i \<le> mid" for i using 1(3) that mid True by blast
      show ?thesis unfolding eq
      proof (intro conjI allI impI)
        fix i assume "first \<le> i" "i < first + len"
        then show "p i \<longleftrightarrow> i < boundIndex p (mid + 1) (len - half - 1)"
          using IH low [of i] unfolding len' by (cases "i \<le> mid") auto
      qed (use IH mid len' in linarith)+
    next
      case pmid: False
      have eq: "boundIndex p first len = boundIndex p first half"
        using False pmid by (subst boundIndex.simps) (simp add: Let_def half_def mid_def)
      have IH: "first \<le> boundIndex p first half \<and> boundIndex p first half \<le> first + half
          \<and> (\<forall>i. first \<le> i \<longrightarrow> i < first + half \<longrightarrow> (p i \<longleftrightarrow> i < boundIndex p first half))"
        by (rule 1(2) [OF False half_def mid_def pmid]) (use 1(3) mid in \<open>auto simp: mid_def\<close>)
      have high: "\<not> p i" if "mid \<le> i" "i < first + len" for i using 1(3) that mid pmid by blast
      show ?thesis unfolding eq
      proof (intro conjI allI impI)
        fix i assume "first \<le> i" "i < first + len"
        then show "p i \<longleftrightarrow> i < boundIndex p first half"
          using IH high [of i] by (cases "mid \<le> i") (auto simp: mid_def)
      qed (use IH mid in \<open>auto simp: mid_def\<close>)
    qed
  qed
qed

lemma boundIndex_cong:
  "(\<And>i. first \<le> i \<Longrightarrow> i < first + len \<Longrightarrow> p i = q i) \<Longrightarrow> boundIndex p first len = boundIndex q first len"
proof (induction p first len rule: boundIndex.induct)
  case (1 p first len)
  show ?case
  proof (cases "len = 0")
    case False
    define half where "half = len div 2"
    have half: "half < len" using False by (simp add: half_def)
    have "p (first + half) = q (first + half)" using 1(3) half by simp
    moreover have "p (first + half) \<Longrightarrow> boundIndex p (first + half + 1) (len - half - 1)
        = boundIndex q (first + half + 1) (len - half - 1)"
      by (rule 1(1) [OF False half_def refl]) (use 1(3) half in auto)
    moreover have "\<not> p (first + half) \<Longrightarrow> boundIndex p first half = boundIndex q first half"
      by (rule 1(2) [OF False half_def refl]) (use 1(3) half in auto)
    ultimately show ?thesis using False
      by (simp add: boundIndex.simps [of p first len] boundIndex.simps [of q first len]
          Let_def half_def [symmetric] cong: if_cong)
  qed (simp add: boundIndex.simps [of p first 0] boundIndex.simps [of q first 0])
qed

section \<open>Placing a candidate\<close>

text \<open>
  \<open>keys\<close> are the keys of the candidates placed so far, the new one being the next index.
\<close>

definition slotOf :: "nat list \<Rightarrow> nat list \<Rightarrow> nat \<Rightarrow> nat" where
  "slotOf keys tails b = boundIndex (\<lambda>i. keys ! (tails ! i) < b) 0 (length tails)"

definition predecessor :: "nat list \<Rightarrow> nat \<Rightarrow> nat option" where
  "predecessor tails slot = (if slot = 0 then None else Some (tails ! (slot - 1)))"

definition placeTail :: "nat list \<Rightarrow> nat \<Rightarrow> nat \<Rightarrow> nat list" where
  "placeTail tails slot i = (if slot = length tails then tails @ [i] else tails[slot := i])"

text \<open>Reading a chain back; \<open>n\<close> bounds the number of candidates still to visit.\<close>

fun chainBack :: "nat \<Rightarrow> nat option list \<Rightarrow> nat option \<Rightarrow> nat list \<Rightarrow> nat list option" where
  "chainBack n previous None acc = Some acc"
| "chainBack 0 previous (Some i) acc = None"
| "chainBack (Suc n) previous (Some i) acc = chainBack n previous (previous ! i) (i # acc)"

definition lastTail :: "nat list \<Rightarrow> nat option" where
  "lastTail tails = (if tails = [] then None else Some (last tails))"

section \<open>The invariant\<close>

definition patient :: "nat list \<Rightarrow> nat list \<Rightarrow> nat option list \<Rightarrow> nat list \<Rightarrow> bool" where
  "patient keys tails previous ranks \<longleftrightarrow>
     length previous = length keys \<and> length ranks = length keys
   \<and> (\<forall>s < length tails. tails ! s < length keys \<and> ranks ! (tails ! s) = s)
   \<and> (\<forall>s t. s < t \<longrightarrow> t < length tails \<longrightarrow> keys ! (tails ! s) < keys ! (tails ! t))
   \<and> (\<forall>k < length keys. ranks ! k < length tails \<and> keys ! (tails ! (ranks ! k)) \<le> keys ! k)
   \<and> (\<forall>k < length keys. case previous ! k of None \<Rightarrow> ranks ! k = 0
        | Some j \<Rightarrow> j < k \<and> keys ! j < keys ! k \<and> Suc (ranks ! j) = ranks ! k)
   \<and> (\<forall>j k. j < k \<longrightarrow> k < length keys \<longrightarrow> keys ! j < keys ! k \<longrightarrow> ranks ! j < ranks ! k)"

lemma patient_Nil: "patient [] [] [] []"
  by (simp add: patient_def)

lemma slotOf_spec:
  assumes "patient keys tails previous ranks"
  shows "slotOf keys tails b \<le> length tails
    \<and> (\<forall>s < length tails. keys ! (tails ! s) < b \<longleftrightarrow> s < slotOf keys tails b)"
proof -
  have mono: "keys ! (tails ! i) < b" if "i \<le> j" "j < length tails" "keys ! (tails ! j) < b" for i j
  proof (cases "i = j")
    case False
    then have "keys ! (tails ! i) < keys ! (tails ! j)" using assms that by (simp add: patient_def)
    then show ?thesis using that(3) by simp
  qed (use that in simp)
  show ?thesis
    using boundIndex_spec [of 0 "length tails" "\<lambda>i. keys ! (tails ! i) < b"] mono
    by (simp add: slotOf_def)
qed

lemma placeTail_nth:
  "slot \<le> length tails \<Longrightarrow> s < length (placeTail tails slot i) \<Longrightarrow>
    placeTail tails slot i ! s = (if s = slot then i else tails ! s)"
  by (auto simp: placeTail_def nth_append nth_list_update)

lemma length_placeTail:
  "slot \<le> length tails \<Longrightarrow> length (placeTail tails slot i) = max (length tails) (Suc slot)"
  by (auto simp: placeTail_def)

lemma patient_place:
  assumes "patient keys tails previous ranks" and "slot = slotOf keys tails b"
  shows "patient (keys @ [b]) (placeTail tails slot (length keys))
    (previous @ [predecessor tails slot]) (ranks @ [slot])"
proof -
  let ?n = "length keys" and ?tails = "placeTail tails slot (length keys)"
  have len: "length previous = ?n" "length ranks = ?n"
    and tail: "\<And>s. s < length tails \<Longrightarrow> tails ! s < ?n \<and> ranks ! (tails ! s) = s"
    and sorted: "\<And>s t. s < t \<Longrightarrow> t < length tails \<Longrightarrow> keys ! (tails ! s) < keys ! (tails ! t)"
    and rank: "\<And>k. k < ?n \<Longrightarrow> ranks ! k < length tails \<and> keys ! (tails ! (ranks ! k)) \<le> keys ! k"
    and prev: "\<And>k. k < ?n \<Longrightarrow> (case previous ! k of None \<Rightarrow> ranks ! k = 0
        | Some j \<Rightarrow> j < k \<and> keys ! j < keys ! k \<and> Suc (ranks ! j) = ranks ! k)"
    and less: "\<And>j k. j < k \<Longrightarrow> k < ?n \<Longrightarrow> keys ! j < keys ! k \<Longrightarrow> ranks ! j < ranks ! k"
    using assms(1) unfolding patient_def by blast+
  have slot: "slot \<le> length tails" and below: "\<And>s. s < length tails \<Longrightarrow> keys ! (tails ! s) < b \<longleftrightarrow> s < slot"
    using slotOf_spec [OF assms(1), of b] assms(2) by auto
  note nth = placeTail_nth [OF slot, where i = ?n] and length = length_placeTail [OF slot, where i = ?n]
  have inner: "s < length tails" if "s < length ?tails" "s \<noteq> slot" for s
    using that slot by (simp add: length max_def split: if_splits)
  have key: "(keys @ [b]) ! (?tails ! s) = (if s = slot then b else keys ! (tails ! s))"
    if "s < length ?tails" for s
    using nth [OF that] tail [OF inner [OF that]] by (simp add: nth_append)
  show ?thesis unfolding patient_def
  proof (intro conjI allI impI)
    fix s assume s: "s < length ?tails"
    show "?tails ! s < length (keys @ [b])" "(ranks @ [slot]) ! (?tails ! s) = s"
      using nth [OF s] tail [OF inner [OF s]] len by (auto simp: nth_append)
  next
    fix s t assume st: "s < t" "t < length ?tails"
    then have s: "s < length ?tails" by simp
    consider "s = slot" | "t = slot" | "s \<noteq> slot" "t \<noteq> slot" by blast
    then show "(keys @ [b]) ! (?tails ! s) < (keys @ [b]) ! (?tails ! t)"
    proof cases
      case 1
      then have t: "t < length tails" "t \<noteq> slot" using inner [OF st(2)] st by auto
      then have "b \<le> keys ! (tails ! slot)" using below [of slot] st 1 by auto
      then show ?thesis using key [OF s] key [OF st(2)] sorted [OF st(1) t(1)] 1 t by simp
    next
      case 2
      then have "s < length tails" using slot st by simp
      then show ?thesis using key [OF s] key [OF st(2)] below 2 st by simp
    next
      case 3
      then show ?thesis using key [OF s] key [OF st(2)] sorted [OF st(1) inner [OF st(2)]] by simp
    qed
  next
    fix k assume "k < length (keys @ [b])"
    then consider "k < ?n" | "k = ?n" by fastforce
    note k = this
    show "(ranks @ [slot]) ! k < length ?tails"
      using k rank slot len by cases (fastforce simp: nth_append length)+
    show "(keys @ [b]) ! (?tails ! ((ranks @ [slot]) ! k)) \<le> (keys @ [b]) ! k"
      using k
    proof cases
      case 1
      then have r: "ranks ! k < length tails" "keys ! (tails ! (ranks ! k)) \<le> keys ! k" using rank by auto
      then have "ranks ! k < length ?tails" by (simp add: length)
      from key [OF this] show ?thesis
        using r 1 len below [OF r(1)] by (auto simp: nth_append)
    next
      case 2
      then have "slot < length ?tails" by (simp add: length)
      from key [OF this] show ?thesis using 2 len by (simp add: nth_append)
    qed
    show "case (previous @ [predecessor tails slot]) ! k of None \<Rightarrow> (ranks @ [slot]) ! k = 0
        | Some j \<Rightarrow> j < k \<and> (keys @ [b]) ! j < (keys @ [b]) ! k \<and> Suc ((ranks @ [slot]) ! j) = (ranks @ [slot]) ! k"
      using k
    proof cases
      case 1
      then show ?thesis using prev [OF 1] len by (auto simp: nth_append split: option.splits)
    next
      case 2
      show ?thesis
      proof (cases "slot = 0")
        case False
        then have s: "slot - 1 < length tails" using slot by simp
        show ?thesis using 2 False len tail [OF s] below [OF s] by (simp add: predecessor_def nth_append)
      qed (use 2 len in \<open>simp add: predecessor_def nth_append\<close>)
    qed
  next
    fix j k assume jk: "j < k" "k < length (keys @ [b])" "(keys @ [b]) ! j < (keys @ [b]) ! k"
    then have j: "j < ?n" by simp
    show "(ranks @ [slot]) ! j < (ranks @ [slot]) ! k"
    proof (cases "k < ?n")
      case True
      then show ?thesis using less [OF jk(1) True] jk j len by (simp add: nth_append)
    next
      case False
      then have k: "k = ?n" using jk(2) by simp
      then have "keys ! j < b" using jk(3) j by (simp add: nth_append)
      then have "ranks ! j < slot" using rank [OF j] below [of "ranks ! j"] by auto
      then show ?thesis using k j len by (simp add: nth_append)
    qed
  qed (use len in simp_all)
qed

section \<open>Reading the chain\<close>

definition rising :: "nat list \<Rightarrow> nat list \<Rightarrow> bool" where
  "rising keys js \<longleftrightarrow> (\<forall>j \<in> set js. j < length keys) \<and> sorted_wrt (\<lambda>i j. i < j \<and> keys ! i < keys ! j) js"

lemma rising_snoc:
  "rising keys js \<Longrightarrow> js \<noteq> [] \<longrightarrow> last js < k \<and> keys ! last js < keys ! k \<Longrightarrow> k < length keys \<Longrightarrow>
    rising keys (js @ [k])"
proof (unfold rising_def, intro conjI)
  assume js: "(\<forall>j \<in> set js. j < length keys) \<and> sorted_wrt (\<lambda>i j. i < j \<and> keys ! i < keys ! j) js"
    and last: "js \<noteq> [] \<longrightarrow> last js < k \<and> keys ! last js < keys ! k" and k: "k < length keys"
  show "\<forall>j \<in> set (js @ [k]). j < length keys" using js k by simp
  have "i < k \<and> keys ! i < keys ! k" if "i \<in> set js" for i
  proof -
    have ne: "js \<noteq> []" using that by auto
    then have "js = butlast js @ [last js]" by simp
    then have "i = last js \<or> i < last js \<and> keys ! i < keys ! last js"
      using js that by (metis (no_types, lifting) in_set_conv_decomp_last set_ConsD sorted_wrt_append
          Un_iff list.set(1) list.set_intros(1) set_append empty_iff)
    then show ?thesis using last ne by auto
  qed
  then show "sorted_wrt (\<lambda>i j. i < j \<and> keys ! i < keys ! j) (js @ [k])"
    using js by (simp add: sorted_wrt_append)
qed

lemma chainBack_spec:
  "patient keys tails previous ranks \<Longrightarrow> k < length keys \<Longrightarrow> k < n \<Longrightarrow>
    \<exists>js. chainBack n previous (Some k) acc = Some (js @ acc) \<and> rising keys js \<and> js \<noteq> [] \<and> last js = k
       \<and> length js = Suc (ranks ! k)"
proof (induction k arbitrary: n acc rule: less_induct)
  case (less k)
  obtain n' where n: "n = Suc n'" using less.prems by (cases n) auto
  have prev: "case previous ! k of None \<Rightarrow> ranks ! k = 0
      | Some j \<Rightarrow> j < k \<and> keys ! j < keys ! k \<and> Suc (ranks ! j) = ranks ! k"
    using less.prems(1,2) by (simp add: patient_def)
  show ?case
  proof (cases "previous ! k")
    case None
    then show ?thesis using n prev less.prems(2)
      by (intro exI [of _ "[k]"]) (simp add: rising_def)
  next
    case (Some j)
    then have j: "j < k" "keys ! j < keys ! k" "Suc (ranks ! j) = ranks ! k" using prev by auto
    have "j < length keys" "j < n'" using j less.prems n by auto
    from less.IH [OF j(1) less.prems(1) this, of "k # acc"]
    obtain js where js: "chainBack n' previous (Some j) (k # acc) = Some (js @ k # acc)" "rising keys js"
      "js \<noteq> []" "last js = j" "length js = Suc (ranks ! j)" by blast
    have "rising keys (js @ [k])" by (rule rising_snoc [OF js(2)]) (use js j less.prems in auto)
    then show ?thesis using js j Some n by (intro exI [of _ "js @ [k]"]) simp
  qed
qed

lemma chain_read:
  assumes "patient keys tails previous ranks"
  shows "\<exists>js. chainBack (length keys) previous (lastTail tails) [] = Some js \<and> rising keys js
    \<and> length js = length tails"
proof (cases "tails = []")
  case True
  then show ?thesis by (simp add: lastTail_def rising_def)
next
  case False
  then have k: "last tails < length keys" "ranks ! last tails = length tails - 1"
    using assms by (simp_all add: patient_def last_conv_nth)
  from chainBack_spec [OF assms k(1) k(1), of "[]"] show ?thesis
    using False k(2) by (auto simp: lastTail_def)
qed

text \<open>No increasing chain of candidates is longer than the one that is read.\<close>

lemma sorted_wrt_less_length:
  assumes "sorted_wrt (<) xs" "\<forall>x \<in> set xs. x < (m :: nat)"
  shows "length xs \<le> m"
proof -
  have "distinct xs" using assms(1) by (simp add: strict_sorted_iff)
  then have "length xs = card (set xs)" by (simp add: distinct_card)
  also have "\<dots> \<le> card {..<m}" using assms(2) by (intro card_mono) auto
  finally show ?thesis by simp
qed

lemma chain_longest:
  assumes "patient keys tails previous ranks" "rising keys js"
  shows "length js \<le> length tails"
proof -
  have "sorted_wrt (\<lambda>i j. ranks ! i < ranks ! j) js"
    by (rule sorted_wrt_mono_rel [of js "\<lambda>i j. i < j \<and> keys ! i < keys ! j"])
       (use assms in \<open>auto simp: patient_def rising_def\<close>)
  then have "sorted_wrt (<) (map ((!) ranks) js)" by (simp add: sorted_wrt_map)
  moreover have "\<forall>x \<in> set (map ((!) ranks) js). x < length tails"
    using assms by (auto simp: patient_def rising_def)
  ultimately show ?thesis using sorted_wrt_less_length by fastforce
qed

section \<open>All candidates at once\<close>

text \<open>
  The loop \<open>for (i = 0; i < candidates.size(); ++i)\<close> over the keys of the candidates,
  and the chain it ends with, as in \<open>wordAnchors\<close> and \<open>WithSimilarLines\<close>.
\<close>

fun placeAll :: "nat list \<Rightarrow> nat \<Rightarrow> nat \<Rightarrow> nat list \<Rightarrow> nat option list \<Rightarrow> nat list \<times> nat option list" where
  "placeAll keys i 0 tails previous = (tails, previous)"
| "placeAll keys i (Suc n) tails previous =
    (let slot = slotOf keys tails (keys ! i)
     in placeAll keys (Suc i) n (placeTail tails slot i) (previous @ [predecessor tails slot]))"

definition longestChain :: "nat list \<Rightarrow> nat list option" where
  "longestChain keys = (case placeAll keys 0 (length keys) [] [] of
     (tails, previous) \<Rightarrow> chainBack (length keys) previous (lastTail tails) [])"

lemma slotOf_take:
  assumes "patient (take i keys) tails previous ranks"
  shows "slotOf keys tails b = slotOf (take i keys) tails b"
  unfolding slotOf_def by (rule boundIndex_cong) (use assms in \<open>simp add: patient_def\<close>)

lemma placeAll_patient:
  "patient (take i keys) tails previous ranks \<Longrightarrow> i + n = length keys \<Longrightarrow>
    \<exists>tails' previous' ranks'. placeAll keys i n tails previous = (tails', previous')
      \<and> patient keys tails' previous' ranks'"
proof (induction n arbitrary: i tails previous ranks)
  case (Suc n)
  let ?slot = "slotOf keys tails (keys ! i)"
  have i: "take (Suc i) keys = take i keys @ [keys ! i]" "length (take i keys) = i"
    using Suc.prems(2) by (simp_all add: take_Suc_conv_app_nth)
  have "patient (take (Suc i) keys) (placeTail tails ?slot i) (previous @ [predecessor tails ?slot]) (ranks @ [?slot])"
    unfolding i(1) using patient_place [OF Suc.prems(1) slotOf_take [OF Suc.prems(1)], of "keys ! i"] i(2) by simp
  from Suc.IH [OF this] show ?case using Suc.prems(2) by (simp add: Let_def)
qed auto

theorem longestChain_spec:
  "\<exists>js. longestChain keys = Some js \<and> rising keys js \<and> (\<forall>is. rising keys is \<longrightarrow> length is \<le> length js)"
proof -
  obtain tails previous ranks where p: "placeAll keys 0 (length keys) [] [] = (tails, previous)"
    "patient keys tails previous ranks"
    using placeAll_patient [of 0 keys "[]" "[]" "[]" "length keys"] patient_Nil by auto
  from chain_read [OF p(2)] obtain js where js: "chainBack (length keys) previous (lastTail tails) [] = Some js"
    "rising keys js" "length js = length tails" by blast
  then show ?thesis using p chain_longest [OF p(2)] by (auto simp: longestChain_def)
qed

end
