(* ===== verification/SparseDiff.thy ===== *)
theory SparseDiff
  imports LinearDiff Patience
begin

text \<open>
  The sparse difference engine (\<open>SparseDiff\<close> of \<open>HyperCompare/core/linearDiff.cpp\<close>): the
  lines of the right side are sorted by text and position, every line of the left side is
  matched with all equal lines on the right, descending, and the matches are threaded by
  the search of theory \<open>Patience\<close>.  A \<open>Node\<close> is \<open>(a_, b_, previous_)\<close>, where
  \<open>std::numeric_limits<std::size_t>::max()\<close> is \<open>None\<close>.

  The comparisons that \<open>std::sort\<close> makes are counted by the field \<open>sortCalls\<close> of the
  budget, the standard only bounds their number.  The lemmas show that the engine, when it
  does not give up, answers with a shortest edit script.
\<close>

section \<open>Counted bounds\<close>

text \<open>\<open>if (Steps >= Limits.steps_) throw ...; ++Steps;\<close>: the counter does not pass the limit.\<close>

definition countSparse :: "budget \<Rightarrow> unit comp" where
  "countSparse L = (\<lambda>w.
     if maxSteps L \<le> steps w then (Inl ''DiffWorkLimit'', w)
     else let w' = w\<lparr>steps := Suc (steps w)\<rparr> in
       if steps w' mod 1024 = 0 then check L w' else (Inr (), w'))"

fun repeatSparse :: "budget \<Rightarrow> nat \<Rightarrow> unit comp" where
  "repeatSparse L 0 = ret ()"
| "repeatSparse L (Suc n) = seq (countSparse L) (\<lambda>_. repeatSparse L n)"

function boundCounted :: "budget \<Rightarrow> (nat \<Rightarrow> bool) \<Rightarrow> nat \<Rightarrow> nat \<Rightarrow> nat comp" where
  "boundCounted L p first len =
    (if len = 0 then ret first
     else seq (countSparse L) (\<lambda>_.
       let half = len div 2; mid = first + half
       in if p mid then boundCounted L p (mid + 1) (len - half - 1) else boundCounted L p first half))"
  by pat_completeness auto
termination
  by (relation "measure (\<lambda>(L, p, first, len). len)") auto

declare boundCounted.simps [simp del]

section \<open>Matches\<close>

definition orderOf :: "str list \<Rightarrow> nat \<Rightarrow> nat \<Rightarrow> nat list" where
  "orderOf right pre m = sort_key (\<lambda>i. (right ! (pre + i), i)) [0..<m]"

definition matchesOf :: "budget \<Rightarrow> str list \<Rightarrow> str list \<Rightarrow> nat \<Rightarrow> nat list \<Rightarrow> nat \<Rightarrow> (nat \<times> nat) comp" where
  "matchesOf L left right pre order a =
    seq (boundCounted L (\<lambda>i. right ! (pre + order ! i) < left ! (pre + a)) 0 (length order)) (\<lambda>first.
    seq (boundCounted L (\<lambda>i. \<not> left ! (pre + a) < right ! (pre + order ! i)) first (length order - first))
      (\<lambda>last. ret (first, last)))"

function countMatches :: "budget \<Rightarrow> str list \<Rightarrow> str list \<Rightarrow> nat \<Rightarrow> nat list \<Rightarrow> nat \<Rightarrow> nat \<Rightarrow> nat \<Rightarrow> nat
    \<Rightarrow> nat option comp" where
  "countMatches L left right pre order maximum i n count =
    (if i < n then
       seq (countSparse L) (\<lambda>_. seq (matchesOf L left right pre order i) (\<lambda>(first, last).
         if maximum - count < last - first then ret None
         else countMatches L left right pre order maximum (Suc i) n (count + (last - first))))
     else ret (Some count))"
  by pat_completeness auto
termination
  by (relation "measure (\<lambda>(L, left, right, pre, order, maximum, i, n, count). n - i)") auto

section \<open>Nodes\<close>

type_synonym node = "nat \<times> nat \<times> nat option"

definition nodeB :: "node \<Rightarrow> nat" where
  "nodeB x = fst (snd x)"

definition placeNode :: "budget \<Rightarrow> nat \<Rightarrow> nat \<Rightarrow> node list \<Rightarrow> nat list \<Rightarrow> (node list \<times> nat list) comp" where
  "placeNode L i b nodes tails =
    seq (boundCounted L (\<lambda>s. nodeB (nodes ! (tails ! s)) < b) 0 (length tails)) (\<lambda>slot.
      ret (nodes @ [(i, b, predecessor tails slot)], placeTail tails slot (length nodes)))"

text \<open>\<open>for (auto at = last; at != first;)\<close>; \<open>first\<close> is never past \<open>last\<close>.\<close>

fun placeRow :: "budget \<Rightarrow> nat list \<Rightarrow> nat \<Rightarrow> nat \<Rightarrow> nat \<Rightarrow> node list \<Rightarrow> nat list \<Rightarrow> (node list \<times> nat list) comp" where
  "placeRow L order i first 0 nodes tails = ret (nodes, tails)"
| "placeRow L order i first (Suc at) nodes tails =
    (if first < Suc at then
       seq (countSparse L) (\<lambda>_. seq (placeNode L i (order ! at) nodes tails) (\<lambda>(nodes', tails').
         placeRow L order i first at nodes' tails'))
     else ret (nodes, tails))"

function placeRows :: "budget \<Rightarrow> str list \<Rightarrow> str list \<Rightarrow> nat \<Rightarrow> nat list \<Rightarrow> nat \<Rightarrow> nat \<Rightarrow> node list \<Rightarrow> nat list
    \<Rightarrow> (node list \<times> nat list) comp" where
  "placeRows L left right pre order i n nodes tails =
    (if i < n then
       seq (countSparse L) (\<lambda>_. seq (matchesOf L left right pre order i) (\<lambda>(first, last).
         seq (placeRow L order i first last nodes tails) (\<lambda>(nodes', tails').
           placeRows L left right pre order (Suc i) n nodes' tails')))
     else ret (nodes, tails))"
  by pat_completeness auto
termination
  by (relation "measure (\<lambda>(L, left, right, pre, order, i, n, nodes, tails). n - i)") auto

declare countMatches.simps [simp del] placeRows.simps [simp del]

text \<open>
  The walk over \<open>previous_\<close>, \<open>fuel\<close> being the number of nodes it may still visit; the
  vector is built in the order that \<open>std::reverse\<close> gives it.
\<close>

fun anchorsBack :: "budget \<Rightarrow> node list \<Rightarrow> nat \<Rightarrow> nat option \<Rightarrow> (nat \<times> nat) list \<Rightarrow> (nat \<times> nat) list comp" where
  "anchorsBack L nodes fuel None acc = ret acc"
| "anchorsBack L nodes 0 (Some at) acc = throw ''OutOfFuel''"
| "anchorsBack L nodes (Suc fuel) (Some at) acc =
    seq (countSparse L) (\<lambda>_. case nodes ! at of (a, b, p) \<Rightarrow> anchorsBack L nodes fuel p ((a, b) # acc))"

section \<open>Edits\<close>

function collectSparse :: "budget \<Rightarrow> str list \<Rightarrow> nat \<Rightarrow> nat \<Rightarrow> nat \<Rightarrow> str \<Rightarrow> str comp" where
  "collectSparse L right pre i e out =
    (if i < e then seq (countSparse L) (\<lambda>_. collectSparse L right pre (Suc i) e (out @ right ! (pre + i)))
     else ret out)"
  by pat_completeness auto
termination
  by (relation "measure (\<lambda>(L, right, pre, i, e, out). e - i)") auto

declare collectSparse.simps [simp del]

definition emitGap :: "budget \<Rightarrow> str list \<Rightarrow> nat \<Rightarrow> edit list \<Rightarrow> nat \<Rightarrow> nat \<Rightarrow> nat \<Rightarrow> nat \<Rightarrow> edit list comp" where
  "emitGap L right pre edits a b ea eb =
    (if a = ea \<and> b = eb then ret edits
     else seq (if rangesOnly L then ret [] else collectSparse L right pre b eb []) (\<lambda>t.
       ret (edits @ [mkEdit (pre + a) (pre + ea) (pre + b) (pre + eb) t])))"

fun emitAnchors :: "budget \<Rightarrow> str list \<Rightarrow> nat \<Rightarrow> nat \<Rightarrow> nat \<Rightarrow> (nat \<times> nat) list \<Rightarrow> nat \<Rightarrow> nat \<Rightarrow> edit list
    \<Rightarrow> edit list comp" where
  "emitAnchors L right pre n m [] a b edits = emitGap L right pre edits a b n m"
| "emitAnchors L right pre n m ((x, y) # anchors) a b edits =
    seq (countSparse L) (\<lambda>_. seq (emitGap L right pre edits a b x y) (\<lambda>edits'.
      emitAnchors L right pre n m anchors (x + 1) (y + 1) edits'))"

section \<open>The engine\<close>

text \<open>From the sorted order on; \<open>maximum\<close> bounds the number of nodes.\<close>

definition sparseEdits :: "budget \<Rightarrow> str list \<Rightarrow> str list \<Rightarrow> nat \<Rightarrow> nat \<Rightarrow> nat \<Rightarrow> nat \<Rightarrow> edit list option comp" where
  "sparseEdits L left right pre n m maximum =
    seq (repeatSparse L m) (\<lambda>_.
    seq (repeatSparse L (sortCalls L m)) (\<lambda>_.
    let order = orderOf right pre m in
    seq (countMatches L left right pre order maximum 0 n 0) (\<lambda>count.
    case count of None \<Rightarrow> ret None
    | Some _ \<Rightarrow>
      seq (check L) (\<lambda>_.
      seq (placeRows L left right pre order 0 n [] []) (\<lambda>(nodes, tails).
      seq (anchorsBack L nodes (length nodes) (lastTail tails) []) (\<lambda>anchors.
      seq (emitAnchors L right pre n m anchors 0 0 []) (\<lambda>edits.
      seq (check L) (\<lambda>_. ret (Some edits)))))))))"

definition SparseDiff :: "str list \<Rightarrow> str list \<Rightarrow> nat \<Rightarrow> nat \<Rightarrow> budget \<Rightarrow> edit list option comp" where
  "SparseDiff left right pre suf L =
    seq (check L) (\<lambda>_.
    if length left < pre \<or> length right < pre \<or> length left - pre < suf \<or> length right - pre < suf
    then throw ''InvalidAlignmentInput''
    else let n = length left - pre - suf; m = length right - pre - suf;
             fixed = m * 8 + min n m * (8 + 16)
         in if traceBytes L \<le> fixed then ret None
            else sparseEdits L left right pre n m (min 1000000 ((traceBytes L - fixed) div 24)))"

section \<open>Counting\<close>

lemma countSparse_yields: "yields (countSparse L) (\<lambda>_. True) (workFailure L)"
  by (rule yieldsI) (auto simp: countSparse_def Let_def workFailure_def split: if_splits dest: check_run)

lemma repeatSparse_yields: "yields (repeatSparse L n) (\<lambda>_. True) (workFailure L)"
  by (induction n) (auto intro!: yields_ret yields_seq [OF countSparse_yields])

lemma boundCounted_yields:
  "yields (boundCounted L p first len) (\<lambda>v. v = boundIndex p first len) (workFailure L)"
proof (induction L p first len rule: boundCounted.induct)
  case (1 L p first len)
  show ?case
  proof (cases "len = 0")
    case True
    then show ?thesis
      by (simp add: boundCounted.simps [of L p first 0] boundIndex.simps [of p first 0] yields_ret)
  next
    case False
    define half where "half = len div 2"
    define mid where "mid = first + half"
    have code: "boundCounted L p first len = seq (countSparse L) (\<lambda>_.
        if p mid then boundCounted L p (mid + 1) (len - half - 1) else boundCounted L p first half)"
      using False by (subst boundCounted.simps) (simp only: if_False Let_def half_def mid_def)
    have pure: "boundIndex p first len =
        (if p mid then boundIndex p (mid + 1) (len - half - 1) else boundIndex p first half)"
      using False by (subst boundIndex.simps) (simp only: if_False Let_def half_def mid_def)
    show ?thesis unfolding code pure
    proof (rule yields_seq [OF countSparse_yields], rule yields_if)
      assume "p mid"
      from 1(1) [OF False half_def mid_def this]
      show "yields (boundCounted L p (mid + 1) (len - half - 1))
          (\<lambda>v. v = (if p mid then boundIndex p (mid + 1) (len - half - 1) else boundIndex p first half)) (workFailure L)"
        using \<open>p mid\<close> by simp
    next
      assume "\<not> p mid"
      from 1(2) [OF False half_def mid_def this]
      show "yields (boundCounted L p first half)
          (\<lambda>v. v = (if p mid then boundIndex p (mid + 1) (len - half - 1) else boundIndex p first half)) (workFailure L)"
        using \<open>\<not> p mid\<close> by simp
    qed
  qed
qed

section \<open>Every match is found\<close>

definition matchRow :: "str list \<Rightarrow> str list \<Rightarrow> nat \<Rightarrow> nat \<Rightarrow> nat \<Rightarrow> nat list" where
  "matchRow left right pre m a = filter (\<lambda>b. left ! (pre + a) = right ! (pre + b)) [0..<m]"

lemma orderOf_facts:
  "length (orderOf right pre m) = m" "set (orderOf right pre m) = {..<m}" "distinct (orderOf right pre m)"
  "i \<le> j \<Longrightarrow> j < m \<Longrightarrow> right ! (pre + orderOf right pre m ! i) \<le> right ! (pre + orderOf right pre m ! j)"
  "i < j \<Longrightarrow> j < m \<Longrightarrow> right ! (pre + orderOf right pre m ! i) = right ! (pre + orderOf right pre m ! j) \<Longrightarrow>
    orderOf right pre m ! i < orderOf right pre m ! j"
proof -
  let ?o = "orderOf right pre m" and ?k = "\<lambda>i. (right ! (pre + i), i)"
  show len: "length ?o = m" and "set ?o = {..<m}" and dist: "distinct ?o"
    by (auto simp: orderOf_def)
  have "sorted (map ?k ?o)" by (simp add: orderOf_def)
  then have le: "?k (?o ! i) \<le> ?k (?o ! j)" if "i \<le> j" "j < m" for i j
    using sorted_nth_mono [of "map ?k ?o" i j] that len by simp
  show "right ! (pre + ?o ! i) \<le> right ! (pre + ?o ! j)" if "i \<le> j" "j < m" for i j
    using le [OF that] by (auto simp: less_eq_prod_def)
  show "?o ! i < ?o ! j" if "i < j" "j < m" "right ! (pre + ?o ! i) = right ! (pre + ?o ! j)" for i j
  proof -
    have "?o ! i \<le> ?o ! j" using le [of i j] that by (auto simp: less_eq_prod_def)
    moreover have "?o ! i \<noteq> ?o ! j" using dist that len by (simp add: nth_eq_iff_index_eq)
    ultimately show ?thesis by simp
  qed
qed

lemma matchesOf_yields:
  "yields (matchesOf L left right pre (orderOf right pre m) a)
    (\<lambda>(first, last). first \<le> last \<and> last \<le> m
       \<and> map ((!) (orderOf right pre m)) [first..<last] = matchRow left right pre m a) (workFailure L)"
proof -
  let ?o = "orderOf right pre m" and ?t = "left ! (pre + a)"
  let ?k = "\<lambda>i. right ! (pre + ?o ! i)"
  define first where "first = boundIndex (\<lambda>i. ?k i < ?t) 0 (length ?o)"
  define last where "last = boundIndex (\<lambda>i. \<not> ?t < ?k i) first (length ?o - first)"
  note mono = orderOf_facts(4) [of _ _ m right pre]
  have first: "first \<le> m \<and> (\<forall>i < m. ?k i < ?t \<longleftrightarrow> i < first)"
    using boundIndex_spec [of 0 "length ?o" "\<lambda>i. ?k i < ?t"] mono
    by (auto simp: first_def orderOf_facts(1) intro: le_less_trans)
  have last: "first \<le> last \<and> last \<le> m \<and> (\<forall>i. first \<le> i \<longrightarrow> i < m \<longrightarrow> (\<not> ?t < ?k i \<longleftrightarrow> i < last))"
    using boundIndex_spec [of first "length ?o - first" "\<lambda>i. \<not> ?t < ?k i"] mono first
    by (auto simp: last_def orderOf_facts(1) intro: less_le_trans)
  have in_range: "first \<le> i \<and> i < last \<longleftrightarrow> ?t = ?k i" if "i < m" for i
  proof -
    have "?t = ?k i \<longleftrightarrow> \<not> ?k i < ?t \<and> \<not> ?t < ?k i" by auto
    moreover have "?k i < ?t \<longleftrightarrow> i < first" using first that by blast
    moreover have "first \<le> i \<Longrightarrow> \<not> ?t < ?k i \<longleftrightarrow> i < last" using last that by blast
    ultimately show ?thesis by auto
  qed
  have "map ((!) ?o) [first..<last] = matchRow left right pre m a"
  proof (rule sorted_distinct_set_unique)
    have "sorted_wrt (<) (map ((!) ?o) [first..<last])"
      unfolding sorted_wrt_iff_nth_less
    proof (intro allI impI)
      fix i j assume ij: "i < j" "j < length (map ((!) ?o) [first..<last])"
      then have lt: "first + i < first + j" "first + j < m" "first + i < last" "first + j < last"
        using last by auto
      then have "?k (first + i) = ?k (first + j)"
        using in_range [of "first + i"] in_range [of "first + j"] by auto
      note this = lt(1,2) this
      from orderOf_facts(5) [OF this] show "map ((!) ?o) [first..<last] ! i < map ((!) ?o) [first..<last] ! j"
        using ij by simp
    qed
    then show "sorted (map ((!) ?o) [first..<last])" "distinct (map ((!) ?o) [first..<last])"
      by (simp_all add: strict_sorted_iff)
    show "sorted (matchRow left right pre m a)" "distinct (matchRow left right pre m a)"
      by (simp_all add: matchRow_def sorted_wrt_filter)
    have iff: "(\<exists>i. first \<le> i \<and> i < last \<and> b = ?o ! i) \<longleftrightarrow> b < m \<and> ?t = right ! (pre + b)" for b
    proof
      assume "\<exists>i. first \<le> i \<and> i < last \<and> b = ?o ! i"
      then obtain i where i: "first \<le> i" "i < last" "b = ?o ! i" by blast
      then have "i < m" using last by simp
      then show "b < m \<and> ?t = right ! (pre + b)"
        using in_range i orderOf_facts(1,2) [of right pre m] nth_mem [of i ?o] by auto
    next
      assume b: "b < m \<and> ?t = right ! (pre + b)"
      then obtain i where "i < m" "?o ! i = b"
        using orderOf_facts(1,2) [of right pre m] in_set_conv_nth [of b ?o] by auto
      then show "\<exists>i. first \<le> i \<and> i < last \<and> b = ?o ! i" using in_range b by blast
    qed
    have "set (map ((!) ?o) [first..<last]) = {b. \<exists>i. first \<le> i \<and> i < last \<and> b = ?o ! i}"
      by (auto simp: image_iff Bex_def)
    moreover have "set (matchRow left right pre m a) = {b. b < m \<and> ?t = right ! (pre + b)}"
      by (auto simp: matchRow_def)
    ultimately show "set (map ((!) ?o) [first..<last]) = set (matchRow left right pre m a)"
      by (simp only: iff)
  qed
  then show ?thesis unfolding matchesOf_def
    by (intro yields_seq [OF boundCounted_yields] yields_ret) (use last in \<open>simp add: first_def last_def\<close>)
qed

section \<open>The nodes\<close>

definition pairs :: "node list \<Rightarrow> (nat \<times> nat) list" where
  "pairs nodes = map (\<lambda>(a, b, p). (a, b)) nodes"

abbreviation links :: "node list \<Rightarrow> nat option list" where
  "links nodes \<equiv> map (\<lambda>x. snd (snd x)) nodes"

definition threaded :: "node list \<Rightarrow> nat list \<Rightarrow> bool" where
  "threaded nodes tails \<longleftrightarrow> (\<exists>ranks. patient (map nodeB nodes) tails (links nodes) ranks)"

lemma threaded_Nil: "threaded [] []"
  using patient_Nil by (auto simp: threaded_def)

lemma placeNode_yields:
  assumes "threaded nodes tails"
  shows "yields (placeNode L i b nodes tails)
    (\<lambda>(nodes', tails'). threaded nodes' tails' \<and> pairs nodes' = pairs nodes @ [(i, b)]) (workFailure L)"
proof -
  obtain ranks where ranks: "patient (map nodeB nodes) tails (links nodes) ranks"
    using assms by (auto simp: threaded_def)
  define slot where "slot = boundIndex (\<lambda>s. nodeB (nodes ! (tails ! s)) < b) 0 (length tails)"
  have "slot = slotOf (map nodeB nodes) tails b" unfolding slot_def slotOf_def
    by (rule boundIndex_cong) (use ranks in \<open>simp add: patient_def\<close>)
  from patient_place [OF ranks this]
  have "threaded (nodes @ [(i, b, predecessor tails slot)]) (placeTail tails slot (length nodes))"
    by (auto simp: threaded_def nodeB_def)
  then show ?thesis unfolding placeNode_def
    by (intro yields_seq [OF boundCounted_yields] yields_ret) (simp add: slot_def pairs_def)
qed

lemma placeRow_yields:
  "threaded nodes tails \<Longrightarrow>
    yields (placeRow L order i first at nodes tails)
      (\<lambda>(nodes', tails'). threaded nodes' tails'
         \<and> pairs nodes' = pairs nodes @ map (Pair i) (rev (map ((!) order) [first..<at]))) (workFailure L)"
proof (induction at arbitrary: nodes tails)
  case (Suc at)
  show ?case
  proof (cases "first < Suc at")
    case True
    have code: "placeRow L order i first (Suc at) nodes tails =
        seq (countSparse L) (\<lambda>_. seq (placeNode L i (order ! at) nodes tails) (\<lambda>(nodes', tails').
          placeRow L order i first at nodes' tails'))"
      using True by simp
    have pieces: "map (Pair i) (rev (map ((!) order) [first..<Suc at]))
        = (i, order ! at) # map (Pair i) (rev (map ((!) order) [first..<at]))"
      using True by simp
    show ?thesis unfolding code pieces
    proof (rule yields_seq [OF countSparse_yields], rule yields_seq [OF placeNode_yields [OF Suc.prems]])
      fix v assume v: "case v of (nodes', tails') \<Rightarrow>
          threaded nodes' tails' \<and> pairs nodes' = pairs nodes @ [(i, order ! at)]"
      obtain nodes' tails' where "v = (nodes', tails')" by (cases v)
      with v Suc.IH [of nodes' tails']
      show "yields (case v of (nodes', tails') \<Rightarrow> placeRow L order i first at nodes' tails')
        (\<lambda>(nodes', tails'). threaded nodes' tails' \<and> pairs nodes'
           = pairs nodes @ (i, order ! at) # map (Pair i) (rev (map ((!) order) [first..<at]))) (workFailure L)"
        by simp
    qed
  next
    case False
    then show ?thesis using Suc.prems by (simp add: yields_ret)
  qed
qed (simp add: yields_ret)

definition rowPairs :: "str list \<Rightarrow> str list \<Rightarrow> nat \<Rightarrow> nat \<Rightarrow> nat \<Rightarrow> (nat \<times> nat) list" where
  "rowPairs left right pre m a = map (Pair a) (rev (matchRow left right pre m a))"

lemma placeRows_yields:
  "threaded nodes tails \<Longrightarrow> i \<le> n \<Longrightarrow>
    yields (placeRows L left right pre (orderOf right pre m) i n nodes tails)
      (\<lambda>(nodes', tails'). threaded nodes' tails'
         \<and> pairs nodes' = pairs nodes @ concat (map (rowPairs left right pre m) [i..<n])) (workFailure L)"
proof (induction "n - i" arbitrary: i nodes tails)
  case 0
  then show ?case by (subst placeRows.simps) (simp add: yields_ret)
next
  case (Suc k)
  then have lt: "i < n" by simp
  have code: "placeRows L left right pre (orderOf right pre m) i n nodes tails =
      seq (countSparse L) (\<lambda>_. seq (matchesOf L left right pre (orderOf right pre m) i) (\<lambda>(first, last).
        seq (placeRow L (orderOf right pre m) i first last nodes tails) (\<lambda>(nodes', tails').
          placeRows L left right pre (orderOf right pre m) (Suc i) n nodes' tails')))"
    using lt by (subst placeRows.simps) (simp only: if_True)
  have upt: "[i..<n] = i # [Suc i..<n]" using lt by (rule upt_conv_Cons)
  show ?case unfolding code
  proof (rule yields_seq [OF countSparse_yields], rule yields_seq [OF matchesOf_yields [of L left right pre m i]],
      rule yields_prod)
    fix v first last
    assume v: "case v of (first, last) \<Rightarrow> first \<le> last \<and> last \<le> m
        \<and> map ((!) (orderOf right pre m)) [first..<last] = matchRow left right pre m i" "v = (first, last)"
    show "yields (seq (placeRow L (orderOf right pre m) i first last nodes tails) (\<lambda>(nodes', tails').
          placeRows L left right pre (orderOf right pre m) (Suc i) n nodes' tails'))
      (\<lambda>(nodes', tails'). threaded nodes' tails'
         \<and> pairs nodes' = pairs nodes @ concat (map (rowPairs left right pre m) [i..<n])) (workFailure L)"
    proof (rule yields_seq [OF placeRow_yields [OF Suc.prems(1)]], rule yields_prod)
      fix u nodes' tails'
      assume u: "case u of (nodes', tails') \<Rightarrow> threaded nodes' tails'
          \<and> pairs nodes' = pairs nodes @ map (Pair i) (rev (map ((!) (orderOf right pre m)) [first..<last]))"
        "u = (nodes', tails')"
      have IH: "yields (placeRows L left right pre (orderOf right pre m) (Suc i) n nodes' tails')
        (\<lambda>(nodes'', tails''). threaded nodes'' tails''
           \<and> pairs nodes'' = pairs nodes' @ concat (map (rowPairs left right pre m) [Suc i..<n])) (workFailure L)"
        by (rule Suc.hyps(1)) (use Suc.hyps(2) lt u in auto)
      moreover have "pairs nodes' = pairs nodes @ rowPairs left right pre m i"
        using u v by (simp add: rowPairs_def)
      ultimately show "yields (placeRows L left right pre (orderOf right pre m) (Suc i) n nodes' tails')
        (\<lambda>(nodes', tails'). threaded nodes' tails'
         \<and> pairs nodes' = pairs nodes @ concat (map (rowPairs left right pre m) [i..<n])) (workFailure L)"
        by (simp add: upt)
    qed
  qed
qed

text \<open>All matches, in the order of the nodes.\<close>

definition allPairs :: "str list \<Rightarrow> str list \<Rightarrow> nat \<Rightarrow> nat \<Rightarrow> nat \<Rightarrow> (nat \<times> nat) list" where
  "allPairs left right pre n m = concat (map (rowPairs left right pre m) [0..<n])"

definition before :: "nat \<times> nat \<Rightarrow> nat \<times> nat \<Rightarrow> bool" where
  "before p q \<longleftrightarrow> fst p < fst q \<or> (fst p = fst q \<and> snd q < snd p)"

lemma set_allPairs:
  "(a, b) \<in> set (allPairs left right pre n m) \<longleftrightarrow> a < n \<and> b < m \<and> left ! (pre + a) = right ! (pre + b)"
  by (auto simp: allPairs_def rowPairs_def matchRow_def)

lemma sorted_allPairs: "sorted_wrt before (allPairs left right pre n m)"
proof (induction n)
  case (Suc n)
  have "sorted_wrt (<) (matchRow left right pre m n)"
    by (simp add: matchRow_def sorted_wrt_filter)
  then have "sorted_wrt before (rowPairs left right pre m n)"
    by (simp add: rowPairs_def sorted_wrt_map sorted_wrt_rev before_def)
  moreover have "before p q" if "p \<in> set (allPairs left right pre n m)" "q \<in> set (rowPairs left right pre m n)" for p q
    using that set_allPairs [of "fst p" "snd p"] by (auto simp: before_def rowPairs_def)
  ultimately show ?case using Suc by (simp add: allPairs_def sorted_wrt_append)
qed (simp add: allPairs_def)

section \<open>The anchors\<close>

lemma anchorsBack_yields:
  "patient (map nodeB nodes) tails (links nodes) ranks \<Longrightarrow> chainBack fuel (links nodes) at js = Some is \<Longrightarrow>
    case at of None \<Rightarrow> True | Some k \<Rightarrow> k < length nodes \<Longrightarrow>
    yields (anchorsBack L nodes fuel at (map ((!) (pairs nodes)) js))
      (\<lambda>ps. ps = map ((!) (pairs nodes)) is) (workFailure L)"
proof (induction fuel "links nodes" at js rule: chainBack.induct)
  case (3 fuel k js)
  obtain a b p where node: "nodes ! k = (a, b, p)" by (cases "nodes ! k")
  have k: "k < length nodes" using 3 by simp
  then have link: "links nodes ! k = p" and pair: "pairs nodes ! k = (a, b)"
    using node by (simp_all add: pairs_def)
  have "case p of None \<Rightarrow> True | Some j \<Rightarrow> j < length nodes"
    using 3(2) k link unfolding patient_def by (fastforce split: option.splits)
  then have "yields (anchorsBack L nodes fuel p (map ((!) (pairs nodes)) (k # js)))
      (\<lambda>ps. ps = map ((!) (pairs nodes)) is) (workFailure L)"
    using 3(1) [OF 3(2)] 3(3) link by simp
  then show ?case using node pair
    by (auto intro!: yields_seq [OF countSparse_yields])
qed (auto intro: yields_ret)

lemma rising_matching:
  assumes "pairs nodes = allPairs left right pre n m" "rising (map nodeB nodes) js"
    and A: "A = slice left pre (pre + n)" "pre + n \<le> length left"
    and B: "B = slice right pre (pre + m)" "pre + m \<le> length right"
  shows "matching A B (map ((!) (pairs nodes)) js)"
proof -
  have len: "length nodes = length (pairs nodes)" by (simp add: pairs_def)
  have snd: "snd (pairs nodes ! j) = nodeB (nodes ! j)" if "j < length nodes" for j
    using that by (simp add: pairs_def nodeB_def split: prod.split)
  have js: "\<forall>j \<in> set js. j < length nodes"
    "sorted_wrt (\<lambda>i j. i < j \<and> map nodeB nodes ! i < map nodeB nodes ! j) js"
    using assms(2) by (auto simp: rising_def)
  have up: "fst (pairs nodes ! i) < fst (pairs nodes ! j) \<and> snd (pairs nodes ! i) < snd (pairs nodes ! j)"
    if "i \<in> set js" "j \<in> set js" "i < j" "map nodeB nodes ! i < map nodeB nodes ! j" for i j
  proof -
    have "before (pairs nodes ! i) (pairs nodes ! j)"
      using sorted_wrt_nth_less [OF sorted_allPairs [of left right pre n m] that(3)] js(1) that(2) len assms(1)
      by simp
    moreover have "snd (pairs nodes ! i) < snd (pairs nodes ! j)"
      using that js(1) snd by simp
    ultimately show ?thesis by (auto simp: before_def)
  qed
  have "sorted_wrt (\<lambda>i j. fst (pairs nodes ! i) < fst (pairs nodes ! j)
      \<and> snd (pairs nodes ! i) < snd (pairs nodes ! j)) js"
    by (rule sorted_wrt_mono_rel [OF _ js(2)]) (use up in blast)
  moreover have "fst p < n \<and> snd p < m \<and> left ! (pre + fst p) = right ! (pre + snd p)"
    if "p \<in> set (map ((!) (pairs nodes)) js)" for p
  proof -
    have "p \<in> set (pairs nodes)" using that js(1) len by auto
    then show ?thesis using set_allPairs [of "fst p" "snd p"] assms(1) by simp
  qed
  ultimately show ?thesis
    using A B by (auto simp: matching_def sorted_wrt_map slice_nth)
qed

lemma matching_rising:
  assumes "pairs nodes = allPairs left right pre n m" "matching A B qs"
    and A: "A = slice left pre (pre + n)" "pre + n \<le> length left"
    and B: "B = slice right pre (pre + m)" "pre + m \<le> length right"
  shows "\<exists>js. rising (map nodeB nodes) js \<and> length js = length qs"
proof -
  have len: "length nodes = length (pairs nodes)" by (simp add: pairs_def)
  have key: "map nodeB nodes ! j = snd (pairs nodes ! j)" if "j < length nodes" for j
    using that by (simp add: pairs_def nodeB_def split: prod.split)
  have "\<exists>j < length nodes. pairs nodes ! j = q" if "q \<in> set qs" for q
  proof -
    have "fst q < n \<and> snd q < m \<and> left ! (pre + fst q) = right ! (pre + snd q)"
      using assms(2) that A B by (auto simp: matching_def slice_nth)
    then have "q \<in> set (pairs nodes)" using set_allPairs [of "fst q" "snd q"] assms(1) by simp
    then show ?thesis using len by (auto simp: in_set_conv_nth)
  qed
  then obtain at where at: "\<forall>q \<in> set qs. at q < length nodes \<and> pairs nodes ! at q = q" by metis
  have up: "at p < at q \<and> map nodeB nodes ! at p < map nodeB nodes ! at q"
    if "p \<in> set qs" "q \<in> set qs" "fst p < fst q \<and> snd p < snd q" for p q
  proof -
    have val: "at p < length nodes" "at q < length nodes" "pairs nodes ! at p = p" "pairs nodes ! at q = q"
      using at that by auto
    moreover have "at p < at q"
    proof (rule ccontr)
      assume "\<not> at p < at q"
      moreover have "at p \<noteq> at q" using val(3,4) that(3) by (metis less_irrefl)
      ultimately have "at q < at p" by simp
      then have "before (pairs nodes ! at q) (pairs nodes ! at p)"
        using sorted_wrt_nth_less [OF sorted_allPairs [of left right pre n m]] val(1) len assms(1) by simp
      then show False using val(3,4) that(3) by (simp add: before_def)
    qed
    ultimately show ?thesis using that(3) key by simp
  qed
  have "sorted_wrt (\<lambda>p q. at p < at q \<and> map nodeB nodes ! at p < map nodeB nodes ! at q) qs"
    by (rule sorted_wrt_mono_rel [of qs "\<lambda>p q. fst p < fst q \<and> snd p < snd q"])
       (use up assms(2) in \<open>auto simp: matching_def\<close>)
  then have "rising (map nodeB nodes) (map at qs)"
    using at by (simp add: rising_def sorted_wrt_map)
  then show ?thesis by (intro exI [of _ "map at qs"]) simp
qed

section \<open>The edits between the anchors\<close>

lemma collectSparse_yields:
  "i \<le> e \<Longrightarrow> pre + e \<le> length right \<Longrightarrow>
    yields (collectSparse L right pre i e out)
      (\<lambda>t. t = out @ concat (slice right (pre + i) (pre + e))) (workFailure L)"
proof (induction L right pre i e out rule: collectSparse.induct)
  case (1 L right pre i e out)
  show ?case
  proof (cases "i < e")
    case True
    have code: "collectSparse L right pre i e out
        = seq (countSparse L) (\<lambda>_. collectSparse L right pre (Suc i) e (out @ right ! (pre + i)))"
      using True by (subst collectSparse.simps) simp
    have unfold: "concat (slice right (pre + i) (pre + e))
        = right ! (pre + i) @ concat (slice right (pre + Suc i) (pre + e))"
      using True 1(3) by (simp add: slice_Cons [of "pre + i" "pre + e"])
    show ?thesis unfolding code
      by (rule yields_seq [OF countSparse_yields], rule yields_weaken [OF 1(1) [OF True]])
         (use True 1(3) unfold in auto)
  next
    case False
    then show ?thesis using 1(2) by (subst collectSparse.simps) (auto intro: yields_ret)
  qed
qed

definition apart :: "edit list \<Rightarrow> nat \<Rightarrow> bool" where
  "apart es x \<longleftrightarrow> es = [] \<or> eEnd (last es) < x"

lemma emitGap_yields:
  assumes "grown L l r es (pre + a) (pre + b)" "apart es (pre + a)"
    and "a \<le> ea" "pre + ea \<le> length l" "b \<le> eb" "pre + eb \<le> length r"
  shows "yields (emitGap L r pre es a b ea eb)
    (\<lambda>es'. grown L l r es' (pre + ea) (pre + eb) \<and> apart es' (Suc (pre + ea))
       \<and> scriptCost es' = scriptCost es + (ea - a) + (eb - b)) (workFailure L)"
proof (cases "a = ea \<and> b = eb")
  case True
  then show ?thesis using assms(1,2) by (auto simp: emitGap_def apart_def intro: yields_ret)
next
  case False
  let ?t = "if rangesOnly L then [] else concat (slice r (pre + b) (pre + eb))"
  let ?e = "mkEdit (pre + a) (pre + ea) (pre + b) (pre + eb) ?t"
  have "grown L l r (es @ [?e]) (eEnd ?e) (oEnd ?e)"
    by (rule grown_new [OF assms(1)]) (use assms False in \<open>auto simp: apart_def filled_def\<close>)
  then have ok: "grown L l r (es @ [?e]) (pre + ea) (pre + eb) \<and> apart (es @ [?e]) (Suc (pre + ea))
       \<and> scriptCost (es @ [?e]) = scriptCost es + (ea - a) + (eb - b)"
    by (simp add: apart_def)
  have text': "yields (if rangesOnly L then ret [] else collectSparse L r pre b eb []) (\<lambda>t. t = ?t) (workFailure L)"
    by (intro yields_if yields_ret yields_weaken [OF collectSparse_yields [OF assms(5,6)]]) auto
  have code: "emitGap L r pre es a b ea eb =
      seq (if rangesOnly L then ret [] else collectSparse L r pre b eb []) (\<lambda>t.
        ret (es @ [mkEdit (pre + a) (pre + ea) (pre + b) (pre + eb) t]))"
    unfolding emitGap_def using False by (simp only: if_False)
  show ?thesis unfolding code
    by (rule yields_seq [OF text']) (use ok in \<open>simp add: yields_ret\<close>)
qed

lemma grown_match:
  assumes "grown L l r es x y" "x < length l" "y < length r" "l ! x = r ! y"
  shows "grown L l r es (x + 1) (y + 1)"
  by (rule grown_keeps [OF assms(1)], rule spansTo_run) (use assms in simp_all)

lemma emitAnchors_yields:
  assumes "pre + n \<le> length l" "pre + m \<le> length r"
  shows "grown L l r es (pre + a) (pre + b) \<Longrightarrow> apart es (pre + a) \<Longrightarrow> a \<le> n \<Longrightarrow> b \<le> m \<Longrightarrow>
    sorted_wrt (\<lambda>p q. fst p < fst q \<and> snd p < snd q) ps \<Longrightarrow>
    \<forall>p \<in> set ps. a \<le> fst p \<and> b \<le> snd p \<and> fst p < n \<and> snd p < m \<and> l ! (pre + fst p) = r ! (pre + snd p) \<Longrightarrow>
    yields (emitAnchors L r pre n m ps a b es) (\<lambda>es'. grown L l r es' (pre + n) (pre + m)
      \<and> scriptCost es' + 2 * length ps = scriptCost es + (n - a) + (m - b)) (workFailure L)"
proof (induction ps arbitrary: a b es)
  case Nil
  show ?case unfolding emitAnchors.simps
    by (rule yields_weaken [OF emitGap_yields [OF Nil(1,2) Nil(3) assms(1) Nil(4) assms(2)]]) simp_all
next
  case (Cons p ps)
  obtain x y where p: "p = (x, y)" by (cases p)
  have xy: "a \<le> x" "b \<le> y" "x < n" "y < m" "l ! (pre + x) = r ! (pre + y)" using Cons.prems(6) p by auto
  have later: "\<forall>q \<in> set ps. x + 1 \<le> fst q \<and> y + 1 \<le> snd q \<and> fst q < n \<and> snd q < m
      \<and> l ! (pre + fst q) = r ! (pre + snd q)"
    using Cons.prems(5,6) p by auto
  show ?case unfolding p emitAnchors.simps
  proof (rule yields_seq [OF countSparse_yields], rule yields_seq [OF emitGap_yields])
    fix es' assume es': "grown L l r es' (pre + x) (pre + y) \<and> apart es' (Suc (pre + x))
        \<and> scriptCost es' = scriptCost es + (x - a) + (y - b)"
    have "grown L l r es' (pre + (x + 1)) (pre + (y + 1))"
      using grown_match [of L l r es' "pre + x" "pre + y"] es' xy assms by simp
    then have "yields (emitAnchors L r pre n m ps (x + 1) (y + 1) es')
        (\<lambda>es''. grown L l r es'' (pre + n) (pre + m)
          \<and> scriptCost es'' + 2 * length ps = scriptCost es' + (n - (x + 1)) + (m - (y + 1))) (workFailure L)"
      by (rule Cons.IH) (use es' xy Cons.prems(5) later in \<open>auto simp: apart_def\<close>)
    then show "yields (emitAnchors L r pre n m ps (x + 1) (y + 1) es')
        (\<lambda>es'. grown L l r es' (pre + n) (pre + m)
          \<and> scriptCost es' + 2 * length ((x, y) # ps) = scriptCost es + (n - a) + (m - b)) (workFailure L)"
      by (rule yields_weaken) (use es' xy in auto)
  qed (use Cons.prems xy assms in auto)
qed

section \<open>The answer is a shortest script\<close>

lemma countMatches_yields:
  "yields (countMatches L left right pre order maximum i n count) (\<lambda>_. True) (workFailure L)"
proof (induction L left right pre order maximum i n count rule: countMatches.induct)
  case (1 L left right pre order maximum i n count)
  have row: "yields (matchesOf L left right pre order i) (\<lambda>_. True) (workFailure L)"
    unfolding matchesOf_def by (intro yields_seq [OF boundCounted_yields] yields_ret TrueI)
  show ?case
    by (subst countMatches.simps, intro yields_rules yields_seq [OF countSparse_yields] yields_seq [OF row] TrueI)
       (rule 1; (assumption | rule refl))+
qed

definition sparseAnswer :: "budget \<Rightarrow> str list \<Rightarrow> str list \<Rightarrow> edit list option \<Rightarrow> bool" where
  "sparseAnswer L l r v \<longleftrightarrow> (case v of None \<Rightarrow> True | Some es \<Rightarrow> diffOf L l r es \<and> shortest l r es)"

lemma anchors_answer:
  assumes f: "framed l r pre suf" and n: "n = length l - pre - suf" and m: "m = length r - pre - suf"
    and nodes: "threaded nodes tails" "pairs nodes = allPairs l r pre n m"
  shows "yields (seq (anchorsBack L nodes (length nodes) (lastTail tails) []) (\<lambda>anchors.
      emitAnchors L r pre n m anchors 0 0 [])) (\<lambda>es. diffOf L l r es \<and> shortest l r es) (workFailure L)"
proof -
  let ?A = "middle l pre suf" and ?B = "middle r pre suf"
  have ends: "pre + n = length l - suf" "pre + m = length r - suf" "pre + n \<le> length l" "pre + m \<le> length r"
    using f n m by (auto simp: framed_def)
  obtain ranks where ranks: "patient (map nodeB nodes) tails (links nodes) ranks"
    using nodes(1) by (auto simp: threaded_def)
  obtain js where js: "chainBack (length nodes) (links nodes) (lastTail tails) [] = Some js"
    "rising (map nodeB nodes) js" "length js = length tails"
    using chain_read [OF ranks] by auto
  let ?ps = "map ((!) (pairs nodes)) js"
  have valid: "case lastTail tails of None \<Rightarrow> True | Some k \<Rightarrow> k < length nodes"
    using ranks by (simp add: lastTail_def patient_def last_conv_nth)
  have match: "matching ?A ?B ?ps"
    by (rule rising_matching [OF nodes(2) js(2)]) (use ends in simp_all)
  have longest: "lcs ?A ?B \<le> length ?ps"
  proof -
    obtain qs where qs: "matching ?A ?B qs" "length qs = lcs ?A ?B" using lcs_matching by blast
    obtain is' where "rising (map nodeB nodes) is'" "length is' = length qs"
      using matching_rising [OF nodes(2) qs(1)] ends by auto
    then show ?thesis using chain_longest [OF ranks] js(3) qs(2) by fastforce
  qed
  have start: "grown L l r [] (pre + 0) (pre + 0)"
    using grown_keeps [OF grown_start framed_start [OF f]] by simp
  have inside: "\<forall>p \<in> set ?ps. 0 \<le> fst p \<and> 0 \<le> snd p \<and> fst p < n \<and> snd p < m
      \<and> l ! (pre + fst p) = r ! (pre + snd p)"
    using match ends by (auto simp: matching_def slice_nth)
  have emit: "yields (emitAnchors L r pre n m ?ps 0 0 []) (\<lambda>es'. grown L l r es' (pre + n) (pre + m)
      \<and> scriptCost es' + 2 * length ?ps = scriptCost [] + (n - 0) + (m - 0)) (workFailure L)"
    by (rule emitAnchors_yields [OF ends(3,4) start])
       (use match inside in \<open>auto simp: matching_def apart_def\<close>)
  have final: "diffOf L l r es \<and> shortest l r es"
    if "grown L l r es (pre + n) (pre + m) \<and> scriptCost es + 2 * length ?ps = scriptCost [] + (n - 0) + (m - 0)" for es
  proof -
    have "diffOf L l r es"
      by (rule grown_final, rule grown_keeps [OF _ framed_end [OF f]]) (use that ends in simp)
    moreover from this have "script l r 0 0 es" by (simp add: diffOf_def)
    then have "shortest l r es"
      by (rule shortest_framed [OF f, where k = "length ?ps"]) (use that ends longest n m in \<open>auto simp: add.commute [of suf]\<close>)
    ultimately show ?thesis ..
  qed
  show ?thesis
    by (rule yields_seq [OF anchorsBack_yields [OF ranks js(1) valid, unfolded list.map]],
        simp only:, rule yields_weaken [OF emit]) (use final in blast)+
qed

lemma sparseEdits_yields:
  assumes "framed l r pre suf" "n = length l - pre - suf" "m = length r - pre - suf"
  shows "yields (sparseEdits L l r pre n m maximum) (sparseAnswer L l r) (workFailure L)"
proof -
  let ?order = "orderOf r pre m"
  have assoc: "seq (anchorsBack L nodes k t []) (\<lambda>anchors. seq (emitAnchors L r pre n m anchors 0 0 []) g)
      = seq (seq (anchorsBack L nodes k t []) (\<lambda>anchors. emitAnchors L r pre n m anchors 0 0 [])) g"
    for nodes k t and g :: "edit list \<Rightarrow> edit list option comp"
    by (rule seq_assoc)
  have tail: "yields (case v of (nodes, tails) \<Rightarrow>
      seq (anchorsBack L nodes (length nodes) (lastTail tails) []) (\<lambda>anchors.
      seq (emitAnchors L r pre n m anchors 0 0 []) (\<lambda>edits.
      seq (check L) (\<lambda>_. ret (Some edits))))) (sparseAnswer L l r) (workFailure L)"
    if v: "case v of (nodes, tails) \<Rightarrow> threaded nodes tails
        \<and> pairs nodes = pairs [] @ concat (map (rowPairs l r pre m) [0..<n])" for v
  proof (rule yields_prod)
    fix nodes tails assume "v = (nodes, tails)"
    then have "threaded nodes tails" "pairs nodes = allPairs l r pre n m"
      using v by (simp_all add: allPairs_def pairs_def)
    then show "yields (seq (anchorsBack L nodes (length nodes) (lastTail tails) []) (\<lambda>anchors.
        seq (emitAnchors L r pre n m anchors 0 0 []) (\<lambda>edits.
        seq (check L) (\<lambda>_. ret (Some edits))))) (sparseAnswer L l r) (workFailure L)"
      unfolding assoc
      by (intro yields_seq [OF anchors_answer [OF assms]] yields_seq [OF work_step(2)] yields_ret)
         (auto simp: sparseAnswer_def)
  qed
  show ?thesis unfolding sparseEdits_def Let_def
    by (intro yields_seq [OF repeatSparse_yields] yields_seq [OF countMatches_yields] yields_option
        yields_ret yields_seq [OF work_step(2)] yields_seq [OF placeRows_yields [OF threaded_Nil]])
       (use tail in \<open>simp_all add: sparseAnswer_def\<close>)
qed

lemma SparseDiff_yields:
  assumes "framed l r pre suf"
  shows "yields (SparseDiff l r pre suf L) (sparseAnswer L l r) (workFailure L)"
proof -
  have guard: "\<not> (length l < pre \<or> length r < pre \<or> length l - pre < suf \<or> length r - pre < suf)"
    using assms by (auto simp: framed_def)
  show ?thesis unfolding SparseDiff_def if_not_P [OF guard] Let_def
    by (intro yields_seq [OF work_step(2)] yields_if yields_ret sparseEdits_yields [OF assms])
       (simp_all add: sparseAnswer_def)
qed

end
