(* ===== verification/Diff.thy ===== *)
theory Diff
  imports WalkBack LinearDiff SparseDiff
begin

text \<open>
  \<open>Diff\<close> of \<open>HyperCompare/core/compare.cpp\<close>: the limits, the common prefix and suffix, the
  reservations of memory, the exact shortcut for inputs without a common line hash, and
  the choice between the greedy engine (theories \<open>Myers\<close>, \<open>WalkBack\<close>) and, when its
  history is full, the sparse and the linear one.

  The lemmas show that the answer is always a script between the lines of both texts, that
  it is a shortest one whenever the greedy history suffices, and that with enough work
  allowed a quiet run does return.
\<close>

section \<open>The ends that are common\<close>

function commonPrefix :: "budget \<Rightarrow> str list \<Rightarrow> str list \<Rightarrow> nat \<Rightarrow> nat comp" where
  "commonPrefix L left right p =
    (if p < length left \<and> p < length right \<and> left ! p = right ! p
     then seq (countStep L) (\<lambda>_. commonPrefix L left right (Suc p)) else ret p)"
  by pat_completeness auto
termination
  by (relation "measure (\<lambda>(L, left, right, p). length left - p)") auto

function commonSuffix :: "budget \<Rightarrow> str list \<Rightarrow> str list \<Rightarrow> nat \<Rightarrow> nat \<Rightarrow> nat comp" where
  "commonSuffix L left right p s =
    (if s < length left - p \<and> s < length right - p
        \<and> left ! (length left - s - 1) = right ! (length right - s - 1)
     then seq (countStep L) (\<lambda>_. commonSuffix L left right p (Suc s)) else ret s)"
  by pat_completeness auto
termination
  by (relation "measure (\<lambda>(L, left, right, p, s). length left - s)") auto

function sumBytes :: "budget \<Rightarrow> str list \<Rightarrow> nat \<Rightarrow> nat \<Rightarrow> nat \<Rightarrow> nat comp" where
  "sumBytes L ls i e bytes =
    (if i < e then seq (countStep L) (\<lambda>_. sumBytes L ls (Suc i) e (bytes + length (ls ! i)))
     else ret bytes)"
  by pat_completeness auto
termination
  by (relation "measure (\<lambda>(L, ls, i, e, bytes). e - i)") auto

declare commonPrefix.simps [simp del] commonSuffix.simps [simp del] sumBytes.simps [simp del]

text \<open>The lambda \<open>replace\<close>: one edit for the whole changed span.\<close>

definition replaceAll :: "budget \<Rightarrow> str list \<Rightarrow> str list \<Rightarrow> nat \<Rightarrow> nat \<Rightarrow> edit list comp" where
  "replaceAll L left right pre suf =
    seq (if rangesOnly L then ret [] else collectLines L right pre (length right - suf) []) (\<lambda>t.
    seq (check L) (\<lambda>_.
      ret [mkEdit pre (length left - suf) pre (length right - suf) t]))"

section \<open>The shortcut by hashes\<close>

function boundStep :: "budget \<Rightarrow> (nat \<Rightarrow> bool) \<Rightarrow> nat \<Rightarrow> nat \<Rightarrow> nat comp" where
  "boundStep L p first len =
    (if len = 0 then ret first
     else seq (countStep L) (\<lambda>_.
       let half = len div 2; mid = first + half
       in if p mid then boundStep L p (mid + 1) (len - half - 1) else boundStep L p first half))"
  by pat_completeness auto
termination
  by (relation "measure (\<lambda>(L, p, first, len). len)") auto

text \<open>\<open>std::binary_search\<close>: a lower bound, then one comparison of the value with what it found.\<close>

definition binarySearch :: "budget \<Rightarrow> nat list \<Rightarrow> nat \<Rightarrow> bool comp" where
  "binarySearch L hs h =
    seq (boundStep L (\<lambda>i. hs ! i < h) 0 (length hs)) (\<lambda>i.
      if i = length hs then ret False else seq (countStep L) (\<lambda>_. ret (\<not> h < hs ! i)))"

function searchCommon :: "budget \<Rightarrow> nat list \<Rightarrow> str list \<Rightarrow> nat \<Rightarrow> nat \<Rightarrow> bool comp" where
  "searchCommon L hs large i e =
    (if i < e then
       seq (countStep L) (\<lambda>_. seq (binarySearch L hs (hashOf L (large ! i))) (\<lambda>hit.
         if hit then ret True else searchCommon L hs large (Suc i) e))
     else ret False)"
  by pat_completeness auto
termination
  by (relation "measure (\<lambda>(L, hs, large, i, e). e - i)") auto

declare boundStep.simps [simp del] searchCommon.simps [simp del]

text \<open>Whether a line of the larger span has the hash of a line of the smaller one.\<close>

definition commonHash :: "budget \<Rightarrow> str list \<Rightarrow> str list \<Rightarrow> nat \<Rightarrow> nat \<Rightarrow> bool comp" where
  "commonHash L left right pre suf =
    (let n = length left - pre - suf; m = length right - pre - suf;
         small = (if n \<le> m then left else right); large = (if n \<le> m then right else left);
         hashes = map (hashOf L) (slice small pre (length small - suf))
     in seq (repeatStep L (length small - suf - pre)) (\<lambda>_.
        seq (repeatStep L (sortCalls L (length hashes))) (\<lambda>_.
          searchCommon L (sort hashes) large pre (length large - suf))))"

section \<open>The engines\<close>

definition traceAllowance :: "budget \<Rightarrow> nat \<Rightarrow> nat" where
  "traceAllowance L k =
    (if LinearDiffWorkspaceBytes k \<le> traceBytes L then min (traceBytes L) (8 * 1024 * 1024)
     else traceBytes L)"

definition greedyDiff :: "budget \<Rightarrow> str list \<Rightarrow> str list \<Rightarrow> nat \<Rightarrow> nat \<Rightarrow> edit list comp" where
  "greedyDiff L left right pre suf =
    (let n = length left - pre - suf; m = length right - pre - suf
     in seq (depthLoop L left right pre (int n) (int m) (traceAllowance L (n + m)) 0 0 []) (\<lambda>r.
        case r of
          TraceFull \<Rightarrow> seq (SparseDiff left right pre suf L) (\<lambda>sparse.
            case sparse of Some es \<Rightarrow> ret es | None \<Rightarrow> LinearDiff left right pre suf L)
        | Found d trace \<Rightarrow> seq (operationsOf L (int n) (int m) d trace) (\<lambda>ops.
            seq (check L) (\<lambda>_. ret (editsOf L right ops pre pre False [])))))"

definition diffSpan :: "budget \<Rightarrow> str list \<Rightarrow> str list \<Rightarrow> nat \<Rightarrow> nat \<Rightarrow> edit list comp" where
  "diffSpan L left right pre suf =
    (let n = length left - pre - suf; m = length right - pre - suf
     in if n = 0 \<or> m = 0 then replaceAll L left right pre suf
        else seq (if 2048 < n + m \<and> min n m \<le> traceBytes L div 8
                  then commonHash L left right pre suf else ret True) (\<lambda>common.
          if common then greedyDiff L left right pre suf else replaceAll L left right pre suf))"

text \<open>\<open>sizeof(Edit) = 64\<close>, \<open>sizeof(std::int64_t) = 8\<close>, \<open>sizeof(std::string_view) = 16\<close>.\<close>

definition historyBytes :: "budget \<Rightarrow> nat \<Rightarrow> nat \<Rightarrow> nat" where
  "historyBytes L n m = (if n \<noteq> 0 \<and> m \<noteq> 0 then min (traceBytes L) ((n + m + 1) * (n + m + 2) div 2 * 8) else 0)"

definition diffLines :: "budget \<Rightarrow> str list \<Rightarrow> str list \<Rightarrow> edit list comp" where
  "diffLines L left right =
    seq resetSteps (\<lambda>_.
    seq (commonPrefix L left right 0) (\<lambda>pre.
    seq (commonSuffix L left right pre 0) (\<lambda>suf.
    let n = length left - pre - suf; m = length right - pre - suf
    in seq (if rangesOnly L then ret 0 else sumBytes L right pre (length right - suf) 0) (\<lambda>replacementBytes.
       seq (reserve L ((n + m) * (2 * 64 + 64) + replacementBytes * 2 + historyBytes L n m)) (\<lambda>_.
         diffSpan L left right pre suf)))))"

definition Diff :: "str \<Rightarrow> str \<Rightarrow> budget \<Rightarrow> edit list comp" where
  "Diff left right L =
    seq (check L) (\<lambda>_.
    if left = right then ret []
    else seq (CountLines left L defaultMaxLines defaultMaxBytes) (\<lambda>leftCount.
         seq (CountLines right L (2000000 - leftCount) defaultMaxBytes) (\<lambda>rightCount.
         seq (reserve L ((leftCount + rightCount) * 16)) (\<lambda>_.
         seq (SplitLines left L defaultMaxLines defaultMaxBytes) (\<lambda>ls.
         seq (SplitLines right L (2000000 - length ls) defaultMaxBytes) (\<lambda>rs.
           diffLines L ls rs))))))"

section \<open>The parts\<close>

lemma work_of_spec: "spec L c m P (envFailure L) \<Longrightarrow> yields m P (workFailure L)"
  by (rule yields_weaken [OF yields_of_spec]) (auto simp: workFailure_def)

lemma commonPrefix_spec:
  "p \<le> length l \<Longrightarrow> p \<le> length r \<Longrightarrow> take p l = take p r \<Longrightarrow>
    spec L (length l - p) (commonPrefix L l r p)
      (\<lambda>p'. p' \<le> length l \<and> p' \<le> length r \<and> take p' l = take p' r) (envFailure L)"
proof (induction L l r p rule: commonPrefix.induct)
  case (1 L l r p)
  show ?case
  proof (cases "p < length l \<and> p < length r \<and> l ! p = r ! p")
    case True
    have code: "commonPrefix L l r p = seq (countStep L) (\<lambda>_. commonPrefix L l r (Suc p))"
      using True by (subst commonPrefix.simps) simp
    have "take (Suc p) l = take (Suc p) r" using True 1(4) by (simp add: take_Suc_conv_app_nth)
    then show ?thesis unfolding code
      using 1(1) [OF True] True by (intro spec_step [OF spec_countStep]) auto
  next
    case False
    then show ?thesis using 1(2-) by (subst commonPrefix.simps) (auto intro: spec_ret)
  qed
qed

lemma commonSuffix_spec:
  "framed l r p s \<Longrightarrow> spec L (length l - s) (commonSuffix L l r p s) (framed l r p) (envFailure L)"
proof (induction L l r p s rule: commonSuffix.induct)
  case (1 L l r p s)
  show ?case
  proof (cases "s < length l - p \<and> s < length r - p \<and> l ! (length l - s - 1) = r ! (length r - s - 1)")
    case True
    have code: "commonSuffix L l r p s = seq (countStep L) (\<lambda>_. commonSuffix L l r p (Suc s))"
      using True by (subst commonSuffix.simps) simp
    have "s < length l" "s < length r" using True by auto
    then have "drop (length l - Suc s) l = l ! (length l - s - 1) # drop (length l - s) l"
      "drop (length r - Suc s) r = r ! (length r - s - 1) # drop (length r - s) r"
      using Cons_nth_drop_Suc [of "length l - Suc s" l, symmetric]
        Cons_nth_drop_Suc [of "length r - Suc s" r, symmetric]
      by (simp_all add: Suc_diff_Suc)
    then have "framed l r p (Suc s)" using True 1(2) by (auto simp: framed_def)
    then show ?thesis unfolding code
      using 1(1) [OF True] True by (intro spec_step [OF spec_countStep]) auto
  next
    case False
    then show ?thesis using 1(2-) by (subst commonSuffix.simps) (auto intro: spec_ret)
  qed
qed

lemma sumBytes_spec: "spec L (e - i) (sumBytes L ls i e bytes) (\<lambda>_. True) (envFailure L)"
proof (induction L ls i e bytes rule: sumBytes.induct)
  case (1 L ls i e bytes)
  then show ?case
    by (subst sumBytes.simps) (auto intro!: spec_ret spec_step [OF spec_countStep])
qed

lemma collectLines_spec:
  "i \<le> e \<Longrightarrow> e \<le> length ls \<Longrightarrow>
    spec L (e - i) (collectLines L ls i e out) (\<lambda>t. t = out @ concat (slice ls i e)) (envFailure L)"
proof (induction L ls i e out rule: collectLines.induct)
  case (1 L ls i e out)
  show ?case
  proof (cases "i < e")
    case True
    have code: "collectLines L ls i e out
        = seq (countStep L) (\<lambda>_. collectLines L ls (Suc i) e (out @ ls ! i))"
      using True by (subst collectLines.simps) simp
    have unfold: "concat (slice ls i e) = ls ! i @ concat (slice ls (Suc i) e)"
      using True 1(3) by (simp add: slice_Cons [of i e])
    show ?thesis unfolding code unfold
      using 1(1) [OF True] True 1(3) by (intro spec_step [OF spec_countStep]) auto
  next
    case False
    then show ?thesis using 1(2) by (subst collectLines.simps) (auto intro: spec_ret)
  qed
qed

lemma framed_empty:
  assumes "framed l r pre suf" "length l = pre + suf" "length r = pre + suf"
  shows "l = r"
proof -
  have "take pre l = take pre r" "drop pre l = drop pre r" using assms by (auto simp: framed_def)
  then show ?thesis by (metis append_take_drop_id)
qed

text \<open>One edit for the changed span costs all its lines; it is shortest when nothing is common.\<close>

definition replaced :: "budget \<Rightarrow> str list \<Rightarrow> str list \<Rightarrow> nat \<Rightarrow> nat \<Rightarrow> edit list \<Rightarrow> bool" where
  "replaced L l r pre suf es \<longleftrightarrow> diffOf L l r es
     \<and> (lcs (middle l pre suf) (middle r pre suf) = 0 \<longrightarrow> shortest l r es)"

lemma replaceAll_spec:
  assumes f: "framed l r pre suf" and "l \<noteq> r"
  shows "spec L (length r) (replaceAll L l r pre suf) (replaced L l r pre suf) (envFailure L)"
proof -
  let ?t = "if rangesOnly L then [] else concat (slice r pre (length r - suf))"
  let ?e = "mkEdit pre (length l - suf) pre (length r - suf) ?t"
  have le: "pre \<le> length l - suf" "pre \<le> length r - suf" using f by (auto simp: framed_def)
  have "\<not> (length l - suf = pre \<and> length r - suf = pre)"
    using framed_empty [OF f] assms(2) f unfolding framed_def by (metis le_add_diff_inverse2 le_add2 le_trans)
  then have "grown L l r ([] @ [?e]) (eEnd ?e) (oEnd ?e)"
    by (intro grown_new [OF grown_keeps [OF grown_start framed_start [OF f]]])
       (use le in \<open>auto simp: filled_def\<close>)
  then have "grown L l r [?e] (length l - suf) (length r - suf)" by simp
  then have diff: "diffOf L l r [?e]"
    by (rule grown_final [OF grown_keeps [OF _ framed_end [OF f]]])
  have "shortest l r [?e]" if "lcs (middle l pre suf) (middle r pre suf) = 0"
    by (rule shortest_framed [OF f, where k = 0]) (use diff that in \<open>auto simp: diffOf_def\<close>)
  then have ok: "replaced L l r pre suf [?e]" using diff by (simp add: replaced_def)
  have collect: "spec L (length r) (if rangesOnly L then ret [] else collectLines L r pre (length r - suf) [])
      (\<lambda>t. t = ?t) (envFailure L)"
    by (intro spec_if spec_ret spec_weaken [OF collectLines_spec [OF le(2)]]) auto
  show ?thesis unfolding replaceAll_def
    by (rule spec_step [OF collect order_refl], rule spec_step [OF spec_check], assumption, simp,
        rule spec_ret) (simp only: ok)
qed

section \<open>The shortcut is exact\<close>

lemma boundStep_spec:
  "spec L len (boundStep L p first len) (\<lambda>v. v = boundIndex p first len) (envFailure L)"
proof (induction L p first len rule: boundStep.induct)
  case (1 L p first len)
  show ?case
  proof (cases "len = 0")
    case True
    then show ?thesis
      by (simp add: boundStep.simps [of L p first 0] boundIndex.simps [of p first 0] spec_ret)
  next
    case False
    define half where "half = len div 2"
    define mid where "mid = first + half"
    have code: "boundStep L p first len = seq (countStep L) (\<lambda>_.
        if p mid then boundStep L p (mid + 1) (len - half - 1) else boundStep L p first half)"
      using False by (subst boundStep.simps) (simp only: if_False Let_def half_def mid_def)
    have pure: "boundIndex p first len =
        (if p mid then boundIndex p (mid + 1) (len - half - 1) else boundIndex p first half)"
      using False by (subst boundIndex.simps) (simp only: if_False Let_def half_def mid_def)
    have half: "half \<le> len - 1" "len - half - 1 \<le> len - 1" "1 \<le> len" using False by (auto simp: half_def)
    show ?thesis unfolding code pure
    proof (rule spec_step [OF spec_countStep], assumption, rule half(3), rule spec_if)
      assume "p mid"
      with 1(1) [OF False half_def mid_def this, THEN spec_weaken, OF half(2)]
      show "spec L (len - 1) (boundStep L p (mid + 1) (len - half - 1))
          (\<lambda>v. v = (if p mid then boundIndex p (mid + 1) (len - half - 1) else boundIndex p first half)) (envFailure L)"
        by simp
    next
      assume "\<not> p mid"
      with 1(2) [OF False half_def mid_def this, THEN spec_weaken, OF half(1)]
      show "spec L (len - 1) (boundStep L p first half)
          (\<lambda>v. v = (if p mid then boundIndex p (mid + 1) (len - half - 1) else boundIndex p first half)) (envFailure L)"
        by simp
    qed
  qed
qed

lemma binarySearch_spec:
  assumes "sorted hs"
  shows "spec L (length hs + 1) (binarySearch L hs h) (\<lambda>v. v \<longleftrightarrow> h \<in> set hs) (envFailure L)"
proof -
  define i where "i = boundIndex (\<lambda>i. hs ! i < h) 0 (length hs)"
  have mono: "hs ! k < h" if "k \<le> j" "j < length hs" "hs ! j < h" for k j
    using sorted_nth_mono [OF assms that(1,2)] that(3) by simp
  have i: "i \<le> length hs" "\<And>k. k < length hs \<Longrightarrow> hs ! k < h \<longleftrightarrow> k < i"
    using boundIndex_spec [of 0 "length hs" "\<lambda>i. hs ! i < h"] mono by (auto simp: i_def)
  have absent: "h \<notin> set hs" if "i = length hs"
    using i that by (metis in_set_conv_nth less_irrefl)
  have found: "(\<not> h < hs ! i) \<longleftrightarrow> h \<in> set hs" if "i \<noteq> length hs"
  proof -
    have lt: "i < length hs" using i(1) that by simp
    have ge: "h \<le> hs ! i" using i(2) [OF lt] by simp
    show ?thesis
    proof
      assume "\<not> h < hs ! i"
      then show "h \<in> set hs" using ge lt nth_mem [OF lt] by simp
    next
      assume "h \<in> set hs"
      then obtain k where k: "k < length hs" "hs ! k = h" by (auto simp: in_set_conv_nth)
      then have "i \<le> k" using i(2) [OF k(1)] by simp
      then show "\<not> h < hs ! i" using sorted_nth_mono [OF assms _ k(1)] k(2) by fastforce
    qed
  qed
  show ?thesis unfolding binarySearch_def
    by (rule spec_seq [OF boundStep_spec], unfold i_def [symmetric], rule spec_if, rule spec_ret)
       (use absent found i_def in \<open>auto intro!: spec_step [OF spec_countStep] spec_ret\<close>)
qed

lemma searchCommon_spec:
  assumes "sorted hs"
  shows "spec L ((e - i) * (length hs + 2)) (searchCommon L hs large i e)
    (\<lambda>v. v \<longleftrightarrow> (\<exists>j. i \<le> j \<and> j < e \<and> hashOf L (large ! j) \<in> set hs)) (envFailure L)"
  using assms
proof (induction L hs large i e rule: searchCommon.induct)
  case (1 L hs large i e)
  let ?hit = "hashOf L (large ! i) \<in> set hs"
  show ?case
  proof (cases "i < e")
    case True
    have code: "searchCommon L hs large i e =
        seq (countStep L) (\<lambda>_. seq (binarySearch L hs (hashOf L (large ! i))) (\<lambda>hit.
          if hit then ret True else searchCommon L hs large (Suc i) e))"
      using True by (subst searchCommon.simps) (simp only: if_True)
    have cost: "(e - i) * (length hs + 2) = 1 + ((length hs + 1) + (e - Suc i) * (length hs + 2))"
      using True by (simp add: Suc_diff_Suc [symmetric])
    have split: "(\<exists>j. i \<le> j \<and> j < e \<and> hashOf L (large ! j) \<in> set hs)
        \<longleftrightarrow> ?hit \<or> (\<exists>j. Suc i \<le> j \<and> j < e \<and> hashOf L (large ! j) \<in> set hs)"
      using True by (metis Suc_leD le_eq_less_or_eq less_eq_Suc_le)
    have IH: "spec L ((e - Suc i) * (length hs + 2)) (searchCommon L hs large (Suc i) e)
        (\<lambda>v. v \<longleftrightarrow> (\<exists>j. Suc i \<le> j \<and> j < e \<and> hashOf L (large ! j) \<in> set hs)) (envFailure L)"
      by (rule 1(1) [OF True _ 1(2), of False]) simp
    show ?thesis unfolding code cost split
    proof (rule spec_seq [OF spec_countStep], assumption, rule spec_seq [OF binarySearch_spec [OF 1(2)]], rule spec_if)
      fix hit assume hit: "hit \<longleftrightarrow> ?hit"
      show "hit \<Longrightarrow> spec L ((e - Suc i) * (length hs + 2)) (ret True)
          (\<lambda>v. v \<longleftrightarrow> ?hit \<or> (\<exists>j. Suc i \<le> j \<and> j < e \<and> hashOf L (large ! j) \<in> set hs)) (envFailure L)"
        using hit by (intro spec_ret) simp
      show "\<not> hit \<Longrightarrow> spec L ((e - Suc i) * (length hs + 2)) (searchCommon L hs large (Suc i) e)
          (\<lambda>v. v \<longleftrightarrow> ?hit \<or> (\<exists>j. Suc i \<le> j \<and> j < e \<and> hashOf L (large ! j) \<in> set hs)) (envFailure L)"
        using hit by (intro spec_weaken [OF IH]) auto
    qed
  next
    case False
    then show ?thesis by (subst searchCommon.simps) (auto intro: spec_ret)
  qed
qed

lemma set_slice: "b \<le> length ls \<Longrightarrow> set (slice ls a b) = {ls ! j | j. a \<le> j \<and> j < b}"
proof -
  assume b: "b \<le> length ls"
  have "x \<in> set (slice ls a b) \<longleftrightarrow> (\<exists>j. a \<le> j \<and> j < b \<and> x = ls ! j)" for x
  proof
    assume "x \<in> set (slice ls a b)"
    then obtain i where "i < b - a" "slice ls a b ! i = x" using b by (auto simp: in_set_conv_nth)
    then show "\<exists>j. a \<le> j \<and> j < b \<and> x = ls ! j"
      using b by (intro exI [of _ "a + i"]) (auto simp: slice_nth)
  next
    assume "\<exists>j. a \<le> j \<and> j < b \<and> x = ls ! j"
    then obtain j where "a \<le> j" "j < b" "x = ls ! j" by blast
    then have "j - a < length (slice ls a b)" "slice ls a b ! (j - a) = x" using b by (auto simp: slice_nth)
    then show "x \<in> set (slice ls a b)" by (metis nth_mem)
  qed
  then show ?thesis by auto
qed

lemma commonHash_spec:
  assumes f: "framed l r pre suf" and sorts: "\<And>k. k \<le> length l + length r \<Longrightarrow> sortCalls L k \<le> S"
  shows "spec L (length l + length r + S + (length l + length r) * (length l + length r + 2))
    (commonHash L l r pre suf)
    (\<lambda>common. \<not> common \<longrightarrow> set (middle l pre suf) \<inter> set (middle r pre suf) = {}) (envFailure L)"
proof -
  let ?n = "length l - pre - suf" and ?m = "length r - pre - suf" and ?k = "length l + length r"
  define small where "small = (if ?n \<le> ?m then l else r)"
  define large where "large = (if ?n \<le> ?m then r else l)"
  define hs where "hs = map (hashOf L) (slice small pre (length small - suf))"
  have len: "length small \<le> ?k" "length large \<le> ?k" "length hs \<le> ?k"
    by (auto simp: small_def large_def hs_def)
  have search: "spec L (?k * (?k + 2)) (searchCommon L (sort hs) large pre (length large - suf))
      (\<lambda>v. v \<longleftrightarrow> (\<exists>j. pre \<le> j \<and> j < length large - suf \<and> hashOf L (large ! j) \<in> set hs)) (envFailure L)"
  proof (rule spec_weaken [OF searchCommon_spec])
    show "(length large - suf - pre) * (length (sort hs) + 2) \<le> ?k * (?k + 2)"
      using len by (intro mult_le_mono) auto
  qed auto
  have empty: "set (middle l pre suf) \<inter> set (middle r pre suf) = {}"
    if "\<not> (\<exists>j. pre \<le> j \<and> j < length large - suf \<and> hashOf L (large ! j) \<in> set hs)"
  proof -
    have "hashOf L ` set (middle large pre suf) \<inter> set hs = {}"
      using that by (auto simp: set_slice)
    then have "set (middle large pre suf) \<inter> set (middle small pre suf) = {}"
      by (auto simp: hs_def)
    then show ?thesis by (auto simp: small_def large_def split: if_splits)
  qed
  have code: "commonHash L l r pre suf = seq (repeatStep L (length small - suf - pre)) (\<lambda>_.
      seq (repeatStep L (sortCalls L (length hs))) (\<lambda>_.
        searchCommon L (sort hs) large pre (length large - suf)))"
    by (simp only: commonHash_def Let_def small_def large_def hs_def)
  have one: "spec L ?k (repeatStep L (length small - suf - pre)) (\<lambda>_. True) (envFailure L)"
    by (rule spec_weaken [OF spec_repeatStep [where E = "envFailure L"]]) (use len in auto)
  have two: "spec L S (repeatStep L (sortCalls L (length hs))) (\<lambda>_. True) (envFailure L)"
    by (rule spec_weaken [OF spec_repeatStep [where E = "envFailure L"]]) (use sorts [OF len(3)] in auto)
  have "spec L (?k + (S + ?k * (?k + 2))) (commonHash L l r pre suf)
      (\<lambda>common. \<not> common \<longrightarrow> set (middle l pre suf) \<inter> set (middle r pre suf) = {}) (envFailure L)"
    unfolding code
    by (rule spec_seq [OF one], rule spec_seq [OF two], rule spec_weaken [OF search order_refl])
       (use empty in blast)+
  then show ?thesis by (simp only: add.assoc)
qed

section \<open>The greedy engine\<close>

lemma script_prefix:
  assumes "script l r p p es" "take p l = take p r"
  shows "script l r 0 0 es"
proof (cases es)
  case Nil
  then have "drop p l = drop p r" using assms(1) by simp
  then show ?thesis using assms(2) Nil by simp (metis append_take_drop_id)
next
  case (Cons e es')
  then have e: "p \<le> eBegin e" "p \<le> oBegin e" "slice l p (eBegin e) = slice r p (oBegin e)"
    using assms(1) by auto
  have "slice l 0 p = slice r 0 p" using assms(2) by (simp add: slice_def)
  then have "slice l 0 (eBegin e) = slice r 0 (oBegin e)"
    using slice_append [of 0 p "eBegin e" l] slice_append [of 0 p "oBegin e" r] e by (metis le0)
  then show ?thesis using assms(1) Cons by simp
qed

lemma editDistance_framed:
  assumes "framed l r pre suf"
  shows "editDistance (middle l pre suf) (middle r pre suf) = editDistance l r"
  using lcs_framed [OF assms] assms by (auto simp: editDistance_def framed_def)

lemma spans_middle: "spans l r pre (middle l pre suf) (middle r pre suf)"
  by (simp add: spans_def slice_nth)

text \<open>Edits that come from a path through the middle are a shortest script when the path is.\<close>

lemma path_edits:
  assumes f: "framed l r pre suf" and ops: "path (middle l pre suf) (middle r pre suf) 0 0 ops"
    and cost: "pathCost ops = editDistance (middle l pre suf) (middle r pre suf)"
  shows "diffOf L l r (editsOf L r ops pre pre False []) \<and> shortest l r (editsOf L r ops pre pre False [])"
proof -
  let ?A = "middle l pre suf" and ?B = "middle r pre suf" and ?S = "drop (length l - suf) l"
  let ?es = "editsOf L r ops pre pre False []"
  have "path (take pre l @ ?A @ ?S) (take pre l @ ?B @ ?S) (length (take pre l) + 0) (length (take pre l) + 0) ops"
    by (rule path_context [OF ops])
  moreover have "take pre l @ ?A @ ?S = l" "take pre l @ ?B @ ?S = r" "length (take pre l) = pre"
    using slice_split [of pre suf l] slice_split [of pre suf r] f by (auto simp: framed_def)
  ultimately have "path l r pre pre ops" by simp
  from editsOf_scripted [OF this, of L]
  have es: "script l r pre pre ?es" "separated ?es" "\<forall>e \<in> set ?es. filled L r e" "scriptCost ?es = pathCost ops"
    by (auto simp: scripted_def)
  then have diff: "diffOf L l r ?es" using script_prefix [OF es(1)] f by (simp add: diffOf_def framed_def)
  have "2 * lcs ?A ?B \<le> length ?A + length ?B" using lcs_le_length [of ?A ?B] by linarith
  then have "shortest l r ?es"
    by (intro shortest_framed [OF f, where k = "lcs ?A ?B"])
       (use diff es(4) cost in \<open>auto simp: diffOf_def editDistance_def\<close>)
  with diff show ?thesis ..
qed

abbreviation historyNeeded :: "nat \<Rightarrow> nat" where
  "historyNeeded d \<equiv> 4 * (Suc d * Suc (Suc d))"

definition greedyWork :: "str list \<Rightarrow> str list \<Rightarrow> nat" where
  "greedyWork l r = Suc (editDistance l r) * (Suc (editDistance l r) * Suc (length l))"

lemma depthLoop_middle:
  assumes f: "framed l r pre suf"
  shows "spec L (greedyWork l r) (depthLoop L l r pre (int (length l - pre - suf)) (int (length r - pre - suf))
      traceLimit 0 0 []) (found (middle l pre suf) (middle r pre suf) traceLimit) (envFailure L)"
proof (rule spec_weaken [OF depthLoop_spec [OF spans_middle [where suf = suf]]])
  show "(Suc (editDistance (middle l pre suf) (middle r pre suf)) - 0) *
      (Suc (editDistance (middle l pre suf) (middle r pre suf)) * Suc (length (middle l pre suf))) \<le> greedyWork l r"
    unfolding editDistance_framed [OF f] greedyWork_def diff_zero by (intro mult_le_mono) auto
qed (use f in \<open>auto simp: framed_def\<close>)

definition greedyAnswer :: "budget \<Rightarrow> str list \<Rightarrow> str list \<Rightarrow> nat \<Rightarrow> edit list \<Rightarrow> bool" where
  "greedyAnswer L l r traceLimit es \<longleftrightarrow> diffOf L l r es
     \<and> (historyNeeded (editDistance l r) \<le> traceLimit \<longrightarrow> shortest l r es)"

lemma foundBranch_spec:
  assumes f: "framed l r pre suf" and "found (middle l pre suf) (middle r pre suf) traceLimit (Found d trace)"
  shows "spec L 0 (seq (operationsOf L (int (length l - pre - suf)) (int (length r - pre - suf)) d trace) (\<lambda>ops.
      seq (check L) (\<lambda>_. ret (editsOf L r ops pre pre False []))))
      (\<lambda>es. diffOf L l r es \<and> shortest l r es) (envFailure L)"
proof -
  let ?A = "middle l pre suf" and ?B = "middle r pre suf"
  have d: "d = editDistance ?A ?B" "\<forall>j < editDistance ?A ?B. trace ! j = rowOf ?A ?B j"
    using assms(2) by (auto simp: found_def)
  have len: "int (length l - pre - suf) = int (length ?A)" "int (length r - pre - suf) = int (length ?B)"
    using f by (auto simp: framed_def)
  show ?thesis unfolding d(1)
    by (rule spec_step [OF operationsOf_spec [OF len d(2)]], simp, rule spec_step [OF spec_check], assumption, simp,
        rule spec_ret) (use path_edits [OF f] in blast)
qed

lemma greedyDiff_yields:
  assumes f: "framed l r pre suf"
  shows "yields (greedyDiff L l r pre suf)
    (greedyAnswer L l r (traceAllowance L (length l - pre - suf + (length r - pre - suf)))) (workFailure L)"
proof -
  let ?t = "traceAllowance L (length l - pre - suf + (length r - pre - suf))"
  show ?thesis unfolding greedyDiff_def Let_def
  proof (rule yields_seq [OF work_of_spec [OF depthLoop_middle [OF f]]])
    fix s assume s: "found (middle l pre suf) (middle r pre suf) ?t s"
    show "yields (case s of
        Found d trace \<Rightarrow> seq (operationsOf L (int (length l - pre - suf)) (int (length r - pre - suf)) d trace) (\<lambda>ops.
            seq (check L) (\<lambda>_. ret (editsOf L r ops pre pre False [])))
      | TraceFull \<Rightarrow> seq (SparseDiff l r pre suf L) (\<lambda>sparse.
            case sparse of Some es \<Rightarrow> ret es | None \<Rightarrow> LinearDiff l r pre suf L))
      (greedyAnswer L l r ?t) (workFailure L)"
    proof (cases s)
      case (Found d trace)
      from work_of_spec [OF foundBranch_spec [OF f s [unfolded Found]]] show ?thesis
        unfolding Found search.case by (rule yields_weaken) (simp_all add: greedyAnswer_def)
    next
      case TraceFull
      have full: "\<not> historyNeeded (editDistance l r) \<le> ?t"
        using s editDistance_framed [OF f] by (simp add: TraceFull found_def)
      show ?thesis unfolding TraceFull search.case
        by (rule yields_seq [OF SparseDiff_yields [OF f]], rule yields_option,
            rule yields_weaken [OF LinearDiff_yields [OF f]])
           (use full in \<open>auto simp: greedyAnswer_def sparseAnswer_def intro!: yields_ret\<close>)
    qed
  qed
qed

lemma greedyDiff_spec:
  assumes f: "framed l r pre suf"
    and "historyNeeded (editDistance l r) \<le> traceAllowance L (length l - pre - suf + (length r - pre - suf))"
  shows "spec L (greedyWork l r) (greedyDiff L l r pre suf) (\<lambda>es. diffOf L l r es \<and> shortest l r es) (envFailure L)"
proof -
  let ?t = "traceAllowance L (length l - pre - suf + (length r - pre - suf))"
  show ?thesis unfolding greedyDiff_def Let_def
  proof (rule spec_step [OF depthLoop_middle [OF f] order_refl])
    fix s assume s: "found (middle l pre suf) (middle r pre suf) ?t s"
    obtain d trace where Found: "s = Found d trace"
      using s assms(2) editDistance_framed [OF f] by (cases s) (auto simp: found_def)
    from foundBranch_spec [OF f s [unfolded Found]]
    show "spec L (greedyWork l r - greedyWork l r) (case s of
        Found d trace \<Rightarrow> seq (operationsOf L (int (length l - pre - suf)) (int (length r - pre - suf)) d trace) (\<lambda>ops.
            seq (check L) (\<lambda>_. ret (editsOf L r ops pre pre False [])))
      | TraceFull \<Rightarrow> seq (SparseDiff l r pre suf L) (\<lambda>sparse.
            case sparse of Some es \<Rightarrow> ret es | None \<Rightarrow> LinearDiff l r pre suf L))
      (\<lambda>es. diffOf L l r es \<and> shortest l r es) (envFailure L)"
      unfolding Found search.case diff_self_eq_0 .
  qed
qed

section \<open>The choice of the engine\<close>

definition hashWork :: "str list \<Rightarrow> str list \<Rightarrow> nat \<Rightarrow> nat" where
  "hashWork l r S = length l + length r + S + (length l + length r) * (length l + length r + 2)"

lemma choose_common:
  assumes "framed l r pre suf" and "\<And>k. k \<le> length l + length r \<Longrightarrow> sortCalls L k \<le> S"
  shows "spec L (hashWork l r S) (if b then commonHash L l r pre suf else ret True)
    (\<lambda>common. \<not> common \<longrightarrow> lcs (middle l pre suf) (middle r pre suf) = 0) (envFailure L)"
proof -
  have "spec L (hashWork l r S) (commonHash L l r pre suf)
      (\<lambda>common. \<not> common \<longrightarrow> lcs (middle l pre suf) (middle r pre suf) = 0) (envFailure L)"
    by (rule spec_weaken [OF commonHash_spec [OF assms]])
       (use lcs_disjoint in \<open>auto simp: hashWork_def\<close>)
  then show ?thesis by (auto intro: spec_ret)
qed

lemma middle_empty:
  assumes "length l - pre - suf = 0 \<or> length r - pre - suf = 0"
  shows "lcs (middle l pre suf) (middle r pre suf) = 0"
proof -
  have "middle l pre suf = [] \<or> middle r pre suf = []" using assms by (auto simp: slice_def)
  then show ?thesis by auto
qed

lemma sortCalls_bound: "\<exists>S. \<forall>k \<le> n. sortCalls L k \<le> (S :: nat)"
  using finite_imageI [of "{..n}" "sortCalls L"] by (auto simp: finite_nat_set_iff_bounded_le)

lemma diffSpan_yields:
  assumes f: "framed l r pre suf" and ne: "l \<noteq> r"
  shows "yields (diffSpan L l r pre suf)
    (greedyAnswer L l r (traceAllowance L (length l - pre - suf + (length r - pre - suf)))) (workFailure L)"
proof -
  obtain S where S: "\<And>k. k \<le> length l + length r \<Longrightarrow> sortCalls L k \<le> S"
    using sortCalls_bound [of "length l + length r" L] by auto
  have whole: "yields (replaceAll L l r pre suf) (greedyAnswer L l r t) (workFailure L)"
    if "lcs (middle l pre suf) (middle r pre suf) = 0" for t
    by (rule yields_weaken [OF work_of_spec [OF replaceAll_spec [OF f ne]]])
       (use that in \<open>auto simp: replaced_def greedyAnswer_def\<close>)
  show ?thesis unfolding diffSpan_def Let_def
    by (rule yields_if, rule whole, erule middle_empty, rule yields_seq [OF work_of_spec [OF choose_common [OF f S]]],
        assumption, rule yields_if, rule greedyDiff_yields [OF f], rule whole) blast
qed

lemma diffSpan_spec:
  assumes f: "framed l r pre suf" and ne: "l \<noteq> r"
    and S: "\<And>k. k \<le> length l + length r \<Longrightarrow> sortCalls L k \<le> S"
    and "historyNeeded (editDistance l r) \<le> traceAllowance L (length l - pre - suf + (length r - pre - suf))"
  shows "spec L (hashWork l r S + (length r + greedyWork l r)) (diffSpan L l r pre suf)
    (\<lambda>es. diffOf L l r es \<and> shortest l r es) (envFailure L)"
proof -
  have whole: "spec L (length r + greedyWork l r) (replaceAll L l r pre suf)
      (\<lambda>es. diffOf L l r es \<and> shortest l r es) (envFailure L)"
    if "lcs (middle l pre suf) (middle r pre suf) = 0"
    by (rule spec_weaken [OF replaceAll_spec [OF f ne]]) (use that in \<open>auto simp: replaced_def\<close>)
  have greedy: "spec L (length r + greedyWork l r) (greedyDiff L l r pre suf)
      (\<lambda>es. diffOf L l r es \<and> shortest l r es) (envFailure L)"
    by (rule spec_weaken [OF greedyDiff_spec [OF f assms(4)]]) auto
  show ?thesis unfolding diffSpan_def Let_def
    by (rule spec_if, rule spec_weaken [OF whole], erule middle_empty, simp, assumption, assumption,
        rule spec_seq [OF choose_common [OF f S]], assumption, rule spec_if, rule greedy, rule whole) blast
qed

section \<open>Lines\<close>

lemma spec_replacement:
  "spec L (length r) (if rangesOnly L then ret 0 else sumBytes L r pre (length r - suf) 0) (\<lambda>_. True) (envFailure L)"
  by (intro spec_if spec_ret spec_weaken [OF sumBytes_spec]) auto

lemma diffLines_yields:
  assumes "l \<noteq> r"
  shows "yields (diffLines L l r) (\<lambda>es. diffOf L l r es
    \<and> (historyNeeded (editDistance l r) \<le> min (traceBytes L) (8 * 1024 * 1024) \<longrightarrow> shortest l r es)) (workFailure L)"
proof -
  have prefixes: "yields (commonPrefix L l r 0) (\<lambda>p. framed l r p 0) (workFailure L)"
    by (rule yields_weaken [OF work_of_spec [OF commonPrefix_spec]]) (auto simp: framed_def)
  have reserved: "yields (reserve L k) (\<lambda>_. True) (workFailure L)" for k
    by (rule yields_reserve) (simp add: workFailure_def)
  have span: "yields (diffSpan L l r p s) (\<lambda>es. diffOf L l r es
      \<and> (historyNeeded (editDistance l r) \<le> min (traceBytes L) (8 * 1024 * 1024) \<longrightarrow> shortest l r es)) (workFailure L)"
    if "framed l r p s" for p s
    by (rule yields_weaken [OF diffSpan_yields [OF that assms]])
       (auto simp: greedyAnswer_def traceAllowance_def split: if_splits)
  show ?thesis unfolding diffLines_def Let_def
    by (rule yields_seq [OF yields_resetSteps], rule yields_seq [OF prefixes],
        rule yields_seq [OF work_of_spec [OF commonSuffix_spec]], assumption,
        rule yields_seq [OF work_of_spec [OF spec_replacement]], rule yields_seq [OF reserved], erule span)
qed

definition diffWork :: "str list \<Rightarrow> str list \<Rightarrow> nat \<Rightarrow> nat" where
  "diffWork l r S = length l + (length l + (length r + (hashWork l r S + (length r + greedyWork l r))))"

lemma diffLines_fresh:
  assumes ne: "l \<noteq> r" and S: "\<And>k. k \<le> length l + length r \<Longrightarrow> sortCalls L k \<le> S"
    and history: "historyNeeded (editDistance l r) \<le> min (traceBytes L) (8 * 1024 * 1024)"
  shows "yields (diffLines L l r) (\<lambda>es. diffOf L l r es \<and> shortest l r es)
    (\<lambda>e. envFailure L e \<or> (e = ''DiffWorkLimit'' \<and> maxSteps L < diffWork l r S))"
proof -
  have allowance: "historyNeeded (editDistance l r) \<le> traceAllowance L k" for k
    using history by (auto simp: traceAllowance_def)
  have prefixes: "spec L (length l) (commonPrefix L l r 0) (\<lambda>p. framed l r p 0) (envFailure L)"
    by (rule spec_weaken [OF commonPrefix_spec]) (auto simp: framed_def)
  have suffixes: "spec L (length l) (commonSuffix L l r p 0) (framed l r p) (envFailure L)" if "framed l r p 0" for p
    using commonSuffix_spec [OF that, of L] by simp
  show ?thesis unfolding diffLines_def diffWork_def Let_def
    by (rule fresh_of_spec, rule spec_seq [OF prefixes], rule spec_seq [OF suffixes], assumption,
        rule spec_seq [OF spec_replacement], rule spec_step [OF spec_reserve], assumption, simp,
        unfold diff_zero, rule diffSpan_spec [OF _ ne S allowance])
qed

section \<open>Texts\<close>

definition diffFailure :: "budget \<Rightarrow> failure \<Rightarrow> bool" where
  "diffFailure L e \<longleftrightarrow> workFailure L e \<or> e \<in> {''LineLimit'', ''LongLineLimit''}"

lemma scanError_diff: "scanError L maxLines maxBytes ls e \<Longrightarrow> diffFailure L e"
  by (auto simp: scanError_def limitFailure_def diffFailure_def workFailure_def)

lemma lcs_refl: "lcs l l = length l"
  using lcs_prefix [of l "[]" "[]"] by simp

lemma same_text: "diffOf L (splitText t) (splitText t) [] \<and> shortest (splitText t) (splitText t) []"
  by (simp add: diffOf_def shortest_def lcs_refl)

text \<open>What comes before the line engine only reads the texts.\<close>

lemma Diff_frame:
  assumes same: "left = right \<Longrightarrow> P []"
    and lines: "left \<noteq> right \<Longrightarrow> yields (diffLines L (splitText left) (splitText right)) P E"
    and env: "\<And>e. envFailure L e \<Longrightarrow> E e"
    and scan: "\<And>e. limitFailure defaultMaxLines defaultMaxBytes (splitText left) e \<Longrightarrow> E e"
      "\<And>e. limitFailure (2000000 - length (splitText left)) defaultMaxBytes (splitText right) e \<Longrightarrow> E e"
  shows "yields (Diff left right L) P E"
proof -
  have left: "yields (CountLines left L defaultMaxLines defaultMaxBytes) (\<lambda>n. n = length (splitText left)) E"
    "yields (SplitLines left L defaultMaxLines defaultMaxBytes) (\<lambda>ls. ls = splitText left) E"
    by (rule yields_weaken [OF yields_of_free_spec [OF CountLines_spec]]
        yields_weaken [OF yields_of_free_spec [OF SplitLines_spec]];
        use env scan(1) in \<open>auto simp: scanError_def\<close>)+
  have right: "yields (CountLines right L (2000000 - length (splitText left)) defaultMaxBytes) (\<lambda>_. True) E"
    "yields (SplitLines right L (2000000 - length (splitText left)) defaultMaxBytes) (\<lambda>ls. ls = splitText right) E"
    by (rule yields_weaken [OF yields_of_free_spec [OF CountLines_spec]]
        yields_weaken [OF yields_of_free_spec [OF SplitLines_spec]];
        use env scan(2) in \<open>auto simp: scanError_def\<close>)+
  show ?thesis unfolding Diff_def
    by (rule yields_seq [OF yields_check [OF env]], assumption, rule yields_if, rule yields_ret, erule same,
        rule yields_seq [OF left(1)], simp only:, rule yields_seq [OF right(1)],
        rule yields_seq [OF yields_reserve [OF env]], assumption,
        rule yields_seq [OF left(2)], simp only:, rule yields_seq [OF right(2)], simp only:, erule lines)
qed

lemma Diff_yields:
  "yields (Diff left right L) (\<lambda>es. diffOf L (splitText left) (splitText right) es
     \<and> (historyNeeded (editDistance (splitText left) (splitText right)) \<le> min (traceBytes L) (8 * 1024 * 1024)
        \<longrightarrow> shortest (splitText left) (splitText right) es)) (diffFailure L)"
proof (rule Diff_frame)
  assume "left \<noteq> right"
  then have "splitText left \<noteq> splitText right" by (simp add: splitText_inject)
  from diffLines_yields [OF this, of L]
  show "yields (diffLines L (splitText left) (splitText right)) (\<lambda>es. diffOf L (splitText left) (splitText right) es
     \<and> (historyNeeded (editDistance (splitText left) (splitText right)) \<le> min (traceBytes L) (8 * 1024 * 1024)
        \<longrightarrow> shortest (splitText left) (splitText right) es)) (diffFailure L)"
    by (rule yields_weaken) (auto simp: diffFailure_def)
next
  show "\<And>e. envFailure L e \<Longrightarrow> diffFailure L e" by (simp add: diffFailure_def workFailure_def)
qed (auto simp: same_text intro: scanError_diff [unfolded scanError_def])

text \<open>The engine provides the interface that its clients rely on.\<close>

interpretation engine: differ Diff diffFailure
  by unfold_locales (rule yields_weaken [OF Diff_yields], auto)

definition withinDefaults :: "str \<Rightarrow> str \<Rightarrow> bool" where
  "withinDefaults left right \<longleftrightarrow> length (splitText left) + length (splitText right) \<le> 2000000
     \<and> (\<forall>line \<in> set (splitText left) \<union> set (splitText right). length line \<le> defaultMaxBytes)"

lemma Diff_complete:
  assumes "quiet L" "withinDefaults left right"
    and "\<And>k. k \<le> length (splitText left) + length (splitText right) \<Longrightarrow> sortCalls L k \<le> S"
    and "historyNeeded (editDistance (splitText left) (splitText right)) \<le> min (traceBytes L) (8 * 1024 * 1024)"
    and "diffWork (splitText left) (splitText right) S \<le> maxSteps L"
  shows "yields (Diff left right L) (\<lambda>es. diffOf L (splitText left) (splitText right) es
     \<and> shortest (splitText left) (splitText right) es) (\<lambda>_. False)"
proof (rule Diff_frame)
  assume "left \<noteq> right"
  then have "splitText left \<noteq> splitText right" by (simp add: splitText_inject)
  from diffLines_fresh [OF this assms(3,4)]
  show "yields (diffLines L (splitText left) (splitText right)) (\<lambda>es. diffOf L (splitText left) (splitText right) es
     \<and> shortest (splitText left) (splitText right) es) (\<lambda>_. False)"
    by (rule yields_weaken) (use assms(1,5) quiet_no_failure in auto)
next
  show "\<And>e. envFailure L e \<Longrightarrow> False" using assms(1) quiet_no_failure by blast
qed (use assms(2) in \<open>force simp: same_text limitFailure_def withinDefaults_def defaultMaxLines_def\<close>)+

section \<open>Properties\<close>

text \<open>C1: whatever the budget does, \<open>Diff\<close> answers with a script that turns the lines of the
  left text into the lines of the right one, whose edits are in order, separated by kept
  lines, nonempty and filled with the text they insert; or it fails with a code of the
  environment, a limit on the input, on the work or on the memory.\<close>

theorem Diff_correct:
  "case fst (Diff left right L w) of
     Inr es \<Rightarrow> diffOf L (splitText left) (splitText right) es
   | Inl e \<Rightarrow> envFailure L e \<or> e \<in> {''LineLimit'', ''LongLineLimit'', ''DiffWorkLimit'', ''DiffMemoryLimit'', ''DiffPartition''}"
proof (cases "Diff left right L w")
  case (Pair v w')
  show ?thesis
  proof (cases v)
    case (Inl e)
    then have "diffFailure L e" using yieldsD_error [OF Diff_yields] Pair by blast
    then show ?thesis using Pair Inl by (auto simp: diffFailure_def workFailure_def)
  next
    case (Inr es)
    then show ?thesis using yieldsD [OF Diff_yields] Pair by auto
  qed
qed

text \<open>C2: when the greedy history fits the memory it is allowed (eight MiB at most, four
  times the square of the distance), the script is a shortest one: no script between the
  two texts inserts and deletes fewer lines.\<close>

theorem Diff_shortest:
  assumes "historyNeeded (editDistance (splitText left) (splitText right)) \<le> min (traceBytes L) 8388608"
    and "Diff left right L w = (Inr es, w')"
    and "script (splitText left) (splitText right) 0 0 other"
  shows "scriptCost es \<le> scriptCost other"
proof (rule shortest_minimal [OF _ assms(3)])
  show "shortest (splitText left) (splitText right) es"
    using yieldsD [OF Diff_yields assms(2)] assms(1) by simp
qed

text \<open>C3: a run that nothing interrupts, on texts within the limits, with room for the greedy
  history and with at least \<open>diffWork\<close> steps allowed does return, and with a shortest script.\<close>

theorem Diff_returns:
  assumes "quiet L" "withinDefaults left right"
    and "\<forall>k \<le> length (splitText left) + length (splitText right). sortCalls L k \<le> S"
    and "historyNeeded (editDistance (splitText left) (splitText right)) \<le> min (traceBytes L) 8388608"
    and "diffWork (splitText left) (splitText right) S \<le> maxSteps L"
  shows "\<exists>es w'. Diff left right L w = (Inr es, w') \<and> diffOf L (splitText left) (splitText right) es
    \<and> shortest (splitText left) (splitText right) es"
proof -
  have complete: "yields (Diff left right L) (\<lambda>es. diffOf L (splitText left) (splitText right) es
     \<and> shortest (splitText left) (splitText right) es) (\<lambda>_. False)"
    by (rule Diff_complete) (use assms in auto)
  obtain v w' where run: "Diff left right L w = (v, w')" by (cases "Diff left right L w")
  then show ?thesis
    using yieldsD [OF complete] yieldsD_error [OF complete] by (cases v) auto
qed

text \<open>C4: applying the script of \<open>Diff\<close> to the left text gives back the right text, to the byte.\<close>

theorem Diff_Apply:
  assumes "\<not> rangesOnly L" "Diff left right L w = (Inr es, w1)" "Apply D left es w1 = (Inr t, w2)"
  shows "t = right"
  using yieldsD [OF Apply_diffOf [OF engine.diff_result [OF assms(2)] assms(1)] assms(3)] .

section \<open>A run\<close>

lemmas engine_run = Diff_def diffLines_def diffSpan_def greedyDiff_def operationsOf_def
  commonPrefix.simps commonSuffix.simps sumBytes.simps depthLoop.simps rowLoop.simps snake.simps
  backDiagonal.simps backStep_def scanLines_def CountLines_def SplitLines_def emitLine_def
  updateLast_def traceAllowance_def LinearDiffWorkspaceBytes_def defaultMaxLines_def defaultMaxBytes_def

abbreviation sampleLeft :: str where "sampleLeft \<equiv> [CHR ''a'', LF, CHR ''b'', LF]"
abbreviation sampleRight :: str where "sampleRight \<equiv> [CHR ''a'', LF, CHR ''c'', LF]"
abbreviation sampleEdits :: "edit list" where "sampleEdits \<equiv> [mkEdit 1 2 1 2 [CHR ''c'', LF]]"

lemma sample_run:
  "Diff sampleLeft sampleRight defaultBudget world0 = (Inr sampleEdits, \<lparr>ticks = 25, steps = 7\<rparr>)"
  by (simp add: engine_run budget_run defaultBudget_def world0_def mkEdit_def)

lemma sample_apply:
  "Apply defaultBudget sampleLeft sampleEdits \<lparr>ticks = 25, steps = 7\<rparr> = (Inr sampleRight, \<lparr>ticks = 31, steps = 7\<rparr>)"
  by (simp add: Apply_def engine_run budget_run defaultBudget_def mkEdit_def appendLines.simps)

lemma sample_lines [simp]:
  "splitText sampleLeft = [[CHR ''a'', LF], [CHR ''b'', LF]]"
  "splitText sampleRight = [[CHR ''a'', LF], [CHR ''c'', LF]]"
  by (simp_all add: splitText.simps glue_def)

lemma sample_distance: "editDistance (splitText sampleLeft) (splitText sampleRight) = 2"
  by (simp add: editDistance_def)

theorem Diff_shortest_witness:
  "scriptCost sampleEdits \<le> scriptCost [mkEdit 0 1 0 0 [], mkEdit 1 2 0 2 []]"
  by (rule Diff_shortest [OF _ sample_run])
     (simp_all only: sample_distance, simp_all add: defaultBudget_def slice_def)

theorem Diff_returns_witness:
  "\<exists>es w'. Diff sampleLeft sampleRight defaultBudget world0 = (Inr es, w')
    \<and> diffOf defaultBudget (splitText sampleLeft) (splitText sampleRight) es
    \<and> shortest (splitText sampleLeft) (splitText sampleRight) es"
proof (rule Diff_returns [where S = 16, OF quiet_default])
  show "withinDefaults sampleLeft sampleRight" by (simp add: withinDefaults_def defaultMaxBytes_def)
  show "\<forall>k \<le> length (splitText sampleLeft) + length (splitText sampleRight). sortCalls defaultBudget k \<le> 16"
  proof (intro allI impI)
    fix k :: nat assume "k \<le> length (splitText sampleLeft) + length (splitText sampleRight)"
    then have "k * k \<le> 4 * 4" by (intro mult_le_mono) simp_all
    then show "sortCalls defaultBudget k \<le> 16" by (simp add: defaultBudget_def)
  qed
qed (simp_all only: diffWork_def greedyWork_def hashWork_def sample_distance, simp_all add: defaultBudget_def)

theorem Diff_Apply_witness:
  "case Apply defaultBudget sampleLeft sampleEdits \<lparr>ticks = 25, steps = 7\<rparr> of
     (Inr t, _) \<Rightarrow> t = [CHR ''a'', LF, CHR ''c'', LF] | _ \<Rightarrow> False"
  unfolding sample_apply prod.case sum.case
  by (rule Diff_Apply [OF _ sample_run sample_apply]) (simp add: defaultBudget_def)

end
