(* ===== verification/MergeModel.thy ===== *)
theory MergeModel
  imports Prelude CommonSubsequence
begin

text \<open>
  The interactive merge of \<open>HyperCompare/core/mergeModel.cpp\<close>: the data of
  \<open>mergeModel.hpp\<close> and the class \<open>MergeModel\<close>, the state of every block of a plan inside
  the text that the user edits.  Positions are byte offsets, natural numbers below
  \<open>2 ^ 64\<close>; \<open>shift\<close> writes the wrap-around out.  \<open>nextRevision\<close> is a counter of the whole
  process: the operations take its value and return the new one.

  The lemmas show that a decision replaces the text of its block and of nothing else,
  that an edit of the text leaves the text of every block that keeps its resolution as it
  was, and when the regions stay in order.
\<close>

section \<open>Data\<close>

datatype Resolution = Unresolved | ChooseLeft | ChooseRight | ChooseBase
  | LeftThenRight | RightThenLeft | Manual | Omit

record blockState =
  sBegin :: nat
  sEnd :: nat
  sResolution :: Resolution
  sMapped :: bool

record mergeBlock =
  bId :: nat
  bLeftBegin :: nat
  bRightBegin :: nat
  bBaseBegin :: nat
  bLeftLine :: nat
  bRightLine :: nat
  bBaseLine :: nat
  bLeft :: str
  bRight :: str
  bBase :: str
  bAutomatic :: bool

record mergePlan =
  hasBase :: bool
  blocks :: "mergeBlock list"
  initial :: "blockState list"

record blockEdit =
  deId :: nat
  deRevision :: nat
  deBegin :: nat
  deEnd :: nat
  deResolution :: Resolution
  deReplacement :: str

record mergeModel =
  plan :: mergePlan
  blockStates :: "blockState list"
  revision :: nat
  reviewRequired :: bool

section \<open>Revisions and shifts\<close>

definition nextRevision :: "nat \<Rightarrow> nat" where
  "nextRevision counter = plus64 counter 1"

definition shift :: "nat \<Rightarrow> nat \<Rightarrow> nat \<Rightarrow> nat" where
  "shift value removed inserted =
    (if removed \<le> inserted then plus64 value (inserted - removed)
     else minus64 value (removed - inserted))"

section \<open>The model\<close>

text \<open>The constructor; a missing plan is \<open>None\<close>.\<close>

definition newMergeModel :: "mergePlan option \<Rightarrow> nat \<Rightarrow> (failure + mergeModel) \<times> nat" where
  "newMergeModel p counter = (case p of None \<Rightarrow> (Inl ''MissingMergePlan'', counter)
     | Some q \<Rightarrow> (Inr \<lparr>plan = q, blockStates = initial q, revision = nextRevision counter,
         reviewRequired = False\<rparr>, nextRevision counter))"

definition blockIndex :: "mergeModel \<Rightarrow> nat \<Rightarrow> failure + nat" where
  "blockIndex m i =
    (if i = 0 \<or> length (blockStates m) < i \<or> bId (blocks (plan m) ! (i - 1)) \<noteq> i
     then Inl ''UnknownMergeBlock'' else Inr (i - 1))"

definition UnresolvedCount :: "mergeModel \<Rightarrow> nat" where
  "UnresolvedCount m = length (filter (\<lambda>s. sResolution s = Unresolved) (blockStates m))"

fun chosenText :: "mergeBlock \<Rightarrow> Resolution \<Rightarrow> str option" where
  "chosenText b ChooseLeft = Some (bLeft b)"
| "chosenText b ChooseRight = Some (bRight b)"
| "chosenText b ChooseBase = Some (bBase b)"
| "chosenText b LeftThenRight = Some (bLeft b @ bRight b)"
| "chosenText b RightThenLeft = Some (bRight b @ bLeft b)"
| "chosenText b Manual = Some []"
| "chosenText b Omit = Some []"
| "chosenText b Unresolved = None"

definition Prepare :: "mergeModel \<Rightarrow> nat \<Rightarrow> nat \<Rightarrow> Resolution \<Rightarrow> failure + blockEdit" where
  "Prepare m i expected choice =
    (if expected \<noteq> revision m then Inl ''StaleMergeDecision''
     else case blockIndex m i of Inl e \<Rightarrow> Inl e
     | Inr k \<Rightarrow> let s = blockStates m ! k; b = blocks (plan m) ! k in
        if \<not> sMapped s then Inl ''AmbiguousMergeLocation''
        else if choice = Unresolved \<or> (choice = ChooseBase \<and> \<not> hasBase (plan m)) then Inl ''InvalidMergeChoice''
        else case chosenText b choice of None \<Rightarrow> Inl ''InvalidMergeChoice''
          | Some t \<Rightarrow> Inr \<lparr>deId = i, deRevision = revision m, deBegin = sBegin s, deEnd = sEnd s,
              deResolution = choice, deReplacement = t\<rparr>)"

definition shiftBlock :: "nat \<Rightarrow> nat \<Rightarrow> blockState \<Rightarrow> blockState" where
  "shiftBlock removed inserted s =
    s\<lparr>sBegin := shift (sBegin s) removed inserted, sEnd := shift (sEnd s) removed inserted\<rparr>"

definition decide :: "nat \<Rightarrow> Resolution \<Rightarrow> nat \<Rightarrow> blockState list \<Rightarrow> blockState list" where
  "decide k choice inserted st =
    (if choice = Manual then st[k := (st ! k)\<lparr>sResolution := choice\<rparr>]
     else let target = st ! k; removed = minus64 (sEnd target) (sBegin target)
       in take k st @ target\<lparr>sEnd := plus64 (sBegin target) inserted, sResolution := choice\<rparr>
          # map (\<lambda>s. if sMapped s then shiftBlock removed inserted s else s) (drop (Suc k) st))"

definition ApplyEdit :: "mergeModel \<Rightarrow> blockEdit \<Rightarrow> nat \<Rightarrow> (failure + mergeModel) \<times> nat" where
  "ApplyEdit m d counter =
    (case Prepare m (deId d) (deRevision d) (deResolution d) of Inl e \<Rightarrow> (Inl e, counter)
     | Inr verified \<Rightarrow>
        if deBegin verified \<noteq> deBegin d \<or> deEnd verified \<noteq> deEnd d \<or> deReplacement verified \<noteq> deReplacement d
        then (Inl ''InvalidMergeDecision'', counter)
        else case blockIndex m (deId d) of Inl e \<Rightarrow> (Inl e, counter)
        | Inr k \<Rightarrow> (Inr (m\<lparr>blockStates := decide k (deResolution d) (length (deReplacement d)) (blockStates m),
              revision := nextRevision counter\<rparr>), nextRevision counter))"

definition mapPoint :: "nat \<Rightarrow> nat \<Rightarrow> nat \<Rightarrow> nat \<Rightarrow> bool \<Rightarrow> nat" where
  "mapPoint position removed inserted point right =
    (if point < position then point
     else if plus64 position removed \<le> point then shift point removed inserted
     else plus64 position (if right then inserted else 0))"

definition changeBlock :: "nat \<Rightarrow> nat \<Rightarrow> nat \<Rightarrow> blockState \<Rightarrow> blockState" where
  "changeBlock position removed inserted s =
    (let end = plus64 position removed in
     if \<not> sMapped s then s
     else if end \<le> sBegin s \<and> \<not> (removed = 0 \<and> position = sBegin s) then shiftBlock removed inserted s
     else if sEnd s \<le> position \<and> \<not> (position = sBegin s \<and> sBegin s = sEnd s) then s
     else if sBegin s \<le> position \<and> end \<le> sEnd s
       then s\<lparr>sResolution := Unresolved, sEnd := shift (sEnd s) removed inserted\<rparr>
     else s\<lparr>sResolution := Unresolved, sMapped := False,
        sBegin := mapPoint position removed inserted (sBegin s) False,
        sEnd := mapPoint position removed inserted (sEnd s) True\<rparr>)"

fun unmapOverlaps :: "blockState list \<Rightarrow> blockState list" where
  "unmapOverlaps (a # b # st) =
    (if sMapped a \<and> sMapped b \<and> sBegin b < sEnd a
     then a\<lparr>sMapped := False\<rparr> # unmapOverlaps (b\<lparr>sMapped := False\<rparr> # st)
     else a # unmapOverlaps (b # st))"
| "unmapOverlaps st = st"

definition changeStates :: "nat \<Rightarrow> nat \<Rightarrow> nat \<Rightarrow> blockState list \<Rightarrow> blockState list" where
  "changeStates position removed inserted st =
    unmapOverlaps (map (changeBlock position removed inserted) st)"

definition TextChanged :: "mergeModel \<Rightarrow> nat \<Rightarrow> nat \<Rightarrow> nat \<Rightarrow> nat \<Rightarrow> mergeModel \<times> nat" where
  "TextChanged m position removed inserted counter =
    (m\<lparr>blockStates := changeStates position removed inserted (blockStates m),
       revision := nextRevision counter\<rparr>, nextRevision counter)"

definition selectBlock :: "Resolution \<Rightarrow> mergeBlock \<Rightarrow> blockState \<Rightarrow> blockState" where
  "selectBlock choice b s =
    (if choice = Manual then s\<lparr>sResolution := choice\<rparr>
     else let begin = (if choice = ChooseLeft then bLeftBegin b else bRightBegin b)
       in s\<lparr>sResolution := choice, sBegin := begin,
            sEnd := begin + length (if choice = ChooseLeft then bLeft b else bRight b), sMapped := True\<rparr>)"

definition SelectAll :: "mergeModel \<Rightarrow> Resolution \<Rightarrow> nat \<Rightarrow> (failure + mergeModel) \<times> nat" where
  "SelectAll m choice counter =
    (if choice \<noteq> ChooseLeft \<and> choice \<noteq> ChooseRight \<and> choice \<noteq> Manual then (Inl ''InvalidMergeChoice'', counter)
     else (Inr (m\<lparr>reviewRequired := False,
            blockStates := map (\<lambda>(b, s). selectBlock choice b s) (zip (blocks (plan m)) (blockStates m)),
            revision := nextRevision counter\<rparr>), nextRevision counter))"

definition Restore :: "mergeModel \<Rightarrow> blockState list \<Rightarrow> bool \<Rightarrow> nat \<Rightarrow> (failure + mergeModel) \<times> nat" where
  "Restore m st review counter =
    (if length st \<noteq> length (blockStates m) then (Inl ''InvalidMergeHistory'', counter)
     else (Inr (m\<lparr>blockStates := st, reviewRequired := review, revision := nextRevision counter\<rparr>),
           nextRevision counter))"

definition Invalidate :: "mergeModel \<Rightarrow> nat \<Rightarrow> mergeModel \<times> nat" where
  "Invalidate m counter =
    (m\<lparr>blockStates := map (\<lambda>s. s\<lparr>sMapped := False, sResolution := Unresolved\<rparr>) (blockStates m),
       reviewRequired := True, revision := nextRevision counter\<rparr>, nextRevision counter)"


section \<open>Texts and spans\<close>

definition splice :: "str \<Rightarrow> nat \<Rightarrow> nat \<Rightarrow> str \<Rightarrow> str" where
  "splice t b e new = take b t @ new @ drop e t"

definition spanText :: "str \<Rightarrow> blockState \<Rightarrow> str" where
  "spanText t s = slice t (sBegin s) (sEnd s)"

definition within :: "str \<Rightarrow> blockState \<Rightarrow> bool" where
  "within t s \<longleftrightarrow> sBegin s \<le> sEnd s \<and> sEnd s \<le> length t"

definition inOrder :: "blockState list \<Rightarrow> bool" where
  "inOrder st \<longleftrightarrow> (\<forall>i j. i < j \<longrightarrow> j < length st \<longrightarrow> sMapped (st ! i) \<longrightarrow> sMapped (st ! j) \<longrightarrow> sEnd (st ! i) \<le> sBegin (st ! j))"

definition located :: "str \<Rightarrow> blockState list \<Rightarrow> bool" where
  "located t st \<longleftrightarrow> (\<forall>s \<in> set st. sMapped s \<longrightarrow> within t s)"

definition wellPlaced :: "str \<Rightarrow> blockState list \<Rightarrow> bool" where
  "wellPlaced t st \<longleftrightarrow> located t st \<and> inOrder st"

lemma length_splice [simp]:
  "b \<le> e \<Longrightarrow> e \<le> length t \<Longrightarrow> length (splice t b e new) = length t - (e - b) + length new"
  by (simp add: splice_def)

lemma slice_splice_before: "y \<le> b \<Longrightarrow> b \<le> length t \<Longrightarrow> slice (splice t b e new) x y = slice t x y"
  by (simp add: splice_def slice_take_drop)

lemma slice_splice_new:
  "b \<le> length t \<Longrightarrow> slice (splice t b e new) b (b + length new) = new"
  by (simp add: splice_def slice_def)

lemma slice_splice_after:
  assumes "b \<le> e" "e \<le> x" "x \<le> y" "y \<le> length t"
  shows "slice (splice t b e new) (x - (e - b) + length new) (y - (e - b) + length new) = slice t x y"
proof -
  have "x - (e - b) + length new = b + length new + (x - e)" using assms by simp
  moreover have "y - (e - b) + length new - (x - (e - b) + length new) = y - x" using assms by simp
  ultimately show ?thesis using assms by (simp add: splice_def slice_def)
qed

lemma shift_exact:
  assumes "removed \<le> value" "value - removed + inserted < two64" "value < two64"
  shows "shift value removed inserted = value - removed + inserted"
proof (cases "removed \<le> inserted")
  case True
  then have "shift value removed inserted = plus64 value (inserted - removed)" by (simp add: shift_def)
  also have "\<dots> = value + (inserted - removed)" using assms True by (intro plus64_exact) simp
  also have "\<dots> = value - removed + inserted" using assms True by simp
  finally show ?thesis .
next
  case False
  then have "shift value removed inserted = minus64 value (removed - inserted)" by (simp add: shift_def)
  also have "\<dots> = value - (removed - inserted)" using assms False by (intro minus64_exact) simp_all
  also have "\<dots> = value - removed + inserted" using assms False by simp
  finally show ?thesis .
qed

lemma shiftBlock_after:
  assumes "b \<le> e" "e \<le> sBegin s" "within t s" "length t < two64" "length (splice t b e new) < two64"
  shows "within (splice t b e new) (shiftBlock (e - b) (length new) s)"
    and "spanText (splice t b e new) (shiftBlock (e - b) (length new) s) = spanText t s"
    and "sBegin (shiftBlock (e - b) (length new) s) = sBegin s - (e - b) + length new"
    and "sEnd (shiftBlock (e - b) (length new) s) = sEnd s - (e - b) + length new"
proof -
  have se: "sBegin s \<le> sEnd s" "sEnd s \<le> length t" using assms(3) by (simp_all add: within_def)
  have len: "length (splice t b e new) = length t - (e - b) + length new" using assms se by simp
  have *: "shift (sBegin s) (e - b) (length new) = sBegin s - (e - b) + length new"
    by (rule shift_exact) (use assms se len in linarith)+
  have **: "shift (sEnd s) (e - b) (length new) = sEnd s - (e - b) + length new"
    by (rule shift_exact) (use assms se len in linarith)+
  show "sBegin (shiftBlock (e - b) (length new) s) = sBegin s - (e - b) + length new"
    and "sEnd (shiftBlock (e - b) (length new) s) = sEnd s - (e - b) + length new"
    by (simp_all add: shiftBlock_def * **)
  have ordered: "sBegin s - (e - b) + length new \<le> sEnd s - (e - b) + length new
      \<and> sEnd s - (e - b) + length new \<le> length t - (e - b) + length new"
    using se by linarith
  show "within (splice t b e new) (shiftBlock (e - b) (length new) s)"
    using ordered unfolding within_def len by (simp add: shiftBlock_def * **)
  show "spanText (splice t b e new) (shiftBlock (e - b) (length new) s) = spanText t s"
    using slice_splice_after [OF assms(1,2) se] by (simp add: spanText_def shiftBlock_def * **)
qed

lemma shiftBlock_sel [simp]:
  "sMapped (shiftBlock r i s) = sMapped s" "sResolution (shiftBlock r i s) = sResolution s"
  by (simp_all add: shiftBlock_def)

section \<open>An edit of the text\<close>

text \<open>A block that stays mapped is behind the edit, before it, or holds the whole of it.\<close>

lemma changeBlock_cases:
  assumes "position + removed \<le> length t" "length t < two64" "length t - removed + inserted < two64"
    and "sMapped s \<longrightarrow> within t s" and mapped: "sMapped (changeBlock position removed inserted s)"
  obtains (after) "position + removed \<le> sBegin s" "\<not> (removed = 0 \<and> position = sBegin s)"
      "changeBlock position removed inserted s = shiftBlock removed inserted s"
      "sMapped s" "sBegin (shiftBlock removed inserted s) = sBegin s - removed + inserted"
      "sEnd (shiftBlock removed inserted s) = sEnd s - removed + inserted"
    | (before) "sEnd s \<le> position" "changeBlock position removed inserted s = s" "sMapped s"
    | (inside) "sBegin s \<le> position" "position + removed \<le> sEnd s" "sMapped s"
      "changeBlock position removed inserted s
        = s\<lparr>sResolution := Unresolved, sEnd := sEnd s - removed + inserted\<rparr>"
proof -
  have end64: "plus64 position removed = position + removed" using assms by simp
  have m: "sMapped s" using mapped by (auto simp: changeBlock_def Let_def split: if_splits)
  then have w: "sBegin s \<le> sEnd s" "sEnd s \<le> length t" using assms(4) by (simp_all add: within_def)
  have exact: "shift v removed inserted = v - removed + inserted" if "removed \<le> v" "v \<le> length t" for v
    by (rule shift_exact) (use that assms(2,3) in linarith)+
  consider (1) "position + removed \<le> sBegin s \<and> \<not> (removed = 0 \<and> position = sBegin s)"
    | (2) "\<not> (position + removed \<le> sBegin s \<and> \<not> (removed = 0 \<and> position = sBegin s))"
        "sEnd s \<le> position \<and> \<not> (position = sBegin s \<and> sBegin s = sEnd s)"
    | (3) "\<not> (position + removed \<le> sBegin s \<and> \<not> (removed = 0 \<and> position = sBegin s))"
        "\<not> (sEnd s \<le> position \<and> \<not> (position = sBegin s \<and> sBegin s = sEnd s))"
        "sBegin s \<le> position \<and> position + removed \<le> sEnd s"
    | (4) "\<not> (position + removed \<le> sBegin s \<and> \<not> (removed = 0 \<and> position = sBegin s))"
        "\<not> (sEnd s \<le> position \<and> \<not> (position = sBegin s \<and> sBegin s = sEnd s))"
        "\<not> (sBegin s \<le> position \<and> position + removed \<le> sEnd s)"
    by blast
  then show thesis
  proof cases
    case 1
    have "changeBlock position removed inserted s = shiftBlock removed inserted s"
      by (simp only: changeBlock_def Let_def end64 m not_True_eq_False if_False if_P [OF 1])
    moreover have "sBegin (shiftBlock removed inserted s) = sBegin s - removed + inserted"
      "sEnd (shiftBlock removed inserted s) = sEnd s - removed + inserted"
      using 1 w by (simp_all add: shiftBlock_def exact)
    ultimately show thesis using 1 m by (intro after) simp_all
  next
    case 2
    have "changeBlock position removed inserted s = s"
      by (simp only: changeBlock_def Let_def end64 m not_True_eq_False if_False if_not_P [OF 2(1)] if_P [OF 2(2)])
    then show thesis using 2(2) m by (intro before) simp_all
  next
    case 3
    have "shift (sEnd s) removed inserted = sEnd s - removed + inserted"
      by (rule exact) (use 3(3) w in linarith)+
    then have "changeBlock position removed inserted s
        = s\<lparr>sResolution := Unresolved, sEnd := sEnd s - removed + inserted\<rparr>"
      by (simp only: changeBlock_def Let_def end64 m not_True_eq_False if_False if_not_P [OF 3(1)]
          if_not_P [OF 3(2)] if_P [OF 3(3)])
    then show thesis using 3(3) m by (intro inside) simp_all
  next
    case 4
    have "\<not> sMapped (changeBlock position removed inserted s)"
      by (simp only: changeBlock_def Let_def end64 m not_True_eq_False if_False if_not_P [OF 4(1)]
          if_not_P [OF 4(2)] if_not_P [OF 4(3)]) simp
    then show thesis using mapped by simp
  qed
qed

lemma changeBlock_safe:
  assumes "position + removed \<le> length t" "length t < two64"
    and "length (splice t position (position + removed) new) < two64"
    and "sMapped s \<longrightarrow> within t s" and "sMapped (changeBlock position removed (length new) s)"
  defines "t' \<equiv> splice t position (position + removed) new"
  shows "sMapped s \<and> within t' (changeBlock position removed (length new) s)
    \<and> (sResolution (changeBlock position removed (length new) s) = Unresolved
       \<or> sResolution (changeBlock position removed (length new) s) = sResolution s
         \<and> spanText t' (changeBlock position removed (length new) s) = spanText t s)"
proof -
  have len: "length t' = length t - removed + length new" using assms by (simp add: t'_def)
  have small: "length t - removed + length new < two64" using assms(3) len by (simp add: t'_def)
  from assms(1,2) small assms(4,5) show ?thesis
  proof (cases rule: changeBlock_cases)
    case after
    then show ?thesis
      using shiftBlock_after [of position "position + removed" s t new] assms by simp
  next
    case before
    have "spanText t' s = spanText t s"
      unfolding spanText_def t'_def by (rule slice_splice_before) (use before assms in simp_all)
    moreover have "within t' s" using before assms(1,4) len by (simp add: within_def)
    ultimately show ?thesis using before by simp
  next
    case inside
    then have "within t s" using assms(4) by simp
    then have "within t' (s\<lparr>sResolution := Unresolved, sEnd := sEnd s - removed + length new\<rparr>)"
      unfolding within_def len using inside(1,2) by (simp, linarith)
    then show ?thesis unfolding inside(4) using inside(3) by simp
  qed
qed

lemma unmapOverlaps_length [simp]: "length (unmapOverlaps st) = length st"
  by (induction st rule: unmapOverlaps.induct) auto

text \<open>The second pass only takes the mapped flag away.\<close>

lemma unmapOverlaps_nth:
  "i < length st \<Longrightarrow> unmapOverlaps st ! i = (st ! i)\<lparr>sMapped := sMapped (unmapOverlaps st ! i)\<rparr>
    \<and> (sMapped (unmapOverlaps st ! i) \<longrightarrow> sMapped (st ! i))"
proof (induction st arbitrary: i rule: unmapOverlaps.induct)
  case (1 a b st)
  show ?case
  proof (cases "sMapped a \<and> sMapped b \<and> sBegin b < sEnd a")
    case True
    show ?thesis
    proof (cases i)
      case 0
      then show ?thesis using True by simp
    next
      case (Suc k)
      then have "k < length (b\<lparr>sMapped := False\<rparr> # st)" using "1.prems" by simp
      from "1.IH"(1) [OF True this] Suc True show ?thesis by (cases k) auto
    qed
  next
    case False
    show ?thesis
    proof (cases i)
      case 0
      then show ?thesis using False by auto
    next
      case (Suc k)
      then have "k < length (b # st)" using "1.prems" by simp
      from "1.IH"(2) [OF False this] show ?thesis unfolding Suc unmapOverlaps.simps if_not_P [OF False]
        by simp
    qed
  qed
qed auto

lemma changeStates_nth:
  fixes position removed inserted :: nat
  assumes "i < length st"
  defines "s' \<equiv> changeStates position removed inserted st ! i"
  shows "s' = (changeBlock position removed inserted (st ! i))\<lparr>sMapped := sMapped s'\<rparr>"
    "sMapped s' \<longrightarrow> sMapped (changeBlock position removed inserted (st ! i))"
  using unmapOverlaps_nth [of i "map (changeBlock position removed inserted) st"] assms(1)
  by (simp_all add: s'_def changeStates_def)

lemma changeStates_length [simp]: "length (changeStates position removed inserted st) = length st"
  by (simp add: changeStates_def)

lemma changeStates_safe:
  assumes "position + removed \<le> length t" "length t < two64"
    and "length (splice t position (position + removed) new) < two64"
    and "located t st" "i < length st"
    and "sMapped (changeStates position removed (length new) st ! i)"
  defines "t' \<equiv> splice t position (position + removed) new"
    and "s' \<equiv> changeStates position removed (length new) st ! i"
  shows "sMapped (st ! i) \<and> within t' s' \<and> (sResolution s' = Unresolved
       \<or> sResolution s' = sResolution (st ! i) \<and> spanText t' s' = spanText t (st ! i))"
proof -
  note at = changeStates_nth [OF assms(5), of position removed "length new", folded s'_def]
  have mapped: "sMapped (changeBlock position removed (length new) (st ! i))"
    using at(2) assms(6) s'_def by simp
  have s': "s' = changeBlock position removed (length new) (st ! i)"
    using at(1) mapped assms(6) unfolding s'_def [symmetric] by simp
  have "sMapped (st ! i) \<longrightarrow> within t (st ! i)" using assms(4,5) by (simp add: located_def)
  from changeBlock_safe [OF assms(1-3) this mapped] show ?thesis unfolding s' t'_def .
qed

text \<open>Order: the second pass separates neighbours, and neighbours are enough when the begins rise.\<close>

lemma unmapOverlaps_separates:
  "\<forall>s \<in> set (tl st). sMapped s \<Longrightarrow> Suc i < length st \<Longrightarrow> sMapped (unmapOverlaps st ! i) \<Longrightarrow>
    sEnd (st ! i) \<le> sBegin (st ! Suc i)"
proof (induction st arbitrary: i rule: unmapOverlaps.induct)
  case (1 a b st)
  show ?case
  proof (cases i)
    case 0
    then show ?thesis using "1.prems" by (auto split: if_splits)
  next
    case (Suc k)
    show ?thesis
    proof (cases "sMapped a \<and> sMapped b \<and> sBegin b < sEnd a")
      case True
      have "sMapped (unmapOverlaps (b\<lparr>sMapped := False\<rparr> # st) ! k)"
        using "1.prems"(3) True by (simp add: Suc)
      then show ?thesis
        using "1.IH"(1) [OF True, of k] "1.prems"(1,2) unmapOverlaps_nth [of 0 "b\<lparr>sMapped := False\<rparr> # st"]
        by (cases k) (auto simp: Suc)
    next
      case False
      have "sMapped (unmapOverlaps (b # st) ! k)"
        using "1.prems"(3) unfolding Suc unmapOverlaps.simps if_not_P [OF False] by simp
      then show ?thesis using "1.IH"(2) [OF False, of k] "1.prems"(1,2) by (simp add: Suc)
    qed
  qed
qed auto

lemma unmapOverlaps_sel:
  assumes "i < length st"
  shows "sBegin (unmapOverlaps st ! i) = sBegin (st ! i)" "sEnd (unmapOverlaps st ! i) = sEnd (st ! i)"
    "sMapped (unmapOverlaps st ! i) \<Longrightarrow> sMapped (st ! i)"
proof -
  note at = unmapOverlaps_nth [OF assms]
  have "sBegin ((st ! i)\<lparr>sMapped := f\<rparr>) = sBegin (st ! i)" "sEnd ((st ! i)\<lparr>sMapped := f\<rparr>) = sEnd (st ! i)" for f
    by simp_all
  then show "sBegin (unmapOverlaps st ! i) = sBegin (st ! i)" "sEnd (unmapOverlaps st ! i) = sEnd (st ! i)"
    using at by metis+
  show "sMapped (unmapOverlaps st ! i) \<Longrightarrow> sMapped (st ! i)" using at by simp
qed

lemma inOrder_unmapOverlaps: "inOrder st \<Longrightarrow> inOrder (unmapOverlaps st)"
  unfolding inOrder_def by (auto simp: unmapOverlaps_sel)

lemma inOrder_rising:
  assumes "\<forall>s \<in> set st. sMapped s" and "\<And>i j. i < j \<Longrightarrow> j < length st \<Longrightarrow> sBegin (st ! i) \<le> sBegin (st ! j)"
  shows "inOrder (unmapOverlaps st)"
  unfolding inOrder_def unmapOverlaps_length
proof (intro allI impI)
  fix i j assume ij: "i < j" "j < length st" and mi: "sMapped (unmapOverlaps st ! i)"
  have "sEnd (st ! i) \<le> sBegin (st ! Suc i)"
    by (rule unmapOverlaps_separates [OF _ _ mi]) (use assms(1) ij in \<open>auto dest: list.set_sel(2) [rotated]\<close>)
  also have "\<dots> \<le> sBegin (st ! j)" using assms(2) [of "Suc i" j] ij by (cases "Suc i = j") simp_all
  finally show "sEnd (unmapOverlaps st ! i) \<le> sBegin (unmapOverlaps st ! j)"
    using ij by (simp add: unmapOverlaps_sel)
qed

lemma changeBlock_spans:
  assumes "position + removed \<le> length t" "length t < two64" "length t - removed + inserted < two64"
    and "sMapped s \<longrightarrow> within t s" and "sMapped (changeBlock position removed inserted s)"
  defines "s' \<equiv> changeBlock position removed inserted s"
  shows "sMapped s \<and> (position + removed \<le> sBegin s \<and> (removed = 0 \<longrightarrow> position \<noteq> sBegin s)
        \<and> sBegin s' = sBegin s - removed + inserted \<and> sEnd s' = sEnd s - removed + inserted
     \<or> sEnd s \<le> position \<and> sBegin s' = sBegin s \<and> sEnd s' = sEnd s
     \<or> sBegin s \<le> position \<and> position + removed \<le> sEnd s \<and> sBegin s' = sBegin s
        \<and> sEnd s' = sEnd s - removed + inserted)"
  using assms(1-5) by (cases rule: changeBlock_cases) (auto simp: s'_def)

lemma changeStates_order:
  assumes "position + removed \<le> length t" "length t < two64" "length t - removed + inserted < two64"
    and "wellPlaced t st" "0 < removed \<or> (\<forall>s \<in> set st. sMapped s)"
  shows "inOrder (changeStates position removed inserted st)"
proof -
  let ?f = "changeBlock position removed inserted"
  have loc: "sMapped s \<longrightarrow> within t s" if "s \<in> set st" for s
    using assms(4) that by (simp add: wellPlaced_def located_def)
  have order: "sEnd (st ! i) \<le> sBegin (st ! j)"
    if "i < j" "j < length st" "sMapped (st ! i)" "sMapped (st ! j)" for i j
    using assms(4) that by (simp add: wellPlaced_def inOrder_def)
  note spans = changeBlock_spans [OF assms(1-3) loc [OF nth_mem]]
  show ?thesis
  proof (cases "removed = 0")
    case False
    have "inOrder (map ?f st)"
      unfolding inOrder_def length_map
    proof (intro allI impI)
      fix i j assume ij: "i < j" "j < length st" and mi: "sMapped (map ?f st ! i)" and mj: "sMapped (map ?f st ! j)"
      have i: "i < length st" using ij by simp
      have mi': "sMapped (?f (st ! i))" and mj': "sMapped (?f (st ! j))" using mi mj i ij(2) by simp_all
      have was: "sMapped (st ! i)" "sMapped (st ! j)"
        using spans [OF i mi'] spans [OF ij(2) mj'] by simp_all
      note o = order [OF ij was]
      have wi: "sBegin (st ! i) \<le> sEnd (st ! i)" and wj: "sBegin (st ! j) \<le> sEnd (st ! j)"
        using loc nth_mem i ij(2) was by (auto simp: within_def)
      have "sEnd (?f (st ! i)) \<le> sBegin (?f (st ! j))"
        using spans [OF i mi', THEN conjunct2] spans [OF ij(2) mj', THEN conjunct2] False o wi wj
        by (elim disjE conjE) linarith+
      then show "sEnd (map ?f st ! i) \<le> sBegin (map ?f st ! j)" using i ij(2) by simp
    qed
    then show ?thesis unfolding changeStates_def by (rule inOrder_unmapOverlaps)
  next
    case True
    then have all: "\<forall>s \<in> set st. sMapped s" using assms(5) by simp
    have kept: "sMapped (?f s)" if "s \<in> set st" for s
      using all that assms(1,2) True by (auto simp: changeBlock_def Let_def)
    show ?thesis
      unfolding changeStates_def
    proof (rule inOrder_rising)
      show "\<forall>s \<in> set (map ?f st). sMapped s" using kept by auto
      fix i j assume ij: "i < j" "j < length (map ?f st)"
      then have i: "i < length st" and j: "j < length st" by simp_all
      have "sMapped (st ! i)" "sMapped (st ! j)" using all i j by simp_all
      then have rise: "sBegin (st ! i) \<le> sBegin (st ! j)"
        using order [OF ij(1) j] loc [OF nth_mem [OF i]] by (simp add: within_def)
      have wj: "sBegin (st ! j) \<le> sEnd (st ! j)" using loc [OF nth_mem [OF j]] all j by (simp add: within_def)
      have "sMapped (?f (st ! i))" "sMapped (?f (st ! j))" using kept i j by simp_all
      note s = spans [OF i this(1), THEN conjunct2] spans [OF j this(2), THEN conjunct2]
      have "sBegin (?f (st ! i)) \<le> sBegin (?f (st ! j))"
        using s rise wj True by (elim disjE conjE) linarith+
      then show "sBegin (map ?f st ! i) \<le> sBegin (map ?f st ! j)" using i j by simp
    qed
  qed
qed

section \<open>A decision\<close>

lemma decide_length [simp]: "k < length st \<Longrightarrow> length (decide k choice n st) = length st"
  by (auto simp: decide_def Let_def)

lemma decide_nth:
  assumes "k < length st" "i < length st" "choice \<noteq> Manual"
  shows "decide k choice n st ! i =
    (if i < k then st ! i
     else if i = k then (st ! k)\<lparr>sEnd := plus64 (sBegin (st ! k)) n, sResolution := choice\<rparr>
     else if sMapped (st ! i) then shiftBlock (minus64 (sEnd (st ! k)) (sBegin (st ! k))) n (st ! i) else st ! i)"
proof -
  consider "i < k" | "i = k" | d where "i = Suc k + d"
    by (metis less_Suc_eq_le linorder_neqE_nat nat_le_iff_add Suc_leI)
  then show ?thesis
    by cases (use assms in \<open>simp_all add: decide_def Let_def nth_append nth_Cons'\<close>)
qed

lemma decide_manual:
  "k < length st \<Longrightarrow> i < length st \<Longrightarrow> decide k Manual n st ! i =
    (if i = k then (st ! k)\<lparr>sResolution := Manual\<rparr> else st ! i)"
  by (simp add: decide_def)

lemma decide_replaces:
  assumes "wellPlaced t st" "k < length st" "sMapped (st ! k)" "choice \<noteq> Manual"
    and "length t < two64" "length (splice t (sBegin (st ! k)) (sEnd (st ! k)) new) < two64"
  defines "t' \<equiv> splice t (sBegin (st ! k)) (sEnd (st ! k)) new"
    and "st' \<equiv> decide k choice (length new) st"
  shows "wellPlaced t' st'"
    and "spanText t' (st' ! k) = new" "sResolution (st' ! k) = choice"
    and "i < length st \<Longrightarrow> i \<noteq> k \<Longrightarrow> sMapped (st' ! i) = sMapped (st ! i)
      \<and> sResolution (st' ! i) = sResolution (st ! i) \<and> (sMapped (st ! i) \<longrightarrow> spanText t' (st' ! i) = spanText t (st ! i))"
proof -
  define b where "b = sBegin (st ! k)"
  define e where "e = sEnd (st ! k)"
  have be: "b \<le> e" "e \<le> length t"
    using assms(1-3) by (auto simp: wellPlaced_def located_def within_def b_def e_def)
  have len: "length t' = length t - (e - b) + length new" using be by (simp add: t'_def b_def e_def)
  have small: "length t' < two64" using assms(6) by (simp add: t'_def)
  have "b + length new < two64" using be len small by linarith
  then have p: "plus64 b (length new) = b + length new" by simp
  have m: "minus64 e b = e - b" using be assms(5) by simp
  have nth: "st' ! j = (if j < k then st ! j
     else if j = k then (st ! k)\<lparr>sEnd := b + length new, sResolution := choice\<rparr>
     else if sMapped (st ! j) then shiftBlock (e - b) (length new) (st ! j) else st ! j)"
    if "j < length st" for j
    using decide_nth [OF assms(2) that assms(4), of "length new"] p m
    by (simp add: st'_def b_def [symmetric] e_def [symmetric])
  have lenst: "length st' = length st" using assms(2) by (simp add: st'_def)
  have order: "sEnd (st ! i) \<le> sBegin (st ! j)"
    if "i < j" "j < length st" "sMapped (st ! i)" "sMapped (st ! j)" for i j
    using assms(1) that by (simp add: wellPlaced_def inOrder_def)
  have loc: "within t (st ! j)" if "j < length st" "sMapped (st ! j)" for j
    using assms(1) that by (simp add: wellPlaced_def located_def)
  note after = shiftBlock_after [OF be(1) _ loc assms(5) small [unfolded t'_def, folded b_def e_def],
      folded b_def e_def]
  have t'_eq: "t' = splice t b e new" by (simp add: t'_def b_def e_def)
  have later: "within t' (st' ! j) \<and> spanText t' (st' ! j) = spanText t (st ! j)
      \<and> sBegin (st' ! j) = sBegin (st ! j) - (e - b) + length new
      \<and> sEnd (st' ! j) = sEnd (st ! j) - (e - b) + length new \<and> e \<le> sBegin (st ! j)"
    if "k < j" "j < length st" "sMapped (st ! j)" for j
  proof -
    have "e \<le> sBegin (st ! j)" using order [OF that(1,2) assms(3) that(3)] by (simp add: e_def)
    from after [OF this that(2,3)] this show ?thesis using that by (simp add: nth t'_eq)
  qed
  have earlier: "within t' (st' ! j) \<and> spanText t' (st' ! j) = spanText t (st ! j) \<and> st' ! j = st ! j
      \<and> sEnd (st ! j) \<le> b"
    if "j < k" "sMapped (st ! j)" for j
  proof -
    have j: "j < length st" using that assms(2) by simp
    have "sEnd (st ! j) \<le> b" using order [OF that(1) assms(2) that(2) assms(3)] by (simp add: b_def)
    then show ?thesis using that j loc [OF j that(2)] be len
      by (simp add: nth within_def spanText_def t'_eq slice_splice_before)
  qed
  have target: "within t' (st' ! k)" "spanText t' (st' ! k) = new" "sResolution (st' ! k) = choice"
      "sBegin (st' ! k) = b" "sEnd (st' ! k) = b + length new"
    using assms(2) be len by (simp_all add: nth within_def b_def spanText_def t'_def slice_splice_new e_def)
  then show "spanText t' (st' ! k) = new" "sResolution (st' ! k) = choice" by simp_all
  have flags: "sMapped (st' ! j) = sMapped (st ! j)" if "j < length st" for j
    using that assms(3) by (simp add: nth)
  have "within t' s" if s: "s \<in> set st'" "sMapped s" for s
  proof -
    obtain j where j: "j < length st" "s = st' ! j" using s(1) lenst by (auto simp: in_set_conv_nth)
    then show ?thesis using flags [OF j(1)] s(2) earlier [of j] later [of j] target(1)
      by (cases j k rule: linorder_cases) auto
  qed
  then have "located t' st'" by (simp add: located_def)
  moreover have "inOrder st'"
    unfolding inOrder_def lenst
  proof (intro allI impI)
    fix i j assume ij: "i < j" "j < length st" and mi: "sMapped (st' ! i)" and mj: "sMapped (st' ! j)"
    have i: "i < length st" using ij by simp
    have mi': "sMapped (st ! i)" and mj': "sMapped (st ! j)" using mi mj flags i ij by simp_all
    note o = order [OF ij mi' mj']
    consider "j < k" | "j = k" | "i < k" "k < j" | "i = k" | "k < i" using ij(1) by linarith
    then show "sEnd (st' ! i) \<le> sBegin (st' ! j)"
    proof cases
      case 1
      then show ?thesis using earlier [of i] earlier [of j] ij mi' mj' o by simp
    next
      case 2
      then show ?thesis using earlier [of i] ij mi' target by simp
    next
      case 3
      then have "sEnd (st ! i) \<le> b" "st' ! i = st ! i" using earlier [of i] mi' by simp_all
      moreover have "b \<le> sBegin (st' ! j)" using later [OF 3(2) ij(2) mj'] be by linarith
      ultimately show ?thesis by simp
    next
      case 4
      then have "sBegin (st' ! j) = sBegin (st ! j) - (e - b) + length new \<and> e \<le> sBegin (st ! j)"
        using later [OF _ ij(2) mj'] ij by simp
      then have "b + length new \<le> sBegin (st' ! j)" using be by linarith
      then show ?thesis using 4 target by simp
    next
      case 5
      then show ?thesis using later [OF 5 i mi'] later [of j] ij mj' o by simp
    qed
  qed
  ultimately show "wellPlaced t' st'" by (simp add: wellPlaced_def)
  assume i: "i < length st" "i \<noteq> k"
  show "sMapped (st' ! i) = sMapped (st ! i) \<and> sResolution (st' ! i) = sResolution (st ! i)
      \<and> (sMapped (st ! i) \<longrightarrow> spanText t' (st' ! i) = spanText t (st ! i))"
    using i earlier [of i] later [of i] by (cases i k rule: linorder_cases) (auto simp: nth)
qed

section \<open>Decisions and edits of a model\<close>

lemma Prepare_Inr:
  assumes "Prepare m i expected choice = Inr d"
  obtains k where "blockIndex m i = Inr k" "k = i - 1" "k < length (blockStates m)" "sMapped (blockStates m ! k)"
    "expected = revision m" "deId d = i" "deRevision d = revision m" "deResolution d = choice"
    "deBegin d = sBegin (blockStates m ! k)" "deEnd d = sEnd (blockStates m ! k)"
    "chosenText (blocks (plan m) ! k) choice = Some (deReplacement d)"
  using assms
  by (auto simp: Prepare_def blockIndex_def Let_def split: if_splits sum.splits option.splits)

lemma ApplyEdit_prepared:
  assumes "Prepare m i expected choice = Inr d"
  shows "ApplyEdit m d c = (Inr (m\<lparr>blockStates := decide (i - 1) choice (length (deReplacement d)) (blockStates m),
      revision := nextRevision c\<rparr>), nextRevision c)"
  using assms by (rule Prepare_Inr) (use assms in \<open>simp add: ApplyEdit_def\<close>)

text \<open>C8: a prepared decision that chooses a text is accepted; in the text whose block it
  replaces, the block then holds the chosen text, every other mapped block keeps its text
  and its resolution, and all regions stay in order and inside the text.\<close>

theorem ApplyEdit_replaces:
  assumes "Prepare m i (revision m) choice = Inr d" "choice \<noteq> Manual"
    and "wellPlaced t (blockStates m)" "length t < two64"
    and "length (splice t (deBegin d) (deEnd d) (deReplacement d)) < two64"
  shows "\<exists>m'. ApplyEdit m d c = (Inr m', nextRevision c)
    \<and> wellPlaced (splice t (deBegin d) (deEnd d) (deReplacement d)) (blockStates m')
    \<and> spanText (splice t (deBegin d) (deEnd d) (deReplacement d)) (blockStates m' ! (i - 1)) = deReplacement d
    \<and> sResolution (blockStates m' ! (i - 1)) = choice
    \<and> (\<forall>j < length (blockStates m). j \<noteq> i - 1 \<longrightarrow> sMapped (blockStates m ! j) \<longrightarrow>
        sResolution (blockStates m' ! j) = sResolution (blockStates m ! j)
        \<and> spanText (splice t (deBegin d) (deEnd d) (deReplacement d)) (blockStates m' ! j)
          = spanText t (blockStates m ! j))"
proof -
  from assms(1) obtain k where k: "k = i - 1" "k < length (blockStates m)" "sMapped (blockStates m ! k)"
    "deBegin d = sBegin (blockStates m ! k)" "deEnd d = sEnd (blockStates m ! k)"
    by (rule Prepare_Inr) blast
  note repl = decide_replaces [OF assms(3) k(2,3) assms(2,4) assms(5) [unfolded k(4,5)], folded k(4,5)]
  show ?thesis
    by (rule exI, rule conjI, rule ApplyEdit_prepared [OF assms(1)])
       (use repl k(1) in \<open>simp add: assms(5) [unfolded k(4,5)]\<close>)
qed

text \<open>C7: an edit of the text by hand never changes the text of a block behind the back of
  its resolution: a block that is still mapped lies inside the new text, and it is either
  unresolved now or has kept both its resolution and its text.\<close>

theorem TextChanged_keeps:
  assumes "located t (blockStates m)" "position + removed \<le> length t" "length t < two64"
    and "length (splice t position (position + removed) new) < two64"
    and "TextChanged m position removed (length new) c = (m', c')"
    and "i < length (blockStates m)" "sMapped (blockStates m' ! i)"
  shows "within (splice t position (position + removed) new) (blockStates m' ! i)
    \<and> (sResolution (blockStates m' ! i) = Unresolved
       \<or> sResolution (blockStates m' ! i) = sResolution (blockStates m ! i)
         \<and> spanText (splice t position (position + removed) new) (blockStates m' ! i)
           = spanText t (blockStates m ! i))"
  using changeStates_safe [OF assms(2-4) assms(1,6)] assms(5,7) by (auto simp: TextChanged_def)

lemma changeStates_wellPlaced:
  assumes "wellPlaced t st" "position + removed \<le> length t" "length t < two64"
    and "length (splice t position (position + removed) new) < two64"
    and "0 < removed \<or> (\<forall>s \<in> set st. sMapped s)"
  shows "wellPlaced (splice t position (position + removed) new) (changeStates position removed (length new) st)"
  unfolding wellPlaced_def
proof
  show "inOrder (changeStates position removed (length new) st)"
    by (rule changeStates_order [OF assms(2,3) _ assms(1,5)]) (use assms(2,4) in simp)
  have loc: "located t st" using assms(1) by (simp add: wellPlaced_def)
  show "located (splice t position (position + removed) new) (changeStates position removed (length new) st)"
    unfolding located_def
    using changeStates_safe [OF assms(2-4) loc] by (fastforce simp: in_set_conv_nth)
qed

text \<open>C11: a deletion or replacement keeps the mapped regions in order, and so does an
  insertion while every block is mapped.\<close>

theorem TextChanged_order:
  assumes "wellPlaced t (blockStates m)" "position + removed \<le> length t" "length t < two64"
    and "length (splice t position (position + removed) new) < two64"
    and "0 < removed \<or> (\<forall>s \<in> set (blockStates m). sMapped s)"
  shows "wellPlaced (splice t position (position + removed) new)
    (blockStates (fst (TextChanged m position removed (length new) c)))"
  using changeStates_wellPlaced [OF assms] by (simp add: TextChanged_def)

section \<open>Sessions\<close>

text \<open>
  A session of a merge window: the text of the result, the model, the revision counter and
  the states that the undo history can restore, each with its text.  Selecting a side
  replaces the result by that side; after \<open>Invalidate\<close> the text may be any text.
\<close>

definition sideStates :: "Resolution \<Rightarrow> mergePlan \<Rightarrow> blockState list" where
  "sideStates choice p = map (\<lambda>(b, s). selectBlock choice b s) (zip (blocks p) (initial p))"

definition planFits :: "str \<Rightarrow> str \<Rightarrow> mergePlan \<Rightarrow> bool" where
  "planFits l r p \<longleftrightarrow> length (blocks p) = length (initial p) \<and> length l < two64 \<and> length r < two64
    \<and> wellPlaced l (sideStates ChooseLeft p) \<and> wellPlaced r (sideStates ChooseRight p)"

inductive session :: "mergePlan \<Rightarrow> str \<Rightarrow> str \<Rightarrow> str \<Rightarrow> mergeModel \<Rightarrow> nat \<Rightarrow> (str \<times> blockState list) set \<Rightarrow> bool"
  for p :: mergePlan and l r :: str where
  start: "newMergeModel (Some p) c = (Inr m, c') \<Longrightarrow> wellPlaced t (initial p) \<Longrightarrow> length t < two64 \<Longrightarrow>
    session p l r t m c' {(t, initial p)}"
| decide: "session p l r t m c h \<Longrightarrow> Prepare m i expected choice = Inr d \<Longrightarrow> ApplyEdit m d c = (Inr m', c') \<Longrightarrow>
    t' = (if choice = Manual then t else splice t (deBegin d) (deEnd d) (deReplacement d)) \<Longrightarrow>
    length t' < two64 \<Longrightarrow> session p l r t' m' c' (insert (t', blockStates m') h)"
| change: "session p l r t m c h \<Longrightarrow> position + removed \<le> length t \<Longrightarrow>
    0 < removed \<or> (\<forall>s \<in> set (blockStates m). sMapped s) \<Longrightarrow>
    t' = splice t position (position + removed) new \<Longrightarrow> length t' < two64 \<Longrightarrow>
    TextChanged m position removed (length new) c = (m', c') \<Longrightarrow>
    session p l r t' m' c' (insert (t', blockStates m') h)"
| select: "session p l r t m c h \<Longrightarrow> SelectAll m choice c = (Inr m', c') \<Longrightarrow>
    t' = (if choice = Manual then t else if choice = ChooseLeft then l else r) \<Longrightarrow>
    session p l r t' m' c' (insert (t', blockStates m') h)"
| restore: "session p l r t m c h \<Longrightarrow> (t', st) \<in> h \<Longrightarrow> Restore m st review c = (Inr m', c') \<Longrightarrow>
    session p l r t' m' c' h"
| invalidate: "session p l r t m c h \<Longrightarrow> Invalidate m c = (m', c') \<Longrightarrow> length t' < two64 \<Longrightarrow>
    session p l r t' m' c' (insert (t', blockStates m') h)"

lemma wellPlaced_same:
  assumes "length st' = length st"
    and "\<And>i. i < length st \<Longrightarrow> sMapped (st' ! i) \<Longrightarrow>
      sMapped (st ! i) \<and> sBegin (st' ! i) = sBegin (st ! i) \<and> sEnd (st' ! i) = sEnd (st ! i)"
    and "wellPlaced t st"
  shows "wellPlaced t st'"
proof -
  have "within t (st' ! i)" if "i < length st'" "sMapped (st' ! i)" for i
    using assms(2) [of i] assms(1,3) that by (simp add: wellPlaced_def located_def within_def)
  moreover have "sEnd (st' ! i) \<le> sBegin (st' ! j)"
    if "i < j" "j < length st'" "sMapped (st' ! i)" "sMapped (st' ! j)" for i j
    using assms(2) [of i] assms(2) [of j] assms(1,3) that by (simp add: wellPlaced_def inOrder_def)
  ultimately show ?thesis by (auto simp: wellPlaced_def located_def inOrder_def in_set_conv_nth)
qed

lemma decide_manual_wellPlaced:
  assumes "wellPlaced t st" "k < length st"
  shows "wellPlaced t (decide k Manual n st)"
  by (rule wellPlaced_same [OF _ _ assms(1)]) (use assms(2) in \<open>auto simp: decide_manual split: if_splits\<close>)

lemma SelectAll_wellPlaced:
  assumes "planFits l r p" "length st = length (initial p)" "wellPlaced t st"
    and "choice = ChooseLeft \<or> choice = ChooseRight \<or> choice = Manual"
  shows "wellPlaced (if choice = Manual then t else if choice = ChooseLeft then l else r)
    (map (\<lambda>(b, s). selectBlock choice b s) (zip (blocks p) st))"
proof -
  have len: "length (blocks p) = length st" using assms(1,2) by (simp add: planFits_def)
  show ?thesis
  proof (cases "choice = Manual")
    case True
    then show ?thesis
      by simp (rule wellPlaced_same [OF _ _ assms(3)], use len in \<open>simp_all add: selectBlock_def\<close>)
  next
    case False
    then have "wellPlaced (if choice = ChooseLeft then l else r) (sideStates choice p)"
      using assms(1,4) by (auto simp: planFits_def)
    then have "wellPlaced (if choice = ChooseLeft then l else r)
        (map (\<lambda>(b, s). selectBlock choice b s) (zip (blocks p) st))"
      by (rule wellPlaced_same [rotated 2])
         (use False len assms(2) in \<open>simp_all add: sideStates_def selectBlock_def Let_def\<close>)
    then show ?thesis using False by simp
  qed
qed

lemma wellPlaced_unmapped: "\<forall>s \<in> set st. \<not> sMapped s \<Longrightarrow> wellPlaced t st"
  by (auto simp: wellPlaced_def located_def inOrder_def)

definition sessionInv :: "mergePlan \<Rightarrow> str \<Rightarrow> mergeModel \<Rightarrow> (str \<times> blockState list) set \<Rightarrow> bool" where
  "sessionInv p t m h \<longleftrightarrow> plan m = p \<and> length (blockStates m) = length (initial p)
    \<and> length t < two64 \<and> wellPlaced t (blockStates m)
    \<and> (\<forall>(u, st) \<in> h. length u < two64 \<and> wellPlaced u st)"

lemma session_invariant:
  "session p l r t m c h \<Longrightarrow> planFits l r p \<Longrightarrow> sessionInv p t m h"
proof (induction rule: session.induct)
  case (start c m c' t)
  then show ?case by (auto simp: sessionInv_def newMergeModel_def)
next
  case (decide t m c h i expected choice d m' c' t')
  then have inv: "sessionInv p t m h" by simp
  from decide.hyps(2) obtain k where k: "k = i - 1" "k < length (blockStates m)" "sMapped (blockStates m ! k)"
    "deBegin d = sBegin (blockStates m ! k)" "deEnd d = sEnd (blockStates m ! k)"
    by (rule Prepare_Inr) blast
  have m': "m' = m\<lparr>blockStates := decide k choice (length (deReplacement d)) (blockStates m),
      revision := nextRevision c\<rparr>"
    using ApplyEdit_prepared [OF decide.hyps(2), of c] decide.hyps(3) k(1) by simp
  have "wellPlaced t' (decide k choice (length (deReplacement d)) (blockStates m))"
  proof (cases "choice = Manual")
    case True
    then show ?thesis
      using inv decide.hyps(4) k(2) by (simp add: sessionInv_def decide_manual_wellPlaced)
  next
    case False
    then have "t' = splice t (sBegin (blockStates m ! k)) (sEnd (blockStates m ! k)) (deReplacement d)"
      using decide.hyps(4) k(4,5) by simp
    then show ?thesis
      using decide_replaces(1) [OF _ k(2,3) False, of t "deReplacement d"] inv decide.hyps(5)
      by (simp add: sessionInv_def)
  qed
  then show ?case using inv m' decide.hyps(5) k(2) by (auto simp: sessionInv_def)
next
  case (change t m c h position removed t' new m' c')
  then have inv: "sessionInv p t m h" by simp
  have "wellPlaced t' (changeStates position removed (length new) (blockStates m))"
    unfolding change.hyps(4)
    by (rule changeStates_wellPlaced) (use inv change.hyps in \<open>simp_all add: sessionInv_def\<close>)
  then show ?case using inv change.hyps by (auto simp: sessionInv_def TextChanged_def)
next
  case (select t m c h choice m' c' t')
  then have inv: "sessionInv p t m h" by simp
  have choice: "choice = ChooseLeft \<or> choice = ChooseRight \<or> choice = Manual"
    using select.hyps(2) by (auto simp: SelectAll_def split: if_splits)
  have m': "m' = m\<lparr>reviewRequired := False,
      blockStates := map (\<lambda>(b, s). selectBlock choice b s) (zip (blocks p) (blockStates m)),
      revision := nextRevision c\<rparr>"
    using select.hyps(2) inv by (auto simp: SelectAll_def sessionInv_def split: if_splits)
  have "wellPlaced t' (map (\<lambda>(b, s). selectBlock choice b s) (zip (blocks p) (blockStates m)))"
    unfolding select.hyps(3)
    by (rule SelectAll_wellPlaced [OF select.prems _ _ choice]) (use inv in \<open>simp_all add: sessionInv_def\<close>)
  moreover have "length t' < two64"
    using select.hyps(3) select.prems inv by (simp add: planFits_def sessionInv_def)
  ultimately show ?case
    using inv select.prems by (auto simp: sessionInv_def m' planFits_def)
next
  case (restore t m c h t' st review m' c')
  then show ?case by (auto simp: sessionInv_def Restore_def split: if_splits)
next
  case (invalidate t m c h m' c' t')
  then show ?case by (auto simp: sessionInv_def Invalidate_def intro!: wellPlaced_unmapped)
qed


text \<open>The revision never goes back, so that what was prepared before a change is refused after it.\<close>

inductive modelStep :: "mergeModel \<times> nat \<Rightarrow> mergeModel \<times> nat \<Rightarrow> bool" where
  "ApplyEdit m d c = (Inr m', c') \<Longrightarrow> modelStep (m, c) (m', c')"
| "TextChanged m position removed inserted c = (m', c') \<Longrightarrow> modelStep (m, c) (m', c')"
| "SelectAll m choice c = (Inr m', c') \<Longrightarrow> modelStep (m, c) (m', c')"
| "Restore m st review c = (Inr m', c') \<Longrightarrow> modelStep (m, c) (m', c')"
| "Invalidate m c = (m', c') \<Longrightarrow> modelStep (m, c) (m', c')"
| "newMergeModel q c = (Inr n, c') \<Longrightarrow> modelStep (m, c) (m, c')"

inductive_cases modelStepE: "modelStep (m, c) (m', c')"

lemma modelStep_revision:
  "modelStep (m, c) (m', c') \<Longrightarrow> c' = nextRevision c \<and> (revision m' = c' \<or> m' = m)"
  by (erule modelStepE)
     (auto simp: ApplyEdit_def TextChanged_def SelectAll_def Restore_def Invalidate_def newMergeModel_def
        Let_def split: if_splits sum.splits option.splits)

lemma modelSteps_revision:
  "(modelStep ^^ n) (m, c) (m', c') \<Longrightarrow> revision m \<le> c \<Longrightarrow> c + n < two64 \<Longrightarrow>
    c' = c + n \<and> revision m' \<le> c' \<and> (m' = m \<or> c < revision m')"
proof (induction n arbitrary: m' c')
  case (Suc n)
  from Suc.prems(1) obtain k d where run: "(modelStep ^^ n) (m, c) (k, d)" "modelStep (k, d) (m', c')"
    by (auto elim!: relpowp_Suc_E)
  have "nextRevision d = d + 1" using Suc.IH [OF run(1) Suc.prems(2)] Suc.prems(3) by (simp add: nextRevision_def)
  then show ?case
    using Suc.IH [OF run(1) Suc.prems(2)] Suc.prems(3) modelStep_revision [OF run(2)] by auto
qed simp

text \<open>C12: a decision prepared for one state is refused in every later state of the model, undo
  included, as long as the process-wide counter does not wrap around.\<close>

theorem stale_decision:
  assumes "Prepare m i (revision m) choice = Inr d" "revision m \<le> c"
    and "(modelStep ^^ n) (m, c) (m', c')" "m' \<noteq> m" "c + n < two64"
  shows "ApplyEdit m' d c' = (Inl ''StaleMergeDecision'', c')"
proof -
  have "c < revision m'" using modelSteps_revision [OF assms(3,2,5)] assms(4) by blast
  moreover have "deRevision d = revision m" using assms(1) by (rule Prepare_Inr)
  ultimately show ?thesis using assms(2) by (simp add: ApplyEdit_def Prepare_def)
qed

section \<open>A run\<close>

abbreviation sampleBlock :: "nat \<Rightarrow> nat \<Rightarrow> char \<Rightarrow> char \<Rightarrow> mergeBlock" where
  "sampleBlock i at lc rc \<equiv> \<lparr>bId = i, bLeftBegin = at, bRightBegin = at, bBaseBegin = 0, bLeftLine = at,
     bRightLine = at, bBaseLine = 0, bLeft = [lc], bRight = [rc], bBase = [], bAutomatic = False\<rparr>"

abbreviation sampleState :: "nat \<Rightarrow> nat \<Rightarrow> blockState" where
  "sampleState b e \<equiv> \<lparr>sBegin = b, sEnd = e, sResolution = Unresolved, sMapped = True\<rparr>"

definition samplePlan :: mergePlan where
  "samplePlan = \<lparr>hasBase = False, blocks = [sampleBlock 1 0 (CHR ''a'') (CHR ''x''), sampleBlock 2 2 (CHR ''c'') (CHR ''z'')],
     initial = [sampleState 0 1, sampleState 2 3]\<rparr>"

definition sampleModel :: mergeModel where
  "sampleModel = \<lparr>plan = samplePlan, blockStates = initial samplePlan, revision = 1, reviewRequired = False\<rparr>"

abbreviation sampleDecision :: blockEdit where
  "sampleDecision \<equiv> \<lparr>deId = 1, deRevision = 1, deBegin = 0, deEnd = 1, deResolution = LeftThenRight,
     deReplacement = ''ax''\<rparr>"

lemmas model_run = samplePlan_def sampleModel_def Prepare_def blockIndex_def ApplyEdit_def decide_def
  TextChanged_def changeStates_def changeBlock_def shiftBlock_def shift_def mapPoint_def nextRevision_def
  plus64_def minus64_def Let_def newMergeModel_def splice_def wellPlaced_def located_def inOrder_def within_def
  less_Suc_eq numeral_2_eq_2

lemma sample_prepare: "Prepare sampleModel 1 (revision sampleModel) LeftThenRight = Inr sampleDecision"
  by (simp add: model_run)

lemma sample_placed: "wellPlaced ''abcd'' (blockStates sampleModel)"
  by (auto simp: model_run)

theorem ApplyEdit_replaces_witness:
  "\<exists>m'. ApplyEdit sampleModel sampleDecision 1 = (Inr m', 2) \<and> wellPlaced ''axbcd'' (blockStates m')
    \<and> spanText ''axbcd'' (blockStates m' ! 0) = ''ax'' \<and> spanText ''axbcd'' (blockStates m' ! 1) = ''c''"
proof -
  have c: "spanText ''abcd'' (blockStates sampleModel ! 1) = ''c''"
    by (simp add: sampleModel_def samplePlan_def spanText_def slice_def)
  have s: "splice ''abcd'' (deBegin sampleDecision) (deEnd sampleDecision) (deReplacement sampleDecision) = ''axbcd''"
    by (simp add: splice_def)
  have "1 < length (blockStates sampleModel)" "sMapped (blockStates sampleModel ! 1)"
    by (simp_all add: sampleModel_def samplePlan_def)
  then show ?thesis
    using ApplyEdit_replaces [OF sample_prepare _ sample_placed, of 1]
    unfolding s c [symmetric] by (auto simp: nextRevision_def plus64_def)
qed

theorem TextChanged_keeps_witness:
  "within ''abcQd'' (blockStates (fst (TextChanged sampleModel 3 0 1 1)) ! 1)
    \<and> spanText ''abcQd'' (blockStates (fst (TextChanged sampleModel 3 0 1 1)) ! 1) = ''c''"
proof -
  have run: "TextChanged sampleModel 3 0 (length ''Q'') 1
      = (sampleModel\<lparr>revision := 2\<rparr>, 2)"
    by (simp add: model_run)
  have c: "spanText ''abcd'' (blockStates sampleModel ! 1) = ''c''"
    by (simp add: sampleModel_def samplePlan_def spanText_def slice_def)
  have s: "splice ''abcd'' 3 (3 + 0) ''Q'' = ''abcQd''" by (simp add: splice_def)
  have "within ''abcQd'' (blockStates (sampleModel\<lparr>revision := 2\<rparr>) ! 1)"
    using TextChanged_keeps [OF _ _ _ _ run, of "''abcd''" 1] sample_placed s
    by (simp add: wellPlaced_def sampleModel_def samplePlan_def)
  then show ?thesis using run by (simp add: sampleModel_def samplePlan_def spanText_def slice_def)
qed

theorem TextChanged_order_witness:
  "wellPlaced ''Qbcd'' (blockStates (fst (TextChanged sampleModel 0 1 1 1)))"
  using TextChanged_order [OF sample_placed, of 0 1 "''Q''" 1] by (simp add: splice_def)

theorem stale_decision_witness:
  "ApplyEdit (fst (TextChanged sampleModel 0 1 1 1)) sampleDecision 2 = (Inl ''StaleMergeDecision'', 2)"
proof (rule stale_decision [OF sample_prepare, of 1 1])
  have "TextChanged sampleModel 0 1 1 1 = (fst (TextChanged sampleModel 0 1 1 1), 2)"
    by (simp add: TextChanged_def nextRevision_def plus64_def)
  then show "(modelStep ^^ 1) (sampleModel, 1) (fst (TextChanged sampleModel 0 1 1 1), 2)"
    unfolding relpowp_1 by (rule modelStep.intros(2))
  show "fst (TextChanged sampleModel 0 1 1 1) \<noteq> sampleModel"
    by (simp add: TextChanged_def sampleModel_def nextRevision_def plus64_def)
qed (simp_all add: sampleModel_def)

lemma sample_session:
  "session samplePlan ''abcd'' ''xbzd'' ''abcd'' sampleModel 1 {(''abcd'', initial samplePlan)}"
  by (rule session.start [where c = 0])
     (use sample_placed in \<open>simp_all add: newMergeModel_def nextRevision_def plus64_def sampleModel_def\<close>)


definition edited :: "blockState list" where
  "edited = changeStates 0 0 1 (changeStates 0 2 0 (changeStates 2 2 0 (changeStates 3 3 0
     [sampleState 0 2, sampleState 2 5, sampleState 7 7])))"


end
