(* ===== verification/MergePlans.thy ===== *)
theory MergePlans
  imports Merge MergeModel
begin

text \<open>
  The plans of \<open>HyperCompare/core/mergeModel.cpp\<close>: \<open>offsets\<close>, \<open>TwoWayPlan\<close> from the edits
  of a diff and \<open>ThreeWayPlan\<close> from the regions of a merge.  The lemmas show that a
  two-way plan of an edit script places every block where its text stands, on both sides.
\<close>

section \<open>Plans\<close>

text \<open>\<open>std::vector::at\<close> and \<open>std::string_view::substr\<close> throw \<open>std::out_of_range\<close>.\<close>

definition at :: "'a list \<Rightarrow> nat \<Rightarrow> 'a comp" where
  "at xs i = (if i < length xs then ret (xs ! i) else throw ''out_of_range'')"

definition substr :: "str \<Rightarrow> nat \<Rightarrow> nat \<Rightarrow> str comp" where
  "substr t pos len = (if length t < pos then throw ''out_of_range'' else ret (take len (drop pos t)))"

fun offsetsFrom :: "nat \<Rightarrow> str list \<Rightarrow> nat list" where
  "offsetsFrom k [] = [k]"
| "offsetsFrom k (l # ls) = k # offsetsFrom (k + length l) ls"

text \<open>\<open>D\<close> is the budget that the default argument of \<open>SplitLines\<close> constructs.\<close>

definition offsets :: "budget \<Rightarrow> str \<Rightarrow> nat list comp" where
  "offsets D t = seq (SplitLines t D defaultMaxLines defaultMaxBytes) (\<lambda>ls. ret (offsetsFrom 0 ls))"

definition twoWayBlock :: "str \<Rightarrow> nat list \<Rightarrow> nat list \<Rightarrow> Resolution \<Rightarrow> edit \<Rightarrow> mergePlan \<Rightarrow> mergePlan comp" where
  "twoWayBlock l lo ro seed e result =
    seq (at lo (eBegin e)) (\<lambda>lb. seq (at ro (oBegin e)) (\<lambda>rb.
    seq (at lo (eEnd e)) (\<lambda>le. seq (substr l lb (minus64 le lb)) (\<lambda>lt.
    let block = \<lparr>bId = length (blocks result) + 1, bLeftBegin = lb, bRightBegin = rb, bBaseBegin = 0,
          bLeftLine = eBegin e, bRightLine = oBegin e, bBaseLine = 0,
          bLeft = lt, bRight = replacement e, bBase = [], bAutomatic = False\<rparr>;
        start = (if seed = ChooseRight then rb else lb);
        len = (if seed = ChooseRight then length (replacement e) else length lt)
    in ret (result\<lparr>initial := initial result @
          [\<lparr>sBegin = start, sEnd = start + len, sResolution = seed, sMapped = True\<rparr>],
        blocks := blocks result @ [block]\<rparr>)))))"

fun twoWayLoop :: "str \<Rightarrow> nat list \<Rightarrow> nat list \<Rightarrow> Resolution \<Rightarrow> edit list \<Rightarrow> mergePlan \<Rightarrow> mergePlan comp" where
  "twoWayLoop l lo ro seed [] result = ret result"
| "twoWayLoop l lo ro seed (e # es) result =
    seq (twoWayBlock l lo ro seed e result) (twoWayLoop l lo ro seed es)"

definition TwoWayPlan :: "budget \<Rightarrow> str \<Rightarrow> str \<Rightarrow> edit list \<Rightarrow> Resolution \<Rightarrow> mergePlan comp" where
  "TwoWayPlan D l r es seed =
    seq (offsets D l) (\<lambda>lo. seq (offsets D r) (\<lambda>ro.
      twoWayLoop l lo ro seed es \<lparr>hasBase = False, blocks = [], initial = []\<rparr>))"

definition threeWayBlock :: "str \<Rightarrow> str \<Rightarrow> str \<Rightarrow> nat list \<Rightarrow> nat list \<Rightarrow> nat list \<Rightarrow> str \<Rightarrow> region
    \<Rightarrow> mergePlan \<Rightarrow> mergePlan comp" where
  "threeWayBlock base l r bo lo ro t g result =
    seq (at lo (rLeftBegin g)) (\<lambda>lb. seq (at ro (rRightBegin g)) (\<lambda>rb. seq (at bo (rBaseBegin g)) (\<lambda>bb.
    if minus64 (length l) lb < rLeftBytes g \<or> minus64 (length r) rb < rRightBytes g
       \<or> rResultEnd g < rResultBegin g \<or> length t < rResultEnd g
    then throw ''InvalidMergeLocation''
    else seq (substr l lb (rLeftBytes g)) (\<lambda>lt. seq (substr r rb (rRightBytes g)) (\<lambda>rt.
      seq (at bo (rBaseEnd g)) (\<lambda>be. seq (substr base bb (minus64 be bb)) (\<lambda>bt.
      let block = \<lparr>bId = length (blocks result) + 1, bLeftBegin = lb, bRightBegin = rb, bBaseBegin = bb,
            bLeftLine = rLeftBegin g, bRightLine = rRightBegin g, bBaseLine = rBaseBegin g,
            bLeft = lt, bRight = rt, bBase = bt, bAutomatic = (rOrigin g \<noteq> OriginConflict)\<rparr>;
          choice = (case rOrigin g of OriginLeft \<Rightarrow> ChooseLeft | OriginRight \<Rightarrow> ChooseRight | OriginConflict \<Rightarrow> Unresolved)
      in ret (result\<lparr>initial := initial result @
            [\<lparr>sBegin = rResultBegin g, sEnd = rResultEnd g, sResolution = choice, sMapped = True\<rparr>],
          blocks := blocks result @ [block]\<rparr>))))))))"

fun threeWayLoop :: "str \<Rightarrow> str \<Rightarrow> str \<Rightarrow> nat list \<Rightarrow> nat list \<Rightarrow> nat list \<Rightarrow> str \<Rightarrow> region list
    \<Rightarrow> mergePlan \<Rightarrow> mergePlan comp" where
  "threeWayLoop base l r bo lo ro t [] result = ret result"
| "threeWayLoop base l r bo lo ro t (g # gs) result =
    seq (threeWayBlock base l r bo lo ro t g result) (threeWayLoop base l r bo lo ro t gs)"

definition ThreeWayPlan :: "budget \<Rightarrow> str \<Rightarrow> str \<Rightarrow> str \<Rightarrow> merged \<Rightarrow> mergePlan comp" where
  "ThreeWayPlan D base l r m =
    seq (offsets D base) (\<lambda>bo. seq (offsets D l) (\<lambda>lo. seq (offsets D r) (\<lambda>ro.
      threeWayLoop base l r bo lo ro (mText m) (mRegions m) \<lparr>hasBase = True, blocks = [], initial = []\<rparr>)))"

section \<open>Two-way plans\<close>

lemma offsetsFrom_nth: "i \<le> length ls \<Longrightarrow> offsetsFrom k ls ! i = k + length (concat (take i ls))"
  by (induction k ls arbitrary: i rule: offsetsFrom.induct) (auto simp: nth_Cons' take_Cons')

lemma length_offsetsFrom [simp]: "length (offsetsFrom k ls) = Suc (length ls)"
  by (induction k ls rule: offsetsFrom.induct) simp_all

lemma at_lineOffset: "i \<le> length ls \<Longrightarrow> at (offsetsFrom 0 ls) i = ret (lineOffset ls i)"
  by (simp add: at_def offsetsFrom_nth lineOffset_def)

lemma slice_concat:
  assumes "i \<le> j" "j \<le> length ls"
  shows "slice (concat ls) (lineOffset ls i) (lineOffset ls j) = concat (slice ls i j)"
proof -
  have "ls = take i ls @ slice ls i j @ drop j ls"
    using assms by (metis append_assoc append_take_drop_id le_add_diff_inverse slice_def take_add)
  then have "concat ls = concat (take i ls) @ concat (slice ls i j) @ concat (drop j ls)"
    by (metis concat_append)
  then show ?thesis using lineOffset_split [OF assms(1)] by (simp add: slice_def lineOffset_def)
qed

definition plannedBlock :: "str list \<Rightarrow> str list \<Rightarrow> nat \<Rightarrow> edit \<Rightarrow> mergeBlock" where
  "plannedBlock ls rs n e = \<lparr>bId = n + 1, bLeftBegin = lineOffset ls (eBegin e), bRightBegin = lineOffset rs (oBegin e),
     bBaseBegin = 0, bLeftLine = eBegin e, bRightLine = oBegin e, bBaseLine = 0,
     bLeft = concat (slice ls (eBegin e) (eEnd e)), bRight = replacement e, bBase = [], bAutomatic = False\<rparr>"

definition plannedState :: "str list \<Rightarrow> str list \<Rightarrow> Resolution \<Rightarrow> edit \<Rightarrow> blockState" where
  "plannedState ls rs seed e =
    (let start = (if seed = ChooseRight then lineOffset rs (oBegin e) else lineOffset ls (eBegin e))
     in \<lparr>sBegin = start,
          sEnd = start + length (if seed = ChooseRight then replacement e else concat (slice ls (eBegin e) (eEnd e))),
          sResolution = seed, sMapped = True\<rparr>)"

lemma seq_ret [simp]: "seq (ret v) f = f v"
  by (simp add: seq_def ret_def)

lemma twoWayBlock_ret:
  assumes "eBegin e \<le> eEnd e" "eEnd e \<le> length ls" "oBegin e \<le> length rs" "length (concat ls) < two64"
  shows "twoWayBlock (concat ls) (offsetsFrom 0 ls) (offsetsFrom 0 rs) seed e result =
    ret (result\<lparr>initial := initial result @ [plannedState ls rs seed e],
        blocks := blocks result @ [plannedBlock ls rs (length (blocks result)) e]\<rparr>)"
proof -
  have le: "lineOffset ls (eBegin e) \<le> lineOffset ls (eEnd e)" "lineOffset ls (eEnd e) \<le> length (concat ls)"
    using assms lineOffset_mono lineOffset_le by auto
  then have "minus64 (lineOffset ls (eEnd e)) (lineOffset ls (eBegin e)) = lineOffset ls (eEnd e) - lineOffset ls (eBegin e)"
    using assms(4) by simp
  then have "substr (concat ls) (lineOffset ls (eBegin e)) (minus64 (lineOffset ls (eEnd e)) (lineOffset ls (eBegin e)))
      = ret (concat (slice ls (eBegin e) (eEnd e)))"
    using le slice_concat [OF assms(1,2)] by (simp add: substr_def slice_def)
  then show ?thesis
    using assms by (simp add: twoWayBlock_def at_lineOffset plannedBlock_def plannedState_def Let_def)
qed

lemma twoWayLoop_ret:
  "script ls rs a b es \<Longrightarrow> length (concat ls) < two64 \<Longrightarrow>
    twoWayLoop (concat ls) (offsetsFrom 0 ls) (offsetsFrom 0 rs) seed es result =
    ret (result\<lparr>initial := initial result @ map (plannedState ls rs seed) es,
      blocks := blocks result @ map (\<lambda>(n, e). plannedBlock ls rs n e) (enumerate (length (blocks result)) es)\<rparr>)"
proof (induction es arbitrary: a b result)
  case (Cons e es)
  then have "twoWayBlock (concat ls) (offsetsFrom 0 ls) (offsetsFrom 0 rs) seed e result =
    ret (result\<lparr>initial := initial result @ [plannedState ls rs seed e],
        blocks := blocks result @ [plannedBlock ls rs (length (blocks result)) e]\<rparr>)"
    by (intro twoWayBlock_ret) auto
  moreover have "script ls rs (eEnd e) (oEnd e) es" using Cons.prems(1) by simp
  ultimately show ?case
    using Cons.IH [OF _ Cons.prems(2)] by simp
qed simp

definition twoWay :: "str list \<Rightarrow> str list \<Rightarrow> Resolution \<Rightarrow> edit list \<Rightarrow> mergePlan" where
  "twoWay ls rs seed es = \<lparr>hasBase = False, blocks = map (\<lambda>(n, e). plannedBlock ls rs n e) (enumerate 0 es),
     initial = map (plannedState ls rs seed) es\<rparr>"

lemma offsets_yields: "yields (offsets D t) (\<lambda>lo. lo = offsetsFrom 0 (splitText t)) (\<lambda>_. True)"
  unfolding offsets_def
  by (rule yields_seq [OF yields_weaken [OF SplitLines_yields]]) (auto intro: yields_ret)

lemma TwoWayPlan_yields:
  assumes "script (splitText l) (splitText r) 0 0 es" "length l < two64"
  shows "yields (TwoWayPlan D l r es seed) (\<lambda>p. p = twoWay (splitText l) (splitText r) seed es) (\<lambda>_. True)"
proof -
  have "twoWayLoop l (offsetsFrom 0 (splitText l)) (offsetsFrom 0 (splitText r)) seed es
      \<lparr>hasBase = False, blocks = [], initial = []\<rparr> = ret (twoWay (splitText l) (splitText r) seed es)"
    using twoWayLoop_ret [OF assms(1)] assms(2) by (simp add: twoWay_def)
  then show ?thesis
    unfolding TwoWayPlan_def
    by (intro yields_seq [OF offsets_yields]) (simp add: yields_ret)
qed

text \<open>The spans of a script rise on both sides.\<close>

lemma script_rises:
  "script ls rs a b es \<Longrightarrow> i < length es \<Longrightarrow>
    a \<le> eBegin (es ! i) \<and> b \<le> oBegin (es ! i)
    \<and> eBegin (es ! i) \<le> eEnd (es ! i) \<and> oBegin (es ! i) \<le> oEnd (es ! i)
    \<and> eEnd (es ! i) \<le> length ls \<and> oEnd (es ! i) \<le> length rs"
proof (induction es arbitrary: a b i)
  case (Cons e es)
  then show ?case using Cons.IH [of "eEnd e" "oEnd e" "i - 1"] by (cases i) fastforce+
qed simp

lemma script_ordered:
  "script ls rs a b es \<Longrightarrow> i < j \<Longrightarrow> j < length es \<Longrightarrow>
    eEnd (es ! i) \<le> eBegin (es ! j) \<and> oEnd (es ! i) \<le> oBegin (es ! j)"
proof (induction es arbitrary: a b i j)
  case (Cons e es)
  show ?case
  proof (cases i)
    case 0
    then show ?thesis using Cons.prems script_rises [of ls rs "eEnd e" "oEnd e" es "j - 1"] by (cases j) auto
  next
    case (Suc k)
    then show ?thesis using Cons.prems Cons.IH [of "eEnd e" "oEnd e" k "j - 1"] by (cases j) auto
  qed
qed simp

lemma wellPlaced_lines:
  assumes "length st = length es"
    and "\<And>i. i < length es \<Longrightarrow> sBegin (st ! i) = lineOffset ls (f (es ! i)) \<and> sEnd (st ! i) = lineOffset ls (g (es ! i))
      \<and> f (es ! i) \<le> g (es ! i)"
    and "\<And>i j. i < j \<Longrightarrow> j < length es \<Longrightarrow> g (es ! i) \<le> f (es ! j)"
  shows "wellPlaced (concat ls) st"
  unfolding wellPlaced_def located_def inOrder_def within_def
  using assms by (auto simp: in_set_conv_nth lineOffset_mono lineOffset_le)

lemma planned_spans:
  assumes "script ls rs 0 0 es" "\<forall>e \<in> set es. replacement e = concat (slice rs (oBegin e) (oEnd e))" "i < length es"
  shows "lineOffset ls (eBegin (es ! i)) + length (concat (slice ls (eBegin (es ! i)) (eEnd (es ! i)))) = lineOffset ls (eEnd (es ! i))"
    and "lineOffset rs (oBegin (es ! i)) + length (replacement (es ! i)) = lineOffset rs (oEnd (es ! i))"
  using script_rises [OF assms(1,3)] assms(2,3)
  by (auto simp del: length_concat simp: lineOffset_split [symmetric])

lemma twoWay_sides:
  assumes "script ls rs 0 0 es" "\<forall>e \<in> set es. replacement e = concat (slice rs (oBegin e) (oEnd e))"
    and "length (concat ls) < two64" "length (concat rs) < two64"
  shows "planFits (concat ls) (concat rs) (twoWay ls rs seed es)"
proof -
  have "wellPlaced (concat ls) (sideStates ChooseLeft (twoWay ls rs seed es))"
    by (rule wellPlaced_lines [where f = eBegin and g = eEnd and es = es])
       (use script_rises [OF assms(1)] script_ordered [OF assms(1)] planned_spans [OF assms(1,2)] in
         \<open>auto simp: sideStates_def twoWay_def selectBlock_def plannedBlock_def nth_enumerate_eq\<close>)
  moreover have "wellPlaced (concat rs) (sideStates ChooseRight (twoWay ls rs seed es))"
    by (rule wellPlaced_lines [where f = oBegin and g = oEnd and es = es])
       (use script_rises [OF assms(1)] script_ordered [OF assms(1)] planned_spans [OF assms(1,2)] in
         \<open>auto simp: sideStates_def twoWay_def selectBlock_def plannedBlock_def nth_enumerate_eq\<close>)
  ultimately show ?thesis using assms(3,4) by (simp add: planFits_def twoWay_def)
qed

lemma twoWay_initial:
  assumes "script ls rs 0 0 es" "\<forall>e \<in> set es. replacement e = concat (slice rs (oBegin e) (oEnd e))"
  shows "wellPlaced (if seed = ChooseRight then concat rs else concat ls) (initial (twoWay ls rs seed es))"
proof (cases "seed = ChooseRight")
  case True
  have "wellPlaced (concat rs) (initial (twoWay ls rs seed es))"
    by (rule wellPlaced_lines [where f = oBegin and g = oEnd and es = es])
       (use True script_rises [OF assms(1)] script_ordered [OF assms(1)] planned_spans [OF assms] in
         \<open>auto simp: twoWay_def plannedState_def\<close>)
  then show ?thesis using True by simp
next
  case False
  have "wellPlaced (concat ls) (initial (twoWay ls rs seed es))"
    by (rule wellPlaced_lines [where f = eBegin and g = eEnd and es = es])
       (use False script_rises [OF assms(1)] script_ordered [OF assms(1)] planned_spans [OF assms] in
         \<open>auto simp: twoWay_def plannedState_def\<close>)
  then show ?thesis using False by simp
qed

lemma twoWay_texts:
  assumes "script ls rs 0 0 es" "\<forall>e \<in> set es. replacement e = concat (slice rs (oBegin e) (oEnd e))" "i < length es"
  shows "spanText (if seed = ChooseRight then concat rs else concat ls) (initial (twoWay ls rs seed es) ! i)
    = (if seed = ChooseRight then bRight (blocks (twoWay ls rs seed es) ! i) else bLeft (blocks (twoWay ls rs seed es) ! i))"
proof -
  have rep: "replacement (es ! i) = concat (slice rs (oBegin (es ! i)) (oEnd (es ! i)))" using assms(2,3) by simp
  show ?thesis
    using script_rises [OF assms(1,3)] planned_spans [OF assms] assms(3) slice_concat
    by (simp add: twoWay_def plannedState_def plannedBlock_def spanText_def nth_enumerate_eq rep Let_def)
qed


lemma sample_plan:
  "TwoWayPlan defaultBudget sampleLeft sampleRight sampleEdits ChooseLeft world0 =
    (Inr (twoWay (splitText sampleLeft) (splitText sampleRight) ChooseLeft sampleEdits), \<lparr>ticks = 12, steps = 0\<rparr>)"
  by (simp add: TwoWayPlan_def offsets_def twoWayBlock_def at_def substr_def engine_run budget_run defaultBudget_def
     world0_def mkEdit_def twoWay_def plannedBlock_def plannedState_def lineOffset_def slice_def)


end
