(* ===== verification/AlignmentMap.thy ===== *)
theory AlignmentMap
  imports EditScript Patience
begin

text \<open>
  \<open>AlignmentMap\<close> of \<open>HyperCompare/core/alignmentMap.hpp\<close> and \<open>.cpp\<close>: the runs of two
  aligned documents and the display rows they share (\<open>Build\<close>), the bounded refinement by
  similar lines (\<open>WithSimilarLines\<close>) and the queries \<open>DisplayRow\<close>, \<open>LineAtRow\<close> and
  \<open>MapLine\<close>.  A two-element array is a pair, indexed by \<open>side\<close>.

  The lemmas show that every map is a tiling: the runs cover the lines of both sides and
  the rows without gap or overlap; that the refinement keeps this; and what the queries
  answer on such maps.  On a tiling the differences of the queries never go below zero and
  the searches never run past the end; dereferencing \<open>end()\<close> is the failure
  \<open>undefined_behaviour\<close>.
\<close>

section \<open>Data\<close>

definition side :: "nat \<Rightarrow> nat \<times> nat \<Rightarrow> nat" where
  "side s p = (if s = 0 then fst p else snd p)"

lemma side_simps [simp]: "side 0 p = fst p" "side 1 p = snd p" "side (Suc 0) p = snd p"
  by (simp_all add: side_def)

record alignmentRun =
  runBegin :: "nat \<times> nat"
  runEnd :: "nat \<times> nat"
  runChanged :: bool
  rowBegin :: nat
  rowEnd :: nat

record alignmentMap =
  mapLines :: "nat \<times> nat"
  mapRuns :: "alignmentRun list"
  mapRows :: nat
  similarLines :: bool
  similarityWork :: nat

definition emptyMap :: "nat \<times> nat \<Rightarrow> alignmentMap" where
  "emptyMap ls = \<lparr>mapLines = ls, mapRuns = [], mapRows = 0, similarLines = False, similarityWork = 0\<rparr>"

abbreviation mkRun :: "nat \<times> nat \<Rightarrow> nat \<times> nat \<Rightarrow> bool \<Rightarrow> nat \<Rightarrow> nat \<Rightarrow> alignmentRun" where
  "mkRun b e changed r s \<equiv> \<lparr>runBegin = b, runEnd = e, runChanged = changed, rowBegin = r, rowEnd = s\<rparr>"

definition runHeight :: "alignmentRun \<Rightarrow> nat" where
  "runHeight r = max (fst (runEnd r) - fst (runBegin r)) (snd (runEnd r) - snd (runBegin r))"

section \<open>Build\<close>

definition badEdit :: "nat \<Rightarrow> nat \<Rightarrow> nat \<Rightarrow> nat \<Rightarrow> edit \<Rightarrow> bool" where
  "badEdit leftLines rightLines left right e \<longleftrightarrow>
     eBegin e < left \<or> oBegin e < right \<or> eEnd e < eBegin e \<or> oEnd e < oBegin e
   \<or> leftLines < eEnd e \<or> rightLines < oEnd e \<or> eBegin e - left \<noteq> oBegin e - right
   \<or> (eBegin e = eEnd e \<and> oBegin e = oEnd e)"

fun buildRuns :: "budget \<Rightarrow> nat \<Rightarrow> nat \<Rightarrow> edit list \<Rightarrow> nat \<Rightarrow> nat \<Rightarrow> alignmentRun list
    \<Rightarrow> (nat \<times> nat \<times> alignmentRun list) comp" where
  "buildRuns L leftLines rightLines [] left right runs = ret (left, right, runs)"
| "buildRuns L leftLines rightLines (e # es) left right runs =
    seq (check L) (\<lambda>_.
      if badEdit leftLines rightLines left right e then throw ''InvalidAlignmentEdits''
      else let kept = (if left < eBegin e
                 then runs @ [mkRun (left, right) (eBegin e, oBegin e) False 0 0] else runs)
        in buildRuns L leftLines rightLines es (eEnd e) (oEnd e)
             (kept @ [mkRun (eBegin e, oBegin e) (eEnd e, oEnd e) True 0 0]))"

fun placeRuns :: "budget \<Rightarrow> alignmentRun list \<Rightarrow> nat \<Rightarrow> alignmentRun list \<Rightarrow> (nat \<times> alignmentRun list) comp" where
  "placeRuns L [] rows placed = ret (rows, placed)"
| "placeRuns L (r # rs) rows placed =
    seq (check L) (\<lambda>_. placeRuns L rs (rows + runHeight r)
      (placed @ [r\<lparr>rowBegin := rows, rowEnd := rows + runHeight r\<rparr>]))"

definition Build :: "nat \<Rightarrow> nat \<Rightarrow> edit list \<Rightarrow> budget \<Rightarrow> alignmentMap comp" where
  "Build leftLines rightLines es L =
    seq (check L) (\<lambda>_.
      if 2000000 < leftLines \<or> 2000000 < rightLines \<or> leftLines + rightLines < length es
      then throw ''AlignmentSizeLimit''
      else seq (buildRuns L leftLines rightLines es 0 0 []) (\<lambda>(left, right, runs).
        if leftLines - left \<noteq> rightLines - right then throw ''InvalidAlignmentEdits''
        else seq (placeRuns L (if left < leftLines
              then runs @ [mkRun (left, right) (leftLines, rightLines) False 0 0] else runs) 0 []) (\<lambda>(rows, placed).
          seq (check L) (\<lambda>_. ret ((emptyMap (leftLines, rightLines))\<lparr>mapRuns := placed, mapRows := rows\<rparr>)))))"

section \<open>Similar lines\<close>

definition blank :: "char \<Rightarrow> bool" where
  "blank c \<longleftrightarrow> c = CHR '' '' \<or> c = CHR 0x09 \<or> c = CR \<or> c = LF"

definition trim :: "str \<Rightarrow> str" where
  "trim t = rev (dropWhile blank (rev (dropWhile blank t)))"

fun sharedFront :: "str \<Rightarrow> str \<Rightarrow> nat" where
  "sharedFront (x # xs) (y # ys) = (if x = y then Suc (sharedFront xs ys) else 0)"
| "sharedFront _ _ = 0"

definition similarity :: "str \<Rightarrow> str \<Rightarrow> nat" where
  "similarity a b =
    (let pre = sharedFront a b; suf = sharedFront (rev (drop pre a)) (rev (drop pre b)); common = pre + suf
     in if 4 \<le> common then 2000 * common div (length a + length b) else 0)"

text \<open>\<open>best\<close>: the best score, the second best, and the index of the best.\<close>

type_synonym choice = "nat \<times> nat \<times> nat"

fun best :: "nat \<Rightarrow> nat \<Rightarrow> choice \<Rightarrow> choice" where
  "best score i (first, second, c) =
    (if first < score then (score, first, i) else (first, max second score, c))"

fun scoreRow :: "nat \<Rightarrow> str \<Rightarrow> nat \<Rightarrow> str list \<Rightarrow> choice \<Rightarrow> choice list \<Rightarrow> choice \<times> choice list" where
  "scoreRow i a j (b # bs) row (col # cols) =
    (let s = similarity a b in case scoreRow i a (Suc j) bs (best s j row) cols of
       (row', cols') \<Rightarrow> (row', best s i col # cols'))"
| "scoreRow i a j _ row cols = (row, cols)"

fun scoreRows :: "budget \<Rightarrow> nat \<Rightarrow> str list \<Rightarrow> str list \<Rightarrow> choice list \<Rightarrow> choice list \<Rightarrow> (choice list \<times> choice list) comp" where
  "scoreRows L i [] bs rows cols = ret (rows, cols)"
| "scoreRows L i (a # as) bs rows cols =
    seq (check L) (\<lambda>_. case scoreRow i a 0 bs (0, 0, 0) cols of
      (row, cols') \<Rightarrow> scoreRows L (Suc i) as bs (rows @ [row]) cols')"

definition mutualBest :: "choice list \<Rightarrow> choice list \<Rightarrow> nat \<Rightarrow> (nat \<times> nat) option" where
  "mutualBest rows cols i =
    (case rows ! i of (rowFirst, rowSecond, j) \<Rightarrow> (case cols ! j of (colFirst, colSecond, k) \<Rightarrow>
       if 700 \<le> rowFirst \<and> rowSecond + 80 \<le> rowFirst \<and> k = i \<and> colSecond + 80 \<le> colFirst
       then Some (i, j) else None))"

definition candidatesOf :: "choice list \<Rightarrow> choice list \<Rightarrow> (nat \<times> nat) list" where
  "candidatesOf rows cols = List.map_filter (mutualBest rows cols) [0..<length rows]"

text \<open>The anchors of one run: unique mutual best matches in monotone order.\<close>

definition anchorsOf :: "(nat \<times> nat) list \<Rightarrow> (nat \<times> nat) list" where
  "anchorsOf candidates = (case longestChain (map snd candidates) of
     None \<Rightarrow> [] | Some js \<Rightarrow> map ((!) candidates) js)"

definition appendRun :: "alignmentMap \<Rightarrow> nat \<times> nat \<Rightarrow> nat \<times> nat \<Rightarrow> bool \<Rightarrow> alignmentMap" where
  "appendRun m b e changed =
    (let height = max (fst e - fst b) (snd e - snd b)
     in if height = 0 then m
        else m\<lparr>mapRuns := mapRuns m @ [mkRun b e changed (mapRows m) (mapRows m + height)],
               mapRows := mapRows m + height\<rparr>)"

fun appendAnchors :: "alignmentMap \<Rightarrow> nat \<times> nat \<Rightarrow> nat \<times> nat \<Rightarrow> (nat \<times> nat) list \<Rightarrow> nat \<times> nat \<Rightarrow> alignmentMap" where
  "appendAnchors m base at [] e = appendRun m at e True"
| "appendAnchors m base at ((i, j) # anchors) e =
    (let p = (fst base + i, snd base + j); q = (Suc (fst p), Suc (snd p))
     in appendAnchors (appendRun (appendRun m at p True) p q True) base q anchors e)"

definition refineRun :: "alignmentMap \<Rightarrow> alignmentRun \<Rightarrow> (nat \<times> nat) list \<Rightarrow> alignmentMap" where
  "refineRun m r candidates =
    (let anchors = anchorsOf candidates
     in if \<forall>(i, j) \<in> set anchors. i = j
        then appendRun m (runBegin r) (runEnd r) (runChanged r)
        else appendAnchors (m\<lparr>similarLines := True\<rparr>) (runBegin r) (runBegin r) anchors (runEnd r))"

text \<open>
  \<open>catch (const Failure& error)\<close> of \<open>WithSimilarLines\<close>: a timeout ends the refinement with
  the work done so far (\<open>Inl work\<close>), every other failure is thrown again.
\<close>

definition orTimeout :: "'c \<Rightarrow> 'a comp \<Rightarrow> ('a \<Rightarrow> ('c + 'b) comp) \<Rightarrow> ('c + 'b) comp" where
  "orTimeout work m f = (\<lambda>w. case m w of (Inr v, w') \<Rightarrow> f v w'
     | (Inl e, w') \<Rightarrow> if e = ''Timeout'' then (Inr (Inl work), w') else (Inl e, w'))"

definition runLines :: "str list \<Rightarrow> nat \<Rightarrow> nat \<Rightarrow> str list" where
  "runLines ls b n = map (\<lambda>i. trim (ls ! (b + i))) [0..<n]"

definition bytesOf :: "str list \<Rightarrow> nat" where
  "bytesOf ls = sum_list (map length ls)"

fun similarRuns :: "budget \<Rightarrow> nat \<Rightarrow> str list \<Rightarrow> str list \<Rightarrow> alignmentRun list \<Rightarrow> alignmentMap
    \<Rightarrow> (nat + alignmentMap) comp" where
  "similarRuns L maximum ls rs [] m = orTimeout (similarityWork m) (check L) (\<lambda>_. ret (Inr m))"
| "similarRuns L maximum ls rs (r # runs) m =
    orTimeout (similarityWork m) (check L) (\<lambda>_.
      let n = fst (runEnd r) - fst (runBegin r); k = snd (runEnd r) - snd (runBegin r);
          as = runLines ls (fst (runBegin r)) n; bs = runLines rs (snd (runBegin r)) k;
          work = bytesOf as * k + bytesOf bs * n + n * k
      in if runChanged r \<and> n \<noteq> 0 \<and> k \<noteq> 0 \<and> n \<le> 128 \<and> k \<le> 128 \<and> similarityWork m < maximum
           \<and> (\<forall>t \<in> set as \<union> set bs. length t \<le> 2048) \<and> work \<le> maximum - similarityWork m
         then orTimeout (similarityWork m + work) (scoreRows L 0 as bs [] (replicate k (0, 0, 0))) (\<lambda>(rows, cols).
           similarRuns L maximum ls rs runs
             (refineRun (m\<lparr>similarityWork := similarityWork m + work\<rparr>) r (candidatesOf rows cols)))
         else similarRuns L maximum ls rs runs (refineRun m r []))"

definition WithSimilarLines :: "alignmentMap \<Rightarrow> str \<Rightarrow> str \<Rightarrow> budget \<Rightarrow> alignmentMap comp" where
  "WithSimilarLines m l r L =
    seq (orTimeout 0 (seq (SplitLines l L defaultMaxLines defaultMaxBytes) (\<lambda>ls.
           seq (SplitLines r L defaultMaxLines defaultMaxBytes) (\<lambda>rs. ret (ls, rs)))) (\<lambda>(ls, rs).
         if length ls \<noteq> fst (mapLines m) \<or> length rs \<noteq> snd (mapLines m) then throw ''InvalidAlignmentInput''
         else similarRuns L (min 4000000 (maxSteps L)) ls rs (mapRuns m)
           (m\<lparr>mapRuns := [], mapRows := 0, similarityWork := 0\<rparr>)))
     (\<lambda>o1. case o1 of Inl work \<Rightarrow> ret (m\<lparr>similarityWork := work\<rparr>) | Inr m' \<Rightarrow> ret m')"

section \<open>Queries\<close>

definition DisplayRow :: "alignmentMap \<Rightarrow> nat \<Rightarrow> nat \<Rightarrow> failure + nat" where
  "DisplayRow m s line =
    (if 1 < s then Inl ''InvalidAlignmentSide''
     else if side s (mapLines m) < line then Inl ''InvalidAlignmentLine''
     else if line = side s (mapLines m) then Inr (mapRows m)
     else let k = boundIndex (\<lambda>i. \<not> line < side s (runEnd (mapRuns m ! i))) 0 (length (mapRuns m))
       in if k = length (mapRuns m) then Inl ''undefined_behaviour''
          else Inr (rowBegin (mapRuns m ! k) + line - side s (runBegin (mapRuns m ! k))))"

definition LineAtRow :: "alignmentMap \<Rightarrow> nat \<Rightarrow> nat \<Rightarrow> failure + nat option" where
  "LineAtRow m s row =
    (if 1 < s then Inl ''InvalidAlignmentSide''
     else if mapRows m \<le> row then Inr None
     else let k = boundIndex (\<lambda>i. \<not> row < rowEnd (mapRuns m ! i)) 0 (length (mapRuns m))
       in if k = length (mapRuns m) then Inl ''undefined_behaviour''
          else let r = mapRuns m ! k; offset = row - rowBegin r
            in if side s (runEnd r) - side s (runBegin r) \<le> offset then Inr None
               else Inr (Some (side s (runBegin r) + offset)))"

definition MapLine :: "alignmentMap \<Rightarrow> nat \<Rightarrow> nat \<Rightarrow> failure + nat" where
  "MapLine m s line =
    (if 1 < s then Inl ''InvalidAlignmentSide''
     else let to = 1 - s
       in if side s (mapLines m) \<le> line then Inr (side to (mapLines m))
          else let k = boundIndex (\<lambda>i. \<not> line < side s (runEnd (mapRuns m ! i))) 0 (length (mapRuns m))
            in if k = length (mapRuns m) then Inl ''InvalidAlignmentEdits''
               else let r = mapRuns m ! k; count = side to (runEnd r) - side to (runBegin r);
                        offset = line - side s (runBegin r)
                 in if count = 0 then Inr (side to (runBegin r))
                    else Inr (side to (runBegin r)
                           + offset * count div (side s (runEnd r) - side s (runBegin r))))"

section \<open>Tilings\<close>

fun tiles :: "alignmentRun list \<Rightarrow> nat \<times> nat \<Rightarrow> nat \<Rightarrow> nat \<times> nat \<Rightarrow> nat \<Rightarrow> bool" where
  "tiles [] p row q rows \<longleftrightarrow> p = q \<and> row = rows"
| "tiles (r # rs) p row q rows \<longleftrightarrow>
     runBegin r = p \<and> rowBegin r = row \<and> fst p \<le> fst (runEnd r) \<and> snd p \<le> snd (runEnd r)
   \<and> row < rowEnd r \<and> row + runHeight r \<le> rowEnd r
   \<and> (\<not> runChanged r \<longrightarrow> fst (runEnd r) - fst p = snd (runEnd r) - snd p)
   \<and> tiles rs (runEnd r) (rowEnd r) q rows"

definition wellTiled :: "alignmentMap \<Rightarrow> bool" where
  "wellTiled m \<longleftrightarrow> tiles (mapRuns m) (0, 0) 0 (mapLines m) (mapRows m)"

text \<open>The rows of a run are exactly those its longer side needs.\<close>

definition tight :: "alignmentRun list \<Rightarrow> bool" where
  "tight rs \<longleftrightarrow> (\<forall>r \<in> set rs. 0 < runHeight r \<and> rowEnd r = rowBegin r + runHeight r)"

lemma tiles_snoc:
  "tiles rs p row q rows \<Longrightarrow> tiles (rs @ [r]) p row q' rows' \<longleftrightarrow> tiles [r] q rows q' rows'"
proof (induction rs arbitrary: p row)
  case (Cons a rs)
  then have "tiles rs (runEnd a) (rowEnd a) q rows" unfolding tiles.simps(2) by blast
  from Cons.IH [OF this] Cons.prems show ?case unfolding append_Cons tiles.simps(2) by blast
qed simp

lemma tiles_nth:
  assumes "tiles rs p row q rows" "i < length rs"
  shows "runBegin (rs ! i) = (if i = 0 then p else runEnd (rs ! (i - 1)))
    \<and> rowBegin (rs ! i) = (if i = 0 then row else rowEnd (rs ! (i - 1)))
    \<and> fst (runBegin (rs ! i)) \<le> fst (runEnd (rs ! i)) \<and> snd (runBegin (rs ! i)) \<le> snd (runEnd (rs ! i))
    \<and> rowBegin (rs ! i) < rowEnd (rs ! i) \<and> rowBegin (rs ! i) + runHeight (rs ! i) \<le> rowEnd (rs ! i)
    \<and> (\<not> runChanged (rs ! i) \<longrightarrow> fst (runEnd (rs ! i)) - fst (runBegin (rs ! i))
         = snd (runEnd (rs ! i)) - snd (runBegin (rs ! i)))"
  using assms
proof (induction rs arbitrary: p row i)
  case (Cons r rs)
  show ?case
  proof (cases i)
    case 0
    then show ?thesis using Cons.prems by auto
  next
    case (Suc k)
    then have "k < length rs" using Cons.prems(2) by simp
    moreover have "tiles rs (runEnd r) (rowEnd r) q rows" using Cons.prems(1) unfolding tiles.simps(2) by blast
    ultimately show ?thesis using Cons.IH [of "runEnd r" "rowEnd r" k] Suc by (cases k) auto
  qed
qed simp

lemma tiles_last:
  "tiles rs p row q rows \<Longrightarrow> rs \<noteq> [] \<Longrightarrow> runEnd (rs ! (length rs - 1)) = q \<and> rowEnd (rs ! (length rs - 1)) = rows"
proof (induction rs arbitrary: p row)
  case (Cons r rs)
  from Cons.prems(1) have "tiles rs (runEnd r) (rowEnd r) q rows" unfolding tiles.simps(2) by blast
  from Cons.IH [OF this] Cons.prems(1) show ?case by (cases "rs = []") (simp_all add: nth_Cons')
qed simp

text \<open>
  An axis cut into consecutive intervals, and the search for the interval of a position:
  what the three queries share.
\<close>

locale tiled_axis =
  fixes ok :: "'m \<Rightarrow> bool" and count :: "'m \<Rightarrow> nat" and lo hi :: "'m \<Rightarrow> nat \<Rightarrow> nat" and total :: "'m \<Rightarrow> nat"
  assumes first: "ok m \<Longrightarrow> 0 < count m \<Longrightarrow> lo m 0 = 0"
    and follows: "ok m \<Longrightarrow> Suc i < count m \<Longrightarrow> lo m (Suc i) = hi m i"
    and forward: "ok m \<Longrightarrow> i < count m \<Longrightarrow> lo m i \<le> hi m i"
    and covers: "ok m \<Longrightarrow> total m = (if count m = 0 then 0 else hi m (count m - 1))"
begin

lemma rises: "ok m \<Longrightarrow> i \<le> j \<Longrightarrow> j < count m \<Longrightarrow> hi m i \<le> hi m j"
proof (induction j)
  case (Suc j)
  then show ?case using follows [of m j] forward [of m "Suc j"] by (cases "i = Suc j") auto
qed simp

lemma behind: "ok m \<Longrightarrow> i < j \<Longrightarrow> j < count m \<Longrightarrow> hi m i \<le> lo m j"
  using rises [of m i "j - 1"] follows [of m "j - 1"] by (cases j) auto

lemma bounded: "ok m \<Longrightarrow> i < count m \<Longrightarrow> hi m i \<le> total m"
  using rises [of m i "count m - 1"] covers [of m] by simp

lemma search:
  assumes "ok m" "x < total m"
  defines "k \<equiv> boundIndex (\<lambda>i. \<not> x < hi m i) 0 (count m)"
  shows "k < count m \<and> lo m k \<le> x \<and> x < hi m k"
proof -
  have "\<not> x < hi m i" if "i \<le> j" "j < 0 + count m" "\<not> x < hi m j" for i j
    using rises [OF assms(1) that(1)] that(2,3) by simp
  from boundIndex_spec [of 0 "count m" "\<lambda>i. \<not> x < hi m i", OF this]
  have k: "k \<le> count m" "\<forall>i < count m. \<not> x < hi m i \<longleftrightarrow> i < k" by (simp_all add: k_def)
  have pos: "0 < count m" "hi m (count m - 1) = total m"
    using assms(2) covers [OF assms(1)] by (auto split: if_splits)
  have "count m - 1 < count m" using pos by simp
  then have "\<not> count m - 1 < k" using k(2) pos(2) assms(2) by metis
  then have less: "k < count m" using pos(1) by linarith
  moreover have "x < hi m k" using k less by blast
  moreover have "lo m k \<le> x"
  proof (cases k)
    case 0
    then show ?thesis using first [OF assms(1) pos(1)] by simp
  next
    case (Suc j)
    then have "\<not> x < hi m j" using k less by simp
    then show ?thesis using follows [OF assms(1), of j] Suc less by simp
  qed
  ultimately show ?thesis by blast
qed

lemma search_unique:
  assumes "ok m" "k < count m" "lo m k \<le> x" "x < hi m k"
  shows "boundIndex (\<lambda>i. \<not> x < hi m i) 0 (count m) = k"
proof -
  define j where "j = boundIndex (\<lambda>i. \<not> x < hi m i) 0 (count m)"
  have "x < total m" using bounded [OF assms(1,2)] assms(4) by simp
  then have j: "j < count m" "lo m j \<le> x" "x < hi m j" using search [OF assms(1)] by (simp_all add: j_def)
  have "j = k"
    using behind [OF assms(1), of j k] behind [OF assms(1), of k j] j assms(2-4) by (cases j k rule: linorder_cases) auto
  then show ?thesis by (simp add: j_def)
qed

end

lemmas wellTiled_nth = tiles_nth [OF wellTiled_def [THEN iffD1]]
lemmas wellTiled_last = tiles_last [OF wellTiled_def [THEN iffD1]]

lemma wellTiled_empty: "wellTiled m \<Longrightarrow> mapRuns m = [] \<Longrightarrow> mapLines m = (0, 0) \<and> mapRows m = 0"
  by (auto simp: wellTiled_def)

lemma axis_first: "wellTiled m \<Longrightarrow> 0 < length (mapRuns m) \<Longrightarrow>
    runBegin (mapRuns m ! 0) = (0, 0) \<and> rowBegin (mapRuns m ! 0) = 0"
  using wellTiled_nth [of m 0] by simp

lemma axis_next: "wellTiled m \<Longrightarrow> Suc i < length (mapRuns m) \<Longrightarrow>
    runBegin (mapRuns m ! Suc i) = runEnd (mapRuns m ! i) \<and> rowBegin (mapRuns m ! Suc i) = rowEnd (mapRuns m ! i)"
  using wellTiled_nth [of m "Suc i"] by simp

lemma axis_forward: "wellTiled m \<Longrightarrow> i < length (mapRuns m) \<Longrightarrow>
    fst (runBegin (mapRuns m ! i)) \<le> fst (runEnd (mapRuns m ! i))
    \<and> snd (runBegin (mapRuns m ! i)) \<le> snd (runEnd (mapRuns m ! i))
    \<and> rowBegin (mapRuns m ! i) \<le> rowEnd (mapRuns m ! i)"
  by (frule (1) wellTiled_nth) linarith

lemma axis_total: "wellTiled m \<Longrightarrow> mapLines m = (if mapRuns m = [] then (0, 0) else runEnd (mapRuns m ! (length (mapRuns m) - 1)))
    \<and> mapRows m = (if mapRuns m = [] then 0 else rowEnd (mapRuns m ! (length (mapRuns m) - 1)))"
  using wellTiled_last [of m] wellTiled_empty [of m] by auto

interpretation leftAxis: tiled_axis wellTiled "\<lambda>m. length (mapRuns m)"
    "\<lambda>m i. fst (runBegin (mapRuns m ! i))" "\<lambda>m i. fst (runEnd (mapRuns m ! i))" "\<lambda>m. fst (mapLines m)"
  by unfold_locales (simp_all add: axis_first axis_next axis_forward axis_total)

interpretation rightAxis: tiled_axis wellTiled "\<lambda>m. length (mapRuns m)"
    "\<lambda>m i. snd (runBegin (mapRuns m ! i))" "\<lambda>m i. snd (runEnd (mapRuns m ! i))" "\<lambda>m. snd (mapLines m)"
  by unfold_locales (simp_all add: axis_first axis_next axis_forward axis_total)

interpretation rowAxis: tiled_axis wellTiled "\<lambda>m. length (mapRuns m)"
    "\<lambda>m i. rowBegin (mapRuns m ! i)" "\<lambda>m i. rowEnd (mapRuns m ! i)" mapRows
  by unfold_locales (simp_all add: axis_first axis_next axis_forward axis_total)

text \<open>The search for a line, on either side.\<close>

lemma side_search:
  assumes "wellTiled m" "s \<le> 1" "line < side s (mapLines m)"
  defines "k \<equiv> boundIndex (\<lambda>i. \<not> line < side s (runEnd (mapRuns m ! i))) 0 (length (mapRuns m))"
  shows "k < length (mapRuns m) \<and> side s (runBegin (mapRuns m ! k)) \<le> line \<and> line < side s (runEnd (mapRuns m ! k))"
  using leftAxis.search [OF assms(1), of line] rightAxis.search [OF assms(1), of line] assms(2,3)
  by (cases "s = 0") (simp_all add: k_def side_def)

lemma side_unique:
  assumes "wellTiled m" "k < length (mapRuns m)" "side s (runBegin (mapRuns m ! k)) \<le> line"
    "line < side s (runEnd (mapRuns m ! k))"
  shows "boundIndex (\<lambda>i. \<not> line < side s (runEnd (mapRuns m ! i))) 0 (length (mapRuns m)) = k"
    and "line < side s (mapLines m)"
proof -
  show "boundIndex (\<lambda>i. \<not> line < side s (runEnd (mapRuns m ! i))) 0 (length (mapRuns m)) = k"
  proof (cases "s = 0")
    case True
    then have f: "side s = fst" by (simp add: side_def fun_eq_iff)
    show ?thesis unfolding f by (rule leftAxis.search_unique [OF assms(1,2)]) (use assms(3,4) f in simp_all)
  next
    case False
    then have f: "side s = snd" by (simp add: side_def fun_eq_iff)
    show ?thesis unfolding f by (rule rightAxis.search_unique [OF assms(1,2)]) (use assms(3,4) f in simp_all)
  qed
  show "line < side s (mapLines m)"
    using leftAxis.bounded [OF assms(1,2)] rightAxis.bounded [OF assms(1,2)] assms(4)
    by (auto simp: side_def split: if_splits)
qed

lemma side_height: "s \<le> 1 \<Longrightarrow> side s (runEnd r) - side s (runBegin r) \<le> runHeight r"
  by (simp add: side_def runHeight_def)

lemma side_behind: "wellTiled m \<Longrightarrow> i < j \<Longrightarrow> j < length (mapRuns m) \<Longrightarrow>
    side s (runEnd (mapRuns m ! i)) \<le> side s (runBegin (mapRuns m ! j))"
  using leftAxis.behind [of m i j] rightAxis.behind [of m i j] by (cases "s = 0") (simp_all add: side_def)

lemma side_bounded: "wellTiled m \<Longrightarrow> i < length (mapRuns m) \<Longrightarrow> side s (runEnd (mapRuns m ! i)) \<le> side s (mapLines m)"
  using leftAxis.bounded [of m i] rightAxis.bounded [of m i] by (cases "s = 0") (simp_all add: side_def)

lemma side_forward: "wellTiled m \<Longrightarrow> i < length (mapRuns m) \<Longrightarrow> side s (runBegin (mapRuns m ! i)) \<le> side s (runEnd (mapRuns m ! i))"
  using leftAxis.forward [of m i] rightAxis.forward [of m i] by (cases "s = 0") (simp_all add: side_def)

section \<open>The queries\<close>

lemma line_row_line:
  assumes "wellTiled m" "s \<le> 1" "line < side s (mapLines m)"
  shows "\<exists>row. DisplayRow m s line = Inr row \<and> row < mapRows m \<and> LineAtRow m s row = Inr (Some line)"
proof -
  define k where "k = boundIndex (\<lambda>i. \<not> line < side s (runEnd (mapRuns m ! i))) 0 (length (mapRuns m))"
  define r where "r = mapRuns m ! k"
  have k: "k < length (mapRuns m)" "side s (runBegin r) \<le> line" "line < side s (runEnd r)"
    using side_search [OF assms] by (simp_all add: k_def r_def)
  define row where "row = rowBegin r + line - side s (runBegin r)"
  have rowEnd: "rowBegin r + runHeight r \<le> rowEnd r" using wellTiled_nth [OF assms(1) k(1)] by (simp add: r_def)
  have inside: "rowBegin r \<le> row" "row < rowEnd r" and offset: "row - rowBegin r = line - side s (runBegin r)"
    using k side_height [OF assms(2), of r] rowEnd by (simp_all add: row_def)
  have rows: "row < mapRows m" using rowAxis.bounded [OF assms(1) k(1)] inside by (simp add: r_def)
  have "boundIndex (\<lambda>i. \<not> row < rowEnd (mapRuns m ! i)) 0 (length (mapRuns m)) = k"
    using rowAxis.search_unique [OF assms(1) k(1)] inside by (simp add: r_def)
  then have "LineAtRow m s row = Inr (Some line)"
    using rows k offset assms(2) by (simp add: LineAtRow_def Let_def r_def)
  moreover have "DisplayRow m s line = Inr row"
    using assms k by (simp add: DisplayRow_def Let_def k_def [symmetric] row_def r_def)
  ultimately show ?thesis using rows by blast
qed

text \<open>C14: on every map that is a tiling, a line of either document has a display row within
  the map, and the line shown at that row is the line again: the editors' rows and lines
  convert back and forth without loss.\<close>

theorem LineAtRow_DisplayRow:
  assumes "wellTiled m" "s \<le> 1" "line < side s (mapLines m)"
  shows "\<exists>row. DisplayRow m s line = Inr row \<and> row < mapRows m \<and> LineAtRow m s row = Inr (Some line)"
  by (rule line_row_line [OF assms])

text \<open>Conversely, the row at which a line is shown is the display row of that line, and a
  row of the map always answers with a line of the document or with padding.\<close>

theorem DisplayRow_LineAtRow:
  assumes "wellTiled m" "s \<le> 1" "row < mapRows m"
  shows "LineAtRow m s row = Inr None
    \<or> (\<exists>line < side s (mapLines m). LineAtRow m s row = Inr (Some line) \<and> DisplayRow m s line = Inr row)"
proof -
  define k where "k = boundIndex (\<lambda>i. \<not> row < rowEnd (mapRuns m ! i)) 0 (length (mapRuns m))"
  define r where "r = mapRuns m ! k"
  have k: "k < length (mapRuns m)" "rowBegin r \<le> row" "row < rowEnd r"
    using rowAxis.search [OF assms(1,3)] by (simp_all add: k_def r_def)
  show ?thesis
  proof (cases "side s (runEnd r) - side s (runBegin r) \<le> row - rowBegin r")
    case True
    then show ?thesis using assms k by (simp add: LineAtRow_def Let_def k_def [symmetric] r_def)
  next
    case False
    define line where "line = side s (runBegin r) + (row - rowBegin r)"
    have line: "side s (runBegin r) \<le> line" "line < side s (runEnd r)" using False by (simp_all add: line_def)
    note unique = side_unique [OF assms(1) k(1) line [unfolded r_def]]
    have "DisplayRow m s line = Inr row"
      using assms(2) unique k line by (simp add: DisplayRow_def Let_def r_def) (simp add: line_def r_def)
    moreover have "LineAtRow m s row = Inr (Some line)"
      using assms k False by (simp add: LineAtRow_def Let_def k_def [symmetric] r_def line_def)
    ultimately show ?thesis using unique(2) by blast
  qed
qed

definition mappedLine :: "nat \<Rightarrow> alignmentRun \<Rightarrow> nat \<Rightarrow> nat" where
  "mappedLine s r line = side (1 - s) (runBegin r) + (line - side s (runBegin r))
     * (side (1 - s) (runEnd r) - side (1 - s) (runBegin r)) div (side s (runEnd r) - side s (runBegin r))"

lemma mappedLine_bound:
  assumes "side s (runBegin r) \<le> line" "line < side s (runEnd r)" "side (1 - s) (runBegin r) \<le> side (1 - s) (runEnd r)"
  shows "side (1 - s) (runBegin r) \<le> mappedLine s r line \<and> mappedLine s r line \<le> side (1 - s) (runEnd r)"
proof -
  define len where "len = side s (runEnd r) - side s (runBegin r)"
  define count where "count = side (1 - s) (runEnd r) - side (1 - s) (runBegin r)"
  have "(line - side s (runBegin r)) * count div len \<le> len * count div len"
    using assms(1,2) by (intro div_le_mono mult_le_mono1) (simp add: len_def)
  also have "\<dots> \<le> count" using assms(1,2) by (simp add: len_def)
  finally have "(line - side s (runBegin r)) * count div len \<le> count" .
  moreover have "mappedLine s r line = side (1 - s) (runBegin r) + (line - side s (runBegin r)) * count div len"
    by (simp only: mappedLine_def len_def count_def)
  moreover have "side (1 - s) (runBegin r) + count = side (1 - s) (runEnd r)"
    using assms(3) by (simp only: count_def le_add_diff_inverse)
  ultimately show ?thesis by linarith
qed

lemma MapLine_run:
  assumes "wellTiled m" "s \<le> 1" "line < side s (mapLines m)"
  obtains k where "k < length (mapRuns m)" "side s (runBegin (mapRuns m ! k)) \<le> line"
    "line < side s (runEnd (mapRuns m ! k))" "MapLine m s line = Inr (mappedLine s (mapRuns m ! k) line)"
    "k = boundIndex (\<lambda>i. \<not> line < side s (runEnd (mapRuns m ! i))) 0 (length (mapRuns m))"
proof -
  define k where "k = boundIndex (\<lambda>i. \<not> line < side s (runEnd (mapRuns m ! i))) 0 (length (mapRuns m))"
  have k: "k < length (mapRuns m)" "side s (runBegin (mapRuns m ! k)) \<le> line" "line < side s (runEnd (mapRuns m ! k))"
    using side_search [OF assms] by (simp_all add: k_def)
  then have "MapLine m s line = Inr (mappedLine s (mapRuns m ! k) line)"
    using assms(2,3) by (simp add: MapLine_def Let_def k_def [symmetric] mappedLine_def)
  then show thesis using that k k_def by blast
qed

text \<open>\<open>MapLine\<close> answers for every line, the end of the document included, with a line of
  the other document or its end, and it is monotone: navigation never jumps back.\<close>

theorem MapLine_monotone:
  assumes "wellTiled m" "s \<le> 1" "x \<le> y"
  shows "\<exists>x' y'. MapLine m s x = Inr x' \<and> MapLine m s y = Inr y' \<and> x' \<le> y' \<and> y' \<le> side (1 - s) (mapLines m)"
proof -
  have eof: "MapLine m s z = Inr (side (1 - s) (mapLines m))" if "side s (mapLines m) \<le> z" for z
    using that assms(2) by (simp add: MapLine_def Let_def)
  note bound = mappedLine_bound [OF _ _ side_forward [OF assms(1)]]
  have below: "\<exists>z'. MapLine m s z = Inr z' \<and> z' \<le> side (1 - s) (mapLines m)" for z
  proof (cases "z < side s (mapLines m)")
    case True
    from assms(1,2) this obtain k where k: "k < length (mapRuns m)" "side s (runBegin (mapRuns m ! k)) \<le> z"
      "z < side s (runEnd (mapRuns m ! k))" "MapLine m s z = Inr (mappedLine s (mapRuns m ! k) z)"
      by (rule MapLine_run)
    then show ?thesis
      using bound [OF k(2,3,1)] side_bounded [OF assms(1) k(1), of "1 - s"] by simp
  qed (use eof in auto)
  show ?thesis
  proof (cases "y < side s (mapLines m)")
    case False
    then show ?thesis using eof [of y] below [of x] by auto
  next
    case y: True
    from assms(1,2) y obtain j where j: "j < length (mapRuns m)" "side s (runBegin (mapRuns m ! j)) \<le> y"
      "y < side s (runEnd (mapRuns m ! j))" "MapLine m s y = Inr (mappedLine s (mapRuns m ! j) y)"
      by (rule MapLine_run)
    have "x < side s (mapLines m)" using y assms(3) by simp
    with assms(1,2) obtain i where i: "i < length (mapRuns m)" "side s (runBegin (mapRuns m ! i)) \<le> x"
      "x < side s (runEnd (mapRuns m ! i))" "MapLine m s x = Inr (mappedLine s (mapRuns m ! i) x)"
      by (rule MapLine_run)
    have "\<not> j < i"
      using side_behind [OF assms(1) _ i(1), of j s] i j assms(3) by auto
    then consider "i = j" | "i < j" by linarith
    then have "mappedLine s (mapRuns m ! i) x \<le> mappedLine s (mapRuns m ! j) y"
    proof cases
      case 1
      then show ?thesis using assms(3) by (simp add: mappedLine_def div_le_mono diff_le_mono)
    next
      case 2
      have "mappedLine s (mapRuns m ! i) x \<le> side (1 - s) (runEnd (mapRuns m ! i))"
        using bound [OF i(2,3,1)] by simp
      also have "\<dots> \<le> side (1 - s) (runBegin (mapRuns m ! j))"
        using side_behind [OF assms(1) 2 j(1)] .
      also have "\<dots> \<le> mappedLine s (mapRuns m ! j) y" using bound [OF j(2,3,1)] by simp
      finally show ?thesis .
    qed
    then show ?thesis using i(4) j(4) below [of y] by auto
  qed
qed

section \<open>Every map is a tiling\<close>

definition agreeing :: "str list \<Rightarrow> str list \<Rightarrow> alignmentRun list \<Rightarrow> bool" where
  "agreeing ls rs runs \<longleftrightarrow> (\<forall>r \<in> set runs. \<not> runChanged r \<longrightarrow>
     slice ls (fst (runBegin r)) (fst (runEnd r)) = slice rs (snd (runBegin r)) (snd (runEnd r)))"

text \<open>The runs before their rows are known.\<close>

fun covering :: "alignmentRun list \<Rightarrow> nat \<times> nat \<Rightarrow> nat \<times> nat \<Rightarrow> bool" where
  "covering [] p q \<longleftrightarrow> p = q"
| "covering (r # rs) p q \<longleftrightarrow> runBegin r = p \<and> fst p \<le> fst (runEnd r) \<and> snd p \<le> snd (runEnd r)
   \<and> (\<not> runChanged r \<longrightarrow> fst (runEnd r) - fst p = snd (runEnd r) - snd p)
   \<and> covering rs (runEnd r) q"

lemma covering_snoc: "covering rs p q \<Longrightarrow> covering (rs @ [r]) p q' \<longleftrightarrow> covering [r] q q'"
proof (induction rs arbitrary: p)
  case (Cons a rs)
  then have "covering rs (runEnd a) q" unfolding covering.simps(2) by blast
  from Cons.IH [OF this] Cons.prems show ?case unfolding append_Cons covering.simps(2) by blast
qed simp

abbreviation tall :: "alignmentRun list \<Rightarrow> bool" where
  "tall rs \<equiv> \<forall>r \<in> set rs. 0 < runHeight r"

lemma buildRuns_yields:
  assumes "covering runs (0, 0) (left, right)" "tall runs" "left \<le> leftLines" "right \<le> rightLines"
  shows "yields (buildRuns L leftLines rightLines es left right runs)
    (\<lambda>(left', right', runs'). covering runs' (0, 0) (left', right') \<and> tall runs' \<and> left' \<le> leftLines \<and> right' \<le> rightLines)
    (\<lambda>e. envFailure L e \<or> e = ''InvalidAlignmentEdits'')"
  using assms
proof (induction es arbitrary: left right runs)
  case Nil
  then show ?case by (simp add: yields_ret)
next
  case (Cons e es)
  have step: "yields (buildRuns L leftLines rightLines es (eEnd e) (oEnd e)
       ((if left < eBegin e then runs @ [mkRun (left, right) (eBegin e, oBegin e) False 0 0] else runs)
        @ [mkRun (eBegin e, oBegin e) (eEnd e, oEnd e) True 0 0]))
    (\<lambda>(left', right', runs'). covering runs' (0, 0) (left', right') \<and> tall runs' \<and> left' \<le> leftLines \<and> right' \<le> rightLines)
    (\<lambda>e. envFailure L e \<or> e = ''InvalidAlignmentEdits'')"
    if good: "\<not> badEdit leftLines rightLines left right e"
  proof (rule Cons.IH)
    have "covering (if left < eBegin e then runs @ [mkRun (left, right) (eBegin e, oBegin e) False 0 0] else runs)
        (0, 0) (eBegin e, oBegin e)"
    proof (cases "left < eBegin e")
      case True
      then show ?thesis
        using Cons.prems(1) good by (auto simp: covering_snoc badEdit_def runHeight_def)
    next
      case False
      then have "eBegin e = left" "oBegin e = right" using good by (auto simp: badEdit_def)
      then show ?thesis using Cons.prems(1) by simp
    qed
    from covering_snoc [OF this, of "mkRun (eBegin e, oBegin e) (eEnd e, oEnd e) True 0 0" "(eEnd e, oEnd e)"] good
    show "covering ((if left < eBegin e then runs @ [mkRun (left, right) (eBegin e, oBegin e) False 0 0] else runs)
        @ [mkRun (eBegin e, oBegin e) (eEnd e, oEnd e) True 0 0]) (0, 0) (eEnd e, oEnd e)"
      by (auto simp: badEdit_def runHeight_def)
    show "tall ((if left < eBegin e then runs @ [mkRun (left, right) (eBegin e, oBegin e) False 0 0] else runs)
        @ [mkRun (eBegin e, oBegin e) (eEnd e, oEnd e) True 0 0])"
      using Cons.prems(2) good by (auto simp: badEdit_def runHeight_def)
    show "eEnd e \<le> leftLines" "oEnd e \<le> rightLines" using good by (simp_all add: badEdit_def)
  qed
  show ?case
    unfolding buildRuns.simps(2) Let_def
    by (rule yields_seq [OF yields_check], simp)
       (rule yields_if, simp add: yields_throw, rule step)
qed

lemma placeRuns_yields:
  assumes "tiles placed (0, 0) 0 p rows" "covering rs p q" "tight placed" "tall rs"
  shows "yields (placeRuns L rs rows placed) (\<lambda>(rows', placed'). tiles placed' (0, 0) 0 q rows' \<and> tight placed') (envFailure L)"
  using assms
proof (induction rs arbitrary: rows placed p)
  case Nil
  then show ?case by (simp add: yields_ret)
next
  case (Cons r rs)
  let ?r = "r\<lparr>rowBegin := rows, rowEnd := rows + runHeight r\<rparr>"
  have h: "runHeight ?r = runHeight r" by (simp add: runHeight_def)
  have "tiles (placed @ [?r]) (0, 0) 0 (runEnd r) (rows + runHeight r)"
    unfolding tiles_snoc [OF Cons.prems(1)] tiles.simps h using Cons.prems(2,4) by simp
  moreover have "tight (placed @ [?r])" using Cons.prems(3,4) h by (simp add: tight_def)
  ultimately have "yields (placeRuns L rs (rows + runHeight r) (placed @ [?r]))
      (\<lambda>(rows', placed'). tiles placed' (0, 0) 0 q rows' \<and> tight placed') (envFailure L)"
    using Cons.IH [of "placed @ [?r]" "runEnd r" "rows + runHeight r"] Cons.prems(2,4)
    unfolding covering.simps(2) by simp
  then show ?case
    unfolding placeRuns.simps(2) by (intro yields_seq [OF yields_check]) simp_all
qed

lemma Build_yields:
  "yields (Build leftLines rightLines es L) (\<lambda>m. wellTiled m \<and> tight (mapRuns m) \<and> mapLines m = (leftLines, rightLines))
    (\<lambda>e. envFailure L e \<or> e = ''InvalidAlignmentEdits'' \<or> e = ''AlignmentSizeLimit'')"
proof -
  let ?E = "\<lambda>e. envFailure L e \<or> e = ''InvalidAlignmentEdits'' \<or> e = ''AlignmentSizeLimit''"
  have place: "yields (seq (placeRuns L runs 0 []) (\<lambda>(rows, placed).
        seq (check L) (\<lambda>_. ret ((emptyMap (leftLines, rightLines))\<lparr>mapRuns := placed, mapRows := rows\<rparr>))))
      (\<lambda>m. wellTiled m \<and> tight (mapRuns m) \<and> mapLines m = (leftLines, rightLines)) ?E"
    if "covering runs (0, 0) (leftLines, rightLines)" "tall runs" for runs
  proof (rule yields_seq)
    show "yields (placeRuns L runs 0 []) (\<lambda>(rows, placed).
        tiles placed (0, 0) 0 (leftLines, rightLines) rows \<and> tight placed) ?E"
      by (rule yields_weaken [OF placeRuns_yields [OF _ that(1) _ that(2)]]) (simp_all add: tight_def)
    show "yields (case v of (rows, placed) \<Rightarrow> seq (check L) (\<lambda>_. ret ((emptyMap (leftLines, rightLines))
          \<lparr>mapRuns := placed, mapRows := rows\<rparr>)))
        (\<lambda>m. wellTiled m \<and> tight (mapRuns m) \<and> mapLines m = (leftLines, rightLines)) ?E"
      if "case v of (rows, placed) \<Rightarrow> tiles placed (0, 0) 0 (leftLines, rightLines) rows \<and> tight placed" for v
      using that by (cases v) (auto intro!: yields_seq [OF yields_check] yields_ret simp: wellTiled_def emptyMap_def)
  qed
  have finish: "covering (if left < leftLines then runs @ [mkRun (left, right) (leftLines, rightLines) False 0 0] else runs)
      (0, 0) (leftLines, rightLines) \<and> tall (if left < leftLines then runs @ [mkRun (left, right) (leftLines, rightLines) False 0 0] else runs)"
    if "covering runs (0, 0) (left, right)" "tall runs" "left \<le> leftLines" "right \<le> rightLines" "leftLines - left = rightLines - right"
    for left right runs
  proof (cases "left < leftLines")
    case True
    then show ?thesis
      using covering_snoc [OF that(1), of "mkRun (left, right) (leftLines, rightLines) False 0 0" "(leftLines, rightLines)"] that
      by (simp add: runHeight_def)
  next
    case False
    then show ?thesis using that by simp
  qed
  show ?thesis
    unfolding Build_def
  proof (rule yields_seq [OF yields_check], simp, rule yields_if, simp add: yields_throw, rule yields_seq)
    show "yields (buildRuns L leftLines rightLines es 0 0 []) (\<lambda>(left', right', runs').
        covering runs' (0, 0) (left', right') \<and> tall runs' \<and> left' \<le> leftLines \<and> right' \<le> rightLines) ?E"
      by (rule yields_weaken [OF buildRuns_yields]) auto
    fix v assume v: "case v of (left', right', runs') \<Rightarrow>
        covering runs' (0, 0) (left', right') \<and> tall runs' \<and> left' \<le> leftLines \<and> right' \<le> rightLines"
    obtain left right runs where vv: "v = (left, right, runs)" by (cases v)
    have c: "covering runs (0, 0) (left, right)" "tall runs" "left \<le> leftLines" "right \<le> rightLines"
      using v by (simp_all add: vv)
    show "yields (case v of (left, right, runs) \<Rightarrow>
          if leftLines - left \<noteq> rightLines - right then throw ''InvalidAlignmentEdits''
          else seq (placeRuns L (if left < leftLines
            then runs @ [mkRun (left, right) (leftLines, rightLines) False 0 0] else runs) 0 []) (\<lambda>(rows, placed).
              seq (check L) (\<lambda>_. ret ((emptyMap (leftLines, rightLines))\<lparr>mapRuns := placed, mapRows := rows\<rparr>))))
        (\<lambda>m. wellTiled m \<and> tight (mapRuns m) \<and> mapLines m = (leftLines, rightLines)) ?E"
      unfolding vv prod.case
    proof (rule yields_if)
      assume "\<not> leftLines - left \<noteq> rightLines - right"
      then have "leftLines - left = rightLines - right" by simp
      note final = finish [OF c this]
      show "yields (seq (placeRuns L (if left < leftLines
            then runs @ [mkRun (left, right) (leftLines, rightLines) False 0 0] else runs) 0 []) (\<lambda>(rows, placed).
              seq (check L) (\<lambda>_. ret ((emptyMap (leftLines, rightLines))\<lparr>mapRuns := placed, mapRows := rows\<rparr>))))
        (\<lambda>m. wellTiled m \<and> tight (mapRuns m) \<and> mapLines m = (leftLines, rightLines)) ?E"
        by (rule place [OF final [THEN conjunct1] final [THEN conjunct2]])
    qed (simp add: yields_throw)
  qed
qed

text \<open>C15: \<open>Build\<close> returns only tilings of the two documents, for any edits at all, and
  otherwise fails with a declared code.\<close>

theorem Build_tiles:
  "case fst (Build leftLines rightLines es L w) of
     Inr m \<Rightarrow> wellTiled m \<and> tight (mapRuns m) \<and> mapLines m = (leftLines, rightLines)
   | Inl e \<Rightarrow> envFailure L e \<or> e = ''InvalidAlignmentEdits'' \<or> e = ''AlignmentSizeLimit''"
  using yields_at [OF Build_yields [of leftLines rightLines es L], of w] by (auto split: sum.splits)

subsection \<open>Edits of a diff are accepted\<close>

lemma script_good: "script ls rs left right (e # es) \<Longrightarrow> left \<le> length ls \<Longrightarrow> right \<le> length rs \<Longrightarrow>
    \<not> badEdit (length ls) (length rs) left right e"
proof -
  assume s: "script ls rs left right (e # es)"
  then have "slice ls left (eBegin e) = slice rs right (oBegin e)" by simp
  then have "length (slice ls left (eBegin e)) = length (slice rs right (oBegin e))" by simp
  moreover have "eBegin e \<le> length ls" "oBegin e \<le> length rs" using s by auto
  ultimately have "eBegin e - left = oBegin e - right" by simp
  then show ?thesis using s by (auto simp: badEdit_def)
qed

lemma script_length: "script ls rs a b es \<Longrightarrow> length es + a + b \<le> length ls + length rs"
proof (induction es arbitrary: a b)
  case (Cons e es)
  then have "length es + eEnd e + oEnd e \<le> length ls + length rs" by simp
  moreover have "a + b < eEnd e + oEnd e" using Cons.prems by auto
  ultimately show ?case by simp
qed simp

lemma agreeing_snoc: "agreeing ls rs (runs @ [r]) \<longleftrightarrow> agreeing ls rs runs \<and> agreeing ls rs [r]"
  by (auto simp: agreeing_def)

lemma buildRuns_script:
  "script ls rs left right es \<Longrightarrow> left \<le> length ls \<Longrightarrow> right \<le> length rs \<Longrightarrow> agreeing ls rs runs \<Longrightarrow>
    yields (buildRuns L (length ls) (length rs) es left right runs)
      (\<lambda>(left', right', runs'). agreeing ls rs runs' \<and> drop left' ls = drop right' rs) (envFailure L)"
proof (induction es arbitrary: left right runs)
  case Nil
  then show ?case by (simp add: yields_ret)
next
  case (Cons e es)
  note good = script_good [OF Cons.prems(1-3)]
  have s: "slice ls left (eBegin e) = slice rs right (oBegin e)" "script ls rs (eEnd e) (oEnd e) es"
    "eEnd e \<le> length ls" "oEnd e \<le> length rs" using Cons.prems(1) by simp_all
  have "agreeing ls rs ((if left < eBegin e then runs @ [mkRun (left, right) (eBegin e, oBegin e) False 0 0] else runs)
        @ [mkRun (eBegin e, oBegin e) (eEnd e, oEnd e) True 0 0])"
    using Cons.prems(4) s(1) by (auto simp: agreeing_def)
  note IH = Cons.IH [OF s(2-4) this]
  show ?case
    unfolding buildRuns.simps(2) Let_def
    by (rule yields_seq [OF yields_check], simp, subst if_not_P [OF good], rule IH)
qed

lemma placeRuns_agreeing:
  "agreeing ls rs (placed @ runs) \<Longrightarrow>
    yields (placeRuns L runs rows placed) (\<lambda>(_, placed'). agreeing ls rs placed') (envFailure L)"
proof (induction runs arbitrary: rows placed)
  case (Cons r runs)
  then have "agreeing ls rs ((placed @ [r\<lparr>rowBegin := rows, rowEnd := rows + runHeight r\<rparr>]) @ runs)"
    by (auto simp: agreeing_def)
  from Cons.IH [OF this] show ?case
    unfolding placeRuns.simps(2) by (intro yields_seq [OF yields_check]) simp_all
qed (simp add: yields_ret)

lemma Build_script:
  assumes "script ls rs 0 0 es" "length ls \<le> 2000000" "length rs \<le> 2000000"
  shows "yields (Build (length ls) (length rs) es L) (\<lambda>m. agreeing ls rs (mapRuns m)) (envFailure L)"
  unfolding Build_def
proof (rule yields_seq [OF yields_check], simp, subst if_not_P)
  show "\<not> (2000000 < length ls \<or> 2000000 < length rs \<or> length ls + length rs < length es)"
    using assms script_length [OF assms(1)] by simp
  show "yields (seq (buildRuns L (length ls) (length rs) es 0 0 []) (\<lambda>(left, right, runs).
      if length ls - left \<noteq> length rs - right then throw ''InvalidAlignmentEdits''
      else seq (placeRuns L (if left < length ls
        then runs @ [mkRun (left, right) (length ls, length rs) False 0 0] else runs) 0 []) (\<lambda>(rows, placed).
          seq (check L) (\<lambda>_. ret ((emptyMap (length ls, length rs))\<lparr>mapRuns := placed, mapRows := rows\<rparr>)))))
      (\<lambda>m. agreeing ls rs (mapRuns m)) (envFailure L)"
  proof (rule yields_seq [OF buildRuns_script [OF assms(1)]], simp, simp, simp add: agreeing_def, safe)
    fix left right runs assume a: "agreeing ls rs runs" "drop left ls = drop right rs"
    have len: "length ls - left = length rs - right" using arg_cong [OF a(2), of length] by simp
    have "agreeing ls rs ([] @ (if left < length ls
        then runs @ [mkRun (left, right) (length ls, length rs) False 0 0] else runs))"
      using a by (auto simp: agreeing_def slice_drop)
    note p = placeRuns_agreeing [OF this, of L 0]
    show "yields (if length ls - left \<noteq> length rs - right then throw ''InvalidAlignmentEdits''
      else seq (placeRuns L (if left < length ls
        then runs @ [mkRun (left, right) (length ls, length rs) False 0 0] else runs) 0 []) (\<lambda>(rows, placed).
          seq (check L) (\<lambda>_. ret ((emptyMap (length ls, length rs))\<lparr>mapRuns := placed, mapRows := rows\<rparr>))))
      (\<lambda>m. agreeing ls rs (mapRuns m)) (envFailure L)"
    proof (subst if_not_P, use len in simp, rule yields_seq [OF p])
      fix v :: "nat \<times> alignmentRun list" assume "case v of (_, placed') \<Rightarrow> agreeing ls rs placed'"
      then show "yields (case v of (rows, placed) \<Rightarrow>
          seq (check L) (\<lambda>_. ret ((emptyMap (length ls, length rs))\<lparr>mapRuns := placed, mapRows := rows\<rparr>)))
        (\<lambda>m. agreeing ls rs (mapRuns m)) (envFailure L)"
        by (cases v) (auto intro!: yields_seq [OF yields_check] yields_ret)
    qed
  qed
qed

text \<open>C17: the edits of a difference are accepted, and what the map calls unchanged is the same
  text on both sides: a row that shows a line of each document in an unchanged run shows
  equal lines.\<close>

theorem Build_agrees:
  assumes "diffOf D ls rs es" "length ls \<le> 2000000" "length rs \<le> 2000000"
  shows "case fst (Build (length ls) (length rs) es L w) of
      Inr m \<Rightarrow> \<forall>r \<in> set (mapRuns m). \<not> runChanged r \<longrightarrow>
         slice ls (fst (runBegin r)) (fst (runEnd r)) = slice rs (snd (runBegin r)) (snd (runEnd r))
    | Inl e \<Rightarrow> envFailure L e"
proof -
  have "script ls rs 0 0 es" using assms(1) by (simp add: diffOf_def)
  from yields_at [OF Build_script [OF this assms(2,3), of L], of w] show ?thesis
    unfolding agreeing_def .
qed

subsection \<open>The refinement keeps the tiling\<close>

lemma appendRun_tiles:
  assumes "tiles (mapRuns m) (0, 0) 0 p (mapRows m)" "fst p \<le> fst e" "snd p \<le> snd e"
    and "\<not> changed \<longrightarrow> fst e - fst p = snd e - snd p"
  shows "tiles (mapRuns (appendRun m p e changed)) (0, 0) 0 e (mapRows (appendRun m p e changed))"
proof -
  define h where "h = max (fst e - fst p) (snd e - snd p)"
  show ?thesis
  proof (cases "h = 0")
    case True
    then have "p = e" using assms(2,3) by (simp add: prod_eq_iff h_def)
    then show ?thesis using assms(1) by (simp add: appendRun_def)
  next
    case False
    then have "appendRun m p e changed = m\<lparr>mapRuns := mapRuns m @ [mkRun p e changed (mapRows m)
        (mapRows m + h)], mapRows := mapRows m + h\<rparr>"
      unfolding h_def by (simp only: appendRun_def Let_def if_False)
    moreover have "runHeight (mkRun p e changed (mapRows m) (mapRows m + h)) = h"
      by (simp add: runHeight_def h_def)
    ultimately show ?thesis using False assms(2-4) by (simp add: tiles_snoc [OF assms(1)])
  qed
qed

lemma appendRun_sel [simp]:
  "mapLines (appendRun m p e changed) = mapLines m"
  "similarityWork (appendRun m p e changed) = similarityWork m"
  by (simp_all add: appendRun_def Let_def)

lemma appendRun_agreeing:
  "agreeing ls rs (mapRuns m) \<Longrightarrow> \<not> changed \<longrightarrow> slice ls (fst p) (fst e) = slice rs (snd p) (snd e) \<Longrightarrow>
    agreeing ls rs (mapRuns (appendRun m p e changed))"
  by (auto simp: appendRun_def Let_def agreeing_def)

abbreviation climbing :: "(nat \<times> nat) list \<Rightarrow> bool" where
  "climbing \<equiv> sorted_wrt (\<lambda>a b. fst a < fst b \<and> snd a < snd b)"

lemma appendAnchors_tiles:
  assumes "tiles (mapRuns m) (0, 0) 0 at (mapRows m)" "fst at \<le> fst e" "snd at \<le> snd e" "climbing anchors"
    and "\<forall>a \<in> set anchors. fst at \<le> fst base + fst a \<and> snd at \<le> snd base + snd a
      \<and> fst base + fst a < fst e \<and> snd base + snd a < snd e"
  shows "tiles (mapRuns (appendAnchors m base at anchors e)) (0, 0) 0 e (mapRows (appendAnchors m base at anchors e))"
  using assms
proof (induction m base at anchors e rule: appendAnchors.induct)
  case (1 m base at e)
  then show ?case by (simp add: appendRun_tiles)
next
  case (2 m base at i j anchors e)
  let ?p = "(fst base + i, snd base + j)"
  let ?q = "(Suc (fst ?p), Suc (snd ?p))"
  have "tiles (mapRuns (appendRun m at ?p True)) (0, 0) 0 ?p (mapRows (appendRun m at ?p True))"
    by (rule appendRun_tiles) (use 2(2,6) in auto)
  then have t: "tiles (mapRuns (appendRun (appendRun m at ?p True) ?p ?q True)) (0, 0) 0 ?q
      (mapRows (appendRun (appendRun m at ?p True) ?p ?q True))"
    by (rule appendRun_tiles) auto
  show ?case
    unfolding appendAnchors.simps Let_def
    by (rule 2(1) [OF refl refl t]) (use 2(5,6) in auto)
qed

lemma appendAnchors_sel [simp]:
  "mapLines (appendAnchors m base at anchors e) = mapLines m"
  "similarityWork (appendAnchors m base at anchors e) = similarityWork m"
  by (induction m base at anchors e rule: appendAnchors.induct) (simp_all add: Let_def)

lemma appendAnchors_agreeing:
  "agreeing ls rs (mapRuns m) \<Longrightarrow> agreeing ls rs (mapRuns (appendAnchors m base at anchors e))"
  by (induction m base at anchors e rule: appendAnchors.induct) (simp_all add: Let_def appendRun_agreeing)

lemma anchorsOf_climbing:
  assumes "sorted_wrt (\<lambda>a b. fst a < fst b) candidates"
  shows "climbing (anchorsOf candidates)" "set (anchorsOf candidates) \<subseteq> set candidates"
proof -
  obtain js where js: "longestChain (map snd candidates) = Some js" "rising (map snd candidates) js"
    using longestChain_spec by blast
  then have bound: "\<forall>j \<in> set js. j < length candidates" by (auto simp: rising_def)
  have "climbing (map ((!) candidates) js)"
    unfolding sorted_wrt_map
  proof (rule sorted_wrt_mono_rel [OF _ js(2) [unfolded rising_def, THEN conjunct2]])
    fix x y assume "x \<in> set js" "y \<in> set js" "x < y \<and> map snd candidates ! x < map snd candidates ! y"
    then show "fst (candidates ! x) < fst (candidates ! y) \<and> snd (candidates ! x) < snd (candidates ! y)"
      using bound assms by (simp add: sorted_wrt_iff_nth_less)
  qed
  then show "climbing (anchorsOf candidates)" using js(1) by (simp add: anchorsOf_def)
  show "set (anchorsOf candidates) \<subseteq> set candidates" using js(1) bound by (auto simp: anchorsOf_def)
qed

lemma best_index: "snd (snd ch) < k \<Longrightarrow> i < k \<Longrightarrow> snd (snd (best score i ch)) < k"
  by (cases ch) simp

lemma scoreRow_index:
  "length cols = length bs \<Longrightarrow> snd (snd row) < k \<Longrightarrow> j + length bs \<le> k \<Longrightarrow> scoreRow i a j bs row cols = (row', cols') \<Longrightarrow>
    snd (snd row') < k \<and> length cols' = length cols"
proof (induction i a j bs row cols arbitrary: row' cols' rule: scoreRow.induct)
  case (1 i a j b bs row col cols)
  obtain r c where rc: "scoreRow i a (Suc j) bs (best (similarity a b) j row) cols = (r, c)" by fastforce
  have "snd (snd (best (similarity a b) j row)) < k" using 1(3,4) by (intro best_index) simp_all
  then have "snd (snd r) < k \<and> length c = length cols" using 1(1) [OF refl _ _ _ rc] 1(2,4) by simp
  then show ?case using 1(5) rc by (auto simp: Let_def)
qed auto

lemma scoreRows_yields:
  assumes "length cols = length bs" "\<forall>r \<in> set rows. snd (snd r) < length bs" "bs \<noteq> []"
  shows "yields (scoreRows L i as bs rows cols) (\<lambda>(rows', cols'). length rows' = length rows + length as
    \<and> (\<forall>r \<in> set rows'. snd (snd r) < length bs)) (envFailure L)"
  using assms
proof (induction as arbitrary: i rows cols)
  case Nil
  then show ?case by (simp add: yields_ret)
next
  case (Cons a as)
  obtain row cols' where rc: "scoreRow i a 0 bs (0, 0, 0) cols = (row, cols')" by fastforce
  have r: "snd (snd row) < length bs" "length cols' = length bs"
    using scoreRow_index [OF Cons.prems(1) _ _ rc, of "length bs"] Cons.prems(1,3) by simp_all
  have "yields (scoreRows L (Suc i) as bs (rows @ [row]) cols') (\<lambda>(rows', cols'). length rows' = length (rows @ [row]) + length as
    \<and> (\<forall>r \<in> set rows'. snd (snd r) < length bs)) (envFailure L)"
    by (rule Cons.IH) (use r Cons.prems in auto)
  then show ?case
    unfolding scoreRows.simps(2) rc prod.case by (intro yields_seq [OF yields_check]) simp_all
qed

lemma candidatesOf_sorted:
  assumes "\<forall>r \<in> set rows. snd (snd r) < k"
  shows "sorted_wrt (\<lambda>a b. fst a < fst b) (candidatesOf rows cols)"
    "set (candidatesOf rows cols) \<subseteq> {0..<length rows} \<times> {0..<k}"
proof -
  have fst_i: "fst a = i \<and> snd a = snd (snd (rows ! i))" if "mutualBest rows cols i = Some a" for a i
    using that by (auto simp: mutualBest_def split: prod.splits if_splits)
  have "sorted_wrt (<) (filter (\<lambda>i. mutualBest rows cols i \<noteq> None) [0..<length rows])"
    by (rule sorted_wrt_filter) simp
  then have "sorted_wrt (\<lambda>i j. fst (the (mutualBest rows cols i)) < fst (the (mutualBest rows cols j)))
      (filter (\<lambda>i. mutualBest rows cols i \<noteq> None) [0..<length rows])"
  proof (rule sorted_wrt_mono_rel [rotated])
    fix x y assume "x \<in> set (filter (\<lambda>i. mutualBest rows cols i \<noteq> None) [0..<length rows])"
      "y \<in> set (filter (\<lambda>i. mutualBest rows cols i \<noteq> None) [0..<length rows])" "x < y"
    then obtain a b where "mutualBest rows cols x = Some a" "mutualBest rows cols y = Some b" by auto
    then show "fst (the (mutualBest rows cols x)) < fst (the (mutualBest rows cols y))"
      using fst_i \<open>x < y\<close> by simp
  qed
  then show "sorted_wrt (\<lambda>a b. fst a < fst b) (candidatesOf rows cols)"
    by (simp add: candidatesOf_def map_filter_def sorted_wrt_map)
  have "a \<in> {0..<length rows} \<times> {0..<k}" if "mutualBest rows cols i = Some a" "i < length rows" for a i
    using fst_i [OF that(1)] assms that(2) by (cases a) auto
  then show "set (candidatesOf rows cols) \<subseteq> {0..<length rows} \<times> {0..<k}"
    by (fastforce simp: candidatesOf_def map_filter_def)
qed

definition refining :: "str list \<Rightarrow> str list \<Rightarrow> nat \<times> nat \<Rightarrow> nat \<Rightarrow> nat \<times> nat \<Rightarrow> alignmentMap \<Rightarrow> bool" where
  "refining ls rs p maximum q m \<longleftrightarrow> tiles (mapRuns m) (0, 0) 0 p (mapRows m) \<and> mapLines m = q
    \<and> similarityWork m \<le> maximum \<and> agreeing ls rs (mapRuns m)"

lemma refineRun_refining:
  assumes "refining ls rs (runBegin r) maximum q m" "covering (r # runs) (runBegin r) q'"
    and "sorted_wrt (\<lambda>a b. fst a < fst b) candidates"
    and "set candidates \<subseteq> {0..<fst (runEnd r) - fst (runBegin r)} \<times> {0..<snd (runEnd r) - snd (runBegin r)}"
    and "agreeing ls rs [r]"
  shows "refining ls rs (runEnd r) maximum q (refineRun m r candidates)"
proof (cases "\<forall>(i, j) \<in> set (anchorsOf candidates). i = j")
  case True
  then have "refineRun m r candidates = appendRun m (runBegin r) (runEnd r) (runChanged r)"
    by (simp add: refineRun_def Let_def)
  moreover have "tiles (mapRuns (appendRun m (runBegin r) (runEnd r) (runChanged r))) (0, 0) 0 (runEnd r)
      (mapRows (appendRun m (runBegin r) (runEnd r) (runChanged r)))"
    by (rule appendRun_tiles) (use assms(1,2) in \<open>simp_all add: refining_def\<close>)
  moreover have "agreeing ls rs (mapRuns (appendRun m (runBegin r) (runEnd r) (runChanged r)))"
    by (rule appendRun_agreeing) (use assms(1,5) in \<open>simp_all add: refining_def agreeing_def\<close>)
  ultimately show ?thesis using assms(1) by (simp add: refining_def)
next
  case False
  then have eq: "refineRun m r candidates =
      appendAnchors (m\<lparr>similarLines := True\<rparr>) (runBegin r) (runBegin r) (anchorsOf candidates) (runEnd r)"
    by (simp only: refineRun_def Let_def if_False)
  note anchors = anchorsOf_climbing [OF assms(3)]
  have "tiles (mapRuns (refineRun m r candidates)) (0, 0) 0 (runEnd r) (mapRows (refineRun m r candidates))"
    unfolding eq
  proof (rule appendAnchors_tiles)
    show "\<forall>a \<in> set (anchorsOf candidates). fst (runBegin r) \<le> fst (runBegin r) + fst a
        \<and> snd (runBegin r) \<le> snd (runBegin r) + snd a
        \<and> fst (runBegin r) + fst a < fst (runEnd r) \<and> snd (runBegin r) + snd a < snd (runEnd r)"
      using anchors(2) assms(4) by fastforce
  qed (use assms(1,2) anchors in \<open>auto simp: refining_def\<close>)
  moreover have "agreeing ls rs (mapRuns (refineRun m r candidates))"
    unfolding eq by (rule appendAnchors_agreeing) (use assms(1) in \<open>simp add: refining_def\<close>)
  ultimately show ?thesis using assms(1) by (simp add: refining_def eq)
qed

lemma yields_orTimeout:
  assumes "yields m Q F" and "\<And>v. Q v \<Longrightarrow> yields (f v) P E" and "P (Inl work)"
    and "\<And>e. F e \<Longrightarrow> e \<noteq> ''Timeout'' \<Longrightarrow> E e"
  shows "yields (orTimeout work m f) P E"
proof (rule yieldsI)
  fix w v w' assume "orTimeout work m f w = (Inr v, w')"
  then show "P v" using assms(3)
    by (auto simp: orTimeout_def split: prod.splits sum.splits if_splits
        dest: yieldsD [OF assms(1)] yieldsD [OF assms(2)])
next
  fix w e w' assume "orTimeout work m f w = (Inl e, w')"
  then show "E e"
    by (auto simp: orTimeout_def split: prod.splits sum.splits if_splits
        dest: yieldsD [OF assms(1)] yieldsD_error [OF assms(1)] yieldsD_error [OF assms(2)] intro: assms(4))
qed

definition refined :: "str list \<Rightarrow> str list \<Rightarrow> nat \<Rightarrow> nat \<times> nat \<Rightarrow> nat + alignmentMap \<Rightarrow> bool" where
  "refined ls rs maximum q v = (case v of Inl work \<Rightarrow> work \<le> maximum | Inr m \<Rightarrow> refining ls rs q maximum q m)"

lemma similarRuns_yields:
  assumes "refining ls rs p maximum q m" "covering runs p q" "agreeing ls rs runs"
  shows "yields (similarRuns L maximum as bs runs m) (refined ls rs maximum q)
    (\<lambda>e. envFailure L e \<and> e \<noteq> ''Timeout'')"
  using assms
proof (induction runs arbitrary: p m)
  case Nil
  have w: "similarityWork m \<le> maximum" using Nil.prems(1) by (simp add: refining_def)
  show ?case
    unfolding similarRuns.simps(1)
    by (rule yields_orTimeout [OF yields_check]) (use Nil.prems w in \<open>auto simp: refined_def intro!: yields_ret\<close>)
next
  case (Cons r runs)
  have p: "p = runBegin r" "covering runs (runEnd r) q" "agreeing ls rs [r]" "agreeing ls rs runs"
    using Cons.prems(2,3) by (auto simp: agreeing_def)
  have w: "similarityWork m \<le> maximum" using Cons.prems(1) by (simp add: refining_def)
  define n where "n = fst (runEnd r) - fst (runBegin r)"
  define k where "k = snd (runEnd r) - snd (runBegin r)"
  define A where "A = runLines as (fst (runBegin r)) n"
  define B where "B = runLines bs (snd (runBegin r)) k"
  define work where "work = bytesOf A * k + bytesOf B * n + n * k"
  have len: "length A = n" "length B = k" by (simp_all add: A_def B_def runLines_def)
  have go: "yields (similarRuns L maximum as bs runs (refineRun m' r cs)) (refined ls rs maximum q)
      (\<lambda>e. envFailure L e \<and> e \<noteq> ''Timeout'')"
    if "refining ls rs (runBegin r) maximum q m'" "sorted_wrt (\<lambda>a b. fst a < fst b) cs" "set cs \<subseteq> {0..<n} \<times> {0..<k}" for m' cs
    by (rule Cons.IH [OF refineRun_refining [OF that(1) _ that(2) _ p(3), of runs q] p(2,4)])
       (use Cons.prems(2) p(1) that(3) in \<open>simp_all add: n_def k_def\<close>)
  have plain: "yields (similarRuns L maximum as bs runs (refineRun m r [])) (refined ls rs maximum q)
      (\<lambda>e. envFailure L e \<and> e \<noteq> ''Timeout'')"
    by (rule go) (use Cons.prems(1) p(1) in simp_all)
  have scored: "yields (orTimeout (similarityWork m + work) (scoreRows L 0 A B [] (replicate k (0, 0, 0))) (\<lambda>(rows, cols).
        similarRuns L maximum as bs runs
          (refineRun (m\<lparr>similarityWork := similarityWork m + work\<rparr>) r (candidatesOf rows cols))))
      (refined ls rs maximum q) (\<lambda>e. envFailure L e \<and> e \<noteq> ''Timeout'')"
    if ok: "k \<noteq> 0" "work \<le> maximum - similarityWork m"
  proof (rule yields_orTimeout)
    show "yields (scoreRows L 0 A B [] (replicate k (0, 0, 0))) (\<lambda>(rows', cols'). length rows' = length ([] :: choice list) + length A
        \<and> (\<forall>r \<in> set rows'. snd (snd r) < length B)) (envFailure L)"
      by (rule scoreRows_yields) (use len ok in auto)
    fix v :: "choice list \<times> choice list"
    assume v: "case v of (rows', cols') \<Rightarrow> length rows' = length ([] :: choice list) + length A
        \<and> (\<forall>r \<in> set rows'. snd (snd r) < length B)"
    obtain rows cols where vv: "v = (rows, cols)" by (cases v)
    have rows: "length rows = n" "\<forall>r \<in> set rows. snd (snd r) < k" using v len by (simp_all add: vv)
    show "yields (case v of (rows, cols) \<Rightarrow> similarRuns L maximum as bs runs
          (refineRun (m\<lparr>similarityWork := similarityWork m + work\<rparr>) r (candidatesOf rows cols)))
        (refined ls rs maximum q) (\<lambda>e. envFailure L e \<and> e \<noteq> ''Timeout'')"
      unfolding vv prod.case
      by (rule go) (use Cons.prems(1) p(1) ok w candidatesOf_sorted [OF rows(2)] rows(1) in
          \<open>simp_all add: refining_def\<close>)
  qed (use ok w in \<open>simp_all add: refined_def\<close>)
  show ?case
    unfolding similarRuns.simps(2) Let_def n_def [symmetric] k_def [symmetric] A_def [symmetric] B_def [symmetric]
      work_def [symmetric]
  proof (rule yields_orTimeout [OF yields_check [where E = "envFailure L"]])
    show "refined ls rs maximum q (Inl (similarityWork m))" using w by (simp add: refined_def)
  qed (auto intro!: yields_if plain scored)
qed

lemma tiles_covering: "tiles rs p row q rows \<Longrightarrow> covering rs p q"
proof (induction rs arbitrary: p row)
  case (Cons r rs)
  then have "tiles rs (runEnd r) (rowEnd r) q rows" unfolding tiles.simps(2) by blast
  from Cons.IH [OF this] Cons.prems show ?case unfolding tiles.simps(2) covering.simps(2) by blast
qed simp

lemma WithSimilarLines_yields:
  assumes "wellTiled m" "agreeing ls rs (mapRuns m)"
  shows "yields (WithSimilarLines m l r L)
    (\<lambda>m'. wellTiled m' \<and> mapLines m' = mapLines m \<and> agreeing ls rs (mapRuns m')
       \<and> similarityWork m' \<le> min 4000000 (maxSteps L))
    (\<lambda>e. e \<noteq> ''Timeout'' \<and> (e = ''InvalidAlignmentInput'' \<or> e = ''DiffWorkLimit''
       \<or> scanError L defaultMaxLines defaultMaxBytes (splitText l) e
       \<or> scanError L defaultMaxLines defaultMaxBytes (splitText r) e))"
    (is "yields _ ?P ?E")
proof -
  let ?max = "min 4000000 (maxSteps L)"
  let ?m = "m\<lparr>mapRuns := [], mapRows := 0, similarityWork := 0\<rparr>"
  let ?F = "\<lambda>e. e = ''DiffWorkLimit'' \<or> scanError L defaultMaxLines defaultMaxBytes (splitText l) e
       \<or> scanError L defaultMaxLines defaultMaxBytes (splitText r) e"
  have lines: "yields (seq (SplitLines l L defaultMaxLines defaultMaxBytes) (\<lambda>ls.
       seq (SplitLines r L defaultMaxLines defaultMaxBytes) (\<lambda>rs. ret (ls, rs)))) (\<lambda>_. True) ?F"
    by (rule yields_seq [OF yields_weaken [OF SplitLines_yields]], simp, blast,
        rule yields_seq [OF yields_weaken [OF SplitLines_yields]]) (auto intro: yields_ret)
  have runs: "yields (similarRuns L ?max a b (mapRuns m) ?m) (refined ls rs ?max (mapLines m))
      (\<lambda>e. envFailure L e \<and> e \<noteq> ''Timeout'')" for a b
    by (rule similarRuns_yields [where p = "(0, 0)"])
       (use assms tiles_covering [OF assms(1) [unfolded wellTiled_def]] in \<open>simp_all add: refining_def agreeing_def\<close>)
  have "yields (orTimeout 0 (seq (SplitLines l L defaultMaxLines defaultMaxBytes) (\<lambda>ls.
           seq (SplitLines r L defaultMaxLines defaultMaxBytes) (\<lambda>rs. ret (ls, rs)))) (\<lambda>(ls, rs).
         if length ls \<noteq> fst (mapLines m) \<or> length rs \<noteq> snd (mapLines m) then throw ''InvalidAlignmentInput''
         else similarRuns L ?max ls rs (mapRuns m) ?m)) (refined ls rs ?max (mapLines m)) ?E"
  proof (rule yields_orTimeout [OF lines])
    fix v :: "str list \<times> str list"
    obtain a b where "v = (a, b)" by (cases v)
    then show "yields (case v of (ls, rs) \<Rightarrow>
         if length ls \<noteq> fst (mapLines m) \<or> length rs \<noteq> snd (mapLines m) then throw ''InvalidAlignmentInput''
         else similarRuns L ?max ls rs (mapRuns m) ?m) (refined ls rs ?max (mapLines m)) ?E"
      using scanError_env by (auto intro!: yields_if yields_throw yields_weaken [OF runs])
  qed (auto simp: refined_def)
  then show ?thesis
    unfolding WithSimilarLines_def
  proof (rule yields_seq)
    fix v assume v: "refined ls rs ?max (mapLines m) v"
    show "yields (case v of Inl work \<Rightarrow> ret (m\<lparr>similarityWork := work\<rparr>) | Inr m' \<Rightarrow> ret m') ?P ?E"
      using v assms by (cases v) (auto simp: refined_def refining_def wellTiled_def intro!: yields_ret)
  qed
qed


section \<open>A run\<close>

definition sampleMap :: alignmentMap where
  "sampleMap = \<lparr>mapLines = (2, 3), mapRuns = [mkRun (0, 0) (1, 1) False 0 1, mkRun (1, 1) (2, 3) True 1 3],
     mapRows = 3, similarLines = False, similarityWork = 0\<rparr>"

lemma sample_tiled: "wellTiled sampleMap"
  by (simp add: wellTiled_def sampleMap_def runHeight_def)

theorem LineAtRow_DisplayRow_witness:
  "\<exists>row. DisplayRow sampleMap 1 2 = Inr row \<and> row < mapRows sampleMap \<and> LineAtRow sampleMap 1 row = Inr (Some 2)"
  by (rule LineAtRow_DisplayRow [OF sample_tiled]) (simp_all add: sampleMap_def)

theorem DisplayRow_LineAtRow_witness:
  "LineAtRow sampleMap 0 2 = Inr None
    \<or> (\<exists>line < side 0 (mapLines sampleMap). LineAtRow sampleMap 0 2 = Inr (Some line) \<and> DisplayRow sampleMap 0 line = Inr 2)"
  by (rule DisplayRow_LineAtRow [OF sample_tiled]) (simp_all add: sampleMap_def)

theorem MapLine_monotone_witness:
  "\<exists>x' y'. MapLine sampleMap 1 1 = Inr x' \<and> MapLine sampleMap 1 2 = Inr y' \<and> x' \<le> y' \<and> y' \<le> 2"
  using MapLine_monotone [OF sample_tiled, of 1 1 2] by (simp add: sampleMap_def)

theorem Build_agrees_witness:
  "case fst (Build (length [''a'']) (length [''a'', [LF]]) [mkEdit 1 1 1 2 [LF]] defaultBudget world0) of
     Inr m \<Rightarrow> \<forall>r \<in> set (mapRuns m). \<not> runChanged r \<longrightarrow>
       slice [''a''] (fst (runBegin r)) (fst (runEnd r)) = slice [''a'', [LF]] (snd (runBegin r)) (snd (runEnd r))
   | Inl e \<Rightarrow> envFailure defaultBudget e"
proof (rule Build_agrees)
  show "diffOf defaultBudget [''a''] [''a'', [LF]] [mkEdit 1 1 1 2 [LF]]"
    by (simp add: diffOf_def filled_def slice_def defaultBudget_def)
qed simp_all


end
