(* ===== verification/MultiAlignment.thy ===== *)
theory MultiAlignment
  imports AlignmentMap Diff
begin

text \<open>
  \<open>MultiAlignmentMap\<close> of \<open>HyperCompare/core/alignmentMap.cpp\<close>: two to four texts aligned
  around the first one (\<open>Build\<close>), the bounded refinement by similar lines, and the map of a
  pair of panes (\<open>Pair\<close>).  A vector indexed by the side is a list; \<open>changedPairs_\<close> is a
  bit mask with the bit \<open>a * 4 + b\<close> for the pair of the sides \<open>a\<close> and \<open>b\<close>.

  The lemmas show that the runs tile the rows and the lines of every side, that the mask
  says exactly which sides differ, and that the map of a pair is a tiling of its two
  documents, so that the queries of \<open>AlignmentMap\<close> answer on it.
\<close>

section \<open>Data\<close>

record multiRun =
  mrBegin :: "nat list"
  mrEnd :: "nat list"
  mrRowBegin :: nat
  mrRowEnd :: nat
  mrChanged :: nat

abbreviation mkMulti :: "nat list \<Rightarrow> nat list \<Rightarrow> nat \<Rightarrow> nat \<Rightarrow> nat \<Rightarrow> multiRun" where
  "mkMulti b e row rows flags \<equiv> \<lparr>mrBegin = b, mrEnd = e, mrRowBegin = row, mrRowEnd = rows, mrChanged = flags\<rparr>"

record multiMap =
  mmLines :: "nat list"
  mmRuns :: "multiRun list"
  mmRows :: nat

type_synonym change = "nat \<times> edit"

section \<open>Build\<close>

text \<open>The text of the lines \<open>b\<close> to \<open>e\<close> of one side: consecutive lines of one text.\<close>

definition spanOf :: "str list \<Rightarrow> nat \<Rightarrow> nat \<Rightarrow> str" where
  "spanOf ls b e = concat (slice ls b e)"

definition sidePairs :: "nat \<Rightarrow> (nat \<times> nat) list" where
  "sidePairs n = [(a, b). a \<leftarrow> [0..<n], b \<leftarrow> [Suc a..<n]]"

definition pairMask :: "str list \<Rightarrow> nat" where
  "pairMask parts = fold (\<lambda>(a, b) mask. if parts ! a \<noteq> parts ! b
     then set_bit (b * 4 + a) (set_bit (a * 4 + b) mask) else mask) (sidePairs (length parts)) 0"

definition runSpans :: "str list list \<Rightarrow> nat list \<Rightarrow> nat list \<Rightarrow> str list" where
  "runSpans texts b e = map (\<lambda>s. spanOf (texts ! s) (b ! s) (e ! s)) [0..<length texts]"

definition tallest :: "nat list \<Rightarrow> nat" where
  "tallest counts = fold max counts 0"

text \<open>The closure \<open>append\<close>; the state is the map and the cursor.\<close>

definition appendCounts :: "budget \<Rightarrow> str list list \<Rightarrow> nat list \<Rightarrow> bool \<Rightarrow> multiMap \<times> nat list
    \<Rightarrow> (multiMap \<times> nat list) comp" where
  "appendCounts L texts counts changed st = (case st of (m, cursor) \<Rightarrow>
    seq (check L) (\<lambda>_.
      if \<exists>s < length counts. mmLines m ! s - cursor ! s < counts ! s then throw ''InvalidAlignmentEdits''
      else let height = tallest counts; end = map2 (+) cursor counts
        in if height = 0 then ret (m, cursor)
           else ret (m\<lparr>mmRuns := mmRuns m @ [\<lparr>mrBegin = cursor, mrEnd = end, mrRowBegin = mmRows m,
                  mrRowEnd = mmRows m + height,
                  mrChanged = (if changed then pairMask (runSpans texts cursor end) else 0)\<rparr>],
                mmRows := mmRows m + height\<rparr>, end)))"

definition groupOverlap :: "nat \<Rightarrow> nat \<Rightarrow> edit \<Rightarrow> bool" where
  "groupOverlap b e d \<longleftrightarrow>
    (if b = e \<and> eBegin d = eEnd d then b = eBegin d
     else max b (eBegin d) < min e (eEnd d) \<or> (eBegin d = eEnd d \<and> b < eBegin d \<and> eBegin d < e))"

fun growGroup :: "nat \<Rightarrow> nat \<Rightarrow> change list \<Rightarrow> change list \<times> nat \<times> change list" where
  "growGroup b e [] = ([], e, [])"
| "growGroup b e (c # cs) =
    (if groupOverlap b e (snd c)
     then (case growGroup b (max e (eEnd (snd c))) cs of (grp, e', rest) \<Rightarrow> (c # grp, e', rest))
     else ([], e, c # cs))"

fun groupCounts :: "change list \<Rightarrow> nat list \<Rightarrow> nat list comp" where
  "groupCounts [] counts = ret counts"
| "groupCounts ((s, d) # cs) counts =
    (let removed = eEnd d - eBegin d; added = oEnd d - oBegin d
     in if counts ! s < removed then throw ''InvalidAlignmentEdits''
        else groupCounts cs (counts[s := counts ! s - removed + added]))"

lemma growGroup_length: "growGroup b e cs = (g, e', rest) \<Longrightarrow> length rest \<le> length cs"
  by (induction b e cs arbitrary: g e' rest rule: growGroup.induct) (auto split: if_splits prod.splits)

function multiLoop :: "budget \<Rightarrow> str list list \<Rightarrow> change list \<Rightarrow> multiMap \<times> nat list \<Rightarrow> (multiMap \<times> nat list) comp" where
  "multiLoop L texts [] st = ret st"
| "multiLoop L texts (c # cs) st =
    seq (check L) (\<lambda>_.
    case growGroup (eBegin (snd c)) (eEnd (snd c)) cs of (grp, e, rest) \<Rightarrow>
      if eBegin (snd c) < snd st ! 0 then throw ''InvalidAlignmentEdits''
      else seq (appendCounts L texts (replicate (length texts) (eBegin (snd c) - snd st ! 0)) False st) (\<lambda>st1.
        seq (groupCounts (c # grp) (replicate (length texts) (e - eBegin (snd c)))) (\<lambda>counts.
        seq (appendCounts L texts counts True st1) (\<lambda>st2. multiLoop L texts rest st2))))"
  by pat_completeness auto
termination
  by (relation "measure (\<lambda>(L, texts, cs, st). length cs)")
     (auto simp: less_Suc_eq_le dest: growGroup_length [OF sym])

fun countAll :: "budget \<Rightarrow> str list \<Rightarrow> nat \<Rightarrow> nat comp" where
  "countAll L [] n = ret n"
| "countAll L (t # ts) n =
    seq (CountLines t L defaultMaxLines defaultMaxBytes) (\<lambda>k. countAll L ts (n + k))"

text \<open>The loop over the sides: the lines of every side, and the edits of every side but the first.\<close>

fun loadSides :: "budget \<Rightarrow> str \<Rightarrow> nat \<Rightarrow> str list \<Rightarrow> str list list \<Rightarrow> change list
    \<Rightarrow> (str list list \<times> change list) comp" where
  "loadSides L anchor s [] texts changes = ret (texts, changes)"
| "loadSides L anchor s (t # ts) texts changes =
    seq (SplitLines t L defaultMaxLines defaultMaxBytes) (\<lambda>ls.
      if s = 0 then loadSides L anchor (Suc s) ts (texts @ [ls]) changes
      else seq (Diff anchor t L) (\<lambda>es.
        loadSides L anchor (Suc s) ts (texts @ [ls]) (changes @ map (Pair s) es)))"

fun repeatCheck :: "budget \<Rightarrow> nat \<Rightarrow> unit comp" where
  "repeatCheck L 0 = ret ()"
| "repeatCheck L (Suc n) = seq (check L) (\<lambda>_. repeatCheck L n)"

text \<open>\<open>std::stable_sort\<close>; its comparator calls \<open>Check\<close> once in 1024 comparisons.\<close>

definition sortChanges :: "budget \<Rightarrow> change list \<Rightarrow> change list comp" where
  "sortChanges L changes = seq (repeatCheck L (sortCalls L (length changes) div 1024)) (\<lambda>_.
     ret (sort_key (\<lambda>c. (eBegin (snd c), eEnd (snd c))) changes))"

text \<open>\<open>sizeof(std::string_view) = 16\<close>, \<open>sizeof(Edit) = 64\<close>, \<open>sizeof(MultiAlignmentRun) = 72\<close>.\<close>

definition MultiBuild :: "str list \<Rightarrow> budget \<Rightarrow> multiMap comp" where
  "MultiBuild ts L =
    seq (check L) (\<lambda>_.
    if length ts < 2 \<or> 4 < length ts then throw ''InvalidAlignmentSides''
    else seq (countAll L ts 0) (\<lambda>lineCount.
      seq (reserve L (lineCount * (16 + 2 * 64 + 2 * (72 + length ts * 3 * 8)) + sum_list (map length ts) * 2)) (\<lambda>_.
      seq (loadSides L (ts ! 0) 0 ts [] []) (\<lambda>(texts, changes).
      seq (sortChanges L changes) (\<lambda>sorted.
      let start = (\<lparr>mmLines = map length texts, mmRuns = [], mmRows = 0\<rparr>, replicate (length ts) 0)
      in seq (multiLoop L texts sorted start) (\<lambda>(m, cursor).
        seq (appendCounts L texts (replicate (length ts) (mmLines m ! 0 - cursor ! 0)) False (m, cursor)) (\<lambda>(m', cursor').
          if cursor' \<noteq> mmLines m' then throw ''InvalidAlignmentEdits''
          else seq (check L) (\<lambda>_. ret m'))))))))"

section \<open>Pairs of panes\<close>

definition Pair' :: "multiMap \<Rightarrow> nat \<Rightarrow> nat \<Rightarrow> failure + alignmentMap" where
  "Pair' m l r =
    (if l = r \<or> length (mmLines m) \<le> l \<or> length (mmLines m) \<le> r then Inl ''InvalidAlignmentSide''
     else Inr ((emptyMap (mmLines m ! l, mmLines m ! r))\<lparr>mapRows := mmRows m,
       mapRuns := map (\<lambda>run. mkRun (mrBegin run ! l, mrBegin run ! r) (mrEnd run ! l, mrEnd run ! r)
         (bit (mrChanged run) (l * 4 + r)) (mrRowBegin run) (mrRowEnd run)) (mmRuns m)\<rparr>))"

section \<open>Similar lines\<close>

text \<open>The closure \<open>append\<close> of the refinement: the mask is computed anew.\<close>

definition appendMulti :: "str list list \<Rightarrow> nat list \<Rightarrow> nat list \<Rightarrow> multiMap \<Rightarrow> multiMap" where
  "appendMulti texts b e m =
    (let height = tallest (map2 (-) e b)
     in if height = 0 then m
        else m\<lparr>mmRuns := mmRuns m @ [\<lparr>mrBegin = b, mrEnd = e, mrRowBegin = mmRows m, mrRowEnd = mmRows m + height,
                 mrChanged = pairMask (runSpans texts b e)\<rparr>],
               mmRows := mmRows m + height\<rparr>)"

fun splitAll :: "budget \<Rightarrow> str list \<Rightarrow> nat list \<Rightarrow> str list list \<Rightarrow> str list list comp" where
  "splitAll L (t # ts) (n # ns) texts =
    seq (SplitLines t L defaultMaxLines defaultMaxBytes) (\<lambda>ls.
      if length ls \<noteq> n then throw ''InvalidAlignmentInput'' else splitAll L ts ns (texts @ [ls]))"
| "splitAll L _ _ texts = ret texts"

definition boundedRun :: "str list list \<Rightarrow> nat \<Rightarrow> multiRun \<Rightarrow> bool" where
  "boundedRun texts budgetSteps run \<longleftrightarrow> mrChanged run \<noteq> 0 \<and> mrEnd run ! 0 - mrBegin run ! 0 \<noteq> 0 \<and> budgetSteps \<noteq> 0
    \<and> (\<forall>s < length texts. mrEnd run ! s - mrBegin run ! s \<le> 128)
    \<and> (\<forall>s < length texts. \<forall>i \<in> set [mrBegin run ! s..<mrEnd run ! s]. length (texts ! s ! i) \<le> 2048)"

text \<open>What the refined pair of the anchor and one side says: the lines inserted before every
  anchor line, and the anchor lines that have a corresponding line.\<close>

fun slotsOf :: "alignmentRun list \<Rightarrow> nat list \<Rightarrow> nat list \<Rightarrow> nat list \<times> nat list" where
  "slotsOf [] gaps matched = (gaps, matched)"
| "slotsOf (part # parts) gaps matched =
    (let a = fst (runEnd part) - fst (runBegin part); b = snd (runEnd part) - snd (runBegin part);
         common = min a b; at = fst (runEnd part)
     in slotsOf parts (gaps[at := gaps ! at + (b - common)])
          (fold (\<lambda>i xs. xs[fst (runBegin part) + i := 1]) [0..<common] matched))"

fun slotSides :: "budget \<Rightarrow> str list list \<Rightarrow> multiRun \<Rightarrow> nat \<Rightarrow> nat list \<Rightarrow> nat list list \<Rightarrow> nat list list \<Rightarrow> bool
    \<Rightarrow> (budget \<times> nat list list \<times> nat list list \<times> bool) comp" where
  "slotSides L texts run n [] gaps matched similar = ret (L, gaps, matched, similar)"
| "slotSides L texts run n (s # ss) gaps matched similar =
    (let m = mrEnd run ! s - mrBegin run ! s
     in seq (Build n m [mkEdit 0 n 0 m []] L) (\<lambda>base.
        seq (WithSimilarLines base (spanOf (texts ! 0) (mrBegin run ! 0) (mrEnd run ! 0))
               (spanOf (texts ! s) (mrBegin run ! s) (mrEnd run ! s)) L) (\<lambda>pair.
          case slotsOf (mapRuns pair) (replicate (Suc n) 0) (replicate n 0) of (g, mt) \<Rightarrow>
            slotSides (L\<lparr>maxSteps := maxSteps L - similarityWork pair\<rparr>) texts run n ss (gaps @ [g]) (matched @ [mt])
              (similar \<or> similarLines pair))))"

fun unionSlots :: "budget \<Rightarrow> str list list \<Rightarrow> nat list list \<Rightarrow> nat list list \<Rightarrow> nat \<Rightarrow> nat \<Rightarrow> multiMap \<times> nat list
    \<Rightarrow> (multiMap \<times> nat list) comp" where
  "unionSlots L texts gaps matched i left (m, cursor) =
    seq (check L) (\<lambda>_.
      let e1 = map2 (\<lambda>c g. c + g ! i) cursor gaps; m1 = appendMulti texts cursor e1 m
      in case left of 0 \<Rightarrow> ret (m1, e1)
         | Suc left' \<Rightarrow>
            let e2 = map2 (\<lambda>c x. c + x ! i) e1 matched; m2 = appendMulti texts e1 e2 m1
            in unionSlots L texts gaps matched (Suc i) left' (m2, e2))"

fun refineMulti :: "budget \<Rightarrow> str list list \<Rightarrow> multiRun list \<Rightarrow> multiMap \<Rightarrow> multiMap comp" where
  "refineMulti L texts [] m = seq (check L) (\<lambda>_. ret m)"
| "refineMulti L texts (run # runs) m =
    seq (check L) (\<lambda>_.
    let n = mrEnd run ! 0 - mrBegin run ! 0
    in if \<not> boundedRun texts (maxSteps L) run
       then refineMulti L texts runs (m\<lparr>mmRuns := mmRuns m @ [run\<lparr>mrRowBegin := mmRows m,
              mrRowEnd := mmRows m + (mrRowEnd run - mrRowBegin run)\<rparr>],
              mmRows := mmRows m + (mrRowEnd run - mrRowBegin run)\<rparr>)
       else seq (slotSides L texts run n [1..<length texts] [replicate (Suc n) 0] [replicate n 1] False) (\<lambda>(L', gaps, matched, similar).
         if \<not> similar then refineMulti L' texts runs (appendMulti texts (mrBegin run) (mrEnd run) m)
         else seq (unionSlots L' texts gaps matched 0 n (m, mrBegin run)) (\<lambda>(m', cursor).
           if cursor \<noteq> mrEnd run then throw ''InvalidAlignmentEdits''
           else refineMulti L' texts runs m')))"

definition MultiWithSimilarLines :: "multiMap \<Rightarrow> str list \<Rightarrow> budget \<Rightarrow> multiMap comp" where
  "MultiWithSimilarLines m ts L =
    (if length ts \<noteq> length (mmLines m) then throw ''InvalidAlignmentSides''
     else let L' = L\<lparr>maxSteps := min (maxSteps L) 4000000\<rparr>
       in catch (seq (splitAll L' ts (mmLines m) []) (\<lambda>texts.
            refineMulti L' texts (mmRuns m) (m\<lparr>mmRuns := [], mmRows := 0\<rparr>)))
          (\<lambda>e. if e \<noteq> ''Timeout'' then throw e else ret m))"

section \<open>The mask and the heights\<close>

lemma bit_pairMask_fold:
  "bit (fold (\<lambda>(a, b) mask. if parts ! a \<noteq> parts ! b
     then set_bit (b * 4 + a) (set_bit (a * 4 + b) mask) else mask) ps mask) k \<longleftrightarrow>
   bit mask k \<or> (\<exists>(a, b) \<in> set ps. parts ! a \<noteq> parts ! b \<and> (k = a * 4 + b \<or> k = b * 4 + (a::nat)))" for mask :: nat
  by (induction ps arbitrary: mask) (auto simp: bit_set_bit_iff possible_bit_def split: if_splits)

lemma set_sidePairs: "set (sidePairs n) = {(a, b). a < b \<and> b < n}"
  by (force simp: sidePairs_def)

lemma pair_code: "a < 4 \<Longrightarrow> b < 4 \<Longrightarrow> c < 4 \<Longrightarrow> d < 4 \<Longrightarrow> a * 4 + b = c * 4 + d \<Longrightarrow> a = c \<and> b = (d::nat)"
  by arith

lemma bit_pairMask:
  assumes "length parts \<le> 4" "a < length parts" "b < length parts" "a \<noteq> b"
  shows "bit (pairMask parts) (a * 4 + b) \<longleftrightarrow> parts ! a \<noteq> parts ! b"
proof
  assume "bit (pairMask parts) (a * 4 + b)"
  then obtain c d where cd: "c < d" "d < length parts" "parts ! c \<noteq> parts ! d"
    "a * 4 + b = c * 4 + d \<or> a * 4 + b = d * 4 + c"
    unfolding pairMask_def by (auto simp: bit_pairMask_fold set_sidePairs)
  then show "parts ! a \<noteq> parts ! b"
    using pair_code [of a b c d] pair_code [of a b d c] assms by auto
next
  assume "parts ! a \<noteq> parts ! b"
  then have "(\<exists>(c, d) \<in> set (sidePairs (length parts)). parts ! c \<noteq> parts ! d
      \<and> (a * 4 + b = c * 4 + d \<or> a * 4 + b = d * 4 + c))"
  proof (cases "a < b")
    case True
    then show ?thesis using \<open>parts ! a \<noteq> parts ! b\<close> assms by (intro bexI [of _ "(a, b)"]) (auto simp: set_sidePairs)
  next
    case False
    then show ?thesis using \<open>parts ! a \<noteq> parts ! b\<close> assms by (intro bexI [of _ "(b, a)"]) (auto simp: set_sidePairs)
  qed
  then show "bit (pairMask parts) (a * 4 + b)" unfolding pairMask_def by (simp add: bit_pairMask_fold)
qed

lemma fold_max: "k \<le> fold max xs k \<and> (\<forall>x \<in> set xs. x \<le> fold max xs k)" for k :: nat
proof (induction xs arbitrary: k)
  case (Cons x xs)
  from Cons [of "max x k"] show ?case by (auto simp: max_def split: if_splits)
qed simp

lemma fold_max_zero: "(\<forall>x \<in> set xs. x = 0) \<Longrightarrow> fold max xs 0 = (0::nat)"
  by (induction xs) auto

lemma tallest_nth: "i < length counts \<Longrightarrow> counts ! i \<le> tallest counts"
  using fold_max [where xs = counts and k = 0] by (simp add: tallest_def)

lemma tallest_zero: "tallest counts = 0 \<longleftrightarrow> (\<forall>i < length counts. counts ! i = 0)"
proof
  assume "tallest counts = 0"
  then show "\<forall>i < length counts. counts ! i = 0" using tallest_nth [of _ counts] by auto
next
  assume "\<forall>i < length counts. counts ! i = 0"
  then have "\<forall>x \<in> set counts. x = 0" by (auto simp: in_set_conv_nth)
  then show "tallest counts = 0" using fold_max_zero by (simp add: tallest_def)
qed

section \<open>Tilings\<close>

fun multiTiles :: "multiRun list \<Rightarrow> nat list \<Rightarrow> nat \<Rightarrow> nat list \<Rightarrow> nat \<Rightarrow> bool" where
  "multiTiles [] p row q rows \<longleftrightarrow> p = q \<and> row = rows"
| "multiTiles (r # rs) p row q rows \<longleftrightarrow>
     mrBegin r = p \<and> mrRowBegin r = row \<and> length (mrEnd r) = length p \<and> (\<forall>s < length p. p ! s \<le> mrEnd r ! s)
   \<and> 0 < tallest (map2 (-) (mrEnd r) p) \<and> mrRowEnd r = row + tallest (map2 (-) (mrEnd r) p)
   \<and> multiTiles rs (mrEnd r) (mrRowEnd r) q rows"

text \<open>A set bit means different texts, a clear one at least equally many lines.\<close>

definition maskOk :: "str list list \<Rightarrow> multiRun \<Rightarrow> bool" where
  "maskOk texts r \<longleftrightarrow> (\<forall>a < length texts. \<forall>b < length texts. a \<noteq> b \<longrightarrow>
     (bit (mrChanged r) (a * 4 + b) \<longrightarrow> spanOf (texts ! a) (mrBegin r ! a) (mrEnd r ! a) \<noteq> spanOf (texts ! b) (mrBegin r ! b) (mrEnd r ! b))
   \<and> (\<not> bit (mrChanged r) (a * 4 + b) \<longrightarrow> mrEnd r ! a - mrBegin r ! a = mrEnd r ! b - mrBegin r ! b))"

definition multiTiled :: "str list list \<Rightarrow> multiMap \<Rightarrow> bool" where
  "multiTiled texts m \<longleftrightarrow> mmLines m = map length texts
     \<and> multiTiles (mmRuns m) (replicate (length texts) 0) 0 (mmLines m) (mmRows m)
     \<and> (\<forall>r \<in> set (mmRuns m). maskOk texts r)"

lemma multiTiles_snoc:
  "multiTiles rs p row q rows \<Longrightarrow> multiTiles (rs @ [r]) p row q' rows' \<longleftrightarrow> multiTiles [r] q rows q' rows'"
proof (induction rs arbitrary: p row)
  case (Cons a rs)
  then have "multiTiles rs (mrEnd a) (mrRowEnd a) q rows" unfolding multiTiles.simps(2) by blast
  from Cons.IH [OF this] Cons.prems show ?case unfolding append_Cons multiTiles.simps(2) by blast
qed simp

lemma multiTiles_bounds:
  "multiTiles rs p row q rows \<Longrightarrow> length q = length p \<and> (\<forall>s < length p. p ! s \<le> q ! s)
    \<and> (\<forall>r \<in> set rs. length (mrBegin r) = length p \<and> length (mrEnd r) = length p
        \<and> (\<forall>s < length p. mrBegin r ! s \<le> mrEnd r ! s \<and> mrEnd r ! s \<le> q ! s))"
proof (induction rs arbitrary: p row)
  case (Cons r rs)
  then have c: "mrBegin r = p" "length (mrEnd r) = length p" "\<forall>s < length p. p ! s \<le> mrEnd r ! s"
    "multiTiles rs (mrEnd r) (mrRowEnd r) q rows" unfolding multiTiles.simps(2) by blast+
  note IH = Cons.IH [OF c(4)]
  have "p ! s \<le> q ! s" if "s < length p" for s using IH c(2,3) that by (metis order_trans)
  then show ?case using IH c(1-3) by auto
qed simp

lemma lineShape_drop: "lineShape ls \<Longrightarrow> lineShape (drop k ls)"
proof (induction k arbitrary: ls)
  case (Suc k)
  then show ?case by (cases ls rule: lineShape.cases) simp_all
qed simp

lemma lineShape_take: "lineShape ls \<Longrightarrow> lineShape (take k ls)"
proof (induction ls arbitrary: k rule: lineShape.induct)
  case (2 l)
  then show ?case by (cases k) simp_all
next
  case (3 l m ls)
  show ?case
  proof (cases k)
    case (Suc j)
    then show ?thesis using "3.IH" [of j] "3.prems" by (cases j) auto
  qed simp
qed simp

lemma splitText_span: "lineShape ls \<Longrightarrow> splitText (spanOf ls b e) = slice ls b e"
  unfolding spanOf_def slice_def by (intro splitText_concat lineShape_take lineShape_drop)

text \<open>Equal texts have equally many lines.\<close>

lemma span_heights:
  assumes "lineShape k" "lineShape l" "b \<le> e" "e \<le> length k" "c \<le> d" "d \<le> length l"
    and "spanOf k b e = spanOf l c d"
  shows "e - b = d - c"
proof -
  have "slice k b e = slice l c d" using assms(1,2,7) by (metis splitText_span)
  then have "length (slice k b e) = length (slice l c d)" by simp
  then show ?thesis using assms by simp
qed

lemma length_runSpans [simp]: "length (runSpans texts b e) = length texts"
  by (simp add: runSpans_def)

lemma maskOk_mask:
  assumes "length texts \<le> 4" "\<forall>t \<in> set texts. lineShape t"
    and "\<forall>s < length texts. b ! s \<le> e ! s \<and> e ! s \<le> length (texts ! s)"
  shows "maskOk texts (mkMulti b e x y (pairMask (runSpans texts b e)))"
  unfolding maskOk_def
proof (intro allI impI)
  fix c d assume cd: "c < length texts" "d < length texts" "c \<noteq> d"
  have bit: "bit (pairMask (runSpans texts b e)) (c * 4 + d) \<longleftrightarrow>
      spanOf (texts ! c) (b ! c) (e ! c) \<noteq> spanOf (texts ! d) (b ! d) (e ! d)"
    using bit_pairMask [of "runSpans texts b e" c d] assms(1) cd by (simp add: runSpans_def)
  have "e ! c - b ! c = e ! d - b ! d" if "spanOf (texts ! c) (b ! c) (e ! c) = spanOf (texts ! d) (b ! d) (e ! d)"
    by (rule span_heights [OF _ _ _ _ _ _ that]) (use assms cd in auto)
  then show "(bit (mrChanged (mkMulti b e x y (pairMask (runSpans texts b e)))) (c * 4 + d) \<longrightarrow>
      spanOf (texts ! c) (mrBegin (mkMulti b e x y (pairMask (runSpans texts b e))) ! c)
        (mrEnd (mkMulti b e x y (pairMask (runSpans texts b e))) ! c)
      \<noteq> spanOf (texts ! d) (mrBegin (mkMulti b e x y (pairMask (runSpans texts b e))) ! d)
        (mrEnd (mkMulti b e x y (pairMask (runSpans texts b e))) ! d))
    \<and> (\<not> bit (mrChanged (mkMulti b e x y (pairMask (runSpans texts b e)))) (c * 4 + d) \<longrightarrow>
      mrEnd (mkMulti b e x y (pairMask (runSpans texts b e))) ! c
        - mrBegin (mkMulti b e x y (pairMask (runSpans texts b e))) ! c
      = mrEnd (mkMulti b e x y (pairMask (runSpans texts b e))) ! d
        - mrBegin (mkMulti b e x y (pairMask (runSpans texts b e))) ! d)"
    using bit by auto
qed

text \<open>A map under construction: it tiles everything up to the cursor.\<close>

definition growing :: "str list list \<Rightarrow> multiMap \<times> nat list \<Rightarrow> bool" where
  "growing texts st \<longleftrightarrow> mmLines (fst st) = map length texts
     \<and> multiTiles (mmRuns (fst st)) (replicate (length texts) 0) 0 (snd st) (mmRows (fst st))
     \<and> (\<forall>s < length texts. snd st ! s \<le> length (texts ! s))
     \<and> (\<forall>r \<in> set (mmRuns (fst st)). maskOk texts r)"

definition texts4 :: "str list list \<Rightarrow> bool" where
  "texts4 texts \<longleftrightarrow> length texts \<le> 4 \<and> (\<forall>t \<in> set texts. lineShape t)"

lemma growing_length: "growing texts (m, cursor) \<Longrightarrow> length cursor = length texts"
  using multiTiles_bounds by (fastforce simp: growing_def)

lemma growing_append:
  assumes "growing texts (m, cursor)" "length e = length texts"
    and "\<forall>s < length texts. cursor ! s \<le> e ! s \<and> e ! s \<le> length (texts ! s)"
    and "tallest (map2 (-) e cursor) \<noteq> 0"
    and "maskOk texts (mkMulti cursor e (mmRows m) (mmRows m + tallest (map2 (-) e cursor)) flags)"
  shows "growing texts (m\<lparr>mmRuns := mmRuns m @ [(mkMulti cursor e (mmRows m) (mmRows m + tallest (map2 (-) e cursor)) flags)],
      mmRows := mmRows m + tallest (map2 (-) e cursor)\<rparr>, e)"
proof -
  have t: "multiTiles (mmRuns m) (replicate (length texts) 0) 0 cursor (mmRows m)"
    using assms(1) by (simp add: growing_def)
  show ?thesis
    unfolding growing_def fst_conv snd_conv
    using assms growing_length [OF assms(1)] by (auto simp: multiTiles_snoc [OF t] growing_def)
qed

lemma map2_minus_plus: "length xs = length ys \<Longrightarrow> map2 (-) (map2 (+) xs ys) xs = (ys :: nat list)"
  by (rule nth_equalityI) auto

lemma appendCounts_yields:
  assumes "growing texts st" "length counts = length texts" "texts4 texts"
    and "\<not> changed \<longrightarrow> (\<forall>a < length texts. \<forall>b < length texts. counts ! a = counts ! b)"
  shows "yields (appendCounts L texts counts changed st)
    (\<lambda>st'. growing texts st' \<and> snd st' = map2 (+) (snd st) counts)
    (\<lambda>e. envFailure L e \<or> e = ''InvalidAlignmentEdits'')"
proof -
  obtain m cursor where st: "st = (m, cursor)" by (cases st)
  have len: "length cursor = length texts" using growing_length assms(1) st by simp
  have lines: "mmLines m = map length texts" "\<forall>s < length texts. cursor ! s \<le> length (texts ! s)"
    using assms(1) by (simp_all add: st growing_def)
  let ?e = "map2 (+) cursor counts"
  have counted: "map2 (-) ?e cursor = counts" using len assms(2) by (intro map2_minus_plus) simp
  have "growing texts (m, cursor) \<and> cursor = ?e" if "tallest counts = 0"
    using that assms(1,2) len by (auto simp: st tallest_zero intro: nth_equalityI)
  moreover have "growing texts (m\<lparr>mmRuns := mmRuns m @ [(mkMulti cursor ?e (mmRows m) (mmRows m + tallest counts) (if changed then pairMask (runSpans texts cursor ?e) else 0))],
      mmRows := mmRows m + tallest counts\<rparr>, ?e)"
    if fits: "\<not> (\<exists>s < length counts. mmLines m ! s - cursor ! s < counts ! s)" and "tallest counts \<noteq> 0"
  proof -
    have e: "\<forall>s < length texts. cursor ! s \<le> ?e ! s \<and> ?e ! s \<le> length (texts ! s)"
    proof (intro allI impI)
      fix s assume s: "s < length texts"
      then have "counts ! s \<le> length (texts ! s) - cursor ! s" using fits assms(2) lines(1) by auto
      then show "cursor ! s \<le> ?e ! s \<and> ?e ! s \<le> length (texts ! s)" using s len assms(2) lines(2) by fastforce
    qed
    have mask: "maskOk texts (mkMulti cursor ?e (mmRows m) (mmRows m + tallest counts) (if changed then pairMask (runSpans texts cursor ?e) else 0))"
    proof (cases changed)
      case True
      then show ?thesis using maskOk_mask [of texts cursor ?e] assms(3) e by (simp add: texts4_def)
    next
      case False
      have "?e ! a - cursor ! a = ?e ! b - cursor ! b" if "a < length texts" "b < length texts" for a b
      proof -
        have "?e ! a = cursor ! a + counts ! a" "?e ! b = cursor ! b + counts ! b"
          using that len assms(2) by simp_all
        moreover have "counts ! a = counts ! b" using False assms(4) that by blast
        ultimately show ?thesis by simp
      qed
      note same = this
      show ?thesis
        unfolding maskOk_def
      proof (intro allI impI conjI)
        fix a b assume "a < length texts" "b < length texts"
        from same [OF this] show "mrEnd (mkMulti cursor ?e (mmRows m) (mmRows m + tallest counts) (if changed then pairMask (runSpans texts cursor ?e) else 0)) ! a
          - mrBegin (mkMulti cursor ?e (mmRows m) (mmRows m + tallest counts) (if changed then pairMask (runSpans texts cursor ?e) else 0)) ! a
          = mrEnd (mkMulti cursor ?e (mmRows m) (mmRows m + tallest counts) (if changed then pairMask (runSpans texts cursor ?e) else 0)) ! b
          - mrBegin (mkMulti cursor ?e (mmRows m) (mmRows m + tallest counts) (if changed then pairMask (runSpans texts cursor ?e) else 0)) ! b"
          unfolding multiRun.simps .
      qed (use False in simp_all)
    qed
    show ?thesis
      using growing_append [of texts m cursor ?e "if changed then pairMask (runSpans texts cursor ?e) else 0"]
        assms(1) st len assms(2) e that(2) mask unfolding counted by simp
  qed
  ultimately show ?thesis
    unfolding st appendCounts_def prod.case Let_def
    by (intro yields_seq [OF yields_check] yields_if yields_throw yields_ret) auto
qed

lemma groupCounts_yields:
  "yields (groupCounts cs counts) (\<lambda>counts'. length counts' = length counts) (\<lambda>e. e = ''InvalidAlignmentEdits'')"
proof (induction cs counts rule: groupCounts.induct)
  case (2 s d cs counts)
  show ?case
    unfolding groupCounts.simps Let_def
    by (rule yields_if, simp add: yields_throw, rule yields_weaken [OF 2 [OF refl refl]]) auto
qed (simp add: yields_ret)

lemma multiLoop_yields:
  assumes "growing texts st" "texts4 texts"
  shows "yields (multiLoop L texts cs st) (growing texts) (\<lambda>e. envFailure L e \<or> e = ''InvalidAlignmentEdits'')"
  using assms
proof (induction L texts cs st rule: multiLoop.induct)
  case (1 L texts st)
  then show ?case by (simp add: yields_ret)
next
  case (2 L texts c cs st)
  obtain grp e rest where g: "growGroup (eBegin (snd c)) (eEnd (snd c)) cs = (grp, e, rest)"
    by (cases "growGroup (eBegin (snd c)) (eEnd (snd c)) cs")
  show ?case
    unfolding multiLoop.simps g prod.case
  proof (rule yields_seq [OF yields_check], simp, rule yields_if, simp add: yields_throw,
      rule yields_seq [OF appendCounts_yields])
    fix st1 assume st1: "growing texts st1 \<and> snd st1 = map2 (+) (snd st)
        (replicate (length texts) (eBegin (snd c) - snd st ! 0))" and fits: "\<not> eBegin (snd c) < snd st ! 0"
    show "yields (seq (groupCounts (c # grp) (replicate (length texts) (e - eBegin (snd c)))) (\<lambda>counts.
        seq (appendCounts L texts counts True st1) (multiLoop L texts rest)))
        (growing texts) (\<lambda>e. envFailure L e \<or> e = ''InvalidAlignmentEdits'')"
    proof (rule yields_seq [OF yields_weaken [OF groupCounts_yields]])
      fix counts :: "nat list" assume n: "length counts = length (replicate (length texts) (e - eBegin (snd c)))"
      show "yields (seq (appendCounts L texts counts True st1) (multiLoop L texts rest))
          (growing texts) (\<lambda>e. envFailure L e \<or> e = ''InvalidAlignmentEdits'')"
      proof (rule yields_seq [OF appendCounts_yields])
        fix st2 assume "growing texts st2 \<and> snd st2 = map2 (+) (snd st1) counts"
        then show "yields (multiLoop L texts rest st2) (growing texts)
            (\<lambda>e. envFailure L e \<or> e = ''InvalidAlignmentEdits'')"
          using "2.IH" [OF g [symmetric] refl fits] 2(3) by blast
      qed (use st1 n 2(3) in auto)
    qed auto
  qed (use 2(2,3) in auto)
qed

lemma repeatCheck_yields: "yields (repeatCheck L n) (\<lambda>_. True) (envFailure L)"
  by (induction n) (auto intro!: yields_ret yields_seq [OF yields_check])

lemma sortChanges_yields: "yields (sortChanges L changes) (\<lambda>_. True) (envFailure L)"
  unfolding sortChanges_def by (rule yields_seq [OF repeatCheck_yields]) (simp add: yields_ret)

lemma SplitLines_is: "yields (SplitLines t L maxLines maxBytes) (\<lambda>ls. ls = splitText t) (\<lambda>_. True)"
  by (rule yields_weaken [OF SplitLines_yields]) simp_all

lemma loadSides_yields:
  "yields (loadSides L anchor s ts texts changes) (\<lambda>(texts', _). texts' = texts @ map splitText ts) (\<lambda>_. True)"
proof (induction ts arbitrary: s texts changes)
  case (Cons t ts)
  have next_side: "yields (loadSides L anchor (Suc s) ts (texts @ [splitText t]) cs)
      (\<lambda>(texts', _). texts' = texts @ map splitText (t # ts)) (\<lambda>_. True)" for cs
    using Cons.IH [of "Suc s" "texts @ [splitText t]" cs] by simp
  show ?case
    unfolding loadSides.simps
  proof (rule yields_seq [OF SplitLines_is])
    fix ls assume ls: "ls = splitText t"
    show "yields (if s = 0 then loadSides L anchor (Suc s) ts (texts @ [ls]) changes
        else seq (Diff anchor t L) (\<lambda>es. loadSides L anchor (Suc s) ts (texts @ [ls]) (changes @ map (Pair s) es)))
        (\<lambda>(texts', _). texts' = texts @ map splitText (t # ts)) (\<lambda>_. True)"
      unfolding ls by (rule yields_if, rule next_side, rule yields_seq [OF yields_trivial], rule next_side)
  qed
qed (simp add: yields_ret)

lemma texts4_split: "length ts \<le> 4 \<Longrightarrow> texts4 (map splitText ts)"
  by (auto simp: texts4_def lineShape_splitText)

lemma MultiBuild_yields:
  "yields (MultiBuild ts L) (multiTiled (map splitText ts)) (\<lambda>_. True)"
proof -
  let ?texts = "map splitText ts"
  have rest: "yields (seq (multiLoop L ?texts sorted (\<lparr>mmLines = map length ?texts, mmRuns = [], mmRows = 0\<rparr>, replicate (length ts) 0)) (\<lambda>(m, cursor).
        seq (appendCounts L ?texts (replicate (length ts) (mmLines m ! 0 - cursor ! 0)) False (m, cursor)) (\<lambda>(m', cursor').
          if cursor' \<noteq> mmLines m' then throw ''InvalidAlignmentEdits''
          else seq (check L) (\<lambda>_. ret m')))) (multiTiled ?texts) (\<lambda>_. True)"
    if n: "length ts \<le> 4" for sorted
  proof (rule yields_seq [OF yields_weaken [OF multiLoop_yields]])
    show "growing ?texts (\<lparr>mmLines = map length ?texts, mmRuns = [], mmRows = 0\<rparr>, replicate (length ts) 0)"
      by (simp add: growing_def)
    fix v assume g: "growing ?texts v"
    obtain m cursor where v: "v = (m, cursor)" by (cases v)
    show "yields (case v of (m, cursor) \<Rightarrow>
        seq (appendCounts L ?texts (replicate (length ts) (mmLines m ! 0 - cursor ! 0)) False (m, cursor)) (\<lambda>(m', cursor').
          if cursor' \<noteq> mmLines m' then throw ''InvalidAlignmentEdits''
          else seq (check L) (\<lambda>_. ret m'))) (multiTiled ?texts) (\<lambda>_. True)"
      unfolding v prod.case
    proof (rule yields_seq [OF yields_weaken [OF appendCounts_yields [OF g [unfolded v]]]])
      fix u assume "growing ?texts u"
      then show "yields (case u of (m', cursor') \<Rightarrow> if cursor' \<noteq> mmLines m' then throw ''InvalidAlignmentEdits''
          else seq (check L) (\<lambda>_. ret m')) (multiTiled ?texts) (\<lambda>_. True)"
        by (cases u) (auto intro!: yields_if yields_throw yields_seq [OF yields_check] yields_ret
            simp: growing_def multiTiled_def)
    qed (use texts4_split [OF n] in auto)
  qed (use texts4_split [OF n] in auto)
  show ?thesis
    unfolding MultiBuild_def Let_def
    by (rule yields_seq [OF yields_trivial], rule yields_if, simp add: yields_throw,
        rule yields_seq [OF yields_trivial], rule yields_seq [OF yields_trivial],
        rule yields_seq [OF loadSides_yields])
       (auto intro!: yields_seq [OF yields_trivial] rest)
qed


section \<open>The map of a pair\<close>

lemma height_pair:
  assumes "a < length p" "b < length p" "length e = length p"
  shows "max (e ! a - p ! a) (e ! b - p ! b) \<le> tallest (map2 (-) e p)"
  using tallest_nth [of a "map2 (-) e p"] tallest_nth [of b "map2 (-) e p"] assms by simp

lemma pair_tiles:
  assumes "a < n" "b < n"
    and "\<forall>r \<in> set rs. \<not> bit (mrChanged r) (a * 4 + b) \<longrightarrow> mrEnd r ! a - mrBegin r ! a = mrEnd r ! b - mrBegin r ! b"
  shows "multiTiles rs p row q rows \<Longrightarrow> length p = n \<Longrightarrow>
    tiles (map (\<lambda>run. mkRun (mrBegin run ! a, mrBegin run ! b) (mrEnd run ! a, mrEnd run ! b)
         (bit (mrChanged run) (a * 4 + b)) (mrRowBegin run) (mrRowEnd run)) rs)
      (p ! a, p ! b) row (q ! a, q ! b) rows"
  using assms(3)
proof (induction rs arbitrary: p row)
  case (Cons r rs)
  have c: "mrBegin r = p" "mrRowBegin r = row" "length (mrEnd r) = length p" "\<forall>s < length p. p ! s \<le> mrEnd r ! s"
    "0 < tallest (map2 (-) (mrEnd r) p)" "mrRowEnd r = row + tallest (map2 (-) (mrEnd r) p)"
    "multiTiles rs (mrEnd r) (mrRowEnd r) q rows" using Cons.prems(1) unfolding multiTiles.simps(2) by blast+
  have "max (mrEnd r ! a - p ! a) (mrEnd r ! b - p ! b) \<le> tallest (map2 (-) (mrEnd r) p)"
    by (rule height_pair) (use assms(1,2) Cons.prems(2) c(3) in simp_all)
  moreover have "\<not> bit (mrChanged r) (a * 4 + b) \<longrightarrow> mrEnd r ! a - p ! a = mrEnd r ! b - p ! b"
    using Cons.prems(3) c(1) by auto
  moreover have "tiles (map (\<lambda>run. mkRun (mrBegin run ! a, mrBegin run ! b) (mrEnd run ! a, mrEnd run ! b)
         (bit (mrChanged run) (a * 4 + b)) (mrRowBegin run) (mrRowEnd run)) rs)
      (mrEnd r ! a, mrEnd r ! b) (mrRowEnd r) (q ! a, q ! b) rows"
    by (rule Cons.IH [OF c(7)]) (use Cons.prems(2,3) c(3) in simp_all)
  ultimately show ?case
    using c(1-6) Cons.prems(2) assms(1,2) by (simp add: runHeight_def)
qed simp

lemma Pair_tiled:
  assumes "multiTiled texts m" "Pair' m a b = Inr p"
  shows "wellTiled p \<and> mapLines p = (length (texts ! a), length (texts ! b)) \<and> mapRows p = mmRows m"
proof -
  have n: "a \<noteq> b" "a < length texts" "b < length texts" and lines: "mmLines m = map length texts"
    using assms by (auto simp: Pair'_def multiTiled_def split: if_splits)
  have "tiles (mapRuns p) (replicate (length texts) 0 ! a, replicate (length texts) 0 ! b) 0
      (mmLines m ! a, mmLines m ! b) (mmRows m)"
    using pair_tiles [of a "length texts" b "mmRuns m" "replicate (length texts) 0" 0 "mmLines m" "mmRows m"] assms n
    by (auto simp: Pair'_def multiTiled_def maskOk_def split: if_splits)
  then show ?thesis
    using assms(2) n lines by (auto simp: Pair'_def wellTiled_def emptyMap_def split: if_splits)
qed

text \<open>C19: any two panes of a map of several texts form an alignment of their own: every line of
  either pane has a row, the row shows that line again, and it is the same row in all
  panes' shared numbering.\<close>

theorem Pair_aligned:
  assumes "MultiBuild ts L w = (Inr m, w')" "Pair' m a b = Inr p" "s \<le> 1" "line < side s (mapLines p)"
  shows "mapLines p = (length (splitText (ts ! a)), length (splitText (ts ! b)))
    \<and> (\<exists>row < mmRows m. DisplayRow p s line = Inr row \<and> LineAtRow p s row = Inr (Some line))"
proof -
  have t: "multiTiled (map splitText ts) m" by (rule yieldsD [OF MultiBuild_yields assms(1)])
  note p = Pair_tiled [OF t assms(2)]
  have "a < length ts" "b < length ts"
    using assms(2) t by (auto simp: Pair'_def multiTiled_def split: if_splits)
  then have "mapLines p = (length (splitText (ts ! a)), length (splitText (ts ! b)))" using p by simp
  moreover have "\<exists>row. DisplayRow p s line = Inr row \<and> row < mapRows p \<and> LineAtRow p s row = Inr (Some line)"
    by (rule line_row_line [OF p [THEN conjunct1] assms(3,4)])
  ultimately show ?thesis using p by auto
qed

section \<open>The refinement keeps the tiling\<close>

lemma appendMulti_growing:
  assumes "growing texts (m, b)" "length e = length texts" "texts4 texts"
    and "\<forall>s < length texts. b ! s \<le> e ! s \<and> e ! s \<le> length (texts ! s)"
  shows "growing texts (appendMulti texts b e m, e)"
proof (cases "tallest (map2 (-) e b) = 0")
  case True
  have len: "length b = length texts" by (rule growing_length [OF assms(1)])
  have "e = b"
  proof (rule nth_equalityI)
    fix i assume "i < length e"
    then have "e ! i - b ! i = 0" "b ! i \<le> e ! i" using True assms(2,4) len by (simp_all add: tallest_zero)
    then show "e ! i = b ! i" by simp
  qed (use assms(2) len in simp)
  then show ?thesis using True assms(1) by (simp add: appendMulti_def)
next
  case False
  show ?thesis
    unfolding appendMulti_def Let_def if_not_P [OF False]
    by (rule growing_append [OF assms(1,2,4) False], rule maskOk_mask) (use assms(3,4) in \<open>simp_all add: texts4_def\<close>)
qed

text \<open>The cursor only rises; as long as it is inside the texts, the map tiles them.\<close>

definition onTrack :: "str list list \<Rightarrow> multiMap \<times> nat list \<Rightarrow> bool" where
  "onTrack texts st \<longleftrightarrow> length (snd st) = length texts
     \<and> ((\<forall>s < length texts. snd st ! s \<le> length (texts ! s)) \<longrightarrow> growing texts st)"

lemma appendMulti_onTrack:
  assumes "onTrack texts (m, b)" "texts4 texts" "length e = length texts" "\<forall>s < length texts. b ! s \<le> e ! s"
  shows "onTrack texts (appendMulti texts b e m, e)"
  unfolding onTrack_def fst_conv snd_conv
proof (intro conjI impI)
  assume e: "\<forall>s < length texts. e ! s \<le> length (texts ! s)"
  then have "\<forall>s < length texts. b ! s \<le> length (texts ! s)" using assms(4) by (meson order_trans)
  then have "growing texts (m, b)" using assms(1) by (simp add: onTrack_def)
  then show "growing texts (appendMulti texts b e m, e)"
    by (rule appendMulti_growing) (use assms e in auto)
qed (rule assms(3))

lemma unionSlots_yields:
  assumes "onTrack texts st" "texts4 texts" "length gaps = length texts" "length matched = length texts"
  shows "yields (unionSlots L texts gaps matched i left st) (onTrack texts) (envFailure L)"
  using assms
proof (induction left arbitrary: i st)
  case 0
  obtain m cursor where st: "st = (m, cursor)" by (cases st)
  have "length cursor = length texts" using 0(1) by (simp add: st onTrack_def)
  then have "onTrack texts (appendMulti texts cursor (map2 (\<lambda>c g. c + g ! i) cursor gaps) m, map2 (\<lambda>c g. c + g ! i) cursor gaps)"
    using 0 by (intro appendMulti_onTrack) (simp_all add: st)
  then show ?case
    unfolding st
    by (subst unionSlots.simps, unfold Let_def nat.case, intro yields_seq [OF yields_check]) (simp_all add: yields_ret)
next
  case (Suc left)
  obtain m cursor where st: "st = (m, cursor)" by (cases st)
  let ?e1 = "map2 (\<lambda>c g. c + g ! i) cursor gaps"
  let ?e2 = "map2 (\<lambda>c x. c + x ! i) ?e1 matched"
  have len: "length cursor = length texts" using Suc.prems(1) by (simp add: st onTrack_def)
  have r1: "onTrack texts (appendMulti texts cursor ?e1 m, ?e1)"
    using Suc.prems len by (intro appendMulti_onTrack) (simp_all add: st)
  have "onTrack texts (appendMulti texts ?e1 ?e2 (appendMulti texts cursor ?e1 m), ?e2)"
    by (rule appendMulti_onTrack [OF r1]) (use Suc.prems len in simp_all)
  from Suc.IH [OF this Suc.prems(2-4), of "Suc i"] show ?case
    unfolding st
    by (subst unionSlots.simps, unfold Let_def nat.case, intro yields_seq [OF yields_check]) simp_all
qed

lemma slotSides_yields:
  "yields (slotSides L texts run n ss gaps matched similar)
     (\<lambda>(_, gaps', matched', _). length gaps' = length gaps + length ss \<and> length matched' = length matched + length ss)
     (\<lambda>_. True)"
proof (induction ss arbitrary: L gaps matched similar)
  case (Cons s ss)
  show ?case
    unfolding slotSides.simps Let_def
  proof (rule yields_seq [OF yields_trivial], rule yields_seq [OF yields_trivial])
    fix p :: alignmentMap
    obtain g mt where "slotsOf (mapRuns p) (replicate (Suc n) 0) (replicate n 0) = (g, mt)" by fastforce
    then show "yields (case slotsOf (mapRuns p) (replicate (Suc n) 0) (replicate n 0) of (g, mt) \<Rightarrow>
          slotSides (L\<lparr>maxSteps := maxSteps L - similarityWork p\<rparr>) texts run n ss (gaps @ [g]) (matched @ [mt])
            (similar \<or> similarLines p))
        (\<lambda>(_, gaps', matched', _). length gaps' = length gaps + length (s # ss) \<and> length matched' = length matched + length (s # ss))
        (\<lambda>_. True)"
      using Cons.IH [of "L\<lparr>maxSteps := maxSteps L - similarityWork p\<rparr>" "gaps @ [g]" "matched @ [mt]"] by simp
  qed
qed (simp add: yields_ret)

lemma multiTiles_Cons:
  "multiTiles (r # rs) p row q rows \<Longrightarrow> mrBegin r = p \<and> length (mrEnd r) = length p
    \<and> (\<forall>s < length p. p ! s \<le> mrEnd r ! s) \<and> mrRowEnd r - mrRowBegin r = tallest (map2 (-) (mrEnd r) p)
    \<and> tallest (map2 (-) (mrEnd r) p) \<noteq> 0 \<and> multiTiles rs (mrEnd r) (mrRowEnd r) q rows"
  unfolding multiTiles.simps(2) by auto

lemma refineMulti_yields:
  assumes "growing texts (m, p)" "multiTiles runs p row q rows" "q = map length texts" "texts4 texts" "texts \<noteq> []"
    and "\<forall>r \<in> set runs. maskOk texts r"
  shows "yields (refineMulti L texts runs m) (\<lambda>m'. growing texts (m', q)) (\<lambda>_. True)"
  using assms
proof (induction runs arbitrary: L m p row)
  case Nil
  then show ?case by (auto intro!: yields_seq [OF yields_trivial] yields_ret)
next
  case (Cons run runs)
  note c = multiTiles_Cons [OF Cons.prems(2)]
  have len: "length p = length texts" by (rule growing_length [OF Cons.prems(1)])
  have bounds: "\<forall>s < length texts. p ! s \<le> mrEnd run ! s \<and> mrEnd run ! s \<le> length (texts ! s)"
    using multiTiles_bounds [OF Cons.prems(2)] c len Cons.prems(3) by simp
  have go: "yields (refineMulti L' texts runs m') (\<lambda>m'. growing texts (m', q)) (\<lambda>_. True)"
    if "growing texts (m', mrEnd run)" for L' m'
    by (rule Cons.IH [OF that]) (use c Cons.prems(3-6) in auto)
  define h where "h = tallest (map2 (-) (mrEnd run) p)"
  have "growing texts (m\<lparr>mmRuns := mmRuns m @ [mkMulti p (mrEnd run) (mmRows m) (mmRows m + h) (mrChanged run)],
      mmRows := mmRows m + h\<rparr>, mrEnd run)"
    unfolding h_def
    by (rule growing_append [OF Cons.prems(1) _ bounds]) (use c len Cons.prems(6) in \<open>simp_all add: maskOk_def\<close>)
  moreover have "run\<lparr>mrRowBegin := mmRows m, mrRowEnd := mmRows m + h\<rparr>
      = mkMulti p (mrEnd run) (mmRows m) (mmRows m + h) (mrChanged run)"
    using c by (cases run) simp
  moreover have "mrRowEnd run - mrRowBegin run = h" using c by (simp add: h_def)
  ultimately have copied: "growing texts (m\<lparr>mmRuns := mmRuns m @ [run\<lparr>mrRowBegin := mmRows m,
      mrRowEnd := mmRows m + (mrRowEnd run - mrRowBegin run)\<rparr>],
      mmRows := mmRows m + (mrRowEnd run - mrRowBegin run)\<rparr>, mrEnd run)"
    by simp
  have plain: "growing texts (appendMulti texts (mrBegin run) (mrEnd run) m, mrEnd run)"
    using appendMulti_growing [OF Cons.prems(1) _ Cons.prems(4) bounds] c len by simp
  have united: "yields (seq (unionSlots L' texts gaps matched 0 n (m, mrBegin run)) (\<lambda>(m', cursor).
      if cursor \<noteq> mrEnd run then throw ''InvalidAlignmentEdits'' else refineMulti L' texts runs m'))
      (\<lambda>m'. growing texts (m', q)) (\<lambda>_. True)"
    if "length gaps = length texts" "length matched = length texts" for L' gaps matched n
  proof (rule yields_seq [OF yields_weaken [OF unionSlots_yields]])
    show "onTrack texts (m, mrBegin run)" using Cons.prems(1) c len by (simp add: onTrack_def)
    fix v assume v: "onTrack texts v"
    show "yields (case v of (m', cursor) \<Rightarrow> if cursor \<noteq> mrEnd run then throw ''InvalidAlignmentEdits''
        else refineMulti L' texts runs m') (\<lambda>m'. growing texts (m', q)) (\<lambda>_. True)"
    proof (cases v)
      case (Pair m' cursor)
      have "growing texts (m', mrEnd run)" if "cursor = mrEnd run"
        using v bounds by (simp add: Pair onTrack_def that)
      then show ?thesis unfolding Pair prod.case by (intro yields_if yields_throw go) auto
    qed
  qed (use that Cons.prems(4) in auto)
  show ?case
    unfolding refineMulti.simps Let_def
  proof (rule yields_seq [OF yields_trivial], rule yields_if)
    assume "\<not> boundedRun texts (maxSteps L) run"
    show "yields (refineMulti L texts runs (m\<lparr>mmRuns := mmRuns m @ [run\<lparr>mrRowBegin := mmRows m,
      mrRowEnd := mmRows m + (mrRowEnd run - mrRowBegin run)\<rparr>],
      mmRows := mmRows m + (mrRowEnd run - mrRowBegin run)\<rparr>)) (\<lambda>m'. growing texts (m', q)) (\<lambda>_. True)"
      by (rule go [OF copied])
  next
    let ?n = "mrEnd run ! 0 - mrBegin run ! 0"
    show "yields (seq (slotSides L texts run ?n [1..<length texts] [replicate (Suc ?n) 0] [replicate ?n 1] False)
        (\<lambda>(L', gaps, matched, similar).
         if \<not> similar then refineMulti L' texts runs (appendMulti texts (mrBegin run) (mrEnd run) m)
         else seq (unionSlots L' texts gaps matched 0 ?n (m, mrBegin run)) (\<lambda>(m', cursor).
           if cursor \<noteq> mrEnd run then throw ''InvalidAlignmentEdits''
           else refineMulti L' texts runs m'))) (\<lambda>m'. growing texts (m', q)) (\<lambda>_. True)"
    proof (rule yields_seq [OF slotSides_yields])
      fix v :: "budget \<times> nat list list \<times> nat list list \<times> bool"
      assume v: "case v of (_, gaps', matched', _) \<Rightarrow> length gaps' = length [replicate (Suc ?n) (0::nat)] + length [1..<length texts]
        \<and> length matched' = length [replicate ?n (1::nat)] + length [1..<length texts]"
      obtain L' gaps matched similar where vv: "v = (L', gaps, matched, similar)" by (cases v)
      have "length [1..<length texts] + 1 = length texts" using Cons.prems(5) by (cases texts) (auto simp del: upt_Suc)
      then have "length gaps = length texts" "length matched = length texts"
        using v by (simp_all add: vv del: length_upt)
      then show "yields (case v of (L', gaps, matched, similar) \<Rightarrow>
         if \<not> similar then refineMulti L' texts runs (appendMulti texts (mrBegin run) (mrEnd run) m)
         else seq (unionSlots L' texts gaps matched 0 ?n (m, mrBegin run)) (\<lambda>(m', cursor).
           if cursor \<noteq> mrEnd run then throw ''InvalidAlignmentEdits''
           else refineMulti L' texts runs m')) (\<lambda>m'. growing texts (m', q)) (\<lambda>_. True)"
        unfolding vv prod.case by (intro yields_if go [OF plain] united)
    qed
  qed
qed

lemma splitAll_yields:
  "length ns = length ts \<Longrightarrow> yields (splitAll L ts ns texts) (\<lambda>texts'. texts' = texts @ map splitText ts) (\<lambda>_. True)"
proof (induction L ts ns texts rule: splitAll.induct)
  case (1 L t ts n ns texts)
  show ?case
    unfolding splitAll.simps
  proof (rule yields_seq [OF SplitLines_is], rule yields_if, simp add: yields_throw)
    fix ls assume "ls = splitText t" "\<not> length ls \<noteq> n"
    then show "yields (splitAll L ts ns (texts @ [ls])) (\<lambda>texts'. texts' = texts @ map splitText (t # ts)) (\<lambda>_. True)"
      using 1 by (auto elim: yields_weaken)
  qed
qed (auto simp: yields_ret)

text \<open>The refinement of a map of several texts by similar lines is again a map of the same
  texts, its runs tile the lines of every text and the rows, its mask is right, and it
  never fails with a timeout.\<close>

theorem MultiWithSimilarLines_tiles:
  assumes "MultiBuild ts L w = (Inr m, w')"
  shows "case fst (MultiWithSimilarLines m ts L' v) of
      Inr m' \<Rightarrow> mmLines m' = mmLines m
        \<and> multiTiles (mmRuns m') (replicate (length ts) 0) 0 (mmLines m) (mmRows m')
        \<and> (\<forall>r \<in> set (mmRuns m'). maskOk (map splitText ts) r)
    | Inl e \<Rightarrow> e \<noteq> ''Timeout''"
proof -
  let ?texts = "map splitText ts"
  have t: "multiTiled ?texts m" by (rule yieldsD [OF MultiBuild_yields assms])
  have n: "2 \<le> length ts" "length ts \<le> 4"
    using assms by (auto simp: MultiBuild_def seq_def throw_def split: prod.splits sum.splits if_splits)
  have "yields (MultiWithSimilarLines m ts L') (multiTiled ?texts) (\<lambda>e. e \<noteq> ''Timeout'')"
    unfolding MultiWithSimilarLines_def Let_def
  proof (rule yields_if, simp add: yields_throw, rule yields_catch)
    let ?L = "L'\<lparr>maxSteps := min (maxSteps L') 4000000\<rparr>"
    show "yields (seq (splitAll ?L ts (mmLines m) []) (\<lambda>texts. refineMulti ?L texts (mmRuns m) (m\<lparr>mmRuns := [], mmRows := 0\<rparr>)))
        (multiTiled ?texts) (\<lambda>_. True)"
    proof (rule yields_seq [OF splitAll_yields])
      show "length (mmLines m) = length ts" using t by (simp add: multiTiled_def)
      fix texts assume texts: "texts = [] @ ?texts"
      have "yields (refineMulti ?L ?texts (mmRuns m) (m\<lparr>mmRuns := [], mmRows := 0\<rparr>))
          (\<lambda>m'. growing ?texts (m', mmLines m)) (\<lambda>_. True)"
        by (rule refineMulti_yields [where p = "replicate (length ts) 0" and row = 0 and rows = "mmRows m"])
           (use t texts4_split [OF n(2)] n in \<open>auto simp: multiTiled_def growing_def\<close>)
      then show "yields (refineMulti ?L texts (mmRuns m) (m\<lparr>mmRuns := [], mmRows := 0\<rparr>)) (multiTiled ?texts) (\<lambda>_. True)"
        unfolding texts append_Nil
        by (rule yields_weaken) (use t in \<open>auto simp: growing_def multiTiled_def\<close>)
    qed
    show "yields (if e \<noteq> ''Timeout'' then throw e else ret m) (multiTiled ?texts) (\<lambda>e. e \<noteq> ''Timeout'')" for e
      using t by (auto intro!: yields_if yields_throw yields_ret)
  qed
  from yields_at [OF this, of v] show ?thesis
    using t by (auto simp: multiTiled_def split: sum.splits)
qed

section \<open>A run\<close>

definition sampleMulti :: multiMap where
  "sampleMulti = \<lparr>mmLines = [2, 2], mmRuns = [mkMulti [0, 0] [1, 1] 0 1 0, mkMulti [1, 1] [2, 2] 1 2 18], mmRows = 2\<rparr>"

lemma sample_mask: "x \<noteq> y \<Longrightarrow> pairMask [x, y] = 18"
  by (simp add: pairMask_def sidePairs_def set_bit_eq_or push_bit_eq_mult)

lemma sample_load: "\<exists>w'. loadSides defaultBudget sampleLeft 0 [sampleLeft, sampleRight] [] [] w =
    (Inr ([splitText sampleLeft, splitText sampleRight], [(1, mkEdit 1 2 1 2 [CHR ''c'', LF])]), w')"
  by (simp add: engine_run budget_run defaultBudget_def mkEdit_def)

lemma seq_apply: "seq m f w = (case m w of (Inl e, w') \<Rightarrow> (Inl e, w') | (Inr v, w') \<Rightarrow> f v w')"
  by (simp add: seq_def)

lemma check_default [simp]: "check defaultBudget w = (Inr (), w\<lparr>ticks := Suc (ticks w)\<rparr>)"
  by (simp add: budget_run defaultBudget_def)

lemma sample_append:
  "appendCounts defaultBudget [splitText sampleLeft, splitText sampleRight] [1, 1] False
      (\<lparr>mmLines = [2, 2], mmRuns = [], mmRows = 0\<rparr>, [0, 0]) w =
    (Inr (\<lparr>mmLines = [2, 2], mmRuns = [mkMulti [0, 0] [1, 1] 0 1 0], mmRows = 1\<rparr>, [1, 1]), w\<lparr>ticks := Suc (ticks w)\<rparr>)"
  "appendCounts defaultBudget [splitText sampleLeft, splitText sampleRight] [1, 1] True
      (\<lparr>mmLines = [2, 2], mmRuns = [mkMulti [0, 0] [1, 1] 0 1 0], mmRows = 1\<rparr>, [1, 1]) w =
    (Inr (sampleMulti, [2, 2]), w\<lparr>ticks := Suc (ticks w)\<rparr>)"
  "appendCounts defaultBudget [splitText sampleLeft, splitText sampleRight] [0, 0] False
      (sampleMulti, [2, 2]) w = (Inr (sampleMulti, [2, 2]), w\<lparr>ticks := Suc (ticks w)\<rparr>)"
  by (simp_all add: appendCounts_def seq_def ret_def Ex_less_Suc tallest_def runSpans_def spanOf_def
      slice_def sample_mask sampleMulti_def Let_def numeral_2_eq_2)

abbreviation sampleTexts :: "str list list" where
  "sampleTexts \<equiv> [splitText sampleLeft, splitText sampleRight]"
abbreviation sampleChange :: change where
  "sampleChange \<equiv> (1, mkEdit 1 2 1 2 [CHR ''c'', LF])"
abbreviation sampleStart :: multiMap where
  "sampleStart \<equiv> \<lparr>mmLines = [2, 2], mmRuns = [], mmRows = 0\<rparr>"
abbreviation ticked :: "world \<Rightarrow> world" where
  "ticked w \<equiv> w\<lparr>ticks := Suc (ticks w)\<rparr>"

lemma sample_loop:
  "multiLoop defaultBudget sampleTexts [sampleChange] (sampleStart, [0, 0]) w =
    (Inr (sampleMulti, [2, 2]), ticked (ticked (ticked w)))"
proof -
  have grp: "growGroup (eBegin (snd sampleChange)) (eEnd (snd sampleChange)) [] = ([], 2, [])" by simp
  have ones: "replicate (length sampleTexts) (eBegin (snd sampleChange) - snd (sampleStart, [0, 0 :: nat]) ! 0) = [1, 1]"
    "replicate (length sampleTexts) (2 - eBegin (snd sampleChange)) = [1, 1]" by simp_all
  have counts: "groupCounts [sampleChange] [1, 1] w = (Inr [1, 1], w)" for w by (simp add: ret_def)
  have guard: "\<not> eBegin (snd sampleChange) < snd (sampleStart, [0, 0 :: nat]) ! 0" by simp
  show ?thesis
    unfolding multiLoop.simps(2)
    by (simp only: seq_apply sum.case check_default grp prod.case if_not_P [OF guard] ones
        sample_append(1) counts sample_append(2) multiLoop.simps(1) ret_def)
qed

lemma sample_multi: "\<exists>w'. MultiBuild [sampleLeft, sampleRight] defaultBudget world0 = (Inr sampleMulti, w')"
proof -
  obtain w2 where count: "countAll defaultBudget [sampleLeft, sampleRight] 0 (ticked world0) = (Inr 4, w2)"
    by (simp add: engine_run budget_run defaultBudget_def)
  obtain w3 where load: "loadSides defaultBudget ([sampleLeft, sampleRight] ! 0) 0 [sampleLeft, sampleRight] [] [] w2 =
    (Inr (sampleTexts, [sampleChange]), w3)"
    using sample_load by (auto simp only: nth_Cons_0)
  have reserve: "reserve defaultBudget n w = (Inr (), w)" for n w
    by (simp add: budget_run defaultBudget_def)
  have sort: "sortChanges defaultBudget [sampleChange] w = (Inr [sampleChange], w)" for w
    by (simp add: sortChanges_def defaultBudget_def ret_def seq_def)
  have guard: "\<not> (length [sampleLeft, sampleRight] < 2 \<or> 4 < length [sampleLeft, sampleRight])" by simp
  have start: "(\<lparr>mmLines = map length sampleTexts, mmRuns = [], mmRows = 0\<rparr>, replicate (length [sampleLeft, sampleRight]) 0)
      = (sampleStart, [0, 0 :: nat])" by simp
  have none: "replicate (length [sampleLeft, sampleRight]) (mmLines sampleMulti ! 0 - [2, 2] ! 0) = [0, 0]"
    "\<not> [2, 2] \<noteq> mmLines sampleMulti" by (simp_all add: sampleMulti_def)
  have "MultiBuild [sampleLeft, sampleRight] defaultBudget world0
      = (Inr sampleMulti, ticked (ticked (ticked (ticked (ticked w3)))))"
    unfolding MultiBuild_def Let_def
    by (simp only: seq_apply sum.case check_default if_not_P [OF guard] count reserve
        load prod.case sort start sample_loop none
        sample_append(3) if_not_P [OF none(2)] if_False ret_def)
  then show ?thesis by blast
qed

theorem Pair_aligned_witness:
  "\<exists>p. Pair' sampleMulti 0 1 = Inr p \<and> (\<exists>row < 2. DisplayRow p 1 1 = Inr row \<and> LineAtRow p 1 row = Inr (Some 1))"
proof -
  obtain p where p: "Pair' sampleMulti 0 1 = Inr p" by (simp add: Pair'_def sampleMulti_def)
  then have "1 < side 1 (mapLines p)" by (auto simp: Pair'_def sampleMulti_def emptyMap_def)
  moreover obtain w' where "MultiBuild [sampleLeft, sampleRight] defaultBudget world0 = (Inr sampleMulti, w')"
    using sample_multi by blast
  ultimately show ?thesis
    using Pair_aligned [OF _ p, of _ defaultBudget world0 w' 1 1] p by (auto simp: sampleMulti_def)
qed

theorem MultiWithSimilarLines_tiles_witness:
  "case fst (MultiWithSimilarLines sampleMulti [sampleLeft, sampleRight] defaultBudget world0) of
      Inr m' \<Rightarrow> mmLines m' = [2, 2] \<and> multiTiles (mmRuns m') [0, 0] 0 [2, 2] (mmRows m')
    | Inl e \<Rightarrow> e \<noteq> ''Timeout''"
proof -
  obtain w' where "MultiBuild [sampleLeft, sampleRight] defaultBudget world0 = (Inr sampleMulti, w')"
    using sample_multi by blast
  from MultiWithSimilarLines_tiles [OF this, of defaultBudget world0] show ?thesis
    by (auto simp: sampleMulti_def split: sum.splits)
qed
end
