(* ===== verification/InlineDiff.thy ===== *)
theory InlineDiff
  imports AlignmentMap
begin

text \<open>
  The inline differences of \<open>HyperCompare/core/inlineDiff.cpp\<close>: inside the changed lines
  that an edit pairs, the words that occur once on each side anchor the comparison, and
  between two anchors the grapheme clusters are compared through a bounded table.

  What Qt does is a parameter: \<open>fromUtf8\<close> the decoding into UTF-16 code units, \<open>atBoundary\<close>
  the answer of \<open>QTextBoundaryFinder\<close> and \<open>letterOrNumber\<close> the class of a scalar.
  \<open>result.cells_\<close>, which survives a timeout, is the work counter of the run (\<open>steps\<close>).

  The lemmas show that what a compared pair of lines leaves unmarked is the same text on
  both sides, that the marked ranges are in order and inside their lines, and the bounds.
\<close>

section \<open>Grapheme clusters\<close>

record qt =
  fromUtf8 :: "str \<Rightarrow> nat list"
  atBoundary :: "nat list \<Rightarrow> nat \<Rightarrow> bool"
  letterOrNumber :: "nat \<Rightarrow> bool"

type_synonym range = "nat \<times> nat"

definition byte :: "char \<Rightarrow> nat" where
  "byte c = of_char c"

definition content :: "str \<Rightarrow> str" where
  "content line =
    (let t = (if line \<noteq> [] \<and> last line = LF then butlast line else line)
     in if t \<noteq> [] \<and> last t = CR then butlast t else t)"

record graphemes =
  gText :: str
  gOffsets :: "nat list"

definition utf8Length :: "nat \<Rightarrow> nat" where
  "utf8Length lead = (if lead < 0x80 then 1 else if lead < 0xe0 then 2 else if lead < 0xf0 then 3 else 4)"

text \<open>The byte position of every UTF-16 unit, \<open>bytes\<close>.\<close>

function unitBytes :: "str \<Rightarrow> nat \<Rightarrow> nat list" where
  "unitBytes t i =
    (if length t \<le> i then [length t]
     else let lead = byte (t ! i)
       in (if 0xf0 \<le> lead then [i, i] else [i]) @ unitBytes t (i + utf8Length lead))"
  by pat_completeness auto
termination
  by (relation "measure (\<lambda>(t, i). length t - i)") (auto simp: utf8Length_def)

declare unitBytes.simps [simp del]

definition highSurrogate :: "nat \<Rightarrow> bool" where
  "highSurrogate u \<longleftrightarrow> 0xd800 \<le> u \<and> u < 0xdc00"

definition scalarAt :: "nat list \<Rightarrow> nat \<Rightarrow> nat" where
  "scalarAt us p =
    (if highSurrogate (us ! p) then (us ! p - 0xd800) * 0x400 + (us ! (p + 1) - 0xdc00) + 0x10000 else us ! p)"

function clusterOffsets :: "qt \<Rightarrow> nat list \<Rightarrow> nat list \<Rightarrow> nat \<Rightarrow> nat \<Rightarrow> nat list" where
  "clusterOffsets q us bytes p regionalRun =
    (if length us \<le> p then []
     else let scalar = scalarAt us p;
              regional = (0x1f1e6 \<le> scalar \<and> scalar \<le> 0x1f1ff);
              boundary = (if regional \<and> regionalRun \<noteq> 0 then regionalRun mod 2 = 0 else atBoundary q us p)
       in (if boundary then [bytes ! p] else [])
          @ clusterOffsets q us bytes (p + (if highSurrogate (us ! p) then 2 else 1))
              (if regional then regionalRun + 1 else 0))"
  by pat_completeness auto
termination
  by (relation "measure (\<lambda>(q, us, bytes, p, r). length us - p)") auto

declare clusterOffsets.simps [simp del]

definition Graphemes :: "qt \<Rightarrow> str \<Rightarrow> graphemes" where
  "Graphemes q t = \<lparr>gText = t, gOffsets =
    (if \<forall>c \<in> set t. byte c < 0x80 then [0..<Suc (length t)]
     else clusterOffsets q (fromUtf8 q t) (unitBytes t 0) 0 0 @ [length t])\<rparr>"

definition gSize :: "graphemes \<Rightarrow> nat" where
  "gSize g = length (gOffsets g) - 1"

definition gAt :: "graphemes \<Rightarrow> nat \<Rightarrow> str" where
  "gAt g i = slice (gText g) (gOffsets g ! i) (gOffsets g ! Suc i)"

section \<open>Words\<close>

definition leadScalar :: "str \<Rightarrow> nat" where
  "leadScalar bytes =
    (let lead = byte (hd bytes) in
     if lead < 0x80 then lead
     else let len = utf8Length lead
       in fold (\<lambda>j scalar. scalar * 64 + byte (bytes ! j) mod 64) [1..<len] (lead mod 2 ^ (7 - len)))"

definition identifierAt :: "qt \<Rightarrow> graphemes \<Rightarrow> nat \<Rightarrow> bool" where
  "identifierAt q g i \<longleftrightarrow> i < gSize g
     \<and> (let scalar = leadScalar (gAt g i) in scalar = byte (CHR ''_'') \<or> letterOrNumber q scalar)"

fun wordsFrom :: "qt \<Rightarrow> budget \<Rightarrow> graphemes \<Rightarrow> nat \<Rightarrow> nat \<Rightarrow> nat \<Rightarrow> nat \<Rightarrow> range list \<Rightarrow> range list comp" where
  "wordsFrom q L g 0 i begin count result = ret result"
| "wordsFrom q L g (Suc n) i begin count result =
    seq (onlyIf (i mod 256 = 0) (check L)) (\<lambda>_.
      if identifierAt q g i
      then wordsFrom q L g n (Suc i) (if count = 0 then i else begin) (Suc count) result
      else wordsFrom q L g n (Suc i) begin 0
             (if 2 \<le> count then result @ [(gOffsets g ! begin, gOffsets g ! i)] else result))"

definition wordsOf :: "qt \<Rightarrow> budget \<Rightarrow> graphemes \<Rightarrow> range list comp" where
  "wordsOf q L g = wordsFrom q L g (Suc (gSize g)) 0 0 0 []"

text \<open>The map of occurrences is keyed by the text of a word; a candidate occurs once on each
  side.  The candidates are sorted by their begin on the left, which differ.\<close>

definition wordText :: "graphemes \<Rightarrow> range \<Rightarrow> str" where
  "wordText g w = slice (gText g) (fst w) (snd w)"

definition onceIn :: "graphemes \<Rightarrow> range list \<Rightarrow> str \<Rightarrow> range option" where
  "onceIn g ws t = (case filter (\<lambda>w. wordText g w = t) ws of [w] \<Rightarrow> Some w | _ \<Rightarrow> None)"

definition anchorCandidates :: "graphemes \<Rightarrow> graphemes \<Rightarrow> range list \<Rightarrow> range list \<Rightarrow> (range \<times> range) list" where
  "anchorCandidates a b wa wb = List.map_filter (\<lambda>w. case onceIn a wa (wordText a w) of None \<Rightarrow> None
     | Some l \<Rightarrow> (case onceIn b wb (wordText a w) of None \<Rightarrow> None | Some r \<Rightarrow> Some (l, r))) wa"

fun checkTimes :: "budget \<Rightarrow> nat \<Rightarrow> unit comp" where
  "checkTimes L 0 = ret ()"
| "checkTimes L (Suc n) = seq (check L) (\<lambda>_. checkTimes L n)"

definition wordAnchors :: "qt \<Rightarrow> budget \<Rightarrow> graphemes \<Rightarrow> graphemes \<Rightarrow> (range \<times> range) list comp" where
  "wordAnchors q L a b =
    seq (wordsOf q L a) (\<lambda>wa. seq (wordsOf q L b) (\<lambda>wb.
      let candidates = sort_key (\<lambda>c. fst (fst c)) (anchorCandidates a b wa wb)
      in seq (checkTimes L (length candidates)) (\<lambda>_.
        ret (case longestChain (map (\<lambda>c. fst (snd c)) candidates) of None \<Rightarrow> []
             | Some js \<Rightarrow> map ((!) candidates) js))))"

section \<open>Comparing a span\<close>

definition addCells :: "nat \<Rightarrow> unit comp" where
  "addCells n = (\<lambda>w. (Inr (), w\<lparr>steps := steps w + n\<rparr>))"

definition getCells :: "nat comp" where
  "getCells = (\<lambda>w. (Inr (steps w), w))"

text \<open>The table by rows: \<open>tableRow\<close> is row \<open>i\<close> from row \<open>i + 1\<close>; entries are 16-bit.\<close>

fun tableRow :: "(nat \<Rightarrow> bool) \<Rightarrow> nat \<Rightarrow> nat list \<Rightarrow> nat list" where
  "tableRow eq j (below # rest) =
    (case rest of [] \<Rightarrow> [0]
     | diag # _ \<Rightarrow> (let row = tableRow eq (Suc j) rest
         in (if eq j then (diag + 1) mod 65536 else max below (hd row)) # row))"
| "tableRow eq j [] = []"

fun tableRows :: "budget \<Rightarrow> (nat \<Rightarrow> nat \<Rightarrow> bool) \<Rightarrow> nat \<Rightarrow> nat list list \<Rightarrow> nat list list comp" where
  "tableRows L eq 0 rows = ret rows"
| "tableRows L eq (Suc i) rows =
    seq (check L) (\<lambda>_. tableRows L eq i (tableRow (eq i) 0 (hd rows) # rows))"

text \<open>The inner loop \<open>do ... while\<close>, to the end of one difference, and the walk through the
  table; \<open>i \<le> n\<close> and \<open>j \<le> m\<close> hold throughout.\<close>

function skipDifference :: "(nat \<Rightarrow> nat \<Rightarrow> bool) \<Rightarrow> (nat \<Rightarrow> nat \<Rightarrow> nat) \<Rightarrow> nat \<Rightarrow> nat \<Rightarrow> nat \<Rightarrow> nat \<Rightarrow> nat \<times> nat" where
  "skipDifference eq at n m i j =
    (if i \<le> n \<and> j \<le> m \<and> (i < n \<or> j < m) \<and> \<not> (i < n \<and> j < m \<and> eq i j)
     then if i < n \<and> (j = m \<or> at i (j + 1) \<le> at (i + 1) j)
          then skipDifference eq at n m (i + 1) j
          else skipDifference eq at n m i (j + 1)
     else (i, j))"
  by pat_completeness auto
termination
  by (relation "measure (\<lambda>(eq, at, n, m, i, j). (n - i) + (m - j))") auto

declare skipDifference.simps [simp del]

lemma skipDifference_moves:
  "i \<le> n \<Longrightarrow> j \<le> m \<Longrightarrow> skipDifference eq at n m i j = (i', j') \<Longrightarrow>
    i \<le> i' \<and> i' \<le> n \<and> j \<le> j' \<and> j' \<le> m \<and> \<not> ((i' < n \<or> j' < m) \<and> \<not> (i' < n \<and> j' < m \<and> eq i' j'))
    \<and> (\<not> (i < n \<and> j < m \<and> eq i j) \<longrightarrow> i < n \<or> j < m \<longrightarrow> i < i' \<or> j < j')"
proof (induction eq at n m i j arbitrary: i' j' rule: skipDifference.induct)
  case (1 eq at n m i j)
  show ?case
  proof (cases "(i < n \<or> j < m) \<and> \<not> (i < n \<and> j < m \<and> eq i j)")
    case True
    then have c: "i \<le> n \<and> j \<le> m \<and> (i < n \<or> j < m) \<and> \<not> (i < n \<and> j < m \<and> eq i j)" using 1(3,4) by simp
    show ?thesis
    proof (cases "i < n \<and> (j = m \<or> at i (j + 1) \<le> at (i + 1) j)")
      case down: True
      have "skipDifference eq at n m (i + 1) j = (i', j')"
        using 1(5) by (subst (asm) skipDifference.simps) (simp only: if_P [OF c] if_P [OF down])
      then show ?thesis using 1(1) [OF c down, of i' j'] down 1(4) by auto
    next
      case right: False
      have "skipDifference eq at n m i (j + 1) = (i', j')"
        using 1(5) by (subst (asm) skipDifference.simps) (simp only: if_P [OF c] if_not_P [OF right])
      moreover have "j + 1 \<le> m" using right c by auto
      ultimately show ?thesis using 1(2) [OF c right, of i' j'] 1(3) by auto
    qed
  next
    case False
    then have "skipDifference eq at n m i j = (i, j)" by (subst skipDifference.simps) auto
    then show ?thesis using 1(3-5) False by auto
  qed
qed

function walkTable :: "(nat \<Rightarrow> nat \<Rightarrow> bool) \<Rightarrow> (nat \<Rightarrow> nat \<Rightarrow> nat) \<Rightarrow> nat \<Rightarrow> nat \<Rightarrow> nat \<Rightarrow> nat
    \<Rightarrow> range list \<Rightarrow> range list \<Rightarrow> range list \<times> range list" where
  "walkTable eq at n m i j outA outB =
    (if i \<le> n \<and> j \<le> m \<and> (i < n \<or> j < m)
     then if i < n \<and> j < m \<and> eq i j then walkTable eq at n m (i + 1) (j + 1) outA outB
          else case skipDifference eq at n m i j of (i', j') \<Rightarrow>
            walkTable eq at n m i' j' (if i' \<noteq> i then outA @ [(i, i')] else outA)
              (if j' \<noteq> j then outB @ [(j, j')] else outB)
     else (outA, outB))"
  by pat_completeness auto
termination
  by (relation "measure (\<lambda>(eq, at, n, m, i, j, a, b). (n - i) + (m - j))")
     (auto dest!: skipDifference_moves [rotated 2, OF sym])

declare walkTable.simps [simp del]

text \<open>\<open>compareSpan\<close>: \<open>None\<close> when a bound is exceeded; the ranges are byte ranges of the span.\<close>

definition byteRanges :: "graphemes \<Rightarrow> nat \<Rightarrow> range list \<Rightarrow> range list" where
  "byteRanges g pre rs = map (\<lambda>(x, y). (gOffsets g ! (pre + x), gOffsets g ! (pre + y))) rs"

fun clusterPrefix :: "str list \<Rightarrow> str list \<Rightarrow> nat" where
  "clusterPrefix (x # xs) (y # ys) = (if x = y then Suc (clusterPrefix xs ys) else 0)"
| "clusterPrefix _ _ = 0"

definition clusters :: "graphemes \<Rightarrow> str list" where
  "clusters g = map (gAt g) [0..<gSize g]"

definition compareSpan :: "qt \<Rightarrow> budget \<Rightarrow> nat \<Rightarrow> str \<Rightarrow> str \<Rightarrow> (range list \<times> range list) option comp" where
  "compareSpan q L lineStart l r =
    (if 16384 < length l \<or> 16384 < length r then ret None
     else let a = Graphemes q l; b = Graphemes q r;
              pre = clusterPrefix (clusters a) (clusters b);
              suf = clusterPrefix (rev (drop pre (clusters a))) (rev (drop pre (clusters b)));
              n = gSize a - pre - suf; m = gSize b - pre - suf
       in if n = 0 \<and> m = 0 then ret (Some ([], []))
          else if n = 0 \<or> m = 0
          then ret (Some (if n = 0 then [] else byteRanges a pre [(0, n)], if m = 0 then [] else byteRanges b pre [(0, m)]))
          else seq getCells (\<lambda>cells.
            let size = (n + 1) * (m + 1); maximum = min 4000000 (maxSteps L)
            in if 262144 - min (cells - lineStart) 262144 < size \<or> traceBytes L < size * 2
                  \<or> maximum - min cells maximum < size then ret None
               else seq (addCells size) (\<lambda>_.
                 let eq = (\<lambda>i j. gAt a (pre + i) = gAt b (pre + j))
                 in seq (tableRows L eq n [replicate (m + 1) 0]) (\<lambda>table.
                   case walkTable eq (\<lambda>i j. table ! i ! j) n m 0 0 [] [] of (ra, rb) \<Rightarrow>
                     ret (Some (byteRanges a pre ra, byteRanges b pre rb))))))"

section \<open>Comparing a line\<close>

definition moveRanges :: "nat \<Rightarrow> range list \<Rightarrow> range list" where
  "moveRanges k rs = map (\<lambda>(x, y). (x + k, y + k)) rs"

fun compareAnchors :: "qt \<Rightarrow> budget \<Rightarrow> nat \<Rightarrow> str \<Rightarrow> str \<Rightarrow> (range \<times> range) list \<Rightarrow> nat \<Rightarrow> nat
    \<Rightarrow> range list \<Rightarrow> range list \<Rightarrow> (range list \<times> range list) option comp" where
  "compareAnchors q L lineStart l r [] left right outA outB = ret (Some (outA, outB))"
| "compareAnchors q L lineStart l r ((wl, wr) # anchors) left right outA outB =
    seq (check L) (\<lambda>_.
    seq (compareSpan q L lineStart (slice l left (fst wl)) (slice r right (fst wr))) (\<lambda>found.
      case found of None \<Rightarrow> ret None
      | Some (ra, rb) \<Rightarrow> compareAnchors q L lineStart l r anchors (snd wl) (snd wr)
          (outA @ moveRanges left ra) (outB @ moveRanges right rb)))"

definition compareLine :: "qt \<Rightarrow> budget \<Rightarrow> str \<Rightarrow> str \<Rightarrow> (range list \<times> range list) option comp" where
  "compareLine q L l r =
    (if 16384 < length l \<or> 16384 < length r then ret None
     else if l = r then ret (Some ([], []))
     else seq getCells (\<lambda>lineStart.
       seq (wordAnchors q L (Graphemes q l) (Graphemes q r)) (\<lambda>anchors.
         compareAnchors q L lineStart l r (anchors @ [((length l, length l), (length r, length r))]) 0 0 [] [])))"

section \<open>The session\<close>

record inlineDiff =
  leftRanges :: "range list"
  rightRanges :: "range list"
  pairedLines :: nat
  skippedLines :: nat
  cellsUsed :: nat

record inlineState =
  isLeft :: "range list"
  isRight :: "range list"
  attempted :: nat
  completed :: nat
  rangeCount :: nat

definition pairCount :: "edit \<Rightarrow> nat" where
  "pairCount e = min (eEnd e - eBegin e) (oEnd e - oBegin e)"

fun countPairs :: "edit list \<Rightarrow> nat \<Rightarrow> nat comp" where
  "countPairs [] n = ret n"
| "countPairs (e # es) n =
    (if eEnd e < eBegin e \<or> oEnd e < oBegin e then throw ''InvalidInlineEdits'' else countPairs es (n + pairCount e))"

fun checkPairs :: "nat \<Rightarrow> nat \<Rightarrow> edit list \<Rightarrow> nat \<Rightarrow> nat \<Rightarrow> nat \<Rightarrow> nat comp" where
  "checkPairs leftLines rightLines [] previousLeft previousRight n = ret n"
| "checkPairs leftLines rightLines (e # es) previousLeft previousRight n =
    (if eBegin e < previousLeft \<or> oBegin e < previousRight \<or> eEnd e < eBegin e \<or> oEnd e < oBegin e
        \<or> leftLines < eEnd e \<or> rightLines < oEnd e then throw ''InvalidInlineEdits''
     else checkPairs leftLines rightLines es (eEnd e) (oEnd e) (n + pairCount e))"

text \<open>The paired lines of one edit; a timeout ends the session with the state reached.\<close>

fun inlineLines :: "qt \<Rightarrow> budget \<Rightarrow> str list \<Rightarrow> str list \<Rightarrow> edit \<Rightarrow> nat \<Rightarrow> nat \<Rightarrow> inlineState
    \<Rightarrow> (inlineState + inlineState) comp" where
  "inlineLines q L ls rs e 0 line st = ret (Inr st)"
| "inlineLines q L ls rs e (Suc n) line st =
    orTimeout st (check L) (\<lambda>_.
      if 4096 \<le> attempted st then ret (Inr (st\<lparr>attempted := Suc (attempted st)\<rparr>))
      else let st1 = st\<lparr>attempted := Suc (attempted st)\<rparr>; i = eBegin e + line; j = oBegin e + line
        in orTimeout st1 (compareLine q L (content (ls ! i)) (content (rs ! j))) (\<lambda>found.
          case found of None \<Rightarrow> inlineLines q L ls rs e n (Suc line) st1
          | Some (ra, rb) \<Rightarrow>
             let added = length ra + length rb in
             if 32768 - rangeCount st1 < added then inlineLines q L ls rs e n (Suc line) st1
             else inlineLines q L ls rs e n (Suc line)
               (st1\<lparr>isLeft := isLeft st1 @ moveRanges (lineOffset ls i) ra,
                 isRight := isRight st1 @ moveRanges (lineOffset rs j) rb,
                 rangeCount := rangeCount st1 + added, completed := Suc (completed st1)\<rparr>)))"

fun inlineEdits :: "qt \<Rightarrow> budget \<Rightarrow> str list \<Rightarrow> str list \<Rightarrow> edit list \<Rightarrow> inlineState \<Rightarrow> (inlineState + inlineState) comp" where
  "inlineEdits q L ls rs [] st = orTimeout st (check L) (\<lambda>_. ret (Inr st))"
| "inlineEdits q L ls rs (e # es) st =
    orTimeout st (check L) (\<lambda>_.
      seq (inlineLines q L ls rs e (pairCount e) 0 st) (\<lambda>v.
        case v of Inl st' \<Rightarrow> ret (Inl st')
        | Inr st' \<Rightarrow> if 4096 \<le> attempted st' then orTimeout st' (check L) (\<lambda>_. ret (Inr st'))
            else inlineEdits q L ls rs es st'))"

definition inlineSession :: "qt \<Rightarrow> budget \<Rightarrow> str \<Rightarrow> str \<Rightarrow> edit list \<Rightarrow> inlineDiff comp" where
  "inlineSession q L l r es =
    seq resetSteps (\<lambda>_.
    if es = []
    then seq (catch (check L) (\<lambda>e. if e \<noteq> ''Timeout'' then throw e else ret ())) (\<lambda>_.
      ret \<lparr>leftRanges = [], rightRanges = [], pairedLines = 0, skippedLines = 0, cellsUsed = 0\<rparr>)
    else seq (orTimeout () (seq (SplitLines l L defaultMaxLines defaultMaxBytes) (\<lambda>ls.
           seq (SplitLines r L defaultMaxLines defaultMaxBytes) (\<lambda>rs. ret (ls, rs)))) (\<lambda>lines. ret (Inr lines))) (\<lambda>v.
      case v of Inl _ \<Rightarrow> seq (countPairs es 0) (\<lambda>n.
             ret \<lparr>leftRanges = [], rightRanges = [], pairedLines = n, skippedLines = n, cellsUsed = 0\<rparr>)
      | Inr (ls, rs) \<Rightarrow> seq (checkPairs (length ls) (length rs) es 0 0 0) (\<lambda>n.
          seq (inlineEdits q L ls rs es \<lparr>isLeft = [], isRight = [], attempted = 0, completed = 0, rangeCount = 0\<rparr>) (\<lambda>u.
          let st = (case u of Inl st \<Rightarrow> st | Inr st \<Rightarrow> st)
          in seq getCells (\<lambda>cells. ret \<lparr>leftRanges = isLeft st, rightRanges = isRight st, pairedLines = n,
               skippedLines = n - completed st, cellsUsed = cells\<rparr>)))))"

definition BuildInlineDiff :: "qt \<Rightarrow> budget \<Rightarrow> str \<Rightarrow> str \<Rightarrow> edit list \<Rightarrow> alignmentMap option \<Rightarrow> inlineDiff comp" where
  "BuildInlineDiff q L l r es alignment =
    (case alignment of
       Some m \<Rightarrow> if similarLines m
         then inlineSession q L l r (map (\<lambda>run. mkEdit (fst (runBegin run)) (fst (runEnd run)) (snd (runBegin run)) (snd (runEnd run)) [])
                (filter runChanged (mapRuns m)))
         else inlineSession q L l r es
     | None \<Rightarrow> inlineSession q L l r es)"

section \<open>What ranges leave\<close>

fun ascending :: "nat \<Rightarrow> range list \<Rightarrow> nat \<Rightarrow> bool" where
  "ascending p [] e \<longleftrightarrow> p \<le> e"
| "ascending p ((x, y) # rs) e \<longleftrightarrow> p \<le> x \<and> x < y \<and> ascending y rs e"

fun outside :: "'a list \<Rightarrow> nat \<Rightarrow> range list \<Rightarrow> nat \<Rightarrow> 'a list" where
  "outside t p [] e = slice t p e"
| "outside t p ((x, y) # rs) e = slice t p x @ outside t y rs e"

lemma ascending_le: "ascending p rs e \<Longrightarrow> p \<le> e"
  by (induction p rs e rule: ascending.induct) auto

lemma ascending_weaken: "ascending p rs e \<Longrightarrow> p' \<le> p \<Longrightarrow> e \<le> e' \<Longrightarrow> ascending p' rs e'"
  by (induction rs arbitrary: p p') auto

lemma ascending_append: "ascending p rs q \<Longrightarrow> ascending q rs' e \<Longrightarrow> ascending p (rs @ rs') e"
  by (induction rs arbitrary: p) (auto intro: ascending_weaken)

lemma outside_extend: "ascending q rs e \<Longrightarrow> p \<le> q \<Longrightarrow> outside t p rs e = slice t p q @ outside t q rs e"
proof (cases rs)
  case Nil
  assume "ascending q rs e" "p \<le> q"
  then show ?thesis using Nil by (simp add: slice_append)
next
  case (Cons r rs')
  assume a: "ascending q rs e" "p \<le> q"
  obtain x y where r: "r = (x, y)" by (cases r)
  then have "q \<le> x" using a Cons by simp
  then have "slice t p x = slice t p q @ slice t q x" using a(2) by (simp add: slice_append)
  then show ?thesis using Cons r by simp
qed

lemma outside_append:
  "ascending p rs q \<Longrightarrow> ascending q rs' e \<Longrightarrow> outside t p (rs @ rs') e = outside t p rs q @ outside t q rs' e"
proof (induction rs arbitrary: p)
  case Nil
  then show ?case using outside_extend [of q rs' e p t] by simp
next
  case (Cons r rs)
  then show ?case by (cases r) simp
qed

lemma slice_shift: "slice (drop k t) a b = slice t (k + a) (k + b)"
  by (simp add: slice_def add.commute)

lemma outside_move: "outside t (p + k) (moveRanges k rs) (e + k) = outside (drop k t) p rs e"
  unfolding moveRanges_def by (induction rs arbitrary: p) (auto simp: slice_shift add.commute)

lemma ascending_move: "ascending p rs e \<Longrightarrow> ascending (p + k) (moveRanges k rs) (e + k)"
  unfolding moveRanges_def by (induction rs arbitrary: p) auto

lemma slice_take: "b \<le> n \<Longrightarrow> slice (take n t) a b = slice t a b"
  by (simp add: slice_take_drop min_absorb1)

lemma outside_take: "ascending p rs e \<Longrightarrow> e \<le> n \<Longrightarrow> outside (take n t) p rs e = outside t p rs e"
proof (induction rs arbitrary: p)
  case (Cons r rs)
  obtain x y where r: "r = (x, y)" by (cases r)
  have "y \<le> e" using Cons.prems(1) ascending_le [of y rs e] by (simp add: r)
  then show ?case using Cons by (simp add: r slice_take)
qed (simp add: slice_take)

section \<open>The walk\<close>

lemma walkTable_sound:
  assumes "\<And>i j. i < length xs \<Longrightarrow> j < length ys \<Longrightarrow> eq i j \<longleftrightarrow> xs ! i = ys ! j"
    and "i \<le> length xs" "j \<le> length ys"
  shows "\<exists>ra rb. walkTable eq at (length xs) (length ys) i j outA outB = (outA @ ra, outB @ rb)
    \<and> ascending i ra (length xs) \<and> ascending j rb (length ys)
    \<and> outside xs i ra (length xs) = outside ys j rb (length ys)"
  using assms
proof (induction "(length xs - i) + (length ys - j)" arbitrary: i j outA outB rule: less_induct)
  case less
  let ?n = "length xs" and ?m = "length ys"
  show ?case
  proof (cases "i < ?n \<or> j < ?m")
    case False
    then have "walkTable eq at ?n ?m i j outA outB = (outA, outB)" by (subst walkTable.simps) auto
    then show ?thesis using False less.prems(2,3) by (intro exI [of _ "[]"]) auto
  next
    case True
    then have c: "i \<le> ?n \<and> j \<le> ?m \<and> (i < ?n \<or> j < ?m)" using less.prems(2,3) by simp
    show ?thesis
    proof (cases "i < ?n \<and> j < ?m \<and> eq i j")
      case match: True
      have run: "walkTable eq at ?n ?m i j outA outB = walkTable eq at ?n ?m (i + 1) (j + 1) outA outB"
        by (subst walkTable.simps) (simp only: if_P [OF c] if_P [OF match])
      have dec: "(?n - (i + 1)) + (?m - (j + 1)) < (?n - i) + (?m - j)" using match by linarith
      obtain ra rb where r: "walkTable eq at ?n ?m (i + 1) (j + 1) outA outB = (outA @ ra, outB @ rb)"
        "ascending (i + 1) ra ?n" "ascending (j + 1) rb ?m"
        "outside xs (i + 1) ra ?n = outside ys (j + 1) rb ?m"
        using less.hyps [OF dec less.prems(1), of outA outB] match by auto
      have "outside xs i ra ?n = slice xs i (i + 1) @ outside xs (i + 1) ra ?n"
        by (rule outside_extend [OF r(2)]) simp
      moreover have "outside ys j rb ?m = slice ys j (j + 1) @ outside ys (j + 1) rb ?m"
        by (rule outside_extend [OF r(3)]) simp
      moreover have "slice xs i (i + 1) = slice ys j (j + 1)"
        using match less.prems(1) [of i j] by (simp add: slice_snoc)
      ultimately show ?thesis using run r by (auto intro: ascending_weaken)
    next
      case differ: False
      obtain i' j' where s: "skipDifference eq at ?n ?m i j = (i', j')" by fastforce
      have m: "i \<le> i'" "i' \<le> ?n" "j \<le> j'" "j' \<le> ?m" "i < i' \<or> j < j'"
        using skipDifference_moves [OF less.prems(2,3) s] differ True by auto
      define A where "A = (if i' \<noteq> i then [(i, i')] else [])"
      define B where "B = (if j' \<noteq> j then [(j, j')] else [])"
      have run: "walkTable eq at ?n ?m i j outA outB = walkTable eq at ?n ?m i' j' (outA @ A) (outB @ B)"
        by (subst walkTable.simps) (simp only: if_P [OF c] if_not_P [OF differ] s prod.case, simp add: A_def B_def)
      have dec: "(?n - i') + (?m - j') < (?n - i) + (?m - j)" using m by linarith
      obtain ra rb where r: "walkTable eq at ?n ?m i' j' (outA @ A) (outB @ B) = ((outA @ A) @ ra, (outB @ B) @ rb)"
        "ascending i' ra ?n" "ascending j' rb ?m" "outside xs i' ra ?n = outside ys j' rb ?m"
        using less.hyps [OF dec less.prems(1) m(2,4), of "outA @ A" "outB @ B"] by blast
      have "outside xs i (A @ ra) ?n = outside xs i' ra ?n" "ascending i (A @ ra) ?n"
        using m r(2) by (auto simp: A_def)
      moreover have "outside ys j (B @ rb) ?m = outside ys j' rb ?m" "ascending j (B @ rb) ?m"
        using m r(3) by (auto simp: B_def)
      ultimately show ?thesis using run r by (intro exI [of _ "A @ ra"] exI [of _ "B @ rb"]) simp
    qed
  qed
qed

section \<open>Clusters and bytes\<close>

definition clusterable :: "graphemes \<Rightarrow> bool" where
  "clusterable g \<longleftrightarrow> sorted_wrt (<) (gOffsets g) \<and> gOffsets g \<noteq> [] \<and> hd (gOffsets g) = 0
     \<and> last (gOffsets g) = length (gText g)"

lemma clusterable_ascii: "\<forall>c \<in> set t. byte c < 0x80 \<Longrightarrow> clusterable (Graphemes q t)"
  by (simp add: clusterable_def Graphemes_def hd_append del: upt_Suc)

lemma offsets_mono:
  assumes "clusterable g" "x \<le> y" "y \<le> gSize g"
  shows "gOffsets g ! x \<le> gOffsets g ! y \<and> gOffsets g ! y \<le> length (gText g) \<and> (x < y \<longrightarrow> gOffsets g ! x < gOffsets g ! y)"
proof -
  have len: "length (gOffsets g) = Suc (gSize g)" using assms(1) by (cases "gOffsets g") (simp_all add: clusterable_def gSize_def)
  have lt: "gOffsets g ! x < gOffsets g ! y" if "x < y" "y \<le> gSize g" for x y
    using assms(1) that len by (simp add: clusterable_def sorted_wrt_iff_nth_less)
  have "gOffsets g ! gSize g = length (gText g)"
    using assms(1) len by (metis clusterable_def last_conv_nth diff_Suc_1)
  then show ?thesis using lt [of x y] lt [of y "gSize g"] assms(2,3) by (cases "x = y"; cases "y = gSize g") auto
qed

lemma length_clusters [simp]: "length (clusters g) = gSize g"
  by (simp add: clusters_def)

lemma concat_clusters:
  assumes "clusterable g" "x \<le> y" "y \<le> gSize g"
  shows "concat (slice (clusters g) x y) = slice (gText g) (gOffsets g ! x) (gOffsets g ! y)"
  using assms(2,3)
proof (induction y)
  case (Suc y)
  show ?case
  proof (cases "x = Suc y")
    case False
    then have x: "x \<le> y" "y < gSize g" using Suc.prems by simp_all
    have "concat (slice (clusters g) x (Suc y)) = concat (slice (clusters g) x y) @ gAt g y"
      using x by (simp add: slice_snoc) (simp add: clusters_def)
    also have "\<dots> = slice (gText g) (gOffsets g ! x) (gOffsets g ! y) @ slice (gText g) (gOffsets g ! y) (gOffsets g ! Suc y)"
      using Suc.IH x by (simp add: gAt_def)
    also have "\<dots> = slice (gText g) (gOffsets g ! x) (gOffsets g ! Suc y)"
      using offsets_mono [OF assms(1), of x y] offsets_mono [OF assms(1), of y "Suc y"] x by (simp add: slice_append)
    finally show ?thesis .
  qed simp
qed simp

lemma ascending_bytes:
  assumes "clusterable g" "ascending p rs e" "k + e \<le> gSize g"
  shows "ascending (gOffsets g ! (k + p)) (byteRanges g k rs) (gOffsets g ! (k + e))"
  using assms(2)
proof (induction rs arbitrary: p)
  case Nil
  then show ?case using offsets_mono [OF assms(1), of "k + p" "k + e"] assms(3) by (simp add: byteRanges_def)
next
  case (Cons r rs)
  obtain x y where r: "r = (x, y)" by (cases r)
  have y: "y \<le> e" using Cons.prems ascending_le [of y rs e] by (simp add: r)
  show ?case
    using Cons.IH [of y] Cons.prems offsets_mono [OF assms(1), of "k + p" "k + x"] offsets_mono [OF assms(1), of "k + x" "k + y"] y assms(3)
    by (simp add: r byteRanges_def)
qed

lemma outside_bytes:
  assumes "clusterable g" "ascending p rs e" "k + e \<le> gSize g"
  shows "outside (gText g) (gOffsets g ! (k + p)) (byteRanges g k rs) (gOffsets g ! (k + e))
    = concat (outside (drop k (clusters g)) p rs e)"
  using assms(2)
proof (induction rs arbitrary: p)
  case Nil
  then show ?case using concat_clusters [OF assms(1), of "k + p" "k + e"] assms(3) by (simp add: byteRanges_def slice_shift)
next
  case (Cons r rs)
  obtain x y where r: "r = (x, y)" by (cases r)
  have y: "y \<le> e" using Cons.prems ascending_le [of y rs e] by (simp add: r)
  show ?case
    using Cons.IH [of y] Cons.prems concat_clusters [OF assms(1), of "k + p" "k + x"] y assms(3)
    by (simp add: r byteRanges_def slice_shift)
qed

section \<open>A compared span leaves equal text\<close>

lemma clusterPrefix_spec:
  "clusterPrefix xs ys \<le> length xs \<and> clusterPrefix xs ys \<le> length ys
    \<and> take (clusterPrefix xs ys) xs = take (clusterPrefix xs ys) ys"
  by (induction xs ys rule: clusterPrefix.induct) auto

text \<open>The ranges of one span or line: on both sides in order, and what they leave is equal.\<close>

definition leavesEqual :: "str \<Rightarrow> str \<Rightarrow> range list \<times> range list \<Rightarrow> bool" where
  "leavesEqual l r v \<longleftrightarrow> ascending 0 (fst v) (length l) \<and> ascending 0 (snd v) (length r)
     \<and> outside l 0 (fst v) (length l) = outside r 0 (snd v) (length r)"

text \<open>From cluster ranges of the middle parts to byte ranges of the texts.\<close>

lemma middle_leaves:
  assumes "clusterable a" "clusterable b"
    and "pre + n + suf = gSize a" "pre + m + suf = gSize b"
    and "take pre (clusters a) = take pre (clusters b)"
    and "drop (pre + n) (clusters a) = drop (pre + m) (clusters b)"
    and "ascending 0 ra n" "ascending 0 rb m"
    and "outside (drop pre (clusters a)) 0 ra n = outside (drop pre (clusters b)) 0 rb m"
  shows "leavesEqual (gText a) (gText b) (byteRanges a pre ra, byteRanges b pre rb)"
proof -
  have whole: "outside (gText g) 0 (byteRanges g pre rs) (length (gText g))
      = concat (take pre (clusters g)) @ concat (outside (drop pre (clusters g)) 0 rs k) @ concat (drop (pre + k) (clusters g))
      \<and> ascending 0 (byteRanges g pre rs) (length (gText g))"
    if g: "clusterable g" "pre + k + suf = gSize g" "ascending 0 rs k" for g k rs
  proof -
    let ?o = "\<lambda>i. gOffsets g ! i"
    have ends: "?o 0 = 0" "?o (gSize g) = length (gText g)"
      using g(1) by (auto simp: clusterable_def gSize_def hd_conv_nth last_conv_nth)
    have asc: "ascending (?o (pre + 0)) (byteRanges g pre rs) (?o (pre + k))"
      by (rule ascending_bytes [OF g(1,3)]) (use g(2) in simp)
    have le: "?o 0 \<le> ?o (pre + 0)" "?o (pre + k) \<le> ?o (gSize g)"
      using offsets_mono [OF g(1)] g(2) by simp_all
    have all: "ascending 0 (byteRanges g pre rs) (?o (pre + k))" by (rule ascending_weaken [OF asc]) (use le ends in simp_all)
    have "outside (gText g) 0 (byteRanges g pre rs) (length (gText g))
        = outside (gText g) 0 (byteRanges g pre rs) (?o (pre + k)) @ slice (gText g) (?o (pre + k)) (?o (gSize g))"
      using outside_append [OF all, of "[]" "length (gText g)"] le ends by simp
    moreover have "outside (gText g) 0 (byteRanges g pre rs) (?o (pre + k))
        = slice (gText g) 0 (?o (pre + 0)) @ outside (gText g) (?o (pre + 0)) (byteRanges g pre rs) (?o (pre + k))"
      by (rule outside_extend [OF asc]) simp
    moreover have "outside (gText g) (?o (pre + 0)) (byteRanges g pre rs) (?o (pre + k))
        = concat (outside (drop pre (clusters g)) 0 rs k)"
      by (rule outside_bytes [OF g(1,3)]) (use g(2) in simp)
    moreover have "slice (gText g) 0 (?o (pre + 0)) = concat (take pre (clusters g))"
      using concat_clusters [OF g(1), of 0 pre] g(2) ends by (simp add: slice_def)
    moreover have "slice (gText g) (?o (pre + k)) (?o (gSize g)) = concat (drop (pre + k) (clusters g))"
      using concat_clusters [OF g(1), of "pre + k" "gSize g"] g(2) by (simp add: slice_drop [of "clusters g", simplified])
    ultimately show ?thesis using ascending_weaken [OF all, of 0 "length (gText g)"] le ends by simp
  qed
  show ?thesis
    unfolding leavesEqual_def fst_conv snd_conv
    using whole [OF assms(1,3,7)] whole [OF assms(2,4,8)] assms(5,6,9) by simp
qed

lemma affix_parts:
  assumes "p \<le> length a" "p \<le> length b" "s \<le> length (drop p a)" "s \<le> length (drop p b)"
    and "take s (rev (drop p a)) = take s (rev (drop p b))"
  shows "drop (length a - s) a = drop (length b - s) b"
proof -
  have "drop (length a - s) a = rev (take s (rev a))" by (simp add: take_rev)
  moreover have "drop (length b - s) b = rev (take s (rev b))" by (simp add: take_rev)
  moreover have "take s (rev a) = take s (rev (drop p a))"
    using assms(1,3) by (metis append_take_drop_id length_rev rev_append take_append diff_is_0_eq take0 append_Nil2)
  moreover have "take s (rev b) = take s (rev (drop p b))"
    using assms(2,4) by (metis append_take_drop_id length_rev rev_append take_append diff_is_0_eq take0 append_Nil2)
  ultimately show ?thesis using assms(5) by simp
qed

lemma tableRows_yields: "yields (tableRows L eq n rows) (\<lambda>_. True) (envFailure L)"
  by (induction n arbitrary: rows) (auto intro!: yields_ret yields_seq [OF yields_check])

lemma yields_getCells: "yields getCells (\<lambda>_. True) E"
  by (rule yieldsI) (auto simp: getCells_def)

lemma yields_addCells: "yields (addCells n) (\<lambda>_. True) E"
  by (rule yieldsI) (auto simp: addCells_def)

lemma compareSpan_yields:
  assumes "clusterable (Graphemes q l)" "clusterable (Graphemes q r)"
  shows "yields (compareSpan q L lineStart l r) (\<lambda>v. \<forall>u. v = Some u \<longrightarrow> leavesEqual l r u) (envFailure L)"
proof (cases "16384 < length l \<or> 16384 < length r")
  case True
  then show ?thesis by (simp add: compareSpan_def yields_ret)
next
  case False
  define a where "a = Graphemes q l"
  define b where "b = Graphemes q r"
  define pre where "pre = clusterPrefix (clusters a) (clusters b)"
  define suf where "suf = clusterPrefix (rev (drop pre (clusters a))) (rev (drop pre (clusters b)))"
  define n where "n = gSize a - pre - suf"
  define m where "m = gSize b - pre - suf"
  define eq where "eq = (\<lambda>i j. gAt a (pre + i) = gAt b (pre + j))"
  have texts: "gText a = l" "gText b = r" by (simp_all add: a_def b_def Graphemes_def)
  have pre: "pre \<le> gSize a" "pre \<le> gSize b" "take pre (clusters a) = take pre (clusters b)"
    using clusterPrefix_spec [of "clusters a" "clusters b"] by (simp_all add: pre_def)
  have suf: "suf \<le> length (drop pre (clusters a))" "suf \<le> length (drop pre (clusters b))"
    "take suf (rev (drop pre (clusters a))) = take suf (rev (drop pre (clusters b)))"
    using clusterPrefix_spec [of "rev (drop pre (clusters a))" "rev (drop pre (clusters b))"] by (simp_all add: suf_def)
  have sums: "pre + n + suf = gSize a" "pre + m + suf = gSize b" using pre suf by (simp_all add: n_def m_def)
  have "pre \<le> length (clusters a)" "pre \<le> length (clusters b)" using pre by simp_all
  from affix_parts [OF this suf]
  have "drop (length (clusters a) - suf) (clusters a) = drop (length (clusters b) - suf) (clusters b)" .
  moreover have "length (clusters a) - suf = pre + n" "length (clusters b) - suf = pre + m" using sums by simp_all
  ultimately have tails: "drop (pre + n) (clusters a) = drop (pre + m) (clusters b)" by simp
  note leaves = middle_leaves [OF assms [folded a_def b_def] sums pre(3) tails, unfolded texts]
  have one: "ascending 0 (if k = 0 then [] else [(0, k)]) k
      \<and> outside t 0 (if k = 0 then [] else [(0, k)]) k = []" for k and t :: "str list"
    by simp
  have single: "leavesEqual l r (if n = 0 then [] else byteRanges a pre [(0, n)], if m = 0 then [] else byteRanges b pre [(0, m)])"
  proof -
    have bytes: "byteRanges g pre (if k = 0 then [] else [(0, k)]) = (if k = 0 then [] else byteRanges g pre [(0, k)])" for g k
      by (simp add: byteRanges_def)
    show ?thesis
      using leaves [of "if n = 0 then [] else [(0, n)]" "if m = 0 then [] else [(0, m)]"] one unfolding bytes by simp
  qed
  have none: "leavesEqual l r ([], [])" if "n = 0" "m = 0" using single that by simp
  have walk: "leavesEqual l r (byteRanges a pre ra, byteRanges b pre rb)"
    if w: "walkTable eq at n m 0 0 [] [] = (ra, rb)" for at ra rb
  proof -
    let ?xs = "take n (drop pre (clusters a))" and ?ys = "take m (drop pre (clusters b))"
    have len: "length ?xs = n" "length ?ys = m" using sums by simp_all
    have "eq i j \<longleftrightarrow> ?xs ! i = ?ys ! j" if "i < length ?xs" "j < length ?ys" for i j
      using that sums by (simp add: eq_def clusters_def)
    from walkTable_sound [of ?xs ?ys eq 0 0 at "[]" "[]", OF this] w len
    have r: "ascending 0 ra n" "ascending 0 rb m" "outside ?xs 0 ra n = outside ?ys 0 rb m" by auto
    show ?thesis
      by (rule leaves [OF r(1,2)]) (rule r(3) [unfolded outside_take [OF r(1) order_refl] outside_take [OF r(2) order_refl]])
  qed
  have table: "yields (seq (tableRows L eq n [replicate (m + 1) 0]) (\<lambda>table.
          case walkTable eq (\<lambda>i j. table ! i ! j) n m 0 0 [] [] of (ra, rb) \<Rightarrow>
            ret (Some (byteRanges a pre ra, byteRanges b pre rb))))
      (\<lambda>v. \<forall>u. v = Some u \<longrightarrow> leavesEqual l r u) (envFailure L)"
    by (rule yields_seq [OF tableRows_yields]) (auto intro!: yields_ret dest: walk split: prod.split)
  show ?thesis
    unfolding compareSpan_def if_not_P [OF False] Let_def a_def [symmetric] b_def [symmetric] pre_def [symmetric]
      suf_def [symmetric] n_def [symmetric] m_def [symmetric] eq_def [symmetric]
    by (intro yields_if yields_ret yields_seq [OF yields_getCells] yields_seq [OF yields_addCells] table)
       (use single none in simp_all)
qed

section \<open>Words and anchors\<close>

lemma ascending_member: "ascending p rs e \<Longrightarrow> w \<in> set rs \<Longrightarrow> p \<le> fst w \<and> fst w < snd w \<and> snd w \<le> e"
proof (induction p rs e rule: ascending.induct)
  case (2 p x y rs e)
  then show ?case using ascending_le [of y rs e] by auto
qed simp

lemma ascending_apart: "ascending p rs e \<Longrightarrow> u \<in> set rs \<Longrightarrow> v \<in> set rs \<Longrightarrow> fst u < fst v \<Longrightarrow> snd u \<le> fst v"
proof (induction p rs e rule: ascending.induct)
  case (2 p x y rs e)
  have tail: "ascending y rs e" and xy: "x < y" using "2.prems"(1) by simp_all
  consider "u \<in> set rs" "v \<in> set rs" | "u = (x, y)" "v \<in> set rs" | "v = (x, y)" "u \<in> set rs" | "u = (x, y)" "v = (x, y)"
    using "2.prems"(2,3) by auto
  then show ?case
  proof cases
    case 1
    then show ?thesis using "2.IH" [OF tail] "2.prems"(4) by blast
  next
    case 2
    then show ?thesis using ascending_member [OF tail, of v] by simp
  next
    case 3
    then show ?thesis using ascending_member [OF tail, of u] xy "2.prems"(4) by simp
  qed (use "2.prems"(4) in simp)
qed simp

lemma ascending_same: "ascending p rs e \<Longrightarrow> u \<in> set rs \<Longrightarrow> v \<in> set rs \<Longrightarrow> fst u = fst v \<Longrightarrow> u = v"
proof (induction p rs e rule: ascending.induct)
  case (2 p x y rs e)
  have tail: "ascending y rs e" and xy: "x < y" using "2.prems"(1) by simp_all
  consider "u \<in> set rs" "v \<in> set rs" | "u = (x, y)" "v \<in> set rs" | "v = (x, y)" "u \<in> set rs" | "u = v"
    using "2.prems"(2,3) by auto
  then show ?case
  proof cases
    case 1
    then show ?thesis using "2.IH" [OF tail] "2.prems"(4) by blast
  next
    case 2
    then show ?thesis using ascending_member [OF tail, of v] xy "2.prems"(4) by simp
  next
    case 3
    then show ?thesis using ascending_member [OF tail, of u] xy "2.prems"(4) by simp
  qed
qed simp

lemma wordsFrom_yields:
  assumes "clusterable g" "i + n = Suc (gSize g)" "0 < count \<longrightarrow> start + count = i \<and> i \<le> gSize g"
    and "ascending 0 result (gOffsets g ! min (if count = 0 then i else start) (gSize g))"
  shows "yields (wordsFrom q L g n i start count result) (\<lambda>ws. ascending 0 ws (length (gText g))) (envFailure L)"
  using assms(2-)
proof (induction n arbitrary: i start count result)
  case 0
  have "gOffsets g ! min (if count = 0 then i else start) (gSize g) \<le> length (gText g)"
    using offsets_mono [OF assms(1), of "gSize g" "gSize g"] offsets_mono [OF assms(1), of "min (if count = 0 then i else start) (gSize g)"]
    by simp
  then show ?case using ascending_weaken [OF 0(3), of 0] by (simp add: yields_ret)
next
  case (Suc n)
  have i: "i \<le> gSize g" using Suc.prems(1) by simp
  have step: "yields (if identifierAt q g i
      then wordsFrom q L g n (Suc i) (if count = 0 then i else start) (Suc count) result
      else wordsFrom q L g n (Suc i) start 0
             (if 2 \<le> count then result @ [(gOffsets g ! start, gOffsets g ! i)] else result))
      (\<lambda>ws. ascending 0 ws (length (gText g))) (envFailure L)"
  proof (rule yields_if)
    assume "identifierAt q g i"
    then have "Suc i \<le> gSize g" by (simp add: identifierAt_def)
    then show "yields (wordsFrom q L g n (Suc i) (if count = 0 then i else start) (Suc count) result)
        (\<lambda>ws. ascending 0 ws (length (gText g))) (envFailure L)"
      by (intro Suc.IH) (use Suc.prems i in \<open>auto split: if_splits\<close>)
  next
    have le: "gOffsets g ! i \<le> gOffsets g ! min (Suc i) (gSize g)"
      using offsets_mono [OF assms(1), of i "min (Suc i) (gSize g)"] i by simp
    show "yields (wordsFrom q L g n (Suc i) start 0
             (if 2 \<le> count then result @ [(gOffsets g ! start, gOffsets g ! i)] else result))
        (\<lambda>ws. ascending 0 ws (length (gText g))) (envFailure L)"
    proof (rule Suc.IH)
      show "ascending 0 (if 2 \<le> count then result @ [(gOffsets g ! start, gOffsets g ! i)] else result)
          (gOffsets g ! min (if 0 = (0::nat) then Suc i else start) (gSize g))"
      proof (cases "2 \<le> count")
        case True
        then have b: "start < i" "start \<le> gSize g" using Suc.prems(2) i by auto
        have "ascending 0 result (gOffsets g ! start)" using Suc.prems(3) True b(2) by (simp add: min_absorb1)
        moreover have "ascending (gOffsets g ! start) [(gOffsets g ! start, gOffsets g ! i)] (gOffsets g ! min (Suc i) (gSize g))"
          using offsets_mono [OF assms(1), of start i] b(1) i le by simp
        ultimately show ?thesis using ascending_append True by simp
      next
        case False
        have "gOffsets g ! min (if count = 0 then i else start) (gSize g) \<le> gOffsets g ! min (Suc i) (gSize g)"
          using offsets_mono [OF assms(1), of "min (if count = 0 then i else start) (gSize g)" "min (Suc i) (gSize g)"]
            Suc.prems(2) i by auto
        then show ?thesis using ascending_weaken [OF Suc.prems(3), of 0] False by simp
      qed
    qed (use Suc.prems in auto)
  qed
  show ?case
    unfolding wordsFrom.simps
    by (rule yields_seq [OF yields_onlyIf [OF yields_check]]) (simp, rule step)
qed

lemma wordsOf_yields:
  assumes "clusterable g"
  shows "yields (wordsOf q L g) (\<lambda>ws. ascending 0 ws (length (gText g))) (envFailure L)"
  unfolding wordsOf_def by (rule wordsFrom_yields [OF assms]) simp_all

lemma onceIn_Some: "onceIn g ws t = Some w \<Longrightarrow> w \<in> set ws \<and> wordText g w = t"
proof -
  assume "onceIn g ws t = Some w"
  then have "filter (\<lambda>w. wordText g w = t) ws = [w]" by (auto simp: onceIn_def split: list.splits)
  then have "w \<in> set (filter (\<lambda>w. wordText g w = t) ws)" by simp
  then show ?thesis by simp
qed

lemma anchorCandidates_member:
  assumes "c \<in> set (anchorCandidates a b wa wb)"
  shows "fst c \<in> set wa \<and> snd c \<in> set wb \<and> wordText a (fst c) = wordText b (snd c)
    \<and> onceIn b wb (wordText a (fst c)) = Some (snd c)"
proof -
  from assms obtain w l r where w: "onceIn a wa (wordText a w) = Some l" "onceIn b wb (wordText a w) = Some r" "c = (l, r)"
    by (auto simp: anchorCandidates_def map_filter_def split: option.splits)
  then show ?thesis using onceIn_Some [OF w(1)] onceIn_Some [OF w(2)] by simp
qed

fun anchored :: "str \<Rightarrow> str \<Rightarrow> nat \<Rightarrow> nat \<Rightarrow> (range \<times> range) list \<Rightarrow> bool" where
  "anchored l r p q [] \<longleftrightarrow> p \<le> length l \<and> q \<le> length r"
| "anchored l r p q ((wl, wr) # as) \<longleftrightarrow> p \<le> fst wl \<and> fst wl \<le> snd wl \<and> snd wl \<le> length l
     \<and> q \<le> fst wr \<and> fst wr \<le> snd wr \<and> snd wr \<le> length r
     \<and> slice l (fst wl) (snd wl) = slice r (fst wr) (snd wr) \<and> anchored l r (snd wl) (snd wr) as"

lemma anchored_of_sorted:
  assumes "sorted_wrt (\<lambda>u v. snd (fst u) \<le> fst (fst v) \<and> snd (snd u) \<le> fst (snd v)) as"
    and "\<forall>c \<in> set as. p \<le> fst (fst c) \<and> q \<le> fst (snd c) \<and> fst (fst c) \<le> snd (fst c) \<and> snd (fst c) \<le> length l
      \<and> fst (snd c) \<le> snd (snd c) \<and> snd (snd c) \<le> length r
      \<and> slice l (fst (fst c)) (snd (fst c)) = slice r (fst (snd c)) (snd (snd c))"
    and "p \<le> length l" "q \<le> length r"
  shows "anchored l r p q as"
  using assms
proof (induction as arbitrary: p q)
  case (Cons c as)
  obtain wl wr where c: "c = (wl, wr)" by (cases c)
  have "anchored l r (snd wl) (snd wr) as"
    by (rule Cons.IH) (use Cons.prems(1,2) in \<open>auto simp: c\<close>)
  then show ?case using Cons.prems(2) by (simp add: c)
qed simp

lemma checkTimes_yields: "yields (checkTimes L n) (\<lambda>_. True) (envFailure L)"
  by (induction n) (auto intro!: yields_ret yields_seq [OF yields_check])

lemma wordAnchors_yields:
  assumes "clusterable a" "clusterable b"
  shows "yields (wordAnchors q L a b) (anchored (gText a) (gText b) 0 0) (envFailure L)"
  unfolding wordAnchors_def Let_def
proof (rule yields_seq [OF wordsOf_yields [OF assms(1)]], rule yields_seq [OF wordsOf_yields [OF assms(2)]],
    rule yields_seq [OF checkTimes_yields], rule yields_ret)
  fix wa wb assume wa: "ascending 0 wa (length (gText a))" and wb: "ascending 0 wb (length (gText b))"
  define cs where "cs = sort_key (\<lambda>c. fst (fst c)) (anchorCandidates a b wa wb)"
  obtain js where js: "longestChain (map (\<lambda>c. fst (snd c)) cs) = Some js" "rising (map (\<lambda>c. fst (snd c)) cs) js"
    using longestChain_spec by blast
  then have bound: "\<forall>j \<in> set js. j < length cs" by (auto simp: rising_def)
  have mem: "fst c \<in> set wa \<and> snd c \<in> set wb \<and> wordText a (fst c) = wordText b (snd c)
      \<and> onceIn b wb (wordText a (fst c)) = Some (snd c)" if "c \<in> set cs" for c
  proof -
    have "c \<in> set (anchorCandidates a b wa wb)" using that by (simp add: cs_def)
    from anchorCandidates_member [OF this] show ?thesis .
  qed
  have sorted: "sorted (map (\<lambda>c. fst (fst c)) cs)" by (simp add: cs_def)
  have "sorted_wrt (\<lambda>u v. snd (fst u) \<le> fst (fst v) \<and> snd (snd u) \<le> fst (snd v)) (map ((!) cs) js)"
    unfolding sorted_wrt_map
  proof (rule sorted_wrt_mono_rel [OF _ js(2) [unfolded rising_def, THEN conjunct2]])
    fix x y assume xy: "x \<in> set js" "y \<in> set js"
      and less: "x < y \<and> map (\<lambda>c. fst (snd c)) cs ! x < map (\<lambda>c. fst (snd c)) cs ! y"
    then have b: "x < length cs" "y < length cs" using bound by simp_all
    then have right: "fst (snd (cs ! x)) < fst (snd (cs ! y))" using less nth_map [OF b(1)] nth_map [OF b(2)] by metis
    have mx: "cs ! x \<in> set cs" and my: "cs ! y \<in> set cs" using b by simp_all
    have "fst (fst (cs ! x)) \<le> fst (fst (cs ! y))"
      using sorted less b by (simp add: sorted_iff_nth_mono)
    moreover have "fst (fst (cs ! x)) \<noteq> fst (fst (cs ! y))"
    proof
      assume "fst (fst (cs ! x)) = fst (fst (cs ! y))"
      then have "fst (cs ! x) = fst (cs ! y)" using ascending_same [OF wa] mem [OF mx] mem [OF my] by blast
      then have "snd (cs ! x) = snd (cs ! y)" using mem [OF mx] mem [OF my] by (metis option.inject)
      then show False using right by simp
    qed
    ultimately have "fst (fst (cs ! x)) < fst (fst (cs ! y))" by simp
    then show "snd (fst (cs ! x)) \<le> fst (fst (cs ! y)) \<and> snd (snd (cs ! x)) \<le> fst (snd (cs ! y))"
      using ascending_apart [OF wa] ascending_apart [OF wb] mem [OF mx] mem [OF my] right by blast
  qed
  then have "anchored (gText a) (gText b) 0 0 (map ((!) cs) js)"
  proof (rule anchored_of_sorted)
    show "\<forall>c \<in> set (map ((!) cs) js). 0 \<le> fst (fst c) \<and> 0 \<le> fst (snd c) \<and> fst (fst c) \<le> snd (fst c)
      \<and> snd (fst c) \<le> length (gText a) \<and> fst (snd c) \<le> snd (snd c) \<and> snd (snd c) \<le> length (gText b)
      \<and> slice (gText a) (fst (fst c)) (snd (fst c)) = slice (gText b) (fst (snd c)) (snd (snd c))"
    proof
      fix c assume "c \<in> set (map ((!) cs) js)"
      then have "c \<in> set cs" using bound by auto
      from mem [OF this] show "0 \<le> fst (fst c) \<and> 0 \<le> fst (snd c) \<and> fst (fst c) \<le> snd (fst c)
        \<and> snd (fst c) \<le> length (gText a) \<and> fst (snd c) \<le> snd (snd c) \<and> snd (snd c) \<le> length (gText b)
        \<and> slice (gText a) (fst (fst c)) (snd (fst c)) = slice (gText b) (fst (snd c)) (snd (snd c))"
        using ascending_member [OF wa, of "fst c"] ascending_member [OF wb, of "snd c"] by (simp add: wordText_def)
    qed
  qed simp_all
  then show "anchored (gText a) (gText b) 0 0
      (case longestChain (map (\<lambda>c. fst (snd c)) (sort_key (\<lambda>c. fst (fst c)) (anchorCandidates a b wa wb))) of
        None \<Rightarrow> [] | Some js \<Rightarrow> map ((!) (sort_key (\<lambda>c. fst (fst c)) (anchorCandidates a b wa wb))) js)"
    using js(1) by (simp add: cs_def)
qed

section \<open>A compared line leaves equal text\<close>

lemma set_slice_inline: "set (slice t a b) \<subseteq> set t"
  unfolding slice_def by (meson set_drop_subset set_take_subset subset_trans)

lemma anchored_bounds: "anchored l r p q as \<Longrightarrow> p \<le> length l \<and> q \<le> length r"
  by (induction l r p q as rule: anchored.induct) auto

text \<open>The part of the line up to \<open>p\<close> and \<open>q\<close> is done.\<close>

definition doneTo :: "str \<Rightarrow> str \<Rightarrow> nat \<Rightarrow> nat \<Rightarrow> range list \<Rightarrow> range list \<Rightarrow> bool" where
  "doneTo l r p q outA outB \<longleftrightarrow> ascending 0 outA p \<and> ascending 0 outB q \<and> outside l 0 outA p = outside r 0 outB q"

lemma doneTo_step:
  assumes "doneTo l r p q outA outB" "p \<le> x" "x \<le> x'" "x' \<le> length l" "q \<le> y" "y \<le> y'" "y' \<le> length r"
    and "slice l x x' = slice r y y'" "leavesEqual (slice l p x) (slice r q y) (ra, rb)"
  shows "doneTo l r x' y' (outA @ moveRanges p ra) (outB @ moveRanges q rb)"
proof -
  have one: "ascending 0 (out @ moveRanges p ra) x'
      \<and> outside t 0 (out @ moveRanges p ra) x' = outside t 0 out p @ outside (slice t p x) 0 ra (x - p) @ slice t x x'"
    if "ascending 0 out p" "p \<le> x" "x \<le> x'" "ascending 0 ra (x - p)" for t :: str and out ra p x x'
  proof -
    have moved: "ascending p (moveRanges p ra) x" using ascending_move [OF that(4), of p] that(2) by simp
    have tail: "ascending p (moveRanges p ra) x'" by (rule ascending_weaken [OF moved order_refl that(3)])
    have "outside t p (moveRanges p ra) x' = outside t p (moveRanges p ra) x @ slice t x x'"
      using outside_append [OF moved, of "[]" x' t] that(3) by simp
    moreover have "outside t p (moveRanges p ra) x = outside (drop p t) 0 ra (x - p)"
      using outside_move [of t 0 p ra "x - p"] that(2) by simp
    moreover have "outside (drop p t) 0 ra (x - p) = outside (slice t p x) 0 ra (x - p)"
      unfolding slice_def using outside_take [OF that(4) order_refl, of "drop p t"] by (rule sym)
    ultimately show ?thesis
      using ascending_append [OF that(1) tail] outside_append [OF that(1) tail, of t] by simp
  qed
  have "length (slice l p x) = x - p" "length (slice r q y) = y - q" using assms(2-7) by simp_all
  then have l: "ascending 0 ra (x - p)" "ascending 0 rb (y - q)"
    "outside (slice l p x) 0 ra (x - p) = outside (slice r q y) 0 rb (y - q)"
    using assms(9) by (simp_all add: leavesEqual_def)
  have d: "ascending 0 outA p" "ascending 0 outB q" "outside l 0 outA p = outside r 0 outB q"
    using assms(1) by (simp_all add: doneTo_def)
  show ?thesis
    using one [OF d(1) assms(2,3) l(1), of l] one [OF d(2) assms(5,6) l(2), of r] d(3) l(3) assms(8)
    by (simp add: doneTo_def)
qed

lemma compareAnchors_yields:
  assumes "\<forall>t. set t \<subseteq> set l \<union> set r \<longrightarrow> clusterable (Graphemes q t)"
    and "anchored l r left right (anchors @ [((length l, length l), (length r, length r))])"
    and "doneTo l r left right outA outB"
  shows "yields (compareAnchors q L lineStart l r (anchors @ [((length l, length l), (length r, length r))]) left right outA outB)
    (\<lambda>v. \<forall>u. v = Some u \<longrightarrow> leavesEqual l r u) (envFailure L)"
  using assms(2,3)
proof (induction anchors arbitrary: left right outA outB)
  have "set (slice l a b) \<subseteq> set l \<union> set r" "set (slice r a b) \<subseteq> set l \<union> set r" for a b
    using set_slice_inline [of l a b] set_slice_inline [of r a b] by blast+
  then have clusters: "clusterable (Graphemes q (slice l a b))" "clusterable (Graphemes q (slice r a b))" for a b
    using assms(1) by blast+
  {
    case Nil
    have step: "leavesEqual l r (outA @ moveRanges left ra, outB @ moveRanges right rb)"
      if "leavesEqual (slice l left (length l)) (slice r right (length r)) (ra, rb)" for ra rb
    proof -
      have "doneTo l r (length l) (length r) (outA @ moveRanges left ra) (outB @ moveRanges right rb)"
        by (rule doneTo_step [OF Nil(2) _ _ _ _ _ _ _ that]) (use Nil(1) in simp_all)
      then show ?thesis by (simp add: doneTo_def leavesEqual_def)
    qed
    show ?case
      unfolding append_Nil compareAnchors.simps fst_conv snd_conv
      by (rule yields_seq [OF yields_check], simp, rule yields_seq [OF compareSpan_yields [OF clusters]])
         (auto simp del: split_paired_All intro!: yields_option yields_ret step)
  next
    case (Cons c anchors)
    obtain wl wr where c: "c = (wl, wr)" by (cases c)
    have a: "left \<le> fst wl" "fst wl \<le> snd wl" "snd wl \<le> length l" "right \<le> fst wr" "fst wr \<le> snd wr" "snd wr \<le> length r"
      "slice l (fst wl) (snd wl) = slice r (fst wr) (snd wr)"
      "anchored l r (snd wl) (snd wr) (anchors @ [((length l, length l), (length r, length r))])"
      using Cons.prems(1) by (simp_all add: c)
    have step: "yields (compareAnchors q L lineStart l r (anchors @ [((length l, length l), (length r, length r))])
          (snd wl) (snd wr) (outA @ moveRanges left ra) (outB @ moveRanges right rb))
        (\<lambda>v. \<forall>u. v = Some u \<longrightarrow> leavesEqual l r u) (envFailure L)"
      if "leavesEqual (slice l left (fst wl)) (slice r right (fst wr)) (ra, rb)" for ra rb
      by (rule Cons.IH [OF a(8)], rule doneTo_step [OF Cons.prems(2) a(1-7) that])
    show ?case
      unfolding c append_Cons compareAnchors.simps
      by (rule yields_seq [OF yields_check], simp, rule yields_seq [OF compareSpan_yields [OF clusters]])
         (auto simp del: split_paired_All intro!: yields_option yields_ret step)
  }
qed

lemma anchored_end: "anchored l r p q as \<Longrightarrow> anchored l r p q (as @ [((length l, length l), (length r, length r))])"
  by (induction l r p q as rule: anchored.induct) auto

lemma compareLine_yields:
  assumes "\<forall>t. set t \<subseteq> set l \<union> set r \<longrightarrow> clusterable (Graphemes q t)"
  shows "yields (compareLine q L l r) (\<lambda>v. \<forall>u. v = Some u \<longrightarrow> leavesEqual l r u) (envFailure L)"
proof -
  have texts: "gText (Graphemes q l) = l" "gText (Graphemes q r) = r" by (simp_all add: Graphemes_def)
  have "clusterable (Graphemes q l)" "clusterable (Graphemes q r)" using assms by simp_all
  note anchors = wordAnchors_yields [OF this, of q L, unfolded texts]
  have start: "doneTo l r 0 0 [] []" by (simp add: doneTo_def)
  have same: "leavesEqual l l ([], [])" by (simp add: leavesEqual_def)
  show ?thesis
    unfolding compareLine_def
    by (intro yields_if yields_ret yields_seq [OF yields_getCells] yields_seq [OF anchors]
        compareAnchors_yields [OF assms] anchored_end start) (use same in auto)
qed

section \<open>The session\<close>

fun pairsFrom :: "nat \<Rightarrow> nat \<Rightarrow> nat \<Rightarrow> nat \<Rightarrow> edit list \<Rightarrow> bool" where
  "pairsFrom leftLines rightLines p q [] \<longleftrightarrow> True"
| "pairsFrom leftLines rightLines p q (e # es) \<longleftrightarrow> p \<le> eBegin e \<and> q \<le> oBegin e \<and> eBegin e \<le> eEnd e \<and> oBegin e \<le> oEnd e
     \<and> eEnd e \<le> leftLines \<and> oEnd e \<le> rightLines \<and> pairsFrom leftLines rightLines (eEnd e) (oEnd e) es"

lemma checkPairs_yields:
  "yields (checkPairs leftLines rightLines es p q n)
     (\<lambda>n'. pairsFrom leftLines rightLines p q es \<and> n' = n + sum_list (map pairCount es)) (\<lambda>e. e = ''InvalidInlineEdits'')"
proof (induction es arbitrary: p q n)
  case (Cons e es)
  show ?case
    unfolding checkPairs.simps
    by (rule yields_if, simp add: yields_throw, rule yields_weaken [OF Cons.IH [of "eEnd e" "oEnd e" "n + pairCount e"]]) auto
qed (simp add: yields_ret)

text \<open>The ranges found so far end before the given lines, and the counters are right.\<close>

definition inlineInv :: "str list \<Rightarrow> str list \<Rightarrow> nat \<Rightarrow> nat \<Rightarrow> nat \<Rightarrow> inlineState \<Rightarrow> bool" where
  "inlineInv ls rs i j bound st \<longleftrightarrow> ascending 0 (isLeft st) (lineOffset ls i) \<and> ascending 0 (isRight st) (lineOffset rs j)
     \<and> rangeCount st = length (isLeft st) + length (isRight st) \<and> rangeCount st \<le> 32768 \<and> completed st \<le> bound"

lemma inlineInv_weaken:
  "inlineInv ls rs i j n st \<Longrightarrow> i \<le> i' \<Longrightarrow> j \<le> j' \<Longrightarrow> n \<le> n' \<Longrightarrow> inlineInv ls rs i' j' n' st"
  unfolding inlineInv_def by (auto intro: ascending_weaken lineOffset_mono)

lemma content_le: "length (content t) \<le> length t"
  by (simp add: content_def Let_def)

lemma set_content: "set (content t) \<subseteq> set t"
  unfolding content_def Let_def by (auto dest: in_set_butlastD)

lemma inlineInv_pair:
  assumes "inlineInv ls rs i j n st" "i < length ls" "j < length rs"
    and "leavesEqual (content (ls ! i)) (content (rs ! j)) (ra, rb)" "length ra + length rb \<le> 32768 - rangeCount st"
  shows "inlineInv ls rs (Suc i) (Suc j) (Suc n) (st\<lparr>isLeft := isLeft st @ moveRanges (lineOffset ls i) ra,
    isRight := isRight st @ moveRanges (lineOffset rs j) rb,
    rangeCount := rangeCount st + (length ra + length rb), completed := Suc (completed st)\<rparr>)"
proof -
  have one: "ascending 0 (out @ moveRanges (lineOffset ts i) rr) (lineOffset ts (Suc i))"
    if "ascending 0 out (lineOffset ts i)" "ascending 0 rr (length (content (ts ! i)))" "i < length ts" for ts i out rr
  proof (rule ascending_append [OF that(1)])
    have "lineOffset ts (Suc i) = lineOffset ts i + length (ts ! i)"
      using that(3) by (simp add: lineOffset_def take_Suc_conv_app_nth)
    then show "ascending (lineOffset ts i) (moveRanges (lineOffset ts i) rr) (lineOffset ts (Suc i))"
      using ascending_move [OF that(2), of "lineOffset ts i"] content_le [of "ts ! i"]
      by (auto intro: ascending_weaken)
  qed
  have "length (moveRanges k rr) = length rr" for k rr by (simp add: moveRanges_def)
  moreover have st: "ascending 0 (isLeft st) (lineOffset ls i)" "ascending 0 (isRight st) (lineOffset rs j)"
    "rangeCount st = length (isLeft st) + length (isRight st)" "rangeCount st \<le> 32768" "completed st \<le> n"
    using assms(1) by (simp_all add: inlineInv_def)
  moreover have "ascending 0 ra (length (content (ls ! i)))" "ascending 0 rb (length (content (rs ! j)))"
    using assms(4) by (simp_all add: leavesEqual_def)
  note one [OF st(1) this(1) assms(2)] one [OF st(2) this(2) assms(3)]
  moreover have "rangeCount st + (length ra + length rb) \<le> 32768" using st(4) assms(5) by linarith
  ultimately show ?thesis by (simp add: inlineInv_def)
qed

definition inlineDone :: "str list \<Rightarrow> str list \<Rightarrow> nat \<Rightarrow> inlineState \<Rightarrow> bool" where
  "inlineDone ls rs n st \<longleftrightarrow> inlineInv ls rs (length ls) (length rs) n st"

lemma inlineLines_yields:
  assumes clusters: "\<forall>t. set t \<subseteq> set (concat ls) \<union> set (concat rs) \<longrightarrow> clusterable (Graphemes q t)"
    and "eBegin e + line + n \<le> length ls" "oBegin e + line + n \<le> length rs"
    and "inlineInv ls rs (eBegin e + line) (oBegin e + line) k st"
  shows "yields (inlineLines q L ls rs e n line st)
    (\<lambda>v. case v of Inl st' \<Rightarrow> inlineDone ls rs (k + n) st'
       | Inr st' \<Rightarrow> inlineInv ls rs (eBegin e + line + n) (oBegin e + line + n) (k + n) st')
    (\<lambda>e. e \<noteq> ''Timeout'')"
  using assms(2-)
proof (induction n arbitrary: line k st)
  case 0
  then show ?case by (simp add: yields_ret)
next
  case (Suc n)
  let ?i = "eBegin e + line" and ?j = "oBegin e + line"
  let ?P = "\<lambda>v. case v of Inl st' \<Rightarrow> inlineDone ls rs (k + Suc n) st'
       | Inr st' \<Rightarrow> inlineInv ls rs (eBegin e + line + Suc n) (oBegin e + line + Suc n) (k + Suc n) st'"
  define st1 where "st1 = st\<lparr>attempted := Suc (attempted st)\<rparr>"
  have inv: "inlineInv ls rs ?i ?j k st1" "inlineInv ls rs ?i ?j k st"
    using Suc.prems(3) by (simp_all add: inlineInv_def st1_def)
  have ij: "?i < length ls" "?j < length rs" using Suc.prems(1,2) by simp_all
  have stop: "inlineDone ls rs (k + Suc n) st1" "inlineDone ls rs (k + Suc n) st"
    unfolding inlineDone_def using inv ij by (auto intro: inlineInv_weaken)
  have go: "yields (inlineLines q L ls rs e n (Suc line) st2) ?P (\<lambda>e. e \<noteq> ''Timeout'')"
    if "inlineInv ls rs (Suc ?i) (Suc ?j) (Suc k) st2" for st2
  proof -
    have "eBegin e + Suc line + n \<le> length ls" "oBegin e + Suc line + n \<le> length rs"
      using Suc.prems(1,2) by simp_all
    from Suc.IH [OF this, of "Suc k" st2] that show ?thesis
      unfolding add_Suc_right add_Suc by blast
  qed
  have next_line: "inlineInv ls rs (Suc ?i) (Suc ?j) (Suc k) st1" using inv(1) by (auto intro: inlineInv_weaken)
  have sets: "\<forall>t. set t \<subseteq> set (content (ls ! ?i)) \<union> set (content (rs ! ?j)) \<longrightarrow> clusterable (Graphemes q t)"
  proof (intro allI impI)
    fix t assume t: "set t \<subseteq> set (content (ls ! ?i)) \<union> set (content (rs ! ?j))"
    have "set (ls ! ?i) \<subseteq> set (concat ls)" "set (rs ! ?j) \<subseteq> set (concat rs)"
      using nth_mem [OF ij(1)] nth_mem [OF ij(2)] by auto
    then have "set t \<subseteq> set (concat ls) \<union> set (concat rs)" using t set_content by blast
    then show "clusterable (Graphemes q t)" using clusters by blast
  qed
  have compared: "yields (orTimeout st1 (compareLine q L (content (ls ! ?i)) (content (rs ! ?j))) (\<lambda>found.
          case found of None \<Rightarrow> inlineLines q L ls rs e n (Suc line) st1
          | Some (ra, rb) \<Rightarrow>
             let added = length ra + length rb in
             if 32768 - rangeCount st1 < added then inlineLines q L ls rs e n (Suc line) st1
             else inlineLines q L ls rs e n (Suc line)
               (st1\<lparr>isLeft := isLeft st1 @ moveRanges (lineOffset ls ?i) ra,
                 isRight := isRight st1 @ moveRanges (lineOffset rs ?j) rb,
                 rangeCount := rangeCount st1 + added, completed := Suc (completed st1)\<rparr>))) ?P (\<lambda>e. e \<noteq> ''Timeout'')"
  proof (rule yields_orTimeout [OF compareLine_yields [OF sets]])
    fix found :: "(range list \<times> range list) option"
    assume f: "\<forall>u. found = Some u \<longrightarrow> leavesEqual (content (ls ! ?i)) (content (rs ! ?j)) u"
    show "yields (case found of None \<Rightarrow> inlineLines q L ls rs e n (Suc line) st1
          | Some (ra, rb) \<Rightarrow>
             let added = length ra + length rb in
             if 32768 - rangeCount st1 < added then inlineLines q L ls rs e n (Suc line) st1
             else inlineLines q L ls rs e n (Suc line)
               (st1\<lparr>isLeft := isLeft st1 @ moveRanges (lineOffset ls ?i) ra,
                 isRight := isRight st1 @ moveRanges (lineOffset rs ?j) rb,
                 rangeCount := rangeCount st1 + added, completed := Suc (completed st1)\<rparr>)) ?P (\<lambda>e. e \<noteq> ''Timeout'')"
    proof (rule yields_option)
      show "yields (inlineLines q L ls rs e n (Suc line) st1) ?P (\<lambda>e. e \<noteq> ''Timeout'')" by (rule go [OF next_line])
      fix u assume u: "found = Some u"
      obtain ra rb where r: "u = (ra, rb)" by (cases u)
      have "leavesEqual (content (ls ! ?i)) (content (rs ! ?j)) (ra, rb)" using f u r by blast
      from inlineInv_pair [OF inv(1) ij this]
      show "yields (case u of (ra, rb) \<Rightarrow>
             let added = length ra + length rb in
             if 32768 - rangeCount st1 < added then inlineLines q L ls rs e n (Suc line) st1
             else inlineLines q L ls rs e n (Suc line)
               (st1\<lparr>isLeft := isLeft st1 @ moveRanges (lineOffset ls ?i) ra,
                 isRight := isRight st1 @ moveRanges (lineOffset rs ?j) rb,
                 rangeCount := rangeCount st1 + added, completed := Suc (completed st1)\<rparr>)) ?P (\<lambda>e. e \<noteq> ''Timeout'')"
        unfolding r prod.case Let_def
        by (intro yields_if go next_line) simp
    qed
  qed (use stop in auto)
  have full: "inlineInv ls rs (eBegin e + line + Suc n) (oBegin e + line + Suc n) (k + Suc n) st1"
    using inv(1) by (auto intro: inlineInv_weaken)
  show ?case
    unfolding inlineLines.simps Let_def st1_def [symmetric]
  proof (rule yields_orTimeout [OF yields_check [where E = "envFailure L"]])
    show "yields (if 4096 \<le> attempted st then ret (Inr st1)
        else orTimeout st1 (compareLine q L (content (ls ! ?i)) (content (rs ! ?j))) (\<lambda>found.
          case found of None \<Rightarrow> inlineLines q L ls rs e n (Suc line) st1
          | Some (ra, rb) \<Rightarrow>
             if 32768 - rangeCount st1 < length ra + length rb then inlineLines q L ls rs e n (Suc line) st1
             else inlineLines q L ls rs e n (Suc line)
               (st1\<lparr>isLeft := isLeft st1 @ moveRanges (lineOffset ls ?i) ra,
                 isRight := isRight st1 @ moveRanges (lineOffset rs ?j) rb,
                 rangeCount := rangeCount st1 + (length ra + length rb), completed := Suc (completed st1)\<rparr>)))
        ?P (\<lambda>e. e \<noteq> ''Timeout'')"
      by (intro yields_if yields_ret compared [unfolded Let_def])
        (simp only: sum.case full)
  qed (use stop in auto)
qed

lemma inlineEdits_yields:
  assumes clusters: "\<forall>t. set t \<subseteq> set (concat ls) \<union> set (concat rs) \<longrightarrow> clusterable (Graphemes q t)"
    and "pairsFrom (length ls) (length rs) p r es" "inlineInv ls rs p r k st" "p \<le> length ls" "r \<le> length rs"
  shows "yields (inlineEdits q L ls rs es st)
    (\<lambda>v. case v of Inl st' \<Rightarrow> inlineDone ls rs (k + sum_list (map pairCount es)) st'
       | Inr st' \<Rightarrow> inlineDone ls rs (k + sum_list (map pairCount es)) st') (\<lambda>e. e \<noteq> ''Timeout'')"
  using assms(2-)
proof (induction es arbitrary: p r k st)
  case Nil
  have "inlineDone ls rs k st" unfolding inlineDone_def using Nil by (auto intro: inlineInv_weaken)
  then show ?case
    by (auto intro!: yields_orTimeout [OF yields_check [where E = "envFailure L"]] yields_ret)
next
  case (Cons e es)
  let ?P = "\<lambda>v. case v of Inl st' \<Rightarrow> inlineDone ls rs (k + sum_list (map pairCount (e # es))) st'
       | Inr st' \<Rightarrow> inlineDone ls rs (k + sum_list (map pairCount (e # es))) st'"
  have e: "p \<le> eBegin e" "r \<le> oBegin e" "eBegin e \<le> eEnd e" "oBegin e \<le> oEnd e" "eEnd e \<le> length ls" "oEnd e \<le> length rs"
    "pairsFrom (length ls) (length rs) (eEnd e) (oEnd e) es" using Cons.prems(1) by simp_all
  have start: "inlineInv ls rs (eBegin e + 0) (oBegin e + 0) k st"
    using Cons.prems(2) e by (auto intro: inlineInv_weaken)
  have fits: "eBegin e + 0 + pairCount e \<le> length ls" "oBegin e + 0 + pairCount e \<le> length rs"
    "eBegin e + 0 + pairCount e \<le> eEnd e" "oBegin e + 0 + pairCount e \<le> oEnd e"
    using e by (simp_all add: pairCount_def)
  have dn: "inlineDone ls rs (k + sum_list (map pairCount (e # es))) st'" if "inlineInv ls rs i j m st'" "i \<le> length ls"
    "j \<le> length rs" "m \<le> k + pairCount e" for i j m st'
    unfolding inlineDone_def by (rule inlineInv_weaken [OF that(1-3)]) (use that(4) in simp)
  have body: "yields (seq (inlineLines q L ls rs e (pairCount e) 0 st) (\<lambda>v.
        case v of Inl st' \<Rightarrow> ret (Inl st')
        | Inr st' \<Rightarrow> if 4096 \<le> attempted st' then orTimeout st' (check L) (\<lambda>_. ret (Inr st'))
            else inlineEdits q L ls rs es st')) ?P (\<lambda>e. e \<noteq> ''Timeout'')"
  proof (rule yields_seq [OF inlineLines_yields [OF clusters fits(1,2) start]])
    fix v assume v: "case v of Inl st' \<Rightarrow> inlineDone ls rs (k + pairCount e) st'
       | Inr st' \<Rightarrow> inlineInv ls rs (eBegin e + 0 + pairCount e) (oBegin e + 0 + pairCount e) (k + pairCount e) st'"
    show "yields (case v of Inl st' \<Rightarrow> ret (Inl st')
        | Inr st' \<Rightarrow> if 4096 \<le> attempted st' then orTimeout st' (check L) (\<lambda>_. ret (Inr st'))
            else inlineEdits q L ls rs es st') ?P (\<lambda>e. e \<noteq> ''Timeout'')"
    proof (cases v)
      case (Inl st')
      then show ?thesis using v dn [of "length ls" "length rs" "k + pairCount e" st'] by (simp add: inlineDone_def yields_ret)
    next
      case (Inr st')
      then have inv: "inlineInv ls rs (eBegin e + 0 + pairCount e) (oBegin e + 0 + pairCount e) (k + pairCount e) st'"
        using v by simp
      have "inlineInv ls rs (eEnd e) (oEnd e) (k + pairCount e) st'"
        by (rule inlineInv_weaken [OF inv fits(3,4)]) simp
      note rest = Cons.IH [OF e(7) this e(5,6)]
      show ?thesis
        unfolding Inr sum.case
      proof (rule yields_if)
        show "yields (orTimeout st' (check L) (\<lambda>_. ret (Inr st'))) ?P (\<lambda>e. e \<noteq> ''Timeout'')"
          using dn [OF inv fits(1,2)]
          by (auto intro!: yields_orTimeout [OF yields_check [where E = "envFailure L"]] yields_ret)
        show "yields (inlineEdits q L ls rs es st') ?P (\<lambda>e. e \<noteq> ''Timeout'')"
          using rest by (simp only: add.assoc list.map sum_list.Cons)
      qed
    qed
  qed
  show ?case
    unfolding inlineEdits.simps
    by (rule yields_orTimeout [OF yields_check [where E = "envFailure L"]], simp, rule body)
       (use dn [OF Cons.prems(2-4)] in simp_all)
qed

lemma inlineSession_yields:
  assumes "\<forall>t. set t \<subseteq> set l \<union> set r \<longrightarrow> clusterable (Graphemes q t)"
  shows "yields (inlineSession q L l r es)
    (\<lambda>d. ascending 0 (leftRanges d) (length l) \<and> ascending 0 (rightRanges d) (length r)
       \<and> length (leftRanges d) + length (rightRanges d) \<le> 32768 \<and> skippedLines d \<le> pairedLines d)
    (\<lambda>e. e \<noteq> ''Timeout'')" (is "yields _ ?P ?E")
proof -
  have count: "yields (countPairs es n) (\<lambda>_. True) (\<lambda>e. e = ''InvalidInlineEdits'')" for n
    by (induction es n rule: countPairs.induct) (auto intro: yields_ret yields_throw yields_if)
  let ?st = "\<lparr>isLeft = [], isRight = [], attempted = 0, completed = 0, rangeCount = 0\<rparr>"
  have work: "yields (seq (checkPairs (length (splitText l)) (length (splitText r)) es 0 0 0) (\<lambda>n.
          seq (inlineEdits q L (splitText l) (splitText r) es ?st) (\<lambda>u.
          let st = (case u of Inl st \<Rightarrow> st | Inr st \<Rightarrow> st)
          in seq getCells (\<lambda>cells. ret \<lparr>leftRanges = isLeft st, rightRanges = isRight st, pairedLines = n,
               skippedLines = n - completed st, cellsUsed = cells\<rparr>)))) ?P ?E"
  proof (rule yields_seq [OF yields_weaken [OF checkPairs_yields]])
    fix n assume n: "pairsFrom (length (splitText l)) (length (splitText r)) 0 0 es \<and> n = 0 + sum_list (map pairCount es)"
    have start: "inlineInv (splitText l) (splitText r) 0 0 0 ?st" by (simp add: inlineInv_def)
    show "yields (seq (inlineEdits q L (splitText l) (splitText r) es ?st) (\<lambda>u.
          let st = (case u of Inl st \<Rightarrow> st | Inr st \<Rightarrow> st)
          in seq getCells (\<lambda>cells. ret \<lparr>leftRanges = isLeft st, rightRanges = isRight st, pairedLines = n,
               skippedLines = n - completed st, cellsUsed = cells\<rparr>))) ?P ?E"
    proof (rule yields_seq [OF inlineEdits_yields [OF _ n [THEN conjunct1] start]])
      show "\<forall>t. set t \<subseteq> set (concat (splitText l)) \<union> set (concat (splitText r)) \<longrightarrow> clusterable (Graphemes q t)"
        unfolding concat_splitText by (rule assms)
      fix u assume u: "case u of Inl st' \<Rightarrow> inlineDone (splitText l) (splitText r) (0 + sum_list (map pairCount es)) st'
        | Inr st' \<Rightarrow> inlineDone (splitText l) (splitText r) (0 + sum_list (map pairCount es)) st'"
      define st where "st = (case u of Inl st \<Rightarrow> st | Inr st \<Rightarrow> st)"
      have "inlineDone (splitText l) (splitText r) (sum_list (map pairCount es)) st"
        using u by (cases u) (simp_all add: st_def)
      then have "ascending 0 (isLeft st) (length l) \<and> ascending 0 (isRight st) (length r)
          \<and> length (isLeft st) + length (isRight st) \<le> 32768"
        by (simp add: inlineDone_def inlineInv_def lineOffset_full)
      then show "yields (let st = (case u of Inl st \<Rightarrow> st | Inr st \<Rightarrow> st)
          in seq getCells (\<lambda>cells. ret \<lparr>leftRanges = isLeft st, rightRanges = isRight st, pairedLines = n,
               skippedLines = n - completed st, cellsUsed = cells\<rparr>)) ?P ?E"
        unfolding st_def [symmetric] Let_def by (intro yields_seq [OF yields_getCells] yields_ret) simp
    qed simp_all
  qed auto
  have lines: "yields (seq (SplitLines l L defaultMaxLines defaultMaxBytes) (\<lambda>ls.
      seq (SplitLines r L defaultMaxLines defaultMaxBytes) (\<lambda>rs. ret (ls, rs))))
      (\<lambda>v. v = (splitText l, splitText r)) (\<lambda>_. True)"
    by (rule yields_seq [OF yields_weaken [OF SplitLines_yields]], blast, blast,
        rule yields_seq [OF yields_weaken [OF SplitLines_yields]]) (auto intro: yields_ret)
  have load: "yields (orTimeout () (seq (SplitLines l L defaultMaxLines defaultMaxBytes) (\<lambda>ls.
      seq (SplitLines r L defaultMaxLines defaultMaxBytes) (\<lambda>rs. ret (ls, rs)))) (\<lambda>lines. ret (Inr lines)))
      (\<lambda>v. v = Inl () \<or> v = Inr (splitText l, splitText r)) ?E"
    by (rule yields_orTimeout [OF lines]) (auto intro: yields_ret)
  show ?thesis
    unfolding inlineSession_def
  proof (rule yields_seq [OF yields_resetSteps], rule yields_if)
    show "yields (seq (catch (check L) (\<lambda>e. if e \<noteq> ''Timeout'' then throw e else ret ())) (\<lambda>_.
        ret \<lparr>leftRanges = [], rightRanges = [], pairedLines = 0, skippedLines = 0, cellsUsed = 0\<rparr>)) ?P ?E"
      by (rule yields_seq [OF yields_catch [OF yields_check [where E = "envFailure L"]]])
         (auto intro!: yields_if yields_throw yields_ret)
    show "yields (seq (orTimeout () (seq (SplitLines l L defaultMaxLines defaultMaxBytes) (\<lambda>ls.
           seq (SplitLines r L defaultMaxLines defaultMaxBytes) (\<lambda>rs. ret (ls, rs)))) (\<lambda>lines. ret (Inr lines))) (\<lambda>v.
      case v of Inl _ \<Rightarrow> seq (countPairs es 0) (\<lambda>n.
             ret \<lparr>leftRanges = [], rightRanges = [], pairedLines = n, skippedLines = n, cellsUsed = 0\<rparr>)
      | Inr (ls, rs) \<Rightarrow> seq (checkPairs (length ls) (length rs) es 0 0 0) (\<lambda>n.
          seq (inlineEdits q L ls rs es ?st) (\<lambda>u.
          let st = (case u of Inl st \<Rightarrow> st | Inr st \<Rightarrow> st)
          in seq getCells (\<lambda>cells. ret \<lparr>leftRanges = isLeft st, rightRanges = isRight st, pairedLines = n,
               skippedLines = n - completed st, cellsUsed = cells\<rparr>))))) ?P ?E"
    proof (rule yields_seq [OF load], erule disjE)
      fix v :: "unit + str list \<times> str list"
      assume v: "v = Inl ()"
      show "yields (case v of Inl _ \<Rightarrow> seq (countPairs es 0) (\<lambda>n.
             ret \<lparr>leftRanges = [], rightRanges = [], pairedLines = n, skippedLines = n, cellsUsed = 0\<rparr>)
        | Inr (ls, rs) \<Rightarrow> seq (checkPairs (length ls) (length rs) es 0 0 0) (\<lambda>n.
          seq (inlineEdits q L ls rs es ?st) (\<lambda>u.
          let st = (case u of Inl st \<Rightarrow> st | Inr st \<Rightarrow> st)
          in seq getCells (\<lambda>cells. ret \<lparr>leftRanges = isLeft st, rightRanges = isRight st, pairedLines = n,
               skippedLines = n - completed st, cellsUsed = cells\<rparr>)))) ?P ?E"
        unfolding v sum.case by (rule yields_seq [OF yields_weaken [OF count]]) (auto intro: yields_ret)
    next
      fix v :: "unit + str list \<times> str list"
      assume v: "v = Inr (splitText l, splitText r)"
      show "yields (case v of Inl _ \<Rightarrow> seq (countPairs es 0) (\<lambda>n.
             ret \<lparr>leftRanges = [], rightRanges = [], pairedLines = n, skippedLines = n, cellsUsed = 0\<rparr>)
        | Inr (ls, rs) \<Rightarrow> seq (checkPairs (length ls) (length rs) es 0 0 0) (\<lambda>n.
          seq (inlineEdits q L ls rs es ?st) (\<lambda>u.
          let st = (case u of Inl st \<Rightarrow> st | Inr st \<Rightarrow> st)
          in seq getCells (\<lambda>cells. ret \<lparr>leftRanges = isLeft st, rightRanges = isRight st, pairedLines = n,
               skippedLines = n - completed st, cellsUsed = cells\<rparr>)))) ?P ?E"
        unfolding v sum.case prod.case by (rule work)
    qed
  qed
qed


text \<open>An inline session never fails with a timeout: it returns the pairs it completed.  The
  ranges of either side are disjoint, in order and inside the text, there are at most
  32768 of them, and no more lines are skipped than are paired.\<close>

theorem BuildInlineDiff_ranges:
  assumes "\<forall>t. set t \<subseteq> set l \<union> set r \<longrightarrow> clusterable (Graphemes q t)"
  shows "case fst (BuildInlineDiff q L l r es alignment w) of
      Inr d \<Rightarrow> ascending 0 (leftRanges d) (length l) \<and> ascending 0 (rightRanges d) (length r)
         \<and> length (leftRanges d) + length (rightRanges d) \<le> 32768 \<and> skippedLines d \<le> pairedLines d
    | Inl e \<Rightarrow> e \<noteq> ''Timeout''"
proof -
  have "yields (BuildInlineDiff q L l r es alignment)
    (\<lambda>d. ascending 0 (leftRanges d) (length l) \<and> ascending 0 (rightRanges d) (length r)
       \<and> length (leftRanges d) + length (rightRanges d) \<le> 32768 \<and> skippedLines d \<le> pairedLines d)
    (\<lambda>e. e \<noteq> ''Timeout'')"
    unfolding BuildInlineDiff_def by (intro yields_option yields_if inlineSession_yields [OF assms])
  from yields_at [OF this, of w] show ?thesis by (auto split: sum.splits)
qed

text \<open>Both at a concrete input: the Latin letters, each its own cluster.\<close>

definition sampleQt :: qt where
  "sampleQt = \<lparr>fromUtf8 = map byte, atBoundary = (\<lambda>_ _. True), letterOrNumber = (\<lambda>_. False)\<rparr>"
lemma sample_clusters: "Graphemes sampleQt [] = \<lparr>gText = [], gOffsets = [0]\<rparr>"
  "Graphemes sampleQt ''b'' = \<lparr>gText = ''b'', gOffsets = [0, Suc 0]\<rparr>"
  by (simp_all add: Graphemes_def byte_def upt_rec)
lemma sample_check: "check defaultBudget w = (Inr (), w\<lparr>ticks := Suc (ticks w)\<rparr>)"
  by (simp add: check_def tick_def observe_def defaultBudget_def seq_def ret_def)
lemma sample_words: "identifierAt sampleQt g i = (i < gSize g \<and> leadScalar (gAt g i) = byte (CHR ''_''))"
  by (simp add: identifierAt_def sampleQt_def Let_def)
lemma sample_wordsOf: 
  "wordsOf sampleQt defaultBudget \<lparr>gText = [], gOffsets = [0]\<rparr> w = (Inr [], w\<lparr>ticks := Suc (ticks w)\<rparr>)"
  "wordsOf sampleQt defaultBudget \<lparr>gText = ''b'', gOffsets = [0, Suc 0]\<rparr> w = (Inr [], w\<lparr>ticks := Suc (ticks w)\<rparr>)"
  by (simp_all add: wordsOf_def gSize_def sample_words gAt_def slice_def leadScalar_def byte_def seq_def onlyIf_def sample_check ret_def)
lemma sample_anchors: 
  "wordAnchors sampleQt defaultBudget \<lparr>gText = [], gOffsets = [0]\<rparr> \<lparr>gText = ''b'', gOffsets = [0, Suc 0]\<rparr> w = (Inr [], w\<lparr>ticks := Suc (Suc (ticks w))\<rparr>)"
  by (simp add: wordAnchors_def seq_def sample_wordsOf ret_def anchorCandidates_def List.map_filter_def longestChain_def Let_def lastTail_def chainBack.simps)
lemma sample_span: "compareSpan sampleQt defaultBudget n [] ''b'' w = (Inr (Some ([], [(0, 1)])), w)"
  by (simp add: compareSpan_def sample_clusters [simplified] Let_def clusters_def gSize_def ret_def byteRanges_def)
lemma sample_line:
  "fst (compareLine sampleQt defaultBudget [] ''b'' w) = Inr (Some ([], [(0, 1)]))"
  apply (simp add: compareLine_def getCells_def sample_clusters[simplified])
  apply (simp add: seq_def sample_anchors[simplified] sample_check slice_def)
  apply (simp add: sample_span[simplified] ret_def moveRanges_def)
  done

lemma sample_ascii: "\<forall>t. set t \<subseteq> set [] \<union> set ''b'' \<longrightarrow> clusterable (Graphemes sampleQt t)"
  by (intro allI impI clusterable_ascii) (auto simp: byte_def)


theorem BuildInlineDiff_ranges_witness:
  "case fst (BuildInlineDiff sampleQt defaultBudget [] ''b'' [mkEdit 0 1 0 1 []] None world0) of
      Inr d \<Rightarrow> ascending 0 (leftRanges d) (length ([]::str)) \<and> ascending 0 (rightRanges d) (length ''b'')
         \<and> length (leftRanges d) + length (rightRanges d) \<le> 32768 \<and> skippedLines d \<le> pairedLines d
    | Inl e \<Rightarrow> e \<noteq> ''Timeout''"
  by (rule BuildInlineDiff_ranges [OF sample_ascii])

end
