(* ===== verification/OverviewMap.thy ===== *)
theory OverviewMap
  imports AlignmentMap "HOL-Library.Word"
begin

text \<open>
  \<open>HyperCompare/core/overviewMap.hpp\<close> and \<open>.cpp\<close>: the strokes that stand for the lines of a
  document (\<open>BuildOverviewDocument\<close>) and the bands of changed pixels beside the scroll bar
  (\<open>BuildOverviewRaster\<close>).  What Qt answers on a text (\<open>QString::fromUtf8(\<dots>).toUcs4\<close>) and on a
  code point (its category, whether it is a space) is the parameter \<open>codes\<close>.

  The lemmas bound the strokes and show that the difference array of the raster computes
  what it stands for: a bit is set at a pixel exactly when a changed run covers it.
\<close>

section \<open>Strokes\<close>

record codes =
  toUcs4 :: "str \<Rightarrow> nat list"
  combining :: "nat \<Rightarrow> bool"
  isSpace :: "nat \<Rightarrow> bool"

record overviewStroke =
  indent :: nat
  strokeEnd :: nat

record overviewDocument =
  docLines :: nat
  strokes :: "overviewStroke list"

abbreviation noStroke :: overviewStroke where
  "noStroke \<equiv> \<lparr>indent = 0, strokeEnd = 0\<rparr>"

definition At :: "overviewDocument \<Rightarrow> nat \<Rightarrow> overviewStroke" where
  "At d line =
    (if docLines d \<le> line \<or> strokes d = [] then noStroke
     else strokes d ! min (length (strokes d) - 1) (line * length (strokes d) div docLines d))"

definition wide :: "nat \<Rightarrow> bool" where
  "wide code \<longleftrightarrow> (0x1100 \<le> code \<and> code \<le> 0x115f) \<or> (0x2e80 \<le> code \<and> code \<le> 0xa4cf)
     \<or> (0xac00 \<le> code \<and> code \<le> 0xd7a3) \<or> (0xf900 \<le> code \<and> code \<le> 0xfaff)
     \<or> (0xfe10 \<le> code \<and> code \<le> 0xfe6f) \<or> (0xff01 \<le> code \<and> code \<le> 0xff60)
     \<or> (0xffe0 \<le> code \<and> code \<le> 0xffe6) \<or> 0x1f300 \<le> code"

text \<open>The loop over the code points of a line: column, indentation, end and whether anything
  but space was seen.\<close>

fun measure_line :: "codes \<Rightarrow> nat list \<Rightarrow> nat \<Rightarrow> nat \<Rightarrow> nat \<Rightarrow> bool \<Rightarrow> overviewStroke" where
  "measure_line u [] column ind fin seen = (if seen then \<lparr>indent = ind, strokeEnd = fin\<rparr> else noStroke)"
| "measure_line u (code # rest) column ind fin seen =
    (if code = 13 \<or> code = 10 \<or> 128 \<le> column then (if seen then \<lparr>indent = ind, strokeEnd = fin\<rparr> else noStroke)
     else if code \<noteq> 9 \<and> (combining u code \<or> code = 0x200d) then measure_line u rest column ind fin seen
     else let column' = (if code = 9 then min 128 ((column div 8 + 1) * 8)
                         else min 128 (column + (if wide code then 2 else 1)))
       in if \<not> seen \<and> isSpace u code then measure_line u rest column' column' fin seen
          else if \<not> isSpace u code then measure_line u rest column' ind column' True
          else measure_line u rest column' ind fin seen)"

fun strokeLoop :: "codes \<Rightarrow> budget \<Rightarrow> str list \<Rightarrow> nat \<Rightarrow> nat \<Rightarrow> nat \<Rightarrow> overviewStroke list comp" where
  "strokeLoop u L ls count bin 0 = ret []"
| "strokeLoop u L ls count bin (Suc n) =
    seq (onlyIf (bin mod 64 = 0) (check L)) (\<lambda>_.
    seq (strokeLoop u L ls count (Suc bin) n) (\<lambda>rest.
      ret (measure_line u (toUcs4 u (take 512 (ls ! (bin * length ls div count)))) 0 0 0 False # rest)))"

definition BuildOverviewDocument :: "codes \<Rightarrow> str \<Rightarrow> budget \<Rightarrow> overviewDocument comp" where
  "BuildOverviewDocument u t L =
    seq (SplitLines t L defaultMaxLines defaultMaxBytes) (\<lambda>ls.
      let count = min 4096 (length ls) in
    seq (strokeLoop u L ls count 0 count) (\<lambda>ss.
    seq (check L) (\<lambda>_. ret \<lparr>docLines = length ls, strokes = ss\<rparr>)))"

section \<open>The raster\<close>

type_synonym mark = "nat \<times> nat \<times> nat"

record overviewRaster =
  bands :: "8 word list \<times> 8 word list"
  rasterRows :: "nat \<times> nat"

text \<open>The calls of \<open>mark\<close> for one changed run.\<close>

definition runMarks :: "bool \<Rightarrow> nat \<Rightarrow> alignmentRun \<Rightarrow> mark list" where
  "runMarks aligned s run =
    (if \<not> runChanged run then []
     else let count = side s (runEnd run) - side s (runBegin run);
              other = side (1 - s) (runEnd run) - side (1 - s) (runBegin run);
              begin = (if aligned then rowBegin run else side s (runBegin run))
       in (if count \<noteq> 0 then [(begin, begin + count, if other \<noteq> 0 then 0 else if s = 0 then 2 else 1)] else [])
          @ (if count < other then [(begin + count, if aligned then rowEnd run else begin + count, 3)] else []))"

definition firstPixel :: "nat \<Rightarrow> nat \<Rightarrow> nat \<Rightarrow> nat" where
  "firstPixel pixels rows b = min (pixels - 1) (b * pixels div rows)"

definition lastPixel :: "nat \<Rightarrow> nat \<Rightarrow> nat \<Rightarrow> nat \<Rightarrow> nat" where
  "lastPixel pixels rows b e = min pixels (max (firstPixel pixels rows b + 1) ((e * pixels + rows - 1) div rows))"

definition bump :: "nat \<Rightarrow> nat \<Rightarrow> int \<Rightarrow> (nat \<Rightarrow> nat \<Rightarrow> int) \<Rightarrow> nat \<Rightarrow> nat \<Rightarrow> int" where
  "bump p k d events = (\<lambda>p' k'. if p' = p \<and> k' = k then events p' k' + d else events p' k')"

fun mark :: "nat \<Rightarrow> nat \<Rightarrow> mark \<Rightarrow> (nat \<Rightarrow> nat \<Rightarrow> int) \<Rightarrow> nat \<Rightarrow> nat \<Rightarrow> int" where
  "mark pixels rows (b, e, k) events =
    bump (lastPixel pixels rows b e) k (- 1) (bump (firstPixel pixels rows b) k 1 events)"

definition pixelBits :: "int list \<Rightarrow> 8 word" where
  "pixelBits counts = fold (\<lambda>k b. if counts ! k \<noteq> 0 then or b (push_bit k 1) else b) [0..<4] 0"

fun sweep :: "(nat \<Rightarrow> nat \<Rightarrow> int) \<Rightarrow> nat \<Rightarrow> nat \<Rightarrow> int list \<Rightarrow> 8 word list" where
  "sweep events pixel 0 counts = []"
| "sweep events pixel (Suc n) counts =
    (let counts' = map (\<lambda>k. counts ! k + events pixel k) [0..<4]
     in pixelBits counts' # sweep events (Suc pixel) n counts')"

definition sideRows :: "alignmentMap \<Rightarrow> bool \<Rightarrow> nat \<Rightarrow> nat" where
  "sideRows m aligned s = (if aligned then mapRows m else side s (mapLines m)) + 1"

definition sideBand :: "alignmentMap \<Rightarrow> nat \<Rightarrow> bool \<Rightarrow> nat \<Rightarrow> 8 word list" where
  "sideBand m pixels aligned s =
    (if pixels = 0 then []
     else sweep (fold (mark pixels (sideRows m aligned s)) (concat (map (runMarks aligned s) (mapRuns m))) (\<lambda>_ _. 0))
            0 pixels [0, 0, 0, 0])"

definition BuildOverviewRaster :: "alignmentMap \<Rightarrow> nat \<Rightarrow> bool \<Rightarrow> overviewRaster" where
  "BuildOverviewRaster m pixels0 aligned =
    (let pixels = min pixels0 4096
     in \<lparr>bands = (sideBand m pixels aligned 0, sideBand m pixels aligned 1),
         rasterRows = (sideRows m aligned 0, sideRows m aligned 1)\<rparr>)"

section \<open>The strokes are bounded\<close>

definition strokeOk :: "overviewStroke \<Rightarrow> bool" where
  "strokeOk s \<longleftrightarrow> indent s \<le> strokeEnd s \<and> strokeEnd s \<le> 128"

lemma measure_line_ok:
  "column \<le> 128 \<Longrightarrow> ind \<le> column \<Longrightarrow> fin \<le> column \<Longrightarrow> (seen \<Longrightarrow> ind \<le> fin) \<Longrightarrow>
   strokeOk (measure_line u cs column ind fin seen)"
proof (induction u cs column ind fin seen rule: measure_line.induct)
  case (2 u code rest column ind fin seen)
  define column' where "column' = (if code = 9 then min 128 ((column div 8 + 1) * 8)
    else min 128 (column + (if wide code then 2 else 1)))"
  have c: "column \<le> column'" "column' \<le> 128" using 2(5) by (auto simp: column'_def)
  show ?case
  proof (cases "code = 13 \<or> code = 10 \<or> 128 \<le> column \<or> (code \<noteq> 9 \<and> (combining u code \<or> code = 0x200d))")
    case True
    then show ?thesis using 2(1) 2(5-8) by (auto simp: strokeOk_def)
  next
    case False
    then have f: "\<not> (code = 13 \<or> code = 10 \<or> 128 \<le> column)" "\<not> (code \<noteq> 9 \<and> (combining u code \<or> code = 0x200d))" by blast+
    have step: "measure_line u (code # rest) column ind fin seen =
      (if \<not> seen \<and> isSpace u code then measure_line u rest column' column' fin seen
       else if \<not> isSpace u code then measure_line u rest column' ind column' True
       else measure_line u rest column' ind fin seen)"
      by (simp only: measure_line.simps if_not_P [OF f(1)] if_not_P [OF f(2)] Let_def column'_def)
    note ih = 2(2-4) [folded column'_def]
    show ?thesis
    proof (cases "isSpace u code")
      case True
      then show ?thesis
        using ih(1,3) False 2(5-8) c unfolding step by (cases seen) simp_all
    next
      case other: False
      then show ?thesis
        using ih(2) False 2(5-8) c unfolding step by simp
    qed
  qed
qed (auto simp: strokeOk_def)

lemma strokeLoop_yields:
  "yields (strokeLoop u L ls count bin n) (\<lambda>ss. length ss = n \<and> (\<forall>s \<in> set ss. strokeOk s)) (envFailure L)"
proof (induction n arbitrary: bin)
  case (Suc n)
  have c: "yields (onlyIf (bin mod 64 = 0) (check L)) (\<lambda>_. True) (envFailure L)"
    unfolding onlyIf_def by (intro yields_if yields_check [where E = "envFailure L"] yields_ret) simp_all
  show ?case
    unfolding strokeLoop.simps
    by (rule yields_seq [OF c], rule yields_seq [OF Suc.IH], rule yields_ret) (auto intro: measure_line_ok)
qed (simp add: yields_ret)

text \<open>An overview has at most 4096 strokes, one per line of a document that is not longer,
  and every stroke begins before it ends, within 128 columns; the stroke of a line, whatever
  the line, is such a stroke.  Otherwise the run was cut off by its environment or the text
  is over the limit of lines.\<close>

theorem BuildOverviewDocument_bounds:
  "case fst (BuildOverviewDocument u t L w) of
      Inr d \<Rightarrow> docLines d = length (splitText t) \<and> length (strokes d) = min 4096 (docLines d)
         \<and> (\<forall>line. strokeOk (At d line))
    | Inl e \<Rightarrow> envFailure L e \<or> limitFailure defaultMaxLines defaultMaxBytes (splitText t) e"
proof -
  let ?E = "\<lambda>e. envFailure L e \<or> limitFailure defaultMaxLines defaultMaxBytes (splitText t) e"
  let ?P = "\<lambda>d. docLines d = length (splitText t) \<and> length (strokes d) = min 4096 (docLines d) \<and> (\<forall>line. strokeOk (At d line))"
  have at: "strokeOk (At d line)" if "\<forall>s \<in> set (strokes d). strokeOk s" for d line
  proof (cases "docLines d \<le> line \<or> strokes d = []")
    case True
    then show ?thesis by (auto simp: At_def strokeOk_def)
  next
    case False
    have "min (length (strokes d) - 1) k < length (strokes d)" for k
      using False by (simp add: min_less_iff_disj)
    then show ?thesis using False that by (simp add: At_def)
  qed
  have "yields (BuildOverviewDocument u t L) ?P ?E"
    unfolding BuildOverviewDocument_def Let_def
  proof (rule yields_seq [OF yields_weaken [OF yields_of_free_spec [OF SplitLines_spec]]])
    fix ls assume ls: "ls = splitText t \<and> withinLimits defaultMaxLines defaultMaxBytes ls"
    show "yields (seq (strokeLoop u L ls (min 4096 (length ls)) 0 (min 4096 (length ls))) (\<lambda>ss.
        seq (check L) (\<lambda>_. ret \<lparr>docLines = length ls, strokes = ss\<rparr>))) ?P ?E"
      by (rule yields_seq [OF yields_weaken [OF strokeLoop_yields]], assumption, blast,
          rule yields_seq [OF yields_weaken [OF yields_check [where E = "envFailure L"]]])
         (auto intro!: yields_ret at simp: ls)
  qed (auto simp: scanError_def)
  from yields_at [OF this, of w] show ?thesis by (auto split: sum.splits)
qed

section \<open>The raster shows what changed\<close>

fun covers :: "nat \<Rightarrow> nat \<Rightarrow> nat \<Rightarrow> mark \<Rightarrow> bool" where
  "covers pixels rows p (b, e, k) \<longleftrightarrow> firstPixel pixels rows b \<le> p \<and> p < lastPixel pixels rows b e"

lemma first_last: "0 < pixels \<Longrightarrow> firstPixel pixels rows b < lastPixel pixels rows b e \<and> lastPixel pixels rows b e \<le> pixels"
  by (auto simp: firstPixel_def lastPixel_def)

lemma sum_bump: "(\<Sum>q\<le>p. bump f k d events q k') = (\<Sum>q\<le>p. events q k') + (if f \<le> p \<and> k = k' then d else 0)"
proof -
  have "(\<Sum>q\<le>p. bump f k d events q k') = (\<Sum>q\<le>p. events q k' + (if q = f then (if k = k' then d else 0) else 0))"
    by (rule sum.cong) (auto simp: bump_def)
  also have "\<dots> = (\<Sum>q\<le>p. events q k') + (if f \<le> p \<and> k = k' then d else 0)"
    by (simp add: sum.distrib sum.delta)
  finally show ?thesis .
qed

lemma sum_mark:
  "0 < pixels \<Longrightarrow> (\<Sum>q\<le>p. mark pixels rows m events q k)
     = (\<Sum>q\<le>p. events q k) + (if covers pixels rows p m \<and> snd (snd m) = k then 1 else 0)"
  using first_last [of pixels rows "fst m" "fst (snd m)"] by (cases m) (auto simp: sum_bump)

lemma sum_marks:
  "0 < pixels \<Longrightarrow> (\<Sum>q\<le>p. fold (mark pixels rows) ms events q k)
     = (\<Sum>q\<le>p. events q k) + int (length (filter (\<lambda>m. covers pixels rows p m \<and> snd (snd m) = k) ms))"
  by (induction ms arbitrary: events) (simp_all add: sum_mark)

lemma bit_pixelBits: "length counts = 4 \<Longrightarrow> bit (pixelBits counts) k \<longleftrightarrow> k < 4 \<and> counts ! k \<noteq> 0"
proof -
  have "[0..<4] = [0, 1, 2, 3 :: nat]" by (simp add: upt_rec)
  then have "pixelBits counts = fold (\<lambda>k b. if counts ! k \<noteq> 0 then or b (push_bit k 1) else b) [0, 1, 2, 3] 0"
    by (simp only: pixelBits_def)
  moreover have "bit (if c then or b (push_bit j 1) else b) k \<longleftrightarrow> bit b k \<or> (c \<and> j = k \<and> k < 8)" for c j and b :: "8 word"
    by (auto simp: bit_simps)
  moreover have four: "k < 4 \<longleftrightarrow> k = 0 \<or> k = 1 \<or> k = 2 \<or> k = 3" by linarith
  ultimately have "bit (pixelBits counts) k \<longleftrightarrow> (counts ! 0 \<noteq> 0 \<and> k = 0 \<or> counts ! 1 \<noteq> 0 \<and> k = 1
      \<or> counts ! 2 \<noteq> 0 \<and> k = 2 \<or> counts ! 3 \<noteq> 0 \<and> k = 3)"
    by (simp del: One_nat_def) (auto simp del: One_nat_def)
  then show ?thesis unfolding four by (auto simp del: One_nat_def)
qed

lemma sweep_spec:
  "length counts = 4 \<Longrightarrow> (\<forall>k < 4. counts ! k = (\<Sum>q<p. events q k)) \<Longrightarrow>
   length (sweep events p n counts) = n
   \<and> (\<forall>i < n. \<forall>k. bit (sweep events p n counts ! i) k \<longleftrightarrow> k < 4 \<and> (\<Sum>q\<le>p + i. events q k) \<noteq> 0)"
proof (induction n arbitrary: p counts)
  case (Suc n)
  define counts' where "counts' = map (\<lambda>k. counts ! k + events p k) [0..<4]"
  have len: "length counts' = 4" by (simp add: counts'_def)
  have c: "\<forall>k < 4. counts' ! k = (\<Sum>q\<le>p. events q k)"
    using Suc.prems(2) by (simp add: counts'_def lessThan_Suc_atMost [symmetric])
  have "\<forall>k < 4. counts' ! k = (\<Sum>q<Suc p. events q k)" using c by (simp add: lessThan_Suc_atMost)
  note ih = Suc.IH [OF len this]
  have step: "sweep events p (Suc n) counts = pixelBits counts' # sweep events (Suc p) n counts'"
    by (simp add: counts'_def Let_def)
  show ?case
    unfolding step
  proof (intro conjI allI impI)
    show "length (pixelBits counts' # sweep events (Suc p) n counts') = Suc n" using ih by simp
    fix i k assume i: "i < Suc n"
    show "bit ((pixelBits counts' # sweep events (Suc p) n counts') ! i) k \<longleftrightarrow> k < 4 \<and> (\<Sum>q\<le>p + i. events q k) \<noteq> 0"
    proof (cases i)
      case 0
      then show ?thesis using bit_pixelBits [OF len] c by auto
    next
      case (Suc j)
      then have "j < n" using i by simp
      with ih Suc show ?thesis by simp
    qed
  qed
qed simp

definition sideMarks :: "alignmentMap \<Rightarrow> bool \<Rightarrow> nat \<Rightarrow> mark list" where
  "sideMarks m aligned s = concat (map (runMarks aligned s) (mapRuns m))"

lemma sideBand_spec:
  "length (sideBand m pixels aligned s) = pixels
   \<and> (\<forall>p < pixels. \<forall>k. bit (sideBand m pixels aligned s ! p) k \<longleftrightarrow>
        k < 4 \<and> (\<exists>b e. (b, e, k) \<in> set (sideMarks m aligned s) \<and> covers pixels (sideRows m aligned s) p (b, e, k)))"
proof (cases "pixels = 0")
  case False
  define ev where "ev = fold (mark pixels (sideRows m aligned s)) (sideMarks m aligned s) (\<lambda>_ _. 0)"
  have start: "\<forall>k < 4. [0, 0, 0, 0] ! k = (\<Sum>q<(0 :: nat). ev q k)"
    by (auto simp: numeral_Bit0 less_Suc_eq)
  have sums: "(\<Sum>q\<le>p. ev q k) \<noteq> 0 \<longleftrightarrow>
      (\<exists>b e. (b, e, k) \<in> set (sideMarks m aligned s) \<and> covers pixels (sideRows m aligned s) p (b, e, k))" for p k
  proof -
    have "(\<Sum>q\<le>p. ev q k) = int (length (filter (\<lambda>x. covers pixels (sideRows m aligned s) p x \<and> snd (snd x) = k)
        (sideMarks m aligned s)))"
      unfolding ev_def using False by (simp add: sum_marks)
    then show ?thesis by (fastforce simp: filter_empty_conv)
  qed
  have "sideBand m pixels aligned s = sweep ev 0 pixels [0, 0, 0, 0]"
    using False by (simp add: sideBand_def ev_def sideMarks_def)
  moreover have "length [0, 0, 0, 0 :: int] = 4" by simp
  ultimately show ?thesis using sweep_spec [OF _ start, of pixels] sums by simp
qed (simp add: sideBand_def)

text \<open>C21: the raster has one band per side of at most 4096 pixels, and the bit of a kind is set at
  a pixel exactly when a mark of that kind made from a changed run covers the pixel: the
  difference array with its running counts agrees with this reference definition.\<close>

theorem BuildOverviewRaster_exact:
  "let pixels = min pixels0 4096; r = BuildOverviewRaster m pixels0 aligned in
     length (fst (bands r)) = pixels \<and> length (snd (bands r)) = pixels
   \<and> (\<forall>s \<in> {0, 1}. \<forall>p \<in> {..<pixels}. \<forall>k. bit ((if s = 0 then fst (bands r) else snd (bands r)) ! p) k \<longleftrightarrow>
        k < 4 \<and> (\<exists>b e. (b, e, k) \<in> set (sideMarks m aligned s) \<and> covers pixels (sideRows m aligned s) p (b, e, k)))"
  using sideBand_spec by (simp add: BuildOverviewRaster_def Let_def)

theorem BuildOverviewRaster_exact_witness:
  "bit (snd (bands (BuildOverviewRaster sampleMap 4 False)) ! 1) 0"
proof -
  have "(1, 3, 0) \<in> set (sideMarks sampleMap False 1)"
    by (simp add: sideMarks_def runMarks_def sampleMap_def)
  moreover have "covers 4 (sideRows sampleMap False 1) 1 (1, 3, 0)"
    by (simp add: firstPixel_def lastPixel_def sideRows_def sampleMap_def)
  ultimately have "\<exists>b e. (b, e, 0) \<in> set (sideMarks sampleMap False 1) \<and> covers 4 (sideRows sampleMap False 1) 1 (b, e, 0)"
    by blast
  then show ?thesis
    using BuildOverviewRaster_exact [of 4 sampleMap False] by (simp add: Let_def del: covers.simps)
qed

text \<open>A run that changed lines of a side shows at one pixel at least.\<close>

lemma run_visible:
  assumes "0 < pixels" "run \<in> set (mapRuns m)" "runChanged run" "side s (runBegin run) < side s (runEnd run)" "s < 2"
  shows "\<exists>p < pixels. sideBand m pixels aligned s ! p \<noteq> 0"
proof -
  define b where "b = (if aligned then rowBegin run else side s (runBegin run))"
  define k :: nat where "k = (if side (1 - s) (runEnd run) - side (1 - s) (runBegin run) \<noteq> 0 then 0 else if s = 0 then 2 else 1)"
  define e where "e = b + (side s (runEnd run) - side s (runBegin run))"
  let ?p = "firstPixel pixels (sideRows m aligned s) b"
  have "(b, e, k) \<in> set (runMarks aligned s run)"
    using assms(3,4) by (simp add: runMarks_def Let_def b_def e_def k_def)
  then have "(b, e, k) \<in> set (sideMarks m aligned s)" using assms(2) by (auto simp: sideMarks_def)
  moreover have "?p < pixels" "covers pixels (sideRows m aligned s) ?p (b, e, k)"
    using first_last [OF assms(1), of "sideRows m aligned s" b e] by auto
  moreover have "k < 4" by (simp add: k_def)
  ultimately have "bit (sideBand m pixels aligned s ! ?p) k" using sideBand_spec by blast
  then have "sideBand m pixels aligned s ! ?p \<noteq> 0" by auto
  then show ?thesis using \<open>?p < pixels\<close> by blast
qed



end
