(* ===== verification/Jobs.thy ===== *)
theory Jobs
  imports Prelude "HOL-Library.Char_ord" "HOL-Library.List_Lexorder"
begin

text \<open>
  The data of the job scheduler, \<open>commonLibs/operations/jobScheduler.hpp\<close>, and the first part
  of \<open>jobScheduler.cpp\<close>: the path normalisation \<open>FileOperationPath\<close>, the states of a job, the
  records of a job, its request and its step, and the state shared by the workers with its
  operations \<open>notify\<close>, \<open>transition\<close>, \<open>acquire\<close> and \<open>release\<close>.

  A \<open>std::string\<close> is a list of characters, compared as bytes.  The \<open>std::map\<close>s are lists of
  pairs in the order of their keys.  Times are milliseconds of the steady clock, which is
  part of the state; the deadline \<open>time_point::max()\<close> is \<open>None\<close>.  The 64-bit counters that
  only count up are natural numbers; those that are decremented wrap (\<open>minus64\<close>).  Display
  figures (transfer rate, wall clock) and the fields of an error and of an operation context
  the scheduler never reads are left out.
\<close>

section \<open>Paths\<close>

abbreviation Backslash :: char where
  "Backslash \<equiv> CHR 0x5C"

definition lowerAscii :: "char \<Rightarrow> char" where
  "lowerAscii c = (if (65 :: nat) \<le> of_char c \<and> of_char c \<le> (90 :: nat) then char_of (of_char c + 32 :: nat) else c)"

definition startsWith :: "string \<Rightarrow> string \<Rightarrow> bool" where
  "startsWith p t \<longleftrightarrow> take (length p) t = p"

text \<open>The position of the next backslash at or after \<open>i\<close>, \<open>find\<close>; \<open>None\<close> is \<open>npos\<close>.\<close>

definition slashFrom :: "string \<Rightarrow> nat \<Rightarrow> nat option" where
  "slashFrom t i = List.find (\<lambda>k. t ! k = Backslash) [i..<length t]"

text \<open>The components from a start, with \<open>..\<close> removing the one before.\<close>

fun pathParts :: "string \<Rightarrow> string list \<Rightarrow> string list \<Rightarrow> string list" where
  "pathParts cur parts [] = parts"
| "pathParts cur parts (p # ps) =
    pathParts cur (if p = ''..'' then butlast parts else if p \<noteq> [] \<and> p \<noteq> ''.'' then parts @ [p] else parts) ps"

fun splitSlash :: "string \<Rightarrow> string \<Rightarrow> string list" where
  "splitSlash cur [] = [cur]"
| "splitSlash cur (c # cs) = (if c = Backslash then cur # splitSlash [] cs else splitSlash (cur @ [c]) cs)"

definition joinParts :: "string \<Rightarrow> string list \<Rightarrow> string" where
  "joinParts root parts = root @ concat (map (\<lambda>p. Backslash # p) parts)"

text \<open>The volume or the share at the begin of a path, and where the components start.\<close>

definition rootOf :: "string \<Rightarrow> (string \<times> nat) option" where
  "rootOf t =
    (if 3 \<le> length t \<and> t ! 1 = CHR '':'' \<and> t ! 2 = Backslash then Some (take 2 t, 3)
     else if startsWith [Backslash, Backslash] t then
       (case slashFrom t 2 of None \<Rightarrow> None
        | Some server \<Rightarrow> if server = 2 then None
          else let share = slashFrom t (server + 1);
                   root = (case share of None \<Rightarrow> t | Some e \<Rightarrow> take e t)
            in if length root = server + 1 then None
               else Some (root, case share of None \<Rightarrow> length t | Some e \<Rightarrow> e + 1))
     else None)"

text \<open>\<open>upper\<close> is what the three Windows calls make of the text: its case folded to upper, or
  \<open>None\<close> when one of them returns zero.\<close>

definition FileOperationPath :: "(string \<Rightarrow> string option) \<Rightarrow> string \<Rightarrow> string" where
  "FileOperationPath upper path =
    (if path = [] \<or> 131072 < length path \<or> CHR 0x00 \<in> set path then []
     else let slashed = map (\<lambda>c. if c = CHR ''/'' then Backslash else c) path;
              lowered = map lowerAscii slashed;
              plain = (if startsWith [Backslash, Backslash, CHR ''?'', Backslash, CHR ''u'', CHR ''n'', CHR ''c'', Backslash] lowered
                       then Backslash # Backslash # drop 8 lowered
                       else if startsWith [Backslash, Backslash, CHR ''?'', Backslash] lowered then drop 4 lowered else lowered)
       in case upper plain of None \<Rightarrow> []
          | Some folded \<Rightarrow>
             let t = map lowerAscii folded
             in if length t = 2 \<and> t ! 1 = CHR '':'' then t
                else case rootOf t of None \<Rightarrow> []
                  | Some (root, start) \<Rightarrow>
                      joinParts root (pathParts [] [] (if start < length t then splitSlash [] (drop start t) else [])))"

section \<open>States, errors and requests\<close>

datatype jobState = Queued | Preparing | Running | WaitingForUser | Paused | Committing | Completed | Failed | Cancelled

definition IsTerminal :: "jobState \<Rightarrow> bool" where
  "IsTerminal st \<longleftrightarrow> st = Completed \<or> st = Failed \<or> st = Cancelled"

fun StateName :: "jobState \<Rightarrow> string" where
  "StateName Queued = ''queued''"
| "StateName Preparing = ''preparing''"
| "StateName Running = ''running''"
| "StateName WaitingForUser = ''waiting-for-user''"
| "StateName Paused = ''paused''"
| "StateName Committing = ''committing''"
| "StateName Completed = ''completed''"
| "StateName Failed = ''failed''"
| "StateName Cancelled = ''cancelled''"

datatype errorCategory = InvalidRequest | NotFound | AccessDenied | Unavailable | CancelledError | StaleRevision
  | Unsupported | BudgetExceeded | Internal

record error =
  category :: errorCategory
  code :: string
  retryable :: bool

abbreviation err :: "errorCategory \<Rightarrow> string \<Rightarrow> error" where
  "err k c \<equiv> \<lparr>category = k, code = c, retryable = False\<rparr>"

text \<open>The answer of a call out of the scheduler: a value or an error, or an exception.\<close>

datatype 'a call = Returned "error + 'a" | Thrown

datatype interactionKind = Overwrite | RenameKind | Elevation | Password | DeleteConfirmation | RetryFailure | ReadOnlyRemoval

datatype interactionChoice = Replace | Skip | Rename | Retry | Elevate | Confirm | CancelChoice | ConfirmAll | ElevateAll
  | SkipAll | CopyOnly | ReplaceAll | RenameIncoming | RenameExisting

record interactionRequest =
  requestId :: string
  interactionKind :: interactionKind
  reason :: string
  choices :: "interactionChoice list"
  promptSource :: string
  promptDestination :: string
  passwordAttempt :: nat

record interactionAnswer =
  answeredId :: string
  choice :: interactionChoice
  answerValue :: string

datatype jobKind = UnknownJob | Copy | Move | Delete | Recycle | Extract | ArchiveCreate | ArchiveSeparate | IsoCreate
  | ArchiveAdd | ArchiveMove | ArchiveDelete | ArchiveRename | ArchiveMakeDirectory | RenameJob | BatchRename
  | RenameUndo | RenameRedo | RenameResume | RenameRestore | MakeFile | MakeDirectory | SecurityChange | SecurityRestore

datatype jobPhase = NoPhase | PreparingPhase | Copying | Verifying | RemovingSource | PreparingInputs | BuildingArchive
  | SavingOutput | RewritingArchive | CommittingPhase | Inspecting | TemporaryNames | ApplyingNames | RestoringNames
  | Creating | BackingUpSecurity | ApplyingSecurity | RestoringSecurity | Deleting

record jobProgress =
  bytesDone :: nat
  bytesTotal :: "nat option"
  currentItem :: string
  currentBytes :: nat
  currentTotal :: "nat option"
  plannedItems :: "nat option"
  discoveredItems :: "nat option"
  discoveredFiles :: "nat option"
  deletedFiles :: "nat option"
  progressSource :: string
  progressDestination :: string
  phase :: jobPhase
  itemsDone :: "nat option"
  outputIndex :: "nat option"
  outputCount :: "nat option"
  activeFiles :: nat
  phaseItemsDone :: "nat option"
  phaseItemsTotal :: "nat option"

definition noProgress :: jobProgress where
  "noProgress = \<lparr>bytesDone = 0, bytesTotal = None, currentItem = [], currentBytes = 0, currentTotal = None, plannedItems = None,
     discoveredItems = None, discoveredFiles = None, deletedFiles = None, progressSource = [], progressDestination = [],
     phase = NoPhase, itemsDone = None, outputIndex = None, outputCount = None, activeFiles = 0, phaseItemsDone = None,
     phaseItemsTotal = None\<rparr>"

datatype itemStatus = ItemCompleted | ItemSkipped | ItemFailed

record itemOutcome =
  itemName :: string
  status :: itemStatus
  itemError :: "error option"
  destinationCommitted :: bool
  sourceRemoved :: bool

record jobMetadata =
  label :: string
  metaSource :: string
  metaDestination :: string
  metaOptions :: string
  retryOf :: string
  jobKind :: jobKind

datatype jobControl = Start | Pause | Resume | Cancel

record jobSnapshot =
  jobId :: string
  correlationId :: string
  state :: jobState
  progress :: jobProgress
  completedItems :: nat
  skippedItems :: nat
  failedItems :: nat
  retryAttempt :: nat
  pauseRequested :: bool
  cancelRequested :: bool
  interaction :: "interactionRequest option"
  jobError :: "error option"
  submitted :: nat
  updated :: nat
  deferred :: bool
  foreground :: bool
  queueOrder :: nat
  metadata :: jobMetadata
  retriedAs :: string

text \<open>The item outcomes are a ledger outside the scheduler when one is open (\<open>outcomes\<close>).\<close>

record jobResult =
  resultSnapshot :: jobSnapshot
  resultItems :: "itemOutcome list"
  resultCleanup :: "error list"
  resultOutcomes :: bool
  resultWrites :: bool

record jobRequest =
  reqCorrelation :: string
  reqDeferred :: bool
  reqForeground :: bool
  reqMetadata :: jobMetadata
  resourceLanes :: "string list"
  reqDeadline :: "nat option"
  providerInteractions :: bool
  interactionStart :: bool
  maxItemResults :: nat
  maxRetries :: nat
  initialRetryDelay :: int
  maximumRetryDelay :: int

record jobStep =
  nextState :: jobState
  stepProgress :: "jobProgress option"
  item :: "itemOutcome option"
  stepInteraction :: "interactionRequest option"
  stepError :: "error option"
  retry :: bool
  deferFor :: int
  replaceItem :: "nat option"
  stepItems :: "itemOutcome list"

definition newStep :: "jobState \<Rightarrow> jobStep" where
  "newStep st = \<lparr>nextState = st, stepProgress = None, item = None, stepInteraction = None, stepError = None, retry = False,
     deferFor = 0, replaceItem = None, stepItems = []\<rparr>"

abbreviation failedStep :: "error \<Rightarrow> jobStep" where
  "failedStep e \<equiv> (newStep Failed)\<lparr>stepError := Some e\<rparr>"

record completedEffects =
  lateItems :: "itemOutcome list"
  lateProgress :: "jobProgress option"

text \<open>\<open>Job\<close>: the snapshot, the rest of the result, and what the scheduler keeps.  The task itself
  is outside; \<open>wrapped\<close> says that \<open>ProviderInteractionTask\<close> stands before it and \<open>taskAlive\<close>
  that the handle is not reset.  \<open>completion\<close> is the value of the promise.\<close>

record job = jobSnapshot +
  request :: jobRequest
  items :: "itemOutcome list"
  cleanupErrors :: "error list"
  outcomes :: bool
  writes :: bool
  taskAlive :: bool
  wrapped :: bool
  stopRequested :: bool
  completion :: "jobResult option"
  answer :: "interactionAnswer option"
  resume :: jobState
  executing :: bool
  lanesHeld :: bool
  commitEntered :: bool
  itemsOpened :: bool
  admitted :: bool
  receiptSaved :: bool
  interactionSequence :: nat
  readyAt :: int

abbreviation Missing :: error where
  "Missing \<equiv> err NotFound ''job-not-found''"

abbreviation Closed :: error where
  "Closed \<equiv> err InvalidRequest ''job-terminal''"

definition Number :: "nat \<Rightarrow> nat" where
  "Number v = min v (2 ^ 63 - 1)"

definition JournalRecord :: "job \<Rightarrow> jobResult" where
  "JournalRecord j = \<lparr>resultSnapshot = jobSnapshot.truncate j, resultItems = (if outcomes j then [] else items j),
     resultCleanup = cleanupErrors j, resultOutcomes = outcomes j, resultWrites = writes j\<rparr>"

definition resultOf :: "job \<Rightarrow> jobResult" where
  "resultOf j = \<lparr>resultSnapshot = jobSnapshot.truncate j, resultItems = items j,
     resultCleanup = cleanupErrors j, resultOutcomes = outcomes j, resultWrites = writes j\<rparr>"

section \<open>The shared state\<close>

record event =
  eventId :: string
  eventCorrelation :: string
  eventCausation :: string
  eventProgress :: bool
  eventJob :: string
  eventState :: string
  eventBytes :: nat
  eventCompleted :: nat
  eventSkipped :: nat
  eventFailed :: nat
  eventCode :: string
  eventInteraction :: "string option"

record sched =
  clockNow :: nat
  jobs :: "(string \<times> job) list"
  activeIds :: "string list"
  laneLimits :: "string \<Rightarrow> nat option"
  occupied :: "(string \<times> nat) list"
  hasJournal :: bool
  notifications :: "event list"
  draining :: bool
  stopping :: bool
  maxJobs :: nat
  lastPicked :: string
  dropped :: nat
  nextOrder :: nat
  concurrencyLimit :: nat
  workerCount :: nat
  admittedCount :: nat
  sessionName :: string
  nextId :: nat

definition theJob :: "sched \<Rightarrow> string \<Rightarrow> job" where
  "theJob s i = the (map_of (jobs s) i)"

definition modJob :: "string \<Rightarrow> (job \<Rightarrow> job) \<Rightarrow> sched \<Rightarrow> sched" where
  "modJob i f s = s\<lparr>jobs := map (\<lambda>(k, j). (k, if k = i then f j else j)) (jobs s)\<rparr>"

definition jobEvent :: "string \<Rightarrow> bool \<Rightarrow> job \<Rightarrow> event" where
  "jobEvent name isProgress j = \<lparr>eventId = name, eventCorrelation = correlationId j, eventCausation = jobId j,
     eventProgress = isProgress, eventJob = jobId j, eventState = StateName (state j), eventBytes = Number (bytesDone (progress j)),
     eventCompleted = Number (completedItems j), eventSkipped = Number (skippedItems j), eventFailed = Number (failedItems j),
     eventCode = (case jobError j of None \<Rightarrow> [] | Some e \<Rightarrow> code e),
     eventInteraction = map_option requestId (interaction j)\<rparr>"

definition pushEvent :: "event \<Rightarrow> sched \<Rightarrow> sched" where
  "pushEvent e s =
    (if length (notifications s) = 4096 then s\<lparr>notifications := tl (notifications s) @ [e], dropped := dropped s + 1\<rparr>
     else s\<lparr>notifications := notifications s @ [e]\<rparr>)"

definition notify :: "string \<Rightarrow> bool \<Rightarrow> string \<Rightarrow> sched \<Rightarrow> sched" where
  "notify name isProgress i s =
    (let s1 = modJob i (\<lambda>j. j\<lparr>updated := clockNow s, cancelRequested := cancelRequested j \<or> stopRequested j\<rparr>) s
     in pushEvent (jobEvent name isProgress (theJob s1 i)) s1)"

definition unadmit :: "string \<Rightarrow> sched \<Rightarrow> sched" where
  "unadmit i s = (let j = theJob s i; s' = modJob i (\<lambda>j. j\<lparr>admitted := False\<rparr>) s
     in if foreground j then s' else s'\<lparr>admittedCount := minus64 (admittedCount s') 1\<rparr>)"

definition transition :: "jobState \<Rightarrow> string \<Rightarrow> sched \<Rightarrow> sched" where
  "transition next_state i s =
    (if state (theJob s i) = next_state then s
     else let s1 = modJob i (\<lambda>j. j\<lparr>state := next_state\<rparr>) s;
              s2 = (if IsTerminal next_state then s1\<lparr>activeIds := remove1 i (activeIds s1)\<rparr> else s1);
              s3 = (if (next_state = Paused \<or> next_state = WaitingForUser \<or> IsTerminal next_state) \<and> admitted (theJob s2 i)
                    then unadmit i s2 else s2)
       in notify (if IsTerminal next_state then ''job.'' @ StateName next_state else ''job.changed'') False i s3)"

section \<open>Lanes\<close>

fun incr :: "string \<Rightarrow> (string \<times> nat) list \<Rightarrow> (string \<times> nat) list" where
  "incr l [] = [(l, 1)]"
| "incr l ((k, n) # xs) = (if l = k then (k, n + 1) # xs else if l < k then (l, 1) # (k, n) # xs else (k, n) # incr l xs)"

text \<open>\<open>if (--occupied_[Lane] == 0) erase\<close>; a missing entry is created at zero first.\<close>

fun decr :: "string \<Rightarrow> (string \<times> nat) list \<Rightarrow> (string \<times> nat) list" where
  "decr l [] = [(l, minus64 0 1)]"
| "decr l ((k, n) # xs) =
    (if l = k then (if minus64 n 1 = 0 then xs else (k, minus64 n 1) # xs)
     else if l < k then (l, minus64 0 1) # (k, n) # xs else (k, n) # decr l xs)"

abbreviation PathLane :: "string \<Rightarrow> bool" where
  "PathLane l \<equiv> startsWith ''path:'' l"

text \<open>The parent lanes: the lane cut before each backslash behind the five characters of the tag.\<close>

definition parentLanes :: "string \<Rightarrow> string list" where
  "parentLanes l = map (\<lambda>e. take e l) (filter (\<lambda>e. l ! e = Backslash) [5..<length l])"

definition laneLimit :: "sched \<Rightarrow> string \<Rightarrow> nat" where
  "laneLimit s l = (case laneLimits s l of Some n \<Rightarrow> n | None \<Rightarrow> 1)"

text \<open>\<open>lower_bound\<close> of the prefix of the children finds the first key that is not smaller.\<close>

definition childOccupied :: "(string \<times> nat) list \<Rightarrow> string \<Rightarrow> bool" where
  "childOccupied occ l =
    (case List.find (\<lambda>k. \<not> k < l @ [Backslash]) (map fst occ) of None \<Rightarrow> False | Some k \<Rightarrow> startsWith (l @ [Backslash]) k)"

definition parentOccupied :: "(string \<times> nat) list \<Rightarrow> string \<Rightarrow> bool" where
  "parentOccupied occ l \<longleftrightarrow> (\<exists>p \<in> set (parentLanes l). case map_of occ p of None \<Rightarrow> False | Some n \<Rightarrow> n \<noteq> 0)"

definition laneFree :: "sched \<Rightarrow> string \<Rightarrow> bool" where
  "laneFree s l \<longleftrightarrow> \<not> (case map_of (occupied s) l of None \<Rightarrow> False | Some n \<Rightarrow> laneLimit s l \<le> n)
     \<and> (PathLane l \<longrightarrow> \<not> childOccupied (occupied s) l \<and> \<not> parentOccupied (occupied s) l)"

definition acquire :: "string \<Rightarrow> sched \<Rightarrow> bool \<times> sched" where
  "acquire i s =
    (let lanes = resourceLanes (request (theJob s i)) in
     if lanesHeld (theJob s i) then (True, s)
     else if list_all (laneFree s) lanes
     then (True, modJob i (\<lambda>j. j\<lparr>lanesHeld := True\<rparr>) (s\<lparr>occupied := fold incr lanes (occupied s)\<rparr>))
     else (False, s))"

definition release :: "string \<Rightarrow> sched \<Rightarrow> sched" where
  "release i s =
    (if lanesHeld (theJob s i)
     then modJob i (\<lambda>j. j\<lparr>lanesHeld := False\<rparr>)
       (s\<lparr>occupied := fold decr (resourceLanes (request (theJob s i))) (occupied s)\<rparr>)
     else s)"

end
