(* ===== verification/Scheduler.thy ===== *)
theory Scheduler
  imports Jobs
begin

text \<open>
  The operations of \<open>JobScheduler\<close> that its owner and the user interface call: \<open>Submit\<close>,
  \<open>Snapshot\<close>, \<open>Control\<close> (with \<open>Cancel\<close> and \<open>Pause\<close>), \<open>ReorderQueued\<close>, the limits, \<open>Reply\<close>,
  \<open>Forget\<close>, \<open>SetForeground\<close>, \<open>flushEvents\<close> and \<open>Shutdown\<close>.  Each holds the mutex for the time
  its definition describes, so it is one step on the shared state; waking the workers has no
  effect on the state.  The event hub and the tokens of the caller are outside.
\<close>

section \<open>Construction and submission\<close>

definition newScheduler :: "nat \<Rightarrow> nat \<Rightarrow> bool \<Rightarrow> string \<Rightarrow> bool \<Rightarrow> sched option" where
  "newScheduler workers maxRetained journal session hub =
    (if \<not> hub \<or> workers = 0 \<or> 64 < workers \<or> maxRetained = 0 \<or> 65536 < maxRetained then None
     else Some \<lparr>clockNow = 0, jobs = [], activeIds = [], laneLimits = (\<lambda>_. None), occupied = [], hasJournal = journal,
       notifications = [], draining = False, stopping = False, maxJobs = maxRetained, lastPicked = [], dropped = 0,
       nextOrder = 0, concurrencyLimit = workers, workerCount = workers, admittedCount = 0, sessionName = session,
       nextId = 0\<rparr>)"

fun natText :: "nat \<Rightarrow> string" where
  "natText n = (if n < 10 then [char_of (48 + n)] else natText (n div 10) @ [char_of (48 + n mod 10)])"

declare natText.simps [simp del]

definition newJobId :: "string \<Rightarrow> nat \<Rightarrow> string" where
  "newJobId session n = ''hc-job-'' @ session @ ''-'' @ natText n"

fun normalLanes :: "(string \<Rightarrow> string option) \<Rightarrow> string list \<Rightarrow> error + string list" where
  "normalLanes upper [] = Inr []"
| "normalLanes upper (l # ls) =
    (if l = [] \<or> (if PathLane l then 131077 else 1024) < length l then Inl (err InvalidRequest ''invalid-resource-lane'')
     else if PathLane l \<and> FileOperationPath upper (drop 5 l) = [] then Inl (err InvalidRequest ''invalid-resource-path'')
     else case normalLanes upper ls of Inl e \<Rightarrow> Inl e
       | Inr rest \<Rightarrow> Inr ((if PathLane l then ''path:'' @ FileOperationPath upper (drop 5 l) else l) # rest))"

definition badRequest :: "jobRequest \<Rightarrow> bool" where
  "badRequest r \<longleftrightarrow> maxItemResults r = 0 \<or> 16 < maxRetries r \<or> initialRetryDelay r < 1
     \<or> maximumRetryDelay r < initialRetryDelay r \<or> 60000 < maximumRetryDelay r"

definition newJob :: "sched \<Rightarrow> string \<Rightarrow> jobRequest \<Rightarrow> job" where
  "newJob s i r = \<lparr>jobId = i, correlationId = (if reqCorrelation r = [] then i else reqCorrelation r), state = Queued,
     progress = noProgress, completedItems = 0, skippedItems = 0, failedItems = 0, retryAttempt = 0,
     pauseRequested = False, cancelRequested = False, interaction = None, jobError = None,
     submitted = clockNow s, updated = 0, deferred = reqDeferred r, foreground = reqForeground r, queueOrder = 0,
     metadata = reqMetadata r, retriedAs = [],
     request = r, items = [], cleanupErrors = [], outcomes = False, writes = False, taskAlive = True,
     wrapped = (providerInteractions r \<and> \<not> interactionStart r), stopRequested = False, completion = None,
     answer = None, resume = Preparing, executing = False, lanesHeld = False, commitEntered = False,
     itemsOpened = False, admitted = False, receiptSaved = False, interactionSequence = 0, readyAt = 0\<rparr>"

text \<open>\<open>emplace\<close> into a map in key order: an existing key keeps its value.\<close>

fun emplaceJob :: "string \<Rightarrow> job \<Rightarrow> (string \<times> job) list \<Rightarrow> (string \<times> job) list" where
  "emplaceJob i j [] = [(i, j)]"
| "emplaceJob i j ((k, v) # xs) =
    (if i = k then (k, v) # xs else if i < k then (i, j) # (k, v) # xs else (k, v) # emplaceJob i j xs)"

definition retryRefused :: "job \<Rightarrow> bool" where
  "retryRefused previous \<longleftrightarrow> executing previous \<or> \<not> IsTerminal (state previous) \<or> state previous = Completed
     \<or> retriedAs previous \<noteq> []"

text \<open>The part of \<open>Submit\<close> under the mutex.\<close>

definition enqueue :: "string \<Rightarrow> jobRequest \<Rightarrow> sched \<Rightarrow> (error + string) \<times> sched" where
  "enqueue i r s =
    (let parent = retryOf (reqMetadata r) in
     if stopping s then (Inl (err Unavailable ''scheduler-closed''), s)
     else if maxJobs s \<le> length (jobs s) then (Inl (err BudgetExceeded ''job-history-full''), s)
     else if parent \<noteq> [] \<and> map_of (jobs s) parent = None then (Inl Missing, s)
     else if parent \<noteq> [] \<and> retryRefused (theJob s parent)
     then (Inl (err InvalidRequest ''job-retry-already-submitted-or-ineligible''), s)
     else let s1 = (if parent \<noteq> [] then notify ''job.changed'' False parent (modJob parent (\<lambda>j. j\<lparr>retriedAs := i\<rparr>) s) else s);
              s2 = s1\<lparr>nextOrder := nextOrder s1 + 1\<rparr>;
              s3 = s2\<lparr>jobs := emplaceJob i ((newJob s i r)\<lparr>queueOrder := nextOrder s2\<rparr>) (jobs s2),
                      activeIds := (if i \<in> set (activeIds s2) then activeIds s2 else insort i (activeIds s2))\<rparr>
       in (Inr i, notify ''job.changed'' False i s3))"

definition Submit :: "(string \<Rightarrow> string option) \<Rightarrow> bool \<Rightarrow> jobRequest \<Rightarrow> sched \<Rightarrow> (error + string) \<times> sched" where
  "Submit upper task r s =
    (if \<not> task \<or> badRequest r then (Inl (err InvalidRequest ''invalid-job-request''), s)
     else if \<exists>t \<in> set [label (reqMetadata r), metaSource (reqMetadata r), metaDestination (reqMetadata r),
         metaOptions (reqMetadata r), retryOf (reqMetadata r)]. 65536 < length t
     then (Inl (err InvalidRequest ''job-metadata-budget''), s)
     else case normalLanes upper (resourceLanes r) of Inl e \<Rightarrow> (Inl e, s)
       | Inr lanes \<Rightarrow>
          let r1 = r\<lparr>resourceLanes := remdups_adj (sort lanes)\<rparr>; n = nextId s + 1
          in enqueue (newJobId (sessionName s) n) r1 (s\<lparr>nextId := n\<rparr>))"

section \<open>Queries\<close>

definition Snapshot :: "string \<Rightarrow> sched \<Rightarrow> error + jobSnapshot" where
  "Snapshot i s = (case map_of (jobs s) i of None \<Rightarrow> Inl Missing | Some j \<Rightarrow> Inr (jobSnapshot.truncate j))"

definition Snapshots :: "sched \<Rightarrow> jobSnapshot list" where
  "Snapshots s = map (\<lambda>(i, j). jobSnapshot.truncate j) (jobs s)"

section \<open>Control\<close>

text \<open>The validation of the whole batch, before any member changes.\<close>

fun checkBatch :: "sched \<Rightarrow> jobControl \<Rightarrow> string list \<Rightarrow> string list \<Rightarrow> error option" where
  "checkBatch s c seen [] = None"
| "checkBatch s c seen (i # is) =
    (case map_of (jobs s) i of None \<Rightarrow> Some Missing
     | Some j \<Rightarrow>
        if i \<in> set seen then Some (err InvalidRequest ''duplicate-job-id'')
        else if IsTerminal (state j) \<or> cancelRequested j then Some Closed
        else if c = Start \<and> \<not> deferred j then Some (err InvalidRequest ''job-not-deferred'')
        else checkBatch s c (i # seen) is)"

definition controlJob :: "jobControl \<Rightarrow> string \<Rightarrow> sched \<Rightarrow> sched" where
  "controlJob c i s =
    notify ''job.changed'' False i
      (if c = Cancel then modJob i (\<lambda>j. j\<lparr>cancelRequested := True\<rparr>) s
       else if c = Start then modJob i (\<lambda>j. j\<lparr>deferred := False\<rparr>) s
       else let s1 = modJob i (\<lambda>j. j\<lparr>pauseRequested := (c = Pause)\<rparr>) s
         in if c \<noteq> Pause \<and> state (theJob s1 i) = Paused then transition (resume (theJob s1 i)) i s1 else s1)"

definition requestStop :: "string \<Rightarrow> sched \<Rightarrow> sched" where
  "requestStop i s = modJob i (\<lambda>j. j\<lparr>stopRequested := True\<rparr>) s"

definition Control :: "string list \<Rightarrow> jobControl \<Rightarrow> sched \<Rightarrow> error option \<times> sched" where
  "Control is c s =
    (if is = [] \<or> 65536 < length is then (Some (err InvalidRequest ''invalid-job-batch''), s)
     else case checkBatch s c [] is of Some e \<Rightarrow> (Some e, s)
       | None \<Rightarrow> let s1 = fold (controlJob c) is s
          in (None, if c = Cancel then fold requestStop is s1 else s1))"

definition CancelJob :: "string \<Rightarrow> sched \<Rightarrow> error option \<times> sched" where
  "CancelJob i s = Control [i] Cancel s"

definition PauseJob :: "string \<Rightarrow> bool \<Rightarrow> sched \<Rightarrow> error option \<times> sched" where
  "PauseJob i paused s = Control [i] (if paused then Pause else Resume) s"

fun checkQueue :: "sched \<Rightarrow> string list \<Rightarrow> string list \<Rightarrow> bool" where
  "checkQueue s seen [] = True"
| "checkQueue s seen (i # is) =
    (case map_of (jobs s) i of None \<Rightarrow> False
     | Some j \<Rightarrow> deferred j \<and> \<not> cancelRequested j \<and> i \<notin> set seen \<and> checkQueue s (i # seen) is)"

definition reorderJob :: "string \<Rightarrow> sched \<Rightarrow> sched" where
  "reorderJob i s =
    (let s1 = s\<lparr>nextOrder := nextOrder s + 1\<rparr>
     in notify ''job.changed'' False i (modJob i (\<lambda>j. j\<lparr>receiptSaved := False, queueOrder := nextOrder s1\<rparr>) s1))"

definition ReorderQueued :: "string list \<Rightarrow> sched \<Rightarrow> error option \<times> sched" where
  "ReorderQueued is s =
    (if length is \<noteq> length (filter (\<lambda>(i, j). deferred j) (jobs s)) \<or> \<not> checkQueue s [] is
     then (Some (err InvalidRequest ''queue-members-changed''), s)
     else (None, fold reorderJob is s))"

section \<open>Limits, replies and the end of a job\<close>

definition SetConcurrencyLimit :: "nat \<Rightarrow> sched \<Rightarrow> error option \<times> sched" where
  "SetConcurrencyLimit limit s =
    (if limit = 0 \<or> workerCount s < limit then (Some (err InvalidRequest ''invalid-concurrency-limit''), s)
     else (None, s\<lparr>concurrencyLimit := limit\<rparr>))"

definition SetLaneLimit :: "string \<Rightarrow> nat \<Rightarrow> sched \<Rightarrow> error option \<times> sched" where
  "SetLaneLimit lane limit s =
    (if lane = [] \<or> 1024 < length lane \<or> limit = 0 \<or> 64 < limit then (Some (err InvalidRequest ''invalid-lane-limit''), s)
     else (None, s\<lparr>laneLimits := (laneLimits s)(lane := Some limit)\<rparr>))"

definition SetForeground :: "string \<Rightarrow> bool \<Rightarrow> sched \<Rightarrow> error option \<times> sched" where
  "SetForeground i fg s =
    (case map_of (jobs s) i of None \<Rightarrow> (Some Missing, s)
     | Some j \<Rightarrow>
        if IsTerminal (state j) then (Some Closed, s)
        else if foreground j = fg then (None, s)
        else if \<not> fg \<and> concurrencyLimit s \<le> admittedCount s then (Some (err Unavailable ''background-concurrency-full''), s)
        else let s1 = (if admitted j
                then s\<lparr>admittedCount := (if fg then minus64 (admittedCount s) 1 else admittedCount s + 1)\<rparr> else s)
          in (None, notify ''job.changed'' False i
                (modJob i (\<lambda>j. j\<lparr>foreground := fg, request := (request j)\<lparr>reqForeground := fg\<rparr>\<rparr>) s1)))"

definition pastDeadline :: "sched \<Rightarrow> nat option \<Rightarrow> bool" where
  "pastDeadline s d = (case d of None \<Rightarrow> False | Some t \<Rightarrow> t \<le> clockNow s)"

definition Reply :: "string \<Rightarrow> interactionAnswer \<Rightarrow> sched \<Rightarrow> error option \<times> sched" where
  "Reply i a s =
    (case map_of (jobs s) i of None \<Rightarrow> (Some Missing, s)
     | Some j \<Rightarrow>
        if state j \<noteq> WaitingForUser \<or> (case interaction j of None \<Rightarrow> True | Some p \<Rightarrow> requestId p \<noteq> answeredId a)
            \<or> executing j \<or> cancelRequested j \<or> stopRequested j \<or> pastDeadline s (reqDeadline (request j))
        then (Some (err StaleRevision ''interaction-expired''), s)
        else if 65536 < length (answerValue a) \<or> choice a \<notin> set (choices (the (interaction j)))
        then (Some (err InvalidRequest ''interaction-answer''), s)
        else let cancelled = (choice a = CancelChoice);
                 s1 = modJob i (\<lambda>j. j\<lparr>cancelRequested := cancelRequested j \<or> cancelled, answer := Some a,
                        interaction := None\<rparr>) s;
                 s2 = transition (resume (theJob s1 i)) i s1
          in (None, if cancelled then snd (CancelJob i s2) else s2))"

text \<open>\<open>Reply\<close> marks the job as cancelled before it calls \<open>Cancel\<close>, which refuses such a job: the
  stop that \<open>Cancel\<close> would request is not requested.\<close>

lemma Cancel_refused_after_reply:
  "map_of (jobs s) i = Some j \<Longrightarrow> cancelRequested j \<Longrightarrow> CancelJob i s = (Some Closed, s)"
  by (simp add: CancelJob_def Control_def)

definition Forget :: "string \<Rightarrow> sched \<Rightarrow> error option \<times> sched" where
  "Forget i s =
    (case map_of (jobs s) i of None \<Rightarrow> (Some Missing, s)
     | Some j \<Rightarrow>
        if \<not> IsTerminal (state j) \<or> executing j then (Some (err InvalidRequest ''job-active''), s)
        else (None, s\<lparr>activeIds := remove1 i (activeIds s), jobs := filter (\<lambda>(k, j). k \<noteq> i) (jobs s)\<rparr>))"

section \<open>Events\<close>

text \<open>One drainer at a time takes an event out, publishes it without the mutex and adds what the
  hub rejected; \<open>None\<close> is an exception of the hub.\<close>

definition flushBegin :: "sched \<Rightarrow> sched option" where
  "flushBegin s = (if draining s then None else Some (s\<lparr>draining := True\<rparr>))"

definition flushTake :: "sched \<Rightarrow> event option \<times> sched" where
  "flushTake s = (case notifications s of [] \<Rightarrow> (None, s\<lparr>draining := False\<rparr>)
     | e # es \<Rightarrow> (Some e, s\<lparr>notifications := es\<rparr>))"

definition flushAdd :: "nat option \<Rightarrow> sched \<Rightarrow> sched" where
  "flushAdd rejected s = s\<lparr>dropped := dropped s + (case rejected of Some n \<Rightarrow> n | None \<Rightarrow> 1)\<rparr>"

section \<open>Shutdown\<close>

definition Shutdown :: "sched \<Rightarrow> sched" where
  "Shutdown s =
    (let pending = map fst (filter (\<lambda>(i, j). \<not> IsTerminal (state j)) (jobs s));
         s1 = s\<lparr>stopping := True, jobs := map (\<lambda>(i, j). (i, if IsTerminal (state j) then j else j\<lparr>cancelRequested := True\<rparr>)) (jobs s)\<rparr>
     in fold requestStop pending s1)"

end
