(* ===== verification/Worker.thy ===== *)
theory Worker
  imports Scheduler
begin

text \<open>
  The worker loop \<open>JobScheduler::run\<close>.  One turn is cut where the code leaves and takes the
  mutex: picking a job (\<open>pick\<close>), the receipt of a deferred job, the stores and the checkpoint
  of the journal, the step of the task, the item ledger, the account of the step
  (\<open>account\<close>), and the end of a job (\<open>lateEffects\<close>, \<open>publish\<close>).  What the task, the journal
  and the ledger answer is an argument; an exception is the answer \<open>Thrown\<close>, or \<open>None\<close> where the call has no
  error to return.  The values a
  worker carries from one section to the next are a \<open>work\<close>.
\<close>

section \<open>Picking a job\<close>

record stepContext =
  ctxJob :: string
  ctxAnswer :: "interactionAnswer option"
  ctxRetry :: nat
  ctxCommitting :: bool
  ctxStoppable :: bool
  ctxDeadline :: "nat option"

record picked =
  pickId :: string
  pickAbort :: "error option"
  receiptOnly :: bool
  pickContext :: stepContext

datatype pickResult = Exit | Idle int | Picked picked

text \<open>The jobs behind the last one picked, from the begin again, the queued ones last and in the
  order of the queue.\<close>

definition candidates :: "sched \<Rightarrow> string list" where
  "candidates s =
    (let turn = filter (\<lambda>i. lastPicked s < i) (activeIds s) @ filter (\<lambda>i. \<not> lastPicked s < i) (activeIds s)
     in filter (\<lambda>i. state (theJob s i) \<noteq> Queued) turn
        @ sort_key (\<lambda>i. queueOrder (theJob s i)) (filter (\<lambda>i. state (theJob s i) = Queued) turn))"

definition pickAbortOf :: "sched \<Rightarrow> job \<Rightarrow> error option" where
  "pickAbortOf s j =
    (if state j = Committing \<and> commitEntered j then None
     else if cancelRequested j \<or> stopRequested j then Some (err CancelledError ''cancelled'')
     else if pastDeadline s (reqDeadline (request j)) then Some (err Unavailable ''deadline-exceeded'')
     else None)"

definition claim :: "string \<Rightarrow> error option \<Rightarrow> sched \<Rightarrow> picked \<times> sched" where
  "claim i abort s =
    (let s1 = (modJob i (\<lambda>j. j\<lparr>executing := True\<rparr>) s)\<lparr>lastPicked := i\<rparr>;
         s2 = (if \<not> deferred (theJob s1 i) \<and> state (theJob s1 i) = Queued then transition Preparing i s1 else s1);
         entering = (state (theJob s2 i) = Committing);
         s3 = (if entering \<and> abort = None then modJob i (\<lambda>j. j\<lparr>commitEntered := True\<rparr>) s2 else s2);
         j = theJob s3 i
     in (\<lparr>pickId = i, pickAbort = abort, receiptOnly = deferred j,
          pickContext = \<lparr>ctxJob = jobId j, ctxAnswer = answer j, ctxRetry = retryAttempt j, ctxCommitting = entering,
            ctxStoppable = (\<not> entering), ctxDeadline = (if entering then None else reqDeadline (request j))\<rparr>\<rparr>,
         modJob i (\<lambda>j. j\<lparr>answer := None\<rparr>) s3))"

definition admit :: "string \<Rightarrow> sched \<Rightarrow> sched" where
  "admit i s =
    (if admitted (theJob s i) then s
     else let s1 = modJob i (\<lambda>j. j\<lparr>admitted := True\<rparr>) s
       in if foreground (theJob s i) then s1 else s1\<lparr>admittedCount := admittedCount s1 + 1\<rparr>)"

definition pauseAt :: "string \<Rightarrow> sched \<Rightarrow> sched" where
  "pauseAt i s =
    (if state (theJob s i) \<noteq> Paused then transition Paused i (modJob i (\<lambda>j. j\<lparr>resume := state j\<rparr>) s) else s)"

fun pickLoop :: "string list \<Rightarrow> bool \<Rightarrow> int \<Rightarrow> sched \<Rightarrow> pickResult \<times> sched" where
  "pickLoop [] active wake s = (if stopping s \<and> \<not> active then Exit else Idle wake, s)"
| "pickLoop (i # is) active wake s =
    (let j = theJob s i; committing = (state j = Committing \<and> commitEntered j) in
     if IsTerminal (state j) then pickLoop is active wake s
     else if executing j then pickLoop is True wake s
     else case pickAbortOf s j of
       Some e \<Rightarrow> (case claim i (Some e) s of (p, s') \<Rightarrow> (Picked p, s'))
     | None \<Rightarrow>
        if deferred j \<and> (\<not> hasJournal s \<or> receiptSaved j) then pickLoop is True wake s
        else if state j = WaitingForUser then pickLoop is True wake s
        else if pauseRequested j \<and> \<not> committing then pickLoop is True wake (pauseAt i s)
        else if deferred j then (case claim i None s of (p, s') \<Rightarrow> (Picked p, s'))
        else if \<not> foreground j \<and> \<not> admitted j \<and> concurrencyLimit s \<le> admittedCount s then pickLoop is True wake s
        else if int (clockNow s) < readyAt j then pickLoop is True (min wake (readyAt j)) s
        else (case acquire i s of (held, s1) \<Rightarrow>
                if \<not> held then pickLoop is True wake s1
                else (case claim i None (admit i s1) of (p, s') \<Rightarrow> (Picked p, s'))))"

definition pick :: "sched \<Rightarrow> pickResult \<times> sched" where
  "pick s = pickLoop (candidates s) False (int (clockNow s) + 25) s"

section \<open>Receipt, stores and checkpoint\<close>

definition savedAbort :: "unit call \<Rightarrow> error option" where
  "savedAbort saved = (case saved of Returned (Inr _) \<Rightarrow> None | Returned (Inl e) \<Rightarrow> Some e
     | Thrown \<Rightarrow> Some (err Unavailable ''job-journal-exception''))"

text \<open>The receipt was saved: the order of the queue may have changed since it was read.\<close>

definition receiptDone :: "string \<Rightarrow> jobResult \<Rightarrow> sched \<Rightarrow> sched" where
  "receiptDone i receipt s =
    modJob i (\<lambda>j. j\<lparr>receiptSaved := (queueOrder (resultSnapshot receipt) = queueOrder j), executing := False\<rparr>) s"

text \<open>\<open>OpenItems\<close> and \<open>OpenWrites\<close> answer whether there is a store.\<close>

definition openStores :: "string \<Rightarrow> bool call \<Rightarrow> bool call \<Rightarrow> sched \<Rightarrow> error option \<times> sched" where
  "openStores i openedItems openedWrites s =
    (let thrown = Some (err Unavailable ''job-outcomes-open-exception'');
         (abort, s1) = (case openedItems of
           Thrown \<Rightarrow> (thrown, s)
         | Returned (Inl e) \<Rightarrow> (Some e, s)
         | Returned (Inr hasItems) \<Rightarrow>
            let s' = modJob i (\<lambda>j. j\<lparr>outcomes := hasItems\<rparr>) s in
            (case openedWrites of
              Thrown \<Rightarrow> (thrown, s')
            | Returned (Inl e) \<Rightarrow> (Some e, s')
            | Returned (Inr hasWrites) \<Rightarrow> (None, modJob i (\<lambda>j. j\<lparr>writes := hasWrites\<rparr>) s')))
     in (abort, modJob i (\<lambda>j. j\<lparr>itemsOpened := True\<rparr>) s1))"

text \<open>The journal before a step: an aborted turn skips it; a failed checkpoint replaces the
  failure of the stores.\<close>

definition journalTurn :: "string \<Rightarrow> error option \<Rightarrow> bool call \<Rightarrow> bool call \<Rightarrow> unit call \<Rightarrow> sched \<Rightarrow> error option \<times> sched" where
  "journalTurn i abort openedItems openedWrites saved s =
    (if abort \<noteq> None \<or> \<not> hasJournal s then (abort, s)
     else let (a, s1) = (if itemsOpened (theJob s i) then (None, s) else openStores i openedItems openedWrites s)
       in (case savedAbort saved of None \<Rightarrow> a | Some e \<Rightarrow> Some e, s1))"

definition stepOf :: "error option \<Rightarrow> jobStep option \<Rightarrow> jobStep" where
  "stepOf abort advanced =
    (case abort of
       Some e \<Rightarrow> (newStep (if category e = CancelledError then Cancelled else Failed))\<lparr>stepError := Some e\<rparr>
     | None \<Rightarrow> (case advanced of Some st \<Rightarrow> st | None \<Rightarrow> failedStep (err Internal ''job-task-exception'')))"

section \<open>The item ledger\<close>

text \<open>The answers of the ledger to the calls of one turn, by their number.\<close>

record ledger =
  countOf :: "nat \<Rightarrow> nat option"
  appendOf :: "nat \<Rightarrow> unit call"
  readOf :: "itemOutcome list call"
  replaceOf :: "unit call"
  flushOf :: "unit call"

abbreviation writeException :: error where
  "writeException \<equiv> err Unavailable ''job-outcome-write-exception''"

definition writeFailure :: "unit call \<Rightarrow> error option" where
  "writeFailure r = (case r of Returned (Inr _) \<Rightarrow> None | Returned (Inl e) \<Rightarrow> Some e | Thrown \<Rightarrow> Some writeException)"

definition appendOne :: "ledger \<Rightarrow> nat \<Rightarrow> nat \<Rightarrow> error option" where
  "appendOne io limit k = (case countOf io k of
     None \<Rightarrow> Some writeException
   | Some n \<Rightarrow> if limit \<le> n then Some (err BudgetExceeded ''item-result-budget'') else writeFailure (appendOf io k))"

fun appendAll :: "ledger \<Rightarrow> nat \<Rightarrow> nat \<Rightarrow> itemOutcome list \<Rightarrow> error option" where
  "appendAll io limit k [] = None"
| "appendAll io limit k (x # xs) = (case appendOne io limit k of Some e \<Rightarrow> Some e | None \<Rightarrow> appendAll io limit (Suc k) xs)"

definition checkItems :: "jobStep \<Rightarrow> jobStep" where
  "checkItems st =
    (if stepItems st \<noteq> [] \<and> (item st \<noteq> None \<or> replaceItem st \<noteq> None \<or> retry st \<or> 128 < length (stepItems st))
     then failedStep (err Internal ''invalid-item-result-batch'') else st)"

definition saveItems :: "ledger \<Rightarrow> job \<Rightarrow> jobStep \<Rightarrow> jobStep" where
  "saveItems io j st =
    (if outcomes j \<and> stepItems st \<noteq> []
     then (case appendAll io (maxItemResults (request j)) 0 (stepItems st) of None \<Rightarrow> st
           | Some e \<Rightarrow> st\<lparr>nextState := Failed, stepError := Some e\<rparr>)
     else st)"

definition wrongUpdate :: "itemOutcome \<Rightarrow> itemOutcome \<Rightarrow> bool" where
  "wrongUpdate old new \<longleftrightarrow> itemName old \<noteq> itemName new \<or> (destinationCommitted old \<and> \<not> destinationCommitted new)
     \<or> (sourceRemoved old \<and> \<not> sourceRemoved new)"

definition saveReplaced :: "ledger \<Rightarrow> jobStep \<Rightarrow> error option \<times> itemOutcome option" where
  "saveReplaced io st =
    (case readOf io of
       Thrown \<Rightarrow> (Some writeException, None)
     | Returned (Inl e) \<Rightarrow> (Some e, None)
     | Returned (Inr old) \<Rightarrow>
        (case (item st, old) of
           (Some new, [o1]) \<Rightarrow>
             if wrongUpdate o1 new then (Some (err Internal ''invalid-item-result-update''), None)
             else (writeFailure (replaceOf io), Some o1)
         | _ \<Rightarrow> (Some (err Internal ''invalid-item-result-update''), None)))"

definition saveItem :: "ledger \<Rightarrow> job \<Rightarrow> jobStep \<Rightarrow> itemOutcome option \<times> jobStep" where
  "saveItem io j st =
    (if outcomes j \<and> (item st \<noteq> None \<or> replaceItem st \<noteq> None)
     then let (failure, previous) =
            (if retry st then (Some (err Internal ''invalid-retry-result''), None)
             else if replaceItem st \<noteq> None then saveReplaced io st
             else (appendOne io (maxItemResults (request j)) 0, None))
       in (previous, case failure of None \<Rightarrow> st | Some e \<Rightarrow> failedStep e)
     else (None, st))"

section \<open>The account of a step\<close>

definition rejectRetry :: "jobStep \<Rightarrow> jobStep" where
  "rejectRetry st =
    (if retry st \<and> (item st \<noteq> None \<or> stepInteraction st \<noteq> None \<or> replaceItem st \<noteq> None)
     then failedStep (err Internal ''invalid-retry-result'') else st)"

definition takeProgress :: "string \<Rightarrow> jobStep \<Rightarrow> sched \<Rightarrow> sched" where
  "takeProgress i st s = (case stepProgress st of None \<Rightarrow> s
     | Some p \<Rightarrow> notify ''job.progress'' True i (modJob i (\<lambda>j. j\<lparr>progress := p\<rparr>) s))"

definition rejectReplace :: "job \<Rightarrow> jobStep \<Rightarrow> jobStep" where
  "rejectReplace j st =
    (case replaceItem st of None \<Rightarrow> st
     | Some n \<Rightarrow>
        if \<not> outcomes j \<and> (case item st of None \<Rightarrow> True
             | Some new \<Rightarrow> length (items j) \<le> n \<or> wrongUpdate (items j ! n) new)
        then failedStep (err Internal ''invalid-item-result-update'') else st)"

definition uncount :: "itemStatus \<Rightarrow> job \<Rightarrow> job" where
  "uncount k j = (case k of ItemCompleted \<Rightarrow> j\<lparr>completedItems := minus64 (completedItems j) 1\<rparr>
     | ItemSkipped \<Rightarrow> j\<lparr>skippedItems := minus64 (skippedItems j) 1\<rparr>
     | ItemFailed \<Rightarrow> j\<lparr>failedItems := minus64 (failedItems j) 1\<rparr>)"

definition recount :: "itemStatus \<Rightarrow> job \<Rightarrow> job" where
  "recount k j = (case k of ItemCompleted \<Rightarrow> j\<lparr>completedItems := completedItems j + 1\<rparr>
     | ItemSkipped \<Rightarrow> j\<lparr>skippedItems := skippedItems j + 1\<rparr>
     | ItemFailed \<Rightarrow> j\<lparr>failedItems := failedItems j + 1\<rparr>)"

definition keepItem :: "itemOutcome \<Rightarrow> job \<Rightarrow> job" where
  "keepItem x j = (if \<not> outcomes j \<or> length (items j) < 200 then j\<lparr>items := items j @ [x]\<rparr> else j)"

text \<open>\<open>AccountItem\<close>.\<close>

definition accountItem :: "itemOutcome option \<Rightarrow> itemOutcome \<Rightarrow> jobStep \<times> job \<Rightarrow> jobStep \<times> job" where
  "accountItem previous x = (\<lambda>(st, j).
    if \<not> outcomes j \<and> replaceItem st = None \<and> length (items j) = maxItemResults (request j)
    then (st\<lparr>nextState := Failed, stepError := Some (err BudgetExceeded ''item-result-budget''), retry := False\<rparr>, j)
    else (st, case replaceItem st of
        None \<Rightarrow> keepItem x (recount (status x) j)
      | Some n \<Rightarrow>
         let j1 = recount (status x) (uncount (case previous of Some p \<Rightarrow> status p | None \<Rightarrow> status (items j ! n)) j)
         in if n < length (items j1) then j1\<lparr>items := (items j1)[n := x]\<rparr> else j1))"

definition accountItems :: "itemOutcome option \<Rightarrow> jobStep \<times> job \<Rightarrow> jobStep \<times> job" where
  "accountItems previous = (\<lambda>(st, j).
    fold (accountItem previous) ((case item st of None \<Rightarrow> [] | Some x \<Rightarrow> [x]) @ stepItems st) (st, j))"

definition mayRetry :: "job \<Rightarrow> jobStep \<Rightarrow> bool" where
  "mayRetry j st \<longleftrightarrow> state j \<noteq> Committing \<and> (case stepError st of None \<Rightarrow> False | Some e \<Rightarrow> retryable e)
     \<and> retryAttempt j < maxRetries (request j)"

definition retryDelay :: "job \<Rightarrow> int" where
  "retryDelay j = min (maximumRetryDelay (request j)) (initialRetryDelay (request j) * 2 ^ retryAttempt j)"

definition retryLater :: "string \<Rightarrow> jobStep \<Rightarrow> sched \<Rightarrow> sched" where
  "retryLater i st s =
    notify ''job.retry'' False i (modJob i (\<lambda>j. j\<lparr>readyAt := int (clockNow s) + retryDelay j,
      retryAttempt := retryAttempt j + 1, jobError := stepError st, executing := False\<rparr>) s)"

definition endRetry :: "jobStep \<Rightarrow> job \<Rightarrow> jobStep \<times> job" where
  "endRetry st j =
    (if retry st
     then (st\<lparr>nextState := Failed, stepError := (case stepError st of None \<Rightarrow> Some (err Internal ''invalid-retry'') | e \<Rightarrow> e)\<rparr>, j)
     else (st, j\<lparr>retryAttempt := 0\<rparr>))"

definition checkDelay :: "jobStep \<Rightarrow> jobStep" where
  "checkDelay st =
    (if deferFor st < 0 \<or> 86400000 < deferFor st \<or> (deferFor st \<noteq> 0 \<and> (nextState st \<noteq> Running \<or> stepInteraction st \<noteq> None))
     then st\<lparr>nextState := Failed, stepError := Some (err Internal ''invalid-task-delay'')\<rparr> else st)"

text \<open>What the next state becomes, with the error of the snapshot, one rule after the other.\<close>

definition ruleCancelled :: "job \<Rightarrow> jobState \<times> error option \<Rightarrow> jobState \<times> error option" where
  "ruleCancelled j = (\<lambda>(n, e).
    (if n = Failed \<and> state j \<noteq> Committing \<and> (case e of None \<Rightarrow> False | Some x \<Rightarrow> category x = CancelledError)
     then Cancelled else n, e))"

definition ruleCommit :: "sched \<Rightarrow> job \<Rightarrow> jobState \<times> error option \<Rightarrow> jobState \<times> error option" where
  "ruleCommit s j = (\<lambda>(n, e).
    if n = Committing \<and> state j \<noteq> Committing
    then (if cancelRequested j \<or> stopRequested j then (Cancelled, Some (err CancelledError ''cancelled''))
          else if pastDeadline s (reqDeadline (request j)) then (Failed, Some (err Unavailable ''deadline-exceeded''))
          else (n, e))
    else (n, e))"

definition ruleNoQuestion :: "job \<Rightarrow> jobState \<times> error option \<Rightarrow> jobState \<times> error option" where
  "ruleNoQuestion j = (\<lambda>(n, e).
    if state j = Committing \<and> n = WaitingForUser then (Failed, Some (err Internal ''interaction-during-commit'')) else (n, e))"

definition badQuestion :: "interactionRequest option \<Rightarrow> bool" where
  "badQuestion q = (case q of None \<Rightarrow> True | Some p \<Rightarrow> choices p = [] \<or> 16 < length (choices p))"

definition askUser :: "jobStep \<Rightarrow> jobState \<times> error option \<Rightarrow> job \<Rightarrow> (jobState \<times> error option) \<times> job" where
  "askUser st = (\<lambda>(n, e) j.
    if n = WaitingForUser
    then (if badQuestion (stepInteraction st) then ((Failed, Some (err Internal ''invalid-interaction'')), j)
          else let k = interactionSequence j + 1
            in ((n, e), j\<lparr>interactionSequence := k, resume := Running,
                 interaction := Some ((the (stepInteraction st))\<lparr>requestId := jobId j @ '':'' @ natText k\<rparr>)\<rparr>))
    else ((n, e), j))"

definition ruleEnd :: "job \<Rightarrow> jobState \<times> error option \<Rightarrow> jobState \<times> error option" where
  "ruleEnd j = (\<lambda>(n, e).
    let (n1, e1) = (if n = Queued \<or> n = Paused then (Failed, Some (err Internal ''invalid-task-transition'')) else (n, e));
        (n2, e2) = (if n1 = Completed \<and> failedItems j \<noteq> 0 then (Failed, Some (err Unavailable ''partial-failure'')) else (n1, e1))
    in (n2, if n2 = Failed \<and> e2 = None then Some (err Internal ''job-failed'') else e2))"

definition moveOn :: "string \<Rightarrow> jobState \<Rightarrow> sched \<Rightarrow> sched" where
  "moveOn i n s =
    (let j = theJob s i;
         s1 = (if n = Committing \<and> state j \<noteq> Committing \<and> pauseRequested j
               then transition Paused i (modJob i (\<lambda>j. j\<lparr>resume := n\<rparr>) s) else transition n i s)
     in modJob i (\<lambda>j. j\<lparr>commitEntered := (commitEntered j \<and> n = Committing), executing := False\<rparr>) s1)"

text \<open>The section after a step that is not retried: the state the job goes to, terminal ones only
  announced.\<close>

definition settle :: "string \<Rightarrow> jobStep \<Rightarrow> sched \<Rightarrow> jobState option \<times> sched" where
  "settle i st0 s0 =
    (let (st1, j1) = endRetry st0 (theJob s0 i);
         st2 = checkDelay st1;
         j2 = j1\<lparr>readyAt := int (clockNow s0) + deferFor st2, jobError := stepError st2\<rparr>;
         r1 = ruleNoQuestion j2 (ruleCommit s0 j2 (ruleCancelled j2 (nextState st2, jobError j2)));
         (r2, j3) = askUser st2 r1 j2;
         (n, e) = ruleEnd j3 r2;
         s1 = modJob i (\<lambda>_. j3\<lparr>jobError := e\<rparr>) s0
     in if IsTerminal n then (Some n, s1) else (None, moveOn i n s1))"

definition account :: "string \<Rightarrow> itemOutcome option \<Rightarrow> jobStep \<Rightarrow> sched \<Rightarrow> jobState option \<times> sched" where
  "account i previous st s =
    (let st1 = rejectRetry st;
         s1 = takeProgress i st1 s;
         st2 = rejectReplace (theJob s1 i) st1;
         (st3, j3) = accountItems previous (st2, theJob s1 i);
         s2 = modJob i (\<lambda>_. j3) s1
     in if retry st3 \<and> mayRetry j3 st3 then (None, retryLater i st3 s2) else settle i st3 s2)"

section \<open>The end of a job\<close>

fun appendLate :: "ledger \<Rightarrow> nat \<Rightarrow> itemOutcome list \<Rightarrow> error list" where
  "appendLate io k [] = []"
| "appendLate io k (x # xs) = (case writeFailure (appendOf io k) of Some e \<Rightarrow> [e] | None \<Rightarrow> appendLate io (Suc k) xs)"

definition takeLate :: "completedEffects option \<Rightarrow> completedEffects \<times> error list" where
  "takeLate late = (case late of Some fx \<Rightarrow> (fx, [])
     | None \<Rightarrow> (\<lparr>lateItems = [], lateProgress = None\<rparr>, [err Internal ''completed-effects-exception'']))"

definition lateEffects :: "string \<Rightarrow> ledger \<Rightarrow> completedEffects option \<Rightarrow> sched \<Rightarrow> error list \<times> sched" where
  "lateEffects i io late s =
    (let (fx, thrown) = takeLate late;
         unsaved = (if outcomes (theJob s i) then appendLate io 0 (lateItems fx) else []);
         s1 = (if lateItems fx \<noteq> [] \<or> lateProgress fx \<noteq> None
               then modJob i (\<lambda>j. fold (\<lambda>x j. keepItem x (recount (status x) j)) (lateItems fx)
                      (case lateProgress fx of None \<Rightarrow> j | Some p \<Rightarrow> j\<lparr>progress := p\<rparr>)) s
               else s)
     in (thrown @ unsaved, s1))"

definition finalErrors :: "error list option \<Rightarrow> error list" where
  "finalErrors final = (case final of Some es \<Rightarrow> es | None \<Rightarrow> [err Internal ''cleanup-exception''])"

definition flushErrors :: "job \<Rightarrow> ledger \<Rightarrow> error list" where
  "flushErrors j io =
    (if outcomes j then (case flushOf io of Returned (Inr _) \<Rightarrow> [] | Returned (Inl e) \<Rightarrow> [e]
       | Thrown \<Rightarrow> [err Unavailable ''job-outcome-flush-exception'']) else [])"

definition withCleanupError :: "error list \<Rightarrow> error option \<Rightarrow> error option" where
  "withCleanupError cleanup e = (if cleanup \<noteq> [] \<and> e = None then Some (err Unavailable ''cleanup-incomplete'') else e)"

text \<open>The record the journal gets at the end.\<close>

definition finalRecord :: "job \<Rightarrow> jobState \<Rightarrow> error list \<Rightarrow> jobResult" where
  "finalRecord j terminal cleanup =
    (let r = JournalRecord j; sn = resultSnapshot r
     in r\<lparr>resultCleanup := cleanup,
          resultSnapshot := sn\<lparr>state := (if cleanup = [] then terminal else Failed), jobError := withCleanupError cleanup (jobError sn)\<rparr>\<rparr>)"

definition journalErrors :: "sched \<Rightarrow> unit call \<Rightarrow> error list" where
  "journalErrors s saved = (if hasJournal s then (case savedAbort saved of None \<Rightarrow> [] | Some e \<Rightarrow> [e]) else [])"

definition publish :: "string \<Rightarrow> jobState \<Rightarrow> error list \<Rightarrow> sched \<Rightarrow> sched" where
  "publish i terminal cleanup s =
    (let s1 = modJob i (\<lambda>j. j\<lparr>taskAlive := False, cleanupErrors := cleanup, jobError := withCleanupError cleanup (jobError j),
                interaction := None, deferred := False\<rparr>) s;
         s2 = release i s1;
         s3 = transition (if cleanup = [] then terminal else Failed) i s2
     in modJob i (\<lambda>j. j\<lparr>completion := Some (resultOf j), executing := False\<rparr>) s3)"

end
