(* ===== verification/Lanes.thy ===== *)
theory Lanes
  imports Worker
begin

text \<open>
  The resource lanes of the scheduler.  A lane names a resource; a path lane (\<open>path:\<close>) also stands
  for everything below it.  The theory gathers every section of the scheduler under its mutex into one step
  relation and shows, for every order in which the threads take these steps, that \<open>occupied\<close> counts
  exactly the jobs that hold a lane, that a job at its end holds none, and that no job holds a path
  while another one holds something below it.
\<close>

section \<open>Steps\<close>

inductive schedStep :: "sched \<Rightarrow> sched \<Rightarrow> bool" where
  tick: "schedStep s (s\<lparr>clockNow := t\<rparr>)"
| submit: "schedStep s (snd (Submit upper task r s))"
| control: "schedStep s (snd (Control is c s))"
| reorder: "schedStep s (snd (ReorderQueued is s))"
| concurrency: "schedStep s (snd (SetConcurrencyLimit n s))"
| lane: "schedStep s (snd (SetLaneLimit l n s))"
| foreground: "schedStep s (snd (SetForeground i fg s))"
| reply: "schedStep s (snd (Reply i a s))"
| forget: "schedStep s (snd (Forget i s))"
| drain: "flushBegin s = Some s' \<Longrightarrow> schedStep s s'"
| take_event: "schedStep s (snd (flushTake s))"
| add_event: "schedStep s (flushAdd rejected s)"
| shutdown: "schedStep s (Shutdown s)"
| pick: "schedStep s (snd (pick s))"
| receipt: "schedStep s (receiptDone i r s)"
| journal: "schedStep s (snd (journalTurn i abort openedItems openedWrites saved s))"
| account: "schedStep s (snd (account i previous st s))"
| late: "schedStep s (snd (lateEffects i io fx s))"
| finish: "map_of (jobs s) i \<noteq> None \<Longrightarrow> schedStep s (publish i terminal cleanup s)"

inductive reachableFrom :: "sched \<Rightarrow> sched \<Rightarrow> bool" where
  here: "reachableFrom s s"
| further: "reachableFrom s s' \<Longrightarrow> schedStep s' s'' \<Longrightarrow> reachableFrom s s''"

section \<open>The invariant\<close>

abbreviation lanesOf :: "job \<Rightarrow> string list" where
  "lanesOf j \<equiv> resourceLanes (request j)"

definition holds :: "string \<Rightarrow> job \<Rightarrow> bool" where
  "holds l j \<longleftrightarrow> lanesHeld j \<and> l \<in> set (lanesOf j)"

definition heldBy :: "sched \<Rightarrow> string \<Rightarrow> nat" where
  "heldBy s l = length (filter (\<lambda>(k, j). holds l j) (jobs s))"

text \<open>A path lane strictly above another one.\<close>

definition above :: "string \<Rightarrow> string \<Rightarrow> bool" where
  "above l l' \<longleftrightarrow> PathLane l \<and> PathLane l' \<and> startsWith (l @ [Backslash]) l'"

definition exclusive :: "(string \<times> job) list \<Rightarrow> bool" where
  "exclusive js \<longleftrightarrow> (\<forall>k j k' j' l l'. (k, j) \<in> set js \<longrightarrow> (k', j') \<in> set js \<longrightarrow> k \<noteq> k' \<longrightarrow> holds l j \<longrightarrow> holds l' j' \<longrightarrow> \<not> above l l')"

definition jobOk :: "job \<Rightarrow> bool" where
  "jobOk j \<longleftrightarrow> distinct (lanesOf j) \<and> (IsTerminal (state j) \<longrightarrow> \<not> lanesHeld j) \<and> \<not> IsTerminal (resume j)"

definition counted :: "sched \<Rightarrow> bool" where
  "counted s \<longleftrightarrow> (\<forall>l. map_of (occupied s) l = (if heldBy s l = 0 then None else Some (heldBy s l)))"

definition laneInv :: "sched \<Rightarrow> bool" where
  "laneInv s \<longleftrightarrow> sorted_wrt (<) (map fst (jobs s)) \<and> sorted_wrt (<) (map fst (occupied s)) \<and> counted s
     \<and> list_all (\<lambda>(k, j). jobOk j) (jobs s) \<and> exclusive (jobs s) \<and> distinct (activeIds s)
     \<and> set (activeIds s) \<subseteq> set (map fst (jobs s)) \<and> length (jobs s) \<le> 65536 \<and> maxJobs s \<le> 65536"

definition keeps :: "job \<Rightarrow> job \<Rightarrow> bool" where
  "keeps j j' \<longleftrightarrow> lanesHeld j' = lanesHeld j \<and> lanesOf j' = lanesOf j \<and> (jobOk j \<longrightarrow> jobOk j')"

lemma sorted_keys_distinct: "sorted_wrt (<) (map fst (xs :: (string \<times> 'b) list)) \<Longrightarrow> distinct (map fst xs)"
  by (simp add: strict_sorted_iff)

lemma laneInv_keys: "laneInv s \<Longrightarrow> distinct (map fst (jobs s))"
  unfolding laneInv_def by (rule sorted_keys_distinct) simp

lemma keys_modJob [simp]: "map fst (jobs (modJob i f s)) = map fst (jobs s)"
  by (auto simp: modJob_def)

lemma modJob_same [simp]: "occupied (modJob i f s) = occupied s" "activeIds (modJob i f s) = activeIds s"
    "maxJobs (modJob i f s) = maxJobs s" "length (jobs (modJob i f s)) = length (jobs s)"
    "clockNow (modJob i f s) = clockNow s"
  by (simp_all add: modJob_def)

lemma map_of_modJob: "map_of (jobs (modJob i f s)) k = (if k = i then map_option f (map_of (jobs s) k) else map_of (jobs s) k)"
proof -
  have "map_of (map (\<lambda>(k, j). (k, if k = i then f j else j)) xs) k = (if k = i then map_option f (map_of xs k) else map_of xs k)"
    for xs :: "(string \<times> job) list"
    by (induction xs) auto
  then show ?thesis by (simp add: modJob_def)
qed

lemma theJob_modJob: "map_of (jobs s) i \<noteq> None \<Longrightarrow> theJob (modJob i f s) i = f (theJob s i)"
  by (auto simp: theJob_def map_of_modJob)

text \<open>What only touches other fields of the state keeps the invariant.\<close>

lemma laneInv_same:
  "laneInv s \<Longrightarrow> jobs s' = jobs s \<Longrightarrow> occupied s' = occupied s \<Longrightarrow> activeIds s' = activeIds s \<Longrightarrow> maxJobs s' = maxJobs s \<Longrightarrow> laneInv s'"
  by (simp add: laneInv_def counted_def heldBy_def)

lemma holds_keeps: "keeps j j' \<Longrightarrow> holds l j' = holds l j"
  by (simp add: keeps_def holds_def)

lemma set_modJob:
  assumes "distinct (map fst (jobs s))" "(k, j) \<in> set (jobs (modJob i f s))"
  obtains j0 where "(k, j0) \<in> set (jobs s)" "j = (if k = i then f j0 else j0)"
  using assms(2) by (auto simp: modJob_def)

lemma laneInv_modJob:
  assumes "laneInv s" "\<And>j. map_of (jobs s) i = Some j \<Longrightarrow> keeps j (f j)"
  shows "laneInv (modJob i f s)"
proof -
  have keep: "keeps j (if k = i then f j else j)" if "(k, j) \<in> set (jobs s)" for k j
    using assms that by (auto simp: keeps_def map_of_eq_Some_iff laneInv_keys)
  have "heldBy (modJob i f s) l = heldBy s l" for l
  proof -
    have "length (filter (\<lambda>(k, j). holds l j) (map (\<lambda>(k, j). (k, if k = i then f j else j)) xs)) = length (filter (\<lambda>(k, j). holds l j) xs)"
      if "set xs \<subseteq> set (jobs s)" for xs
      using that by (induction xs) (auto simp: holds_keeps[OF keep])
    then show ?thesis by (simp add: heldBy_def modJob_def)
  qed
  moreover have "list_all (\<lambda>(k, j). jobOk j) (jobs (modJob i f s))"
    using assms(1) keep by (fastforce simp: laneInv_def list_all_iff modJob_def keeps_def)
  moreover have "exclusive (jobs (modJob i f s))"
  proof -
    have "\<exists>j0. (k, j0) \<in> set (jobs s) \<and> holds l j0" if in_jobs: "(k, j) \<in> set (jobs (modJob i f s))" and h: "holds l j" for k j l
    proof -
      obtain j0 where j0: "(k, j0) \<in> set (jobs s)" "j = (if k = i then f j0 else j0)"
        using set_modJob[OF laneInv_keys[OF assms(1)] in_jobs] by metis
      then show ?thesis using h holds_keeps[OF keep[OF j0(1)]] by auto
    qed
    then show ?thesis using assms(1) unfolding laneInv_def exclusive_def by meson
  qed
  ultimately show ?thesis using assms(1) by (simp add: laneInv_def counted_def)
qed

lemma laneInv_notify [intro]: "laneInv s \<Longrightarrow> laneInv (notify name p i s)"
proof -
  assume "laneInv s"
  then have "laneInv (modJob i (\<lambda>j. j\<lparr>updated := clockNow s, cancelRequested := cancelRequested j \<or> stopRequested j\<rparr>) s)"
    by (rule laneInv_modJob) (simp add: keeps_def jobOk_def)
  then show ?thesis unfolding notify_def Let_def by (rule laneInv_same) (simp_all add: pushEvent_def)
qed

lemma laneInv_unadmit [intro]: "laneInv s \<Longrightarrow> laneInv (unadmit i s)"
proof -
  assume "laneInv s"
  then have "laneInv (modJob i (\<lambda>j. j\<lparr>admitted := False\<rparr>) s)" by (rule laneInv_modJob) (simp add: keeps_def jobOk_def)
  then show ?thesis by (rule laneInv_same) (simp_all add: unadmit_def Let_def)
qed

lemma laneInv_active: "laneInv s \<Longrightarrow> laneInv (s\<lparr>activeIds := remove1 i (activeIds s)\<rparr>)"
  using set_remove1_subset[of i "activeIds s"] by (auto simp: laneInv_def counted_def heldBy_def)

lemma laneInv_transition:
  assumes "laneInv s" "\<And>j. map_of (jobs s) i = Some j \<Longrightarrow> IsTerminal st \<Longrightarrow> \<not> lanesHeld j"
  shows "laneInv (transition st i s)"
proof -
  have "laneInv (modJob i (\<lambda>j. j\<lparr>state := st\<rparr>) s)"
    using assms(1) by (rule laneInv_modJob) (use assms(2) in \<open>auto simp: keeps_def jobOk_def\<close>)
  moreover note laneInv_active[OF this, of i]
  ultimately show ?thesis using assms(1) by (auto simp: transition_def Let_def)
qed

section \<open>Acquiring and releasing\<close>

lemma map_of_incr: "map_of (incr l occ) k = (if k = l then Some (case map_of occ l of None \<Rightarrow> 1 | Some n \<Rightarrow> n + 1) else map_of occ k)"
  if "sorted_wrt (<) (map fst occ)" for occ :: "(string \<times> nat) list"
  using that
proof (induction l occ rule: incr.induct)
  case (2 l k' n xs)
  have "map_of xs l = None" if "l \<le> k'" using 2(2) that by (force simp: map_of_eq_None_iff)
  then show ?case using 2 by (cases "l = k'"; cases "l < k'") auto
qed simp

lemma keys_incr: "set (map fst (incr l occ)) = insert l (set (map fst occ))"
  by (induction l occ rule: incr.induct) auto

lemma sorted_incr: "sorted_wrt (<) (map fst occ) \<Longrightarrow> sorted_wrt (<) (map fst (incr l occ))"
proof (induction l occ rule: incr.induct)
  case (2 l k n xs)
  then show ?case using keys_incr[of l xs] by (auto 0 3)
qed simp

lemma minus64_one: "0 < n \<Longrightarrow> n \<le> 65536 \<Longrightarrow> minus64 n (Suc 0) = n - 1"
  using minus64_exact[of 1 n] by simp

lemma map_of_decr:
  "sorted_wrt (<) (map fst occ) \<Longrightarrow> map_of occ l = Some n \<Longrightarrow> 0 < n \<Longrightarrow> n \<le> 65536 \<Longrightarrow>
   sorted_wrt (<) (map fst (decr l occ)) \<and> set (map fst (decr l occ)) \<subseteq> set (map fst occ)
   \<and> (\<forall>k. map_of (decr l occ) k = (if k = l then (if n = 1 then None else Some (n - 1)) else map_of occ k))"
proof (induction l occ rule: decr.induct)
  case (2 l k m xs)
  show ?case
  proof (cases "l = k")
    case True
    then have "map_of xs k = None" using 2(2) by (auto simp: map_of_eq_None_iff)
    then show ?thesis using True 2(2-5) by (auto simp: minus64_one)
  next
    case False
    then have "l \<in> set (map fst xs)" using 2(3) by (auto dest: map_of_SomeD intro: rev_image_eqI)
    then have "\<not> l < k" using 2(2) by auto
    then show ?thesis using False 2 by (auto 0 3)
  qed
qed simp

lemma fold_incr:
  "sorted_wrt (<) (map fst (occ :: (string \<times> nat) list)) \<Longrightarrow> distinct ls \<Longrightarrow>
   sorted_wrt (<) (map fst (fold incr ls occ))
   \<and> (\<forall>k. map_of (fold incr ls occ) k = (if k \<in> set ls then Some (case map_of occ k of None \<Rightarrow> 1 | Some n \<Rightarrow> n + 1) else map_of occ k))"
proof (induction ls arbitrary: occ)
  case (Cons l ls)
  then show ?case using sorted_incr[OF Cons.prems(1), of l] map_of_incr[OF Cons.prems(1), of l] Cons.IH[of "incr l occ"] by auto
qed simp

lemma fold_decr:
  "sorted_wrt (<) (map fst occ) \<Longrightarrow> distinct ls \<Longrightarrow> (\<And>l. l \<in> set ls \<Longrightarrow> \<exists>n. map_of occ l = Some n \<and> 0 < n \<and> n \<le> 65536) \<Longrightarrow>
   sorted_wrt (<) (map fst (fold decr ls occ))
   \<and> (\<forall>k. map_of (fold decr ls occ) k
        = (if k \<in> set ls then (if map_of occ k = Some 1 then None else map_option (\<lambda>n. n - 1) (map_of occ k)) else map_of occ k))"
proof (induction ls arbitrary: occ)
  case (Cons l ls)
  obtain n where n: "map_of occ l = Some n" "0 < n" "n \<le> 65536" using Cons.prems(3)[of l] by auto
  note d = map_of_decr[OF Cons.prems(1) n]
  have "\<exists>n. map_of (decr l occ) l' = Some n \<and> 0 < n \<and> n \<le> 65536" if "l' \<in> set ls" for l'
    using Cons.prems(2,3) d that by auto
  then show ?case using Cons.IH[of "decr l occ"] Cons.prems(2) d n by auto
qed simp

lemma heldBy_modJob:
  assumes "distinct (map fst (jobs s))" "map_of (jobs s) i = Some j"
  shows "heldBy (modJob i f s) l + (if holds l j then 1 else 0) = heldBy s l + (if holds l (f j) then 1 else 0)"
proof -
  have same: "map (\<lambda>(k, j). (k, if k = i then f j else j)) xs = xs" if "i \<notin> fst ` set xs" for xs :: "(string \<times> job) list"
    using that by (induction xs) auto
  have "length (filter (\<lambda>(k, j). holds l j) (map (\<lambda>(k, j). (k, if k = i then f j else j)) xs)) + (if holds l j then 1 else 0)
      = length (filter (\<lambda>(k, j). holds l j) xs) + (if holds l (f j) then 1 else 0)"
    if "distinct (map fst xs)" "map_of xs i = Some j" for xs
    using that by (induction xs) (auto simp: same simp del: length_filter_map split: if_splits)
  from this[OF assms] show ?thesis by (simp add: heldBy_def modJob_def del: length_filter_map)
qed

lemma heldBy_bound: "laneInv s \<Longrightarrow> heldBy s l \<le> 65536"
  by (rule order_trans[of _ "length (jobs s)"]) (simp_all add: heldBy_def laneInv_def)

lemma heldBy_pos: "(k, j) \<in> set (jobs s) \<Longrightarrow> holds l j \<Longrightarrow> 0 < heldBy s l"
  by (force simp: heldBy_def filter_empty_conv)

lemma job_in: "map_of (jobs s) i = Some j \<Longrightarrow> (i, j) \<in> set (jobs s)"
  by (rule map_of_SomeD)

lemma laneInv_job: "laneInv s \<Longrightarrow> (k, j) \<in> set (jobs s) \<Longrightarrow> jobOk j"
  by (auto simp: laneInv_def list_all_iff)

text \<open>The parts of the invariant after one job and the count of lanes changed together.\<close>

lemma laneInv_change:
  assumes "laneInv s" "map_of (jobs s) i = Some j" "jobOk (f j)"
    and "sorted_wrt (<) (map fst occ)" "counted ((modJob i f s)\<lparr>occupied := occ\<rparr>)" "exclusive (jobs (modJob i f s))"
  shows "laneInv ((modJob i f s)\<lparr>occupied := occ\<rparr>)"
proof -
  have "jobOk (if k = i then f j' else j')" if "(k, j') \<in> set (jobs s)" for k j'
  proof (cases "k = i")
    case True
    then have "j' = j" using map_of_is_SomeI[OF laneInv_keys[OF assms(1)] that] assms(2) by simp
    then show ?thesis using True assms(3) by simp
  next
    case False
    then show ?thesis using laneInv_job[OF assms(1) that] by simp
  qed
  then have "list_all (\<lambda>(k, j). jobOk j) (jobs (modJob i f s))" by (fastforce simp: list_all_iff modJob_def)
  then show ?thesis using assms by (simp add: laneInv_def)
qed

lemma laneInv_release:
  assumes "laneInv s" "map_of (jobs s) i \<noteq> None"
  shows "laneInv (release i s) \<and> \<not> lanesHeld (theJob (release i s) i) \<and> map_of (jobs (release i s)) i \<noteq> None"
proof (cases "lanesHeld (theJob s i)")
  case True
  obtain j where j: "map_of (jobs s) i = Some j" using assms(2) by auto
  then have held: "lanesHeld j" and theJ: "theJob s i = j" using True by (simp_all add: theJob_def)
  have ok: "jobOk j" using laneInv_job[OF assms(1) job_in[OF j]] .
  let ?f = "\<lambda>j. j\<lparr>lanesHeld := False\<rparr>"
  let ?occ = "fold decr (lanesOf j) (occupied s)"
  have occ: "map_of (occupied s) l = (if heldBy s l = 0 then None else Some (heldBy s l))" for l
    using assms(1) by (simp add: laneInv_def counted_def)
  have dec: "heldBy (modJob i ?f s) l + (if l \<in> set (lanesOf j) then 1 else 0) = heldBy s l" for l
    using heldBy_modJob[OF laneInv_keys[OF assms(1)] j, of ?f l] held by (simp add: holds_def)
  have pos: "0 < heldBy s l" if "l \<in> set (lanesOf j)" for l
    using heldBy_pos[OF job_in[OF j]] held that by (simp add: holds_def)
  have d: "sorted_wrt (<) (map fst ?occ) \<and> (\<forall>k. map_of ?occ k
        = (if k \<in> set (lanesOf j) then (if map_of (occupied s) k = Some 1 then None else map_option (\<lambda>n. n - 1) (map_of (occupied s) k))
           else map_of (occupied s) k))"
  proof (rule fold_decr)
    show "sorted_wrt (<) (map fst (occupied s))" using assms(1) by (simp add: laneInv_def)
    show "distinct (lanesOf j)" using ok by (simp add: jobOk_def)
    show "\<exists>n. map_of (occupied s) l = Some n \<and> 0 < n \<and> n \<le> 65536" if "l \<in> set (lanesOf j)" for l
      using occ pos[OF that] heldBy_bound[OF assms(1)] by simp
  qed
  have "map_of ?occ l = (if heldBy (modJob i ?f s) l = 0 then None else Some (heldBy (modJob i ?f s) l))" for l
    using d occ[of l] dec[of l] pos[of l] by (cases "l \<in> set (lanesOf j)") (auto split: if_splits)
  then have count: "counted ((modJob i ?f s)\<lparr>occupied := ?occ\<rparr>)" by (simp add: counted_def heldBy_def)
  have "exclusive (jobs (modJob i ?f s))"
  proof -
    have "\<exists>j0. (k, j0) \<in> set (jobs s) \<and> holds l j0" if "(k, j') \<in> set (jobs (modJob i ?f s))" "holds l j'" for k j' l
      using that by (auto simp: modJob_def holds_def split: if_splits)
    then show ?thesis using assms(1) unfolding laneInv_def exclusive_def by meson
  qed
  from laneInv_change[OF assms(1) j _ conjunct1[OF d] count this] ok
  have "laneInv ((modJob i ?f s)\<lparr>occupied := ?occ\<rparr>)" by (simp add: jobOk_def)
  moreover have "release i s = (modJob i ?f s)\<lparr>occupied := ?occ\<rparr>" using True theJ by (simp add: release_def modJob_def)
  moreover have "map_of (jobs (modJob i ?f s)) i = Some (?f j)" using j by (simp add: map_of_modJob)
  ultimately show ?thesis by (simp add: theJob_def)
next
  case False
  then show ?thesis using assms by (simp add: release_def)
qed

section \<open>A lane is free only outside what is held\<close>

lemma prefix_between: "p \<le> k \<Longrightarrow> k \<le> (p :: string) @ x \<Longrightarrow> startsWith p k"
proof (induction p arbitrary: k)
  case (Cons c p)
  then show ?case by (cases k) (auto simp: startsWith_def)
qed (simp add: startsWith_def)

lemma prefix_le: "(p :: string) \<le> p @ x"
  by (induction p) auto

lemma childOccupied_iff:
  assumes "sorted_wrt (<) (map fst occ)" "k \<in> set (map fst occ)" "startsWith (l @ [Backslash]) k"
  shows "childOccupied occ l"
proof -
  let ?p = "l @ [Backslash]"
  have k: "k = ?p @ drop (length ?p) k" using assms(3) by (metis append_take_drop_id startsWith_def)
  have "\<not> k < ?p" unfolding not_less by (subst k) (rule prefix_le)
  then obtain k' where found: "List.find (\<lambda>k. \<not> k < ?p) (map fst occ) = Some k'"
    using assms(2) by (cases "List.find (\<lambda>k. \<not> k < ?p) (map fst occ)") (auto simp: find_None_iff)
  then obtain n where n: "n < length occ" "map fst occ ! n = k'" "\<not> k' < ?p" "\<And>m. m < n \<Longrightarrow> map fst occ ! m < ?p"
    by (auto simp: find_Some_iff)
  obtain m where m: "m < length occ" "map fst occ ! m = k" using assms(2) by (auto simp: in_set_conv_nth)
  have "n \<le> m" using n(4)[of m] m \<open>\<not> k < ?p\<close> by (meson not_le)
  then have "k' \<le> k" using assms(1) m n(1,2) by (metis le_neq_implies_less less_le length_map order_refl sorted_wrt_nth_less)
  then have "startsWith ?p k'" using n(3) k by (intro prefix_between[of ?p k' "drop (length ?p) k"]) (simp_all add: not_less)
  then show ?thesis using found by (simp add: childOccupied_def)
qed

lemma parentOccupied_iff:
  assumes "PathLane l" "map_of occ l = Some n" "n \<noteq> 0" "startsWith (l @ [Backslash]) l'"
  shows "parentOccupied occ l'"
proof -
  have five: "5 \<le> length l"
  proof -
    have "length (take (length ''path:'') l) = length ''path:''" using assms(1) unfolding startsWith_def by (rule arg_cong)
    then show ?thesis by simp
  qed
  have l': "l' = l @ Backslash # drop (Suc (length l)) l'"
    using assms(4) append_take_drop_id[of "Suc (length l)" l'] by (simp add: startsWith_def)
  have "length l < length l'" by (subst l') simp
  moreover have "l' ! length l = Backslash" by (subst l') simp
  moreover have "take (length l) l' = l" by (subst l') simp
  ultimately have "l \<in> set (parentLanes l')" using five by (auto simp: parentLanes_def intro!: image_eqI[of _ _ "length l"])
  then show ?thesis using assms(2,3) unfolding parentOccupied_def by (intro bexI[of _ l]) simp_all
qed

lemma laneInv_acquire:
  assumes "laneInv s" "map_of (jobs s) i = Some j" "\<not> IsTerminal (state j)"
  shows "laneInv (snd (acquire i s))"
proof (cases "\<not> lanesHeld j \<and> list_all (laneFree s) (lanesOf j)")
  case True
  have theJ: "theJob s i = j" using assms(2) by (simp add: theJob_def)
  have ok: "jobOk j" using laneInv_job[OF assms(1) job_in[OF assms(2)]] .
  let ?f = "\<lambda>j. j\<lparr>lanesHeld := True\<rparr>"
  let ?occ = "fold incr (lanesOf j) (occupied s)"
  have occ: "map_of (occupied s) l = (if heldBy s l = 0 then None else Some (heldBy s l))" for l
    using assms(1) by (simp add: laneInv_def counted_def)
  have sorted: "sorted_wrt (<) (map fst (occupied s))" using assms(1) by (simp add: laneInv_def)
  have inc: "heldBy (modJob i ?f s) l = heldBy s l + (if l \<in> set (lanesOf j) then 1 else 0)" for l
    using heldBy_modJob[OF laneInv_keys[OF assms(1)] assms(2), of ?f l] True by (simp add: holds_def)
  have d: "sorted_wrt (<) (map fst ?occ) \<and> (\<forall>k. map_of ?occ k
      = (if k \<in> set (lanesOf j) then Some (case map_of (occupied s) k of None \<Rightarrow> 1 | Some n \<Rightarrow> n + 1) else map_of (occupied s) k))"
    by (rule fold_incr[OF sorted]) (use ok in \<open>simp add: jobOk_def\<close>)
  have "map_of ?occ l = (if heldBy (modJob i ?f s) l = 0 then None else Some (heldBy (modJob i ?f s) l))" for l
    using d occ[of l] inc[of l] by (cases "l \<in> set (lanesOf j)") auto
  then have count: "counted ((modJob i ?f s)\<lparr>occupied := ?occ\<rparr>)" by (simp add: counted_def heldBy_def)
  have other: "\<not> above l l' \<and> \<not> above l' l" if l: "l \<in> set (lanesOf j)" and k: "(k, j') \<in> set (jobs s)" and h: "holds l' j'" for l l' k j'
  proof -
    have free: "laneFree s l" using True l by (simp add: list_all_iff)
    have n: "map_of (occupied s) l' = Some (heldBy s l')" "heldBy s l' \<noteq> 0" using heldBy_pos[OF k h] occ[of l'] by simp_all
    have "l' \<in> set (map fst (occupied s))" using map_of_SomeD[OF n(1)] by force
    then show ?thesis
      using free childOccupied_iff[OF sorted, of l' l] parentOccupied_iff[OF _ n, of l] by (auto simp: laneFree_def above_def)
  qed
  have "exclusive (jobs (modJob i ?f s))"
  proof -
    have old: "\<not> above l l'" if "(k, j1) \<in> set (jobs s)" "(k', j2) \<in> set (jobs s)" "k \<noteq> k'" "holds l j1" "holds l' j2" for k j1 k' j2 l l'
      using assms(1) that unfolding laneInv_def exclusive_def by metis
    have mem: "(k = i \<and> l \<in> set (lanesOf j)) \<or> (k \<noteq> i \<and> (k, j1) \<in> set (jobs s) \<and> holds l j1)"
      if h: "(k, j1) \<in> set (jobs (modJob i ?f s))" "holds l j1" for k j1 l
    proof (cases "k = i")
      case True
      have "map_of (jobs (modJob i ?f s)) k = Some j1" using h(1) laneInv_keys[OF assms(1)] by simp
      then have "j1 = ?f j" using True assms(2) by (simp add: map_of_modJob)
      then show ?thesis using True h(2) by (simp add: holds_def)
    next
      case False
      then show ?thesis using h by (auto simp: modJob_def)
    qed
    show ?thesis unfolding exclusive_def
    proof (intro allI impI)
      fix k j1 k' j2 l l'
      assume a: "(k, j1) \<in> set (jobs (modJob i ?f s))" "(k', j2) \<in> set (jobs (modJob i ?f s))" "k \<noteq> k'" "holds l j1" "holds l' j2"
      show "\<not> above l l'" using mem[OF a(1,4)] mem[OF a(2,5)] a(3) other old by metis
    qed
  qed
  from laneInv_change[OF assms(1,2) _ conjunct1[OF d] count this] ok assms(3)
  have "laneInv ((modJob i ?f s)\<lparr>occupied := ?occ\<rparr>)" by (simp add: jobOk_def)
  moreover have "snd (acquire i s) = (modJob i ?f s)\<lparr>occupied := ?occ\<rparr>" using True theJ by (simp add: acquire_def modJob_def)
  ultimately show ?thesis by simp
next
  case False
  then show ?thesis using assms by (auto simp: acquire_def theJob_def Let_def)
qed

section \<open>Every step keeps the invariant\<close>

lemma laneInv_fold: "(\<And>i s. laneInv s \<Longrightarrow> laneInv (f i s)) \<Longrightarrow> laneInv s \<Longrightarrow> laneInv (fold f is s)"
  by (induction "is" arbitrary: s) auto

lemma resume_running: "laneInv s \<Longrightarrow> map_of (jobs s) i = Some j \<Longrightarrow> \<not> IsTerminal (resume j)"
  using laneInv_job[of s i j] job_in[of s i j] by (simp add: jobOk_def)

lemma laneInv_running: "laneInv s \<Longrightarrow> \<not> IsTerminal st \<Longrightarrow> laneInv (transition st i s)"
  by (rule laneInv_transition) simp_all

lemma missing_job: "map_of (jobs s) i = None \<Longrightarrow> modJob i f s = s"
proof -
  assume "map_of (jobs s) i = None"
  then have "i \<notin> fst ` set (jobs s)" by (simp add: map_of_eq_None_iff)
  then have "map (\<lambda>(k, j). (k, if k = i then f j else j)) (jobs s) = jobs s" by (intro map_idI) force
  then show ?thesis by (simp add: modJob_def)
qed

lemma distinct_remdups_adj_sort: "distinct (remdups_adj (sort (xs :: string list)))"
proof -
  have "sorted ys \<Longrightarrow> distinct (remdups_adj ys)" for ys :: "string list"
    by (induction ys rule: remdups_adj.induct) auto
  then show ?thesis by simp
qed

lemma keys_emplace: "set (map fst (emplaceJob i j xs)) = insert i (set (map fst xs))"
  by (induction i j xs rule: emplaceJob.induct) auto

lemma sorted_emplace: "sorted_wrt (<) (map fst xs) \<Longrightarrow> sorted_wrt (<) (map fst (emplaceJob i j xs))"
proof (induction i j xs rule: emplaceJob.induct)
  case (2 i j k v xs)
  then show ?case using keys_emplace[of i j xs] by (auto 0 3)
qed simp

lemma set_emplace: "set (emplaceJob i j xs) \<subseteq> insert (i, j) (set xs)"
  by (induction i j xs rule: emplaceJob.induct) auto

lemma filter_emplace: "\<not> P (i, j) \<Longrightarrow> filter P (emplaceJob i j xs) = filter P xs"
  by (induction i j xs rule: emplaceJob.induct) auto

lemma length_emplace: "length (emplaceJob i j xs) \<le> Suc (length xs)"
  by (induction i j xs rule: emplaceJob.induct) auto

lemma laneInv_emplace:
  assumes "laneInv s" "jobOk j" "\<not> lanesHeld j" "length (jobs s) < maxJobs s"
  shows "laneInv (s\<lparr>jobs := emplaceJob i j (jobs s),
    activeIds := (if i \<in> set (activeIds s) then activeIds s else insort i (activeIds s))\<rparr>)" (is "laneInv ?s")
proof -
  have none: "\<not> holds l j" for l using assms(3) by (simp add: holds_def)
  have h: "heldBy ?s l = heldBy s l" for l using filter_emplace[of "\<lambda>(k, j). holds l j" i j "jobs s"] none by (simp add: heldBy_def)
  have occ: "occupied ?s = occupied s" by simp
  have "counted ?s" unfolding counted_def h occ using assms(1) by (simp add: laneInv_def counted_def)
  moreover have "list_all (\<lambda>(k, j). jobOk j) (jobs ?s)"
    using assms(1,2) set_emplace[of i j "jobs s"] by (auto simp: laneInv_def list_all_iff)
  moreover have "exclusive (jobs ?s)"
  proof -
    have "(k, j') \<in> set (jobs s)" if "(k, j') \<in> set (jobs ?s)" "holds l j'" for k j' l
      using that set_emplace[of i j "jobs s"] none by auto
    then show ?thesis using assms(1) unfolding laneInv_def exclusive_def by meson
  qed
  ultimately show ?thesis
    using assms sorted_emplace[of "jobs s" i j] keys_emplace[of i j "jobs s"] length_emplace[of i j "jobs s"]
    by (auto simp: laneInv_def set_insort_key distinct_insort)
qed

lemma laneInv_touch: "laneInv s \<Longrightarrow> (\<And>j. keeps j (f j)) \<Longrightarrow> laneInv (modJob i f s)"
  by (rule laneInv_modJob)

lemma enqueue_laneInv: "laneInv s \<Longrightarrow> distinct (resourceLanes r) \<Longrightarrow> laneInv (snd (enqueue i r s))"
proof -
  assume s: "laneInv s" and r: "distinct (resourceLanes r)"
  let ?parent = "retryOf (reqMetadata r)"
  let ?s1 = "if ?parent \<noteq> [] then notify ''job.changed'' False ?parent (modJob ?parent (\<lambda>j. j\<lparr>retriedAs := i\<rparr>) s) else s"
  let ?s2 = "?s1\<lparr>nextOrder := nextOrder ?s1 + 1\<rparr>"
  let ?j = "(newJob s i r)\<lparr>queueOrder := nextOrder ?s2\<rparr>"
  have s1: "laneInv ?s1" using s by (auto intro!: laneInv_notify laneInv_touch simp: keeps_def jobOk_def)
  have s2: "laneInv ?s2" by (rule laneInv_same[OF s1]) simp_all
  have room: "length (jobs ?s2) < maxJobs ?s2" if "\<not> maxJobs s \<le> length (jobs s)"
    using that by (simp add: notify_def pushEvent_def Let_def)
  have "jobOk ?j" "\<not> lanesHeld ?j" using r by (simp_all add: newJob_def jobOk_def IsTerminal_def)
  from laneInv_emplace[OF s2 this room, of i] show ?thesis using s
    unfolding enqueue_def Let_def by (auto simp del: activeIds_def intro: laneInv_notify split: if_splits)
qed

lemma Submit_laneInv: "laneInv s \<Longrightarrow> laneInv (snd (Submit upper task r s))"
proof -
  assume s: "laneInv s"
  have "laneInv (s\<lparr>nextId := n\<rparr>)" for n by (rule laneInv_same[OF s]) simp_all
  then show ?thesis using s
    by (auto simp: Submit_def Let_def intro!: enqueue_laneInv distinct_remdups_adj_sort split: sum.splits)
qed

lemma controlJob_laneInv: "laneInv s \<Longrightarrow> laneInv (controlJob c i s)"
proof -
  assume s: "laneInv s"
  have touched: "laneInv (modJob i (\<lambda>j. j\<lparr>cancelRequested := True\<rparr>) s)" "laneInv (modJob i (\<lambda>j. j\<lparr>deferred := False\<rparr>) s)"
    "laneInv (modJob i (\<lambda>j. j\<lparr>pauseRequested := p\<rparr>) s)" for p
    by (rule laneInv_touch[OF s]; simp add: keeps_def jobOk_def)+
  let ?s1 = "modJob i (\<lambda>j. j\<lparr>pauseRequested := (c = Pause)\<rparr>) s"
  have "laneInv (transition (resume (theJob ?s1 i)) i ?s1)"
  proof (rule laneInv_transition[OF touched(3)])
    fix j assume "map_of (jobs ?s1) i = Some j" "IsTerminal (resume (theJob ?s1 i))"
    then show "\<not> lanesHeld j" using resume_running[OF touched(3)] by (simp add: theJob_def)
  qed
  then show ?thesis using touched by (auto simp: controlJob_def Let_def intro!: laneInv_notify)
qed

lemma requestStop_laneInv: "laneInv s \<Longrightarrow> laneInv (requestStop i s)"
  unfolding requestStop_def by (rule laneInv_touch) (simp_all add: keeps_def jobOk_def)

lemma Control_laneInv: "laneInv s \<Longrightarrow> laneInv (snd (Control is c s))"
  by (auto simp: Control_def Let_def split: option.splits intro!: laneInv_fold controlJob_laneInv requestStop_laneInv)

lemma reorderJob_laneInv: "laneInv s \<Longrightarrow> laneInv (reorderJob i s)"
  unfolding reorderJob_def Let_def
  by (intro laneInv_notify laneInv_touch) (auto simp: keeps_def jobOk_def elim: laneInv_same)

lemma SetForeground_laneInv: "laneInv s \<Longrightarrow> laneInv (snd (SetForeground i fg s))"
proof -
  assume s: "laneInv s"
  have "laneInv (s\<lparr>admittedCount := n\<rparr>)" for n by (rule laneInv_same[OF s]) simp_all
  then show ?thesis using s
    by (auto simp: SetForeground_def Let_def keeps_def jobOk_def split: option.splits intro!: laneInv_notify laneInv_touch)
qed

lemma Reply_laneInv: "laneInv s \<Longrightarrow> laneInv (snd (Reply i a s))"
proof -
  assume s: "laneInv s"
  let ?s1 = "modJob i (\<lambda>j. j\<lparr>cancelRequested := cancelRequested j \<or> choice a = CancelChoice, answer := Some a, interaction := None\<rparr>) s"
  have s1: "laneInv ?s1" by (rule laneInv_touch[OF s]) (simp add: keeps_def jobOk_def)
  have "laneInv (transition (resume (theJob ?s1 i)) i ?s1)"
  proof (rule laneInv_transition[OF s1])
    fix j assume "map_of (jobs ?s1) i = Some j" "IsTerminal (resume (theJob ?s1 i))"
    then show "\<not> lanesHeld j" using resume_running[OF s1, of i j] by (simp add: theJob_def)
  qed
  then show ?thesis using s by (auto simp: Reply_def Let_def CancelJob_def split: option.splits intro: Control_laneInv)
qed

lemma Forget_laneInv: "laneInv s \<Longrightarrow> laneInv (snd (Forget i s))"
proof -
  assume s: "laneInv s"
  let ?s = "s\<lparr>activeIds := remove1 i (activeIds s), jobs := filter (\<lambda>(k, j). k \<noteq> i) (jobs s)\<rparr>"
  have "laneInv ?s" if j: "map_of (jobs s) i = Some j" "IsTerminal (state j)" for j
  proof -
    have free: "\<not> lanesHeld j" using laneInv_job[OF s job_in[OF j(1)]] j(2) by (simp add: jobOk_def)
    have only: "j' = j" if "(i, j') \<in> set (jobs s)" for j' using map_of_is_SomeI[OF laneInv_keys[OF s] that] j(1) by simp
    have "filter (\<lambda>(k, j). holds l j) (filter (\<lambda>(k, j). k \<noteq> i) (jobs s)) = filter (\<lambda>(k, j). holds l j) (jobs s)" for l
      using only free by (auto simp: holds_def intro!: filter_cong)
    then have "counted ?s" using s by (simp add: laneInv_def counted_def heldBy_def)
    moreover have "map fst (filter (\<lambda>(k, j). k \<noteq> i) xs) = filter (\<lambda>k. k \<noteq> i) (map fst xs)" for xs :: "(string \<times> job) list"
      by (induction xs) auto
    moreover have "exclusive (jobs ?s)" using s unfolding laneInv_def exclusive_def by auto
    moreover have "length (filter (\<lambda>(k, j). k \<noteq> i) (jobs s)) \<le> 65536"
      using s length_filter_le[of "\<lambda>(k, j). k \<noteq> i" "jobs s"] unfolding laneInv_def by linarith
    ultimately show ?thesis using s
      by (auto simp: laneInv_def list_all_iff sorted_wrt_filter set_remove1_eq)
  qed
  then show ?thesis using s by (auto simp: Forget_def split: option.splits)
qed

lemma Shutdown_laneInv: "laneInv s \<Longrightarrow> laneInv (Shutdown s)"
proof -
  assume s: "laneInv s"
  let ?f = "\<lambda>(i, j). (i, if IsTerminal (state j) then j else j\<lparr>cancelRequested := True\<rparr>) :: string \<times> job"
  let ?s = "s\<lparr>stopping := True, jobs := map ?f (jobs s)\<rparr>"
  have h: "holds l (snd (?f x)) = holds l (snd x)" for l x by (cases x) (simp add: holds_def)
  have "length (filter (\<lambda>(k, j). holds l j) (map ?f xs)) = length (filter (\<lambda>(k, j). holds l j) xs)" for l xs
    by (induction xs) (auto simp: holds_def split: if_splits)
  then have "counted ?s" using s by (simp add: laneInv_def counted_def heldBy_def)
  moreover have "jobOk (if IsTerminal (state j) then j else j\<lparr>cancelRequested := True\<rparr>)" if "jobOk j" for j
    using that by (simp add: jobOk_def)
  then have "list_all (\<lambda>(k, j). jobOk j) (jobs ?s)" using s by (auto simp: laneInv_def list_all_iff)
  moreover have "exclusive (jobs ?s)"
  proof -
    have "\<exists>j0. (k, j0) \<in> set (jobs s) \<and> holds l j0" if "(k, j') \<in> set (jobs ?s)" "holds l j'" for k j' l
      using that by (fastforce simp: holds_def split: if_splits)
    then show ?thesis using s unfolding laneInv_def exclusive_def by meson
  qed
  moreover have "map fst (map ?f xs) = map fst xs" for xs by (induction xs) auto
  ultimately have "laneInv ?s" using s unfolding laneInv_def by (simp del: map_map)
  then show ?thesis by (auto simp: Shutdown_def Let_def intro!: laneInv_fold requestStop_laneInv)
qed

section \<open>The worker\<close>

lemma map_of_notify: "map_of (jobs (notify n p i s)) k
    = (if k = i then map_option (\<lambda>j. j\<lparr>updated := clockNow s, cancelRequested := cancelRequested j \<or> stopRequested j\<rparr>) (map_of (jobs s) k)
       else map_of (jobs s) k)"
  by (simp add: notify_def pushEvent_def Let_def map_of_modJob)

lemma claim_laneInv: "laneInv s \<Longrightarrow> laneInv (snd (claim i abort s))"
proof -
  assume s: "laneInv s"
  let ?s1 = "(modJob i (\<lambda>j. j\<lparr>executing := True\<rparr>) s)\<lparr>lastPicked := i\<rparr>"
  let ?s2 = "if \<not> deferred (theJob ?s1 i) \<and> state (theJob ?s1 i) = Queued then transition Preparing i ?s1 else ?s1"
  let ?s3 = "if state (theJob ?s2 i) = Committing \<and> abort = None then modJob i (\<lambda>j. j\<lparr>commitEntered := True\<rparr>) ?s2 else ?s2"
  have "laneInv (modJob i (\<lambda>j. j\<lparr>executing := True\<rparr>) s)" by (rule laneInv_touch[OF s]) (simp add: keeps_def jobOk_def)
  then have s1: "laneInv ?s1" by (rule laneInv_same) simp_all
  have s2: "laneInv ?s2" using s1 laneInv_running[OF s1, of Preparing i] by (simp add: IsTerminal_def)
  have s3: "laneInv ?s3" using s2 laneInv_touch[OF s2, of "\<lambda>j. j\<lparr>commitEntered := True\<rparr>" i] by (simp add: keeps_def jobOk_def)
  have "laneInv (modJob i (\<lambda>j. j\<lparr>answer := None\<rparr>) ?s3)" by (rule laneInv_touch[OF s3]) (simp add: keeps_def jobOk_def)
  then show ?thesis by (simp add: claim_def Let_def)
qed

lemma admit_laneInv: "laneInv s \<Longrightarrow> laneInv (admit i s)"
proof -
  assume s: "laneInv s"
  have "laneInv (modJob i (\<lambda>j. j\<lparr>admitted := True\<rparr>) s)" by (rule laneInv_touch[OF s]) (simp add: keeps_def jobOk_def)
  then have "laneInv ((modJob i (\<lambda>j. j\<lparr>admitted := True\<rparr>) s)\<lparr>admittedCount := n\<rparr>)" for n by (rule laneInv_same) simp_all
  then show ?thesis using s \<open>laneInv (modJob i _ s)\<close> by (simp add: admit_def Let_def)
qed

lemma pauseAt_laneInv: "laneInv s \<Longrightarrow> \<not> IsTerminal (state (theJob s i)) \<Longrightarrow> laneInv (pauseAt i s)"
proof -
  assume s: "laneInv s" and running: "\<not> IsTerminal (state (theJob s i))"
  have "laneInv (modJob i (\<lambda>j. j\<lparr>resume := state j\<rparr>) s)"
    by (rule laneInv_modJob[OF s]) (use running in \<open>simp add: keeps_def jobOk_def theJob_def\<close>)
  from laneInv_running[OF this, of Paused i] show ?thesis using s by (simp add: pauseAt_def IsTerminal_def)
qed

lemma keys_transition [simp]: "map fst (jobs (transition st i s)) = map fst (jobs s)"
  by (simp add: transition_def notify_def pushEvent_def unadmit_def Let_def)

lemma keys_pauseAt [simp]: "map fst (jobs (pauseAt i s)) = map fst (jobs s)"
  by (simp add: pauseAt_def)

lemma keys_acquire [simp]: "map fst (jobs (snd (acquire i s))) = map fst (jobs s)"
proof -
  have "map fst (jobs (modJob i f (s\<lparr>occupied := occ\<rparr>))) = map fst (jobs s)" for f occ by (simp only: keys_modJob) simp
  then show ?thesis by (simp add: acquire_def Let_def)
qed

lemma pickLoop_laneInv:
  "laneInv s \<Longrightarrow> set is \<subseteq> set (map fst (jobs s)) \<Longrightarrow> laneInv (snd (pickLoop is active wake s))"
proof (induction "is" arbitrary: active wake s)
  case (Cons i "is")
  have "map_of (jobs s) i \<noteq> None" using Cons.prems(2) by (simp add: map_of_eq_None_iff)
  then obtain j where j: "map_of (jobs s) i = Some j" by auto
  have theJ: "theJob s i = j" using j by (simp add: theJob_def)
  have again: "laneInv (snd (pickLoop is a w s))" for a w by (rule Cons.IH) (use Cons.prems in auto)
  have claimed: "laneInv (snd (case claim i e s' of (p, s'') \<Rightarrow> (Picked p, s'')))" if "laneInv s'" for e s'
    using claim_laneInv[OF that, of i e] by (simp add: case_prod_beta)
  show ?case
  proof (cases "IsTerminal (state j)")
    case False
    have held: "laneInv (snd (acquire i s))" by (rule laneInv_acquire[OF Cons.prems(1) j False])
    have paused: "laneInv (snd (pickLoop is a w (pauseAt i s)))" for a w
      by (rule Cons.IH[OF pauseAt_laneInv[OF Cons.prems(1)]]) (use Cons.prems(2) False theJ in \<open>simp_all del: set_map\<close>)
    have denied: "laneInv (snd (pickLoop is a w (snd (acquire i s))))" for a w
      by (rule Cons.IH[OF held]) (use Cons.prems(2) in \<open>simp_all del: set_map\<close>)
    show ?thesis
      using again claimed[OF Cons.prems(1)] claimed[OF admit_laneInv[OF held]] paused denied theJ False
      by (simp add: Let_def case_prod_beta split: option.split)
  qed (use again theJ in \<open>simp add: Let_def\<close>)
qed simp

lemma pick_laneInv: "laneInv s \<Longrightarrow> laneInv (snd (pick s))"
  unfolding pick_def by (rule pickLoop_laneInv) (auto simp: laneInv_def candidates_def Let_def)

text \<open>What the account of a step does to a job leaves its lanes alone.\<close>

definition sameLanes :: "job \<Rightarrow> job \<Rightarrow> bool" where
  "sameLanes j j' \<longleftrightarrow> lanesHeld j' = lanesHeld j \<and> request j' = request j \<and> state j' = state j
     \<and> (resume j' = resume j \<or> resume j' = Running)"

lemma sameLanes_keeps: "sameLanes j j' \<Longrightarrow> keeps j j'"
  by (auto simp: sameLanes_def keeps_def jobOk_def IsTerminal_def)

lemma sameLanes_refl [simp]: "sameLanes j j"
  by (simp add: sameLanes_def)

lemma sameLanes_trans: "sameLanes j j' \<Longrightarrow> sameLanes j' j'' \<Longrightarrow> sameLanes j j''"
  by (auto simp: sameLanes_def)

lemma sameLanes_keepItem: "sameLanes j (keepItem x (recount k j))" "sameLanes j (recount k (uncount k' j))"
    "sameLanes j (keepItem x j)" "sameLanes j (recount k j)"
  by (auto simp: sameLanes_def keepItem_def recount_def uncount_def split: itemStatus.splits)

lemma sameLanes_accountItem: "sameLanes j (snd (accountItem previous x (st, j)))"
  using sameLanes_keepItem(1)[of j x "status x"] sameLanes_keepItem(2)[of j]
  by (auto simp: accountItem_def Let_def sameLanes_def split: option.splits)

lemma sameLanes_accountItems: "sameLanes j (snd (accountItems previous (st, j)))"
proof -
  have "sameLanes j (snd (fold (accountItem previous) xs (st, j)))" for xs
  proof (induction xs arbitrary: st j)
    case (Cons x xs)
    then show ?case using sameLanes_accountItem[of j previous x st]
      by (cases "accountItem previous x (st, j)") (auto intro: sameLanes_trans)
  qed simp
  then show ?thesis by (simp add: accountItems_def del: fold_append)
qed

lemma laneInv_replace: "laneInv s \<Longrightarrow> (map_of (jobs s) i \<noteq> None \<Longrightarrow> sameLanes (theJob s i) j') \<Longrightarrow> laneInv (modJob i (\<lambda>_. j') s)"
  by (rule laneInv_modJob) (simp_all add: sameLanes_keeps theJob_def)

lemma takeProgress_laneInv: "laneInv s \<Longrightarrow> laneInv (takeProgress i st s)"
  by (auto simp: takeProgress_def keeps_def jobOk_def split: option.splits intro!: laneInv_notify laneInv_touch)

lemma retryLater_laneInv: "laneInv s \<Longrightarrow> laneInv (retryLater i st s)"
  by (auto simp: retryLater_def keeps_def jobOk_def intro!: laneInv_notify laneInv_touch)

lemma moveOn_laneInv: "laneInv s \<Longrightarrow> \<not> IsTerminal n \<Longrightarrow> laneInv (moveOn i n s)"
proof -
  assume s: "laneInv s" and n: "\<not> IsTerminal n"
  have "laneInv (modJob i (\<lambda>j. j\<lparr>resume := n\<rparr>) s)" by (rule laneInv_touch[OF s]) (use n in \<open>simp add: keeps_def jobOk_def\<close>)
  from laneInv_running[OF this, of Paused i] laneInv_running[OF s n, of i] show ?thesis
    unfolding moveOn_def Let_def by (intro laneInv_touch) (auto simp: keeps_def jobOk_def IsTerminal_def)
qed

lemma sameLanes_askUser: "sameLanes j (snd (askUser st r j))"
  by (auto simp: askUser_def sameLanes_def Let_def split: prod.splits)

lemma sameLanes_endRetry: "sameLanes j (snd (endRetry st j))"
  by (simp add: endRetry_def sameLanes_def)

lemma settle_laneInv: "laneInv s \<Longrightarrow> laneInv (snd (settle i st s))"
proof -
  assume s: "laneInv s"
  obtain st1 j1 where e: "endRetry st (theJob s i) = (st1, j1)" by (cases "endRetry st (theJob s i)")
  let ?st2 = "checkDelay st1"
  let ?j2 = "j1\<lparr>readyAt := int (clockNow s) + deferFor ?st2, jobError := stepError ?st2\<rparr>"
  let ?r1 = "ruleNoQuestion ?j2 (ruleCommit s ?j2 (ruleCancelled ?j2 (nextState ?st2, jobError ?j2)))"
  obtain r2 j3 where a: "askUser ?st2 ?r1 ?j2 = (r2, j3)" by (cases "askUser ?st2 ?r1 ?j2")
  obtain n f where r: "ruleEnd j3 r2 = (n, f)" by (cases "ruleEnd j3 r2")
  have "sameLanes (theJob s i) j1" using sameLanes_endRetry[of "theJob s i" st] e by simp
  moreover have "sameLanes ?j2 j3" using sameLanes_askUser[of ?j2 ?st2 ?r1] a by simp
  ultimately have "sameLanes (theJob s i) (j3\<lparr>jobError := f\<rparr>)" by (auto simp: sameLanes_def)
  then have "laneInv (modJob i (\<lambda>_. j3\<lparr>jobError := f\<rparr>) s)" by (intro laneInv_replace[OF s])
  then show ?thesis using moveOn_laneInv[of _ n i] e a r by (simp add: settle_def Let_def)
qed

lemma account_laneInv: "laneInv s \<Longrightarrow> laneInv (snd (account i previous st s))"
proof -
  assume s: "laneInv s"
  let ?st1 = "rejectRetry st" let ?s1 = "takeProgress i ?st1 s" let ?st2 = "rejectReplace (theJob ?s1 i) ?st1"
  obtain st3 j3 where a: "accountItems previous (?st2, theJob ?s1 i) = (st3, j3)"
    by (cases "accountItems previous (?st2, theJob ?s1 i)")
  have "sameLanes (theJob ?s1 i) j3" using sameLanes_accountItems[of "theJob ?s1 i" previous ?st2] a by simp
  then have "laneInv (modJob i (\<lambda>_. j3) ?s1)" by (intro laneInv_replace takeProgress_laneInv[OF s])
  from settle_laneInv[OF this] retryLater_laneInv[OF this] show ?thesis using a by (simp add: account_def Let_def)
qed

lemma lateEffects_laneInv: "laneInv s \<Longrightarrow> laneInv (snd (lateEffects i io fx s))"
proof -
  assume s: "laneInv s"
  have "sameLanes j (fold (\<lambda>x j. keepItem x (recount (status x) j)) xs j)" for xs j
    by (induction xs arbitrary: j) (auto intro: sameLanes_trans sameLanes_keepItem)
  then have late: "sameLanes j (fold (\<lambda>x j. keepItem x (recount (status x) j)) xs (case p of None \<Rightarrow> j | Some q \<Rightarrow> j\<lparr>progress := q\<rparr>))"
    for xs j p by (rule sameLanes_trans[rotated]) (simp add: sameLanes_def split: option.split)
  then show ?thesis using s
    by (auto simp: lateEffects_def case_prod_beta Let_def intro!: laneInv_touch sameLanes_keeps)
qed

lemma publish_laneInv: "laneInv s \<Longrightarrow> map_of (jobs s) i \<noteq> None \<Longrightarrow> laneInv (publish i terminal cleanup s)"
proof -
  assume s: "laneInv s" and i: "map_of (jobs s) i \<noteq> None"
  let ?f = "\<lambda>j. j\<lparr>taskAlive := False, cleanupErrors := cleanup, jobError := withCleanupError cleanup (jobError j),
      interaction := None, deferred := False\<rparr>"
  have "laneInv (modJob i ?f s)" by (rule laneInv_touch[OF s]) (simp add: keeps_def jobOk_def)
  moreover have "map_of (jobs (modJob i ?f s)) i \<noteq> None" using i by (simp add: map_of_modJob)
  ultimately have r: "laneInv (release i (modJob i ?f s)) \<and> \<not> lanesHeld (theJob (release i (modJob i ?f s)) i)"
    using laneInv_release by blast
  then have "laneInv (transition st i (release i (modJob i ?f s)))" for st
    by (intro laneInv_transition) (auto simp: theJob_def)
  then show ?thesis unfolding publish_def Let_def by (intro laneInv_touch) (simp_all add: keeps_def jobOk_def)
qed

lemma openStores_laneInv: "laneInv s \<Longrightarrow> laneInv (snd (openStores i openedItems openedWrites s))"
  by (auto simp: openStores_def keeps_def jobOk_def case_prod_beta Let_def split: call.splits sum.splits intro!: laneInv_touch)

lemma journalTurn_laneInv: "laneInv s \<Longrightarrow> laneInv (snd (journalTurn i abort openedItems openedWrites saved s))"
  by (auto simp: journalTurn_def case_prod_beta Let_def openStores_laneInv)

lemma schedStep_laneInv: "schedStep s s' \<Longrightarrow> laneInv s \<Longrightarrow> laneInv s'"
proof (induction rule: schedStep.induct)
  case (tick s t) show ?case by (rule laneInv_same[OF tick]) simp_all
next
  case (concurrency n s) then show ?case by (auto simp: SetConcurrencyLimit_def elim: laneInv_same)
next
  case (lane l n s) then show ?case by (auto simp: SetLaneLimit_def elim: laneInv_same)
next
  case (drain s s') then show ?case by (auto simp: flushBegin_def elim: laneInv_same split: if_splits)
next
  case (take_event s) then show ?case by (auto simp: flushTake_def elim: laneInv_same split: list.splits)
next
  case (add_event rejected s) show ?case by (rule laneInv_same[OF add_event]) (simp_all add: flushAdd_def)
next
  case (reorder "is" s) then show ?case by (auto simp: ReorderQueued_def intro!: laneInv_fold reorderJob_laneInv)
next
  case (receipt i r s) then show ?case unfolding receiptDone_def by (intro laneInv_touch) (simp_all add: keeps_def jobOk_def)
qed (simp_all add: Submit_laneInv Control_laneInv SetForeground_laneInv Reply_laneInv Forget_laneInv Shutdown_laneInv pick_laneInv
    journalTurn_laneInv account_laneInv lateEffects_laneInv publish_laneInv)

lemma newScheduler_laneInv: "newScheduler workers maxRetained journal session hub = Some s \<Longrightarrow> laneInv s"
  by (auto simp: newScheduler_def laneInv_def counted_def heldBy_def exclusive_def split: if_splits)

lemma reachable_laneInv: "reachableFrom s s' \<Longrightarrow> laneInv s \<Longrightarrow> laneInv s'"
  by (induction rule: reachableFrom.induct) (auto intro: schedStep_laneInv)

section \<open>Properties\<close>

text \<open>C28: in every state the scheduler can reach, whatever the order in which callers and workers
  take the mutex and whatever the tasks answer, no job holds a path lane while another job holds a
  lane strictly below that path.\<close>

theorem path_lanes_exclusive:
  assumes "newScheduler workers maxRetained hasStore session hub = Some s0" "reachableFrom s0 s"
  shows "exclusive (jobs s)"
  using reachable_laneInv newScheduler_laneInv assms by (auto simp: laneInv_def)

text \<open>C29: in every reachable state the table of occupied lanes counts exactly the jobs that hold a lane,
  without an entry for a lane nobody holds, and a job that has ended holds none: a lane is given back
  in full, so it cannot stay blocked.\<close>

theorem occupied_exact:
  assumes "newScheduler workers maxRetained hasStore session hub = Some s0" "reachableFrom s0 s"
  shows "map_of (occupied s) l = (let n = length (filter (\<lambda>(i, j). lanesHeld j \<and> l \<in> set (resourceLanes (request j))) (jobs s))
      in if n = 0 then None else Some n)
    \<and> list_all (\<lambda>(i, j). \<not> (IsTerminal (state j) \<and> lanesHeld j)) (jobs s)"
proof -
  have "laneInv s" using reachable_laneInv newScheduler_laneInv assms by blast
  then show ?thesis by (auto simp: laneInv_def counted_def heldBy_def holds_def[abs_def] jobOk_def list_all_iff Let_def)
qed

section \<open>A run\<close>

definition sampleRequest :: "string \<Rightarrow> jobRequest" where
  "sampleRequest l = \<lparr>reqCorrelation = [], reqDeferred = False, reqForeground = False,
     reqMetadata = \<lparr>label = [], metaSource = [], metaDestination = [], metaOptions = [], retryOf = [], jobKind = Copy\<rparr>,
     resourceLanes = [l], reqDeadline = None, providerInteractions = False, interactionStart = False, maxItemResults = 1,
     maxRetries = 0, initialRetryDelay = 1, maximumRetryDelay = 1\<rparr>"

definition sampleStart :: sched where
  "sampleStart = the (newScheduler 2 8 False ''s'' True)"

text \<open>Two jobs are submitted and two workers pick one each.\<close>

definition sampleBusy :: sched where
  "sampleBusy = snd (pick (snd (pick (snd (Submit Some True (sampleRequest ''path:d:'')
     (snd (Submit Some True (sampleRequest ''path:c:'') sampleStart)))))))"

lemma sample_start: "newScheduler 2 8 False ''s'' True = Some sampleStart"
  by (simp add: sampleStart_def newScheduler_def)

lemma sample_reachable: "reachableFrom sampleStart sampleBusy"
  unfolding sampleBusy_def by (intro further[OF _ schedStep.pick] further[OF _ submit] here)

theorem path_lanes_exclusive_witness: "exclusive (jobs sampleBusy)"
  using path_lanes_exclusive[OF sample_start sample_reachable] .

theorem occupied_exact_witness: "list_all (\<lambda>(i, j). \<not> (IsTerminal (state j) \<and> lanesHeld j)) (jobs sampleBusy)"
  using occupied_exact[OF sample_start sample_reachable] by blast

end
