(* ===== verification/IsoCodec.thy ===== *)
theory IsoCodec
  imports Main "HOL-Library.Word"
begin

unbundle bit_operations_syntax

text \<open>
  \<open>HyperCommanderBuiltInPlugin/IsoImage/src/codec.cpp\<close> and the helpers of \<open>image.hpp\<close>: the
  fixed-width fields of an image (\<open>Get\<close>, \<open>Put\<close>, \<open>Both\<close>, \<open>Text\<close>), names in UTF-8, UTF-16 and
  OSTA compressed Unicode, image paths, the checksum and the tags of UDF descriptors, and time
  stamps.

  A \<open>Bytes\<close> or a span of it is a list of \<open>8 word\<close>s; integers read from it are natural numbers
  below the bound of their width.  An \<open>Error\<close> is a status and a message, and a function that
  throws is a value of the sum type.
\<close>

section \<open>Errors\<close>

datatype isoStatus = IsoInvalid | IsoIo | IsoUnsupported | IsoCancelled

type_synonym isoError = "isoStatus \<times> string"
type_synonym 'a iso = "isoError + 'a"
type_synonym bytes = "8 word list"

definition bindE :: "'a iso \<Rightarrow> ('a \<Rightarrow> 'b iso) \<Rightarrow> 'b iso" where
  "bindE m f = (case m of Inl e \<Rightarrow> Inl e | Inr v \<Rightarrow> f v)"

definition need :: "bool \<Rightarrow> string \<Rightarrow> isoStatus \<Rightarrow> unit iso" where
  "need ok message status = (if ok then Inr () else Inl (status, message))"

abbreviation require :: "bool \<Rightarrow> string \<Rightarrow> unit iso" where
  "require ok message \<equiv> need ok message IsoInvalid"

lemma bindE_simps [simp]: "bindE (Inr v) f = f v" "bindE (Inl e) f = Inl e"
  by (simp_all add: bindE_def)

lemma bindE_Inr [simp]: "bindE m f = Inr v \<longleftrightarrow> (\<exists>u. m = Inr u \<and> f u = Inr v)"
  by (cases m) (simp_all add: bindE_def)

lemma need_Inr [simp]: "need ok message status = Inr u \<longleftrightarrow> ok"
  by (simp add: need_def)

lemma need_True [simp]: "need True message status = Inr ()"
  by (simp add: need_def)

section \<open>Fields\<close>

abbreviation Block :: nat where "Block \<equiv> 2048"

definition Round :: "nat \<Rightarrow> nat \<Rightarrow> nat iso" where
  "Round v alignment = bindE (require (v \<le> 2 ^ 64 - 1 - alignment) ''Size overflow'') (\<lambda>_.
     Inr ((v + alignment - 1) div alignment * alignment))"

fun leValue :: "bytes \<Rightarrow> nat" where
  "leValue [] = 0"
| "leValue (b # bs) = unat b + 256 * leValue bs"

fun leBytes :: "nat \<Rightarrow> nat \<Rightarrow> bytes" where
  "leBytes 0 v = []"
| "leBytes (Suc w) v = word_of_nat v # leBytes w (v div 256)"

definition Get :: "bytes \<Rightarrow> nat \<Rightarrow> nat \<Rightarrow> bool \<Rightarrow> nat iso" where
  "Get d off w big =
    bindE (require (w \<le> 8 \<and> off \<le> length d \<and> w \<le> length d - off) ''Truncated field'') (\<lambda>_.
    let field = take w (drop off d) in Inr (leValue (if big then rev field else field)))"

definition overwrite :: "nat \<Rightarrow> bytes \<Rightarrow> bytes \<Rightarrow> bytes" where
  "overwrite off field d = take off d @ field @ drop (off + length field) d"

definition Put :: "bytes \<Rightarrow> nat \<Rightarrow> nat \<Rightarrow> nat \<Rightarrow> bool \<Rightarrow> bytes iso" where
  "Put d off v w big =
    bindE (require (w \<le> 8 \<and> off \<le> length d \<and> w \<le> length d - off) ''Writer field overflow'') (\<lambda>_.
    bindE (require (w = 8 \<or> v < 2 ^ (w * 8)) ''Field value overflow'') (\<lambda>_.
    Inr (overwrite off (if big then rev (leBytes w v) else leBytes w v) d)))"

definition Both :: "bytes \<Rightarrow> nat \<Rightarrow> nat \<Rightarrow> nat \<Rightarrow> bytes iso" where
  "Both d off v w = bindE (Put d off v w False) (\<lambda>d1. Put d1 (off + w) v w True)"

definition Text :: "bytes \<Rightarrow> nat \<Rightarrow> bytes \<Rightarrow> nat \<Rightarrow> 8 word \<Rightarrow> bytes iso" where
  "Text d off t w pad =
    bindE (require (off \<le> length d \<and> w \<le> length d - off \<and> length t \<le> w) ''Text field overflow'') (\<lambda>_.
    Inr (overwrite off (t @ replicate (w - length t) pad) d))"

text \<open>Setting one byte, \<open>Data[i] = b\<close>; outside the vector the code has no defined behaviour, and the
  definitions below stay inside.\<close>

definition setByte :: "nat \<Rightarrow> 8 word \<Rightarrow> bytes \<Rightarrow> bytes" where
  "setByte i b d = d[i := b]"

section \<open>Unicode\<close>

fun continuation :: "nat \<Rightarrow> nat \<Rightarrow> bytes \<Rightarrow> (nat \<times> bytes) iso" where
  "continuation 0 c bs = Inr (c, bs)"
| "continuation (Suc k) c [] = Inl (IsoInvalid, ''Invalid UTF-8'')"
| "continuation (Suc k) c (b # bs) =
    bindE (require (b AND 0xc0 = 0x80) ''Invalid UTF-8 continuation'') (\<lambda>_. continuation k (c * 64 + unat b mod 64) bs)"

definition extraBytes :: "nat \<Rightarrow> nat" where
  "extraBytes c = (if 0xf0 \<le> c then 3 else if 0xe0 \<le> c then 2 else if 0xc2 \<le> c then 1 else 0)"

definition leastScalar :: "nat \<Rightarrow> nat" where
  "leastScalar extra = (if extra = 1 then 128 else if extra = 2 then 2048 else 65536)"

definition scalar :: "nat \<Rightarrow> bool" where
  "scalar c \<longleftrightarrow> c \<noteq> 0 \<and> c \<le> 0x10ffff \<and> (c < 0xd800 \<or> 0xdfff < c)"

definition decodeOne :: "8 word \<Rightarrow> bytes \<Rightarrow> (nat \<times> bytes) iso" where
  "decodeOne b rest =
    bindE (if unat b < 128 then Inr (unat b, rest)
           else let c = unat b; extra = extraBytes c in
             bindE (require (extra \<noteq> 0 \<and> c \<le> 0xf4 \<and> extra \<le> length rest) ''Invalid UTF-8'') (\<lambda>_.
             bindE (continuation extra (c mod 2 ^ (6 - extra)) rest) (\<lambda>(c', rest').
             bindE (require (leastScalar extra \<le> c') ''Overlong UTF-8'') (\<lambda>_. Inr (c', rest'))))) (\<lambda>(c, rest').
    bindE (require (scalar c) ''Invalid Unicode scalar'') (\<lambda>_. Inr (c, rest')))"

definition unitsOf :: "nat \<Rightarrow> nat list" where
  "unitsOf c = (if 0x10000 \<le> c then [0xd800 + (c - 0x10000) div 1024, 0xdc00 + (c - 0x10000) mod 1024] else [c])"

lemma continuation_shorter: "continuation k c bs = Inr (c', bs') \<Longrightarrow> length bs' \<le> length bs"
  by (induction k c bs arbitrary: c' bs' rule: continuation.induct) fastforce+

lemma decodeOne_shorter: "decodeOne b bs = Inr (c, bs') \<Longrightarrow> length bs' \<le> length bs"
  by (auto simp: decodeOne_def Let_def split: if_splits dest: continuation_shorter)

function DecodeUtf8 :: "bytes \<Rightarrow> nat list iso" where
  "DecodeUtf8 [] = Inr []"
| "DecodeUtf8 (b # bs) =
    (case decodeOne b bs of Inl e \<Rightarrow> Inl e
     | Inr (c, rest) \<Rightarrow> bindE (DecodeUtf8 rest) (\<lambda>us. Inr (unitsOf c @ us)))"
  by pat_completeness auto
termination
  by (relation "measure length") (auto dest: decodeOne_shorter)

definition utf8Of :: "nat \<Rightarrow> bytes" where
  "utf8Of c =
    (if c < 128 then [word_of_nat c]
     else if c < 2048 then [word_of_nat (0xc0 + c div 64), word_of_nat (0x80 + c mod 64)]
     else (if 65536 \<le> c then [word_of_nat (0xf0 + c div 2 ^ 18), word_of_nat (0x80 + c div 2 ^ 12 mod 64)]
           else [word_of_nat (0xe0 + c div 2 ^ 12)])
       @ [word_of_nat (0x80 + c div 64 mod 64), word_of_nat (0x80 + c mod 64)])"

fun EncodeUtf8 :: "nat list \<Rightarrow> bytes iso" where
  "EncodeUtf8 [] = Inr []"
| "EncodeUtf8 (u # us) =
    (if 0xd800 \<le> u \<and> u \<le> 0xdbff
     then (case us of [] \<Rightarrow> Inl (IsoInvalid, ''Invalid UTF-16 surrogate'')
       | v # vs \<Rightarrow>
           bindE (require (0xdc00 \<le> v \<and> v \<le> 0xdfff) ''Invalid UTF-16 surrogate'') (\<lambda>_.
           bindE (EncodeUtf8 vs) (\<lambda>t. Inr (utf8Of (0x10000 + (u - 0xd800) * 1024 + (v - 0xdc00)) @ t))))
     else bindE (require (u < 0xdc00 \<or> 0xdfff < u) ''Invalid UTF-16 surrogate'') (\<lambda>_.
       bindE (require (u \<noteq> 0) ''Embedded NUL in name'') (\<lambda>_.
       bindE (EncodeUtf8 us) (\<lambda>t. Inr (utf8Of u @ t)))))"

definition bigUnit :: "nat \<Rightarrow> bytes" where
  "bigUnit u = [word_of_nat (u div 256), word_of_nat u]"

definition Unicode :: "bytes \<Rightarrow> bool \<Rightarrow> bytes iso" where
  "Unicode t osta = bindE (DecodeUtf8 t) (\<lambda>us.
     let eight = (osta \<and> list_all (\<lambda>u. u < 256) us)
     in Inr ((if osta then [if eight then 8 else 16] else [])
             @ concat (map (\<lambda>u. if eight then [word_of_nat u] else bigUnit u) us)))"

fun pairUnits :: "bytes \<Rightarrow> nat list" where
  "pairUnits (a # b # bs) = (unat a * 256 + unat b) # pairUnits bs"
| "pairUnits _ = []"

definition DecodeUnicode :: "bytes \<Rightarrow> bool \<Rightarrow> bytes iso" where
  "DecodeUnicode v osta =
    bindE (need (osta \<longrightarrow> v \<noteq> [] \<and> (hd v = 8 \<or> hd v = 16)) ''Unsupported OSTA compression'' IsoUnsupported) (\<lambda>_.
      let eight = (osta \<and> hd v = 8); body = (if osta then tl v else v)
      in bindE (require (eight \<or> length body mod 2 = 0) ''Odd UTF-16 length'') (\<lambda>_.
         EncodeUtf8 (if eight then map unat body else pairUnits body)))"

section \<open>Paths\<close>

abbreviation slash :: "8 word" where "slash \<equiv> 0x2f"

definition goodPart :: "bytes \<Rightarrow> bool" where
  "goodPart p \<longleftrightarrow> p \<noteq> [] \<and> p \<noteq> [0x2e] \<and> p \<noteq> [0x2e, 0x2e]"

fun cleanFrom :: "bytes \<Rightarrow> bytes \<Rightarrow> unit iso" where
  "cleanFrom part [] = require (goodPart part) ''Unsafe image component''"
| "cleanFrom part (b # bs) =
    bindE (require (32 \<le> b \<and> b \<noteq> 0x5c \<and> b \<noteq> 0x3a) ''Unsafe image path'') (\<lambda>_.
    if b = slash then bindE (require (goodPart part) ''Unsafe image component'') (\<lambda>_. cleanFrom [] bs)
    else cleanFrom (part @ [b]) bs)"

definition CleanPath :: "bytes \<Rightarrow> bytes iso" where
  "CleanPath p =
    bindE (require (p \<noteq> [] \<and> length p \<le> 4096 \<and> hd p \<noteq> slash \<and> last p \<noteq> slash) ''Invalid image path'') (\<lambda>_.
    bindE (DecodeUtf8 p) (\<lambda>_. bindE (cleanFrom [] p) (\<lambda>_. Inr p)))"

section \<open>Checksums and tags\<close>

definition crcBit :: "16 word \<Rightarrow> 16 word" where
  "crcBit c = push_bit 1 c XOR (if bit c 15 then 0x1021 else 0)"

definition crcByte :: "16 word \<Rightarrow> 8 word \<Rightarrow> 16 word" where
  "crcByte c b = (crcBit ^^ 8) (c XOR push_bit 8 (ucast b))"

definition Crc16 :: "bytes \<Rightarrow> 16 word" where
  "Crc16 bs = foldl crcByte 0 bs"

text \<open>The sum of the tag, byte 4 left out.\<close>

definition tagSum :: "bytes \<Rightarrow> 8 word" where
  "tagSum d = sum_list (take 4 d) + sum_list (take 11 (drop 5 d))"

definition Tag :: "bytes \<Rightarrow> nat \<Rightarrow> nat \<Rightarrow> nat \<Rightarrow> bytes iso" where
  "Tag d ident location len =
    bindE (require (16 \<le> len \<and> len \<le> length d \<and> len - 16 \<le> 65535) ''Invalid UDF tag length'') (\<lambda>_.
    bindE (Put d 0 ident 2 False) (\<lambda>d. bindE (Put d 2 2 2 False) (\<lambda>d. bindE (Put d 6 1 2 False) (\<lambda>d.
    bindE (Put d 8 (unat (Crc16 (take (len - 16) (drop 16 d)))) 2 False) (\<lambda>d.
    bindE (Put d 10 (len - 16) 2 False) (\<lambda>d. bindE (Put d 12 location 4 False) (\<lambda>d.
    Inr (setByte 4 (tagSum d) d))))))))"

definition leastCovered :: "nat \<Rightarrow> nat" where
  "leastCovered kind = (if kind = 261 then 160 else if kind = 266 then 200 else if kind = 257 then 22 else if kind = 6 then 424
     else if kind = 7 then 8 else if kind = 9 then 64 else 496)"

definition CheckTag :: "bytes \<Rightarrow> nat \<Rightarrow> nat \<Rightarrow> unit iso" where
  "CheckTag d location ident =
    bindE (require (16 \<le> length d) ''Unexpected UDF descriptor'') (\<lambda>_.
    bindE (Get d 0 2 False) (\<lambda>kind.
    bindE (require (ident = 0 \<or> kind = ident) ''Unexpected UDF descriptor'') (\<lambda>_.
    bindE (Get d 2 2 False) (\<lambda>version. bindE (Get d 12 4 False) (\<lambda>at.
    bindE (require ((version = 2 \<or> version = 3) \<and> at = location) ''Invalid UDF tag location/version'') (\<lambda>_.
    bindE (Get d 10 2 False) (\<lambda>len.
    bindE (require (tagSum d = d ! 4 \<and> len \<le> length d - 16) ''Invalid UDF tag checksum/length'') (\<lambda>_.
    bindE (require (leastCovered kind \<le> len) ''UDF CRC does not cover required descriptor fields'') (\<lambda>_.
    bindE (Get d 8 2 False) (\<lambda>crc.
    require (unat (Crc16 (take len (drop 16 d))) = crc) ''Invalid UDF descriptor CRC''))))))))))"

section \<open>Time stamps\<close>

text \<open>\<open>year_month_day\<close> of a number of days since 1970, in the proleptic Gregorian calendar.\<close>

definition civil :: "int \<Rightarrow> int \<times> nat \<times> nat" where
  "civil day =
    (let z = day + 719468; era = z div 146097; doe = z mod 146097;
         yoe = (doe - doe div 1460 + doe div 36524 - doe div 146096) div 365;
         doy = doe - (365 * yoe + yoe div 4 - yoe div 100);
         mp = (5 * doy + 2) div 153;
         d = doy - (153 * mp + 2) div 5 + 1;
         m = (if mp < 10 then mp + 3 else mp - 9)
     in (yoe + era * 400 + (if m \<le> 2 then 1 else 0), nat m, nat d))"

definition Timestamp :: "bytes \<Rightarrow> nat \<Rightarrow> int \<Rightarrow> bool \<Rightarrow> bool \<Rightarrow> bytes iso" where
  "Timestamp d off epoch udf explicitTime =
    (let t = (if epoch \<noteq> 0 \<or> explicitTime then epoch else 946684800);
         (year, month, day) = civil (t div 86400); clock = nat (t mod 86400)
     in bindE (require (1900 \<le> year \<and> year \<le> 2155) ''Timestamp out of range'') (\<lambda>_.
        bindE (if udf then bindE (Put d off 0x1000 2 False) (\<lambda>d1. bindE (Put d1 (off + 2) (nat year) 2 False) (\<lambda>d2. Inr (d2, off + 4)))
               else Inr (setByte off (word_of_int (year - 1900)) d, off + 1)) (\<lambda>(d3, p).
        Inr (setByte (p + 5) 0 (setByte (p + 4) (word_of_nat (clock mod 60)) (setByte (p + 3) (word_of_nat (clock div 60 mod 60))
            (setByte (p + 2) (word_of_nat (clock div 3600)) (setByte (p + 1) (word_of_nat day) (setByte p (word_of_nat month) d3)))))))))"

text \<open>\<open>Pulse\<close>: the callback, if there is one, may cancel.\<close>

definition Pulse :: "(nat \<Rightarrow> nat \<Rightarrow> bool) option \<Rightarrow> nat \<Rightarrow> nat \<Rightarrow> unit iso" where
  "Pulse progress doneBytes totalBytes = (case progress of None \<Rightarrow> Inr ()
     | Some f \<Rightarrow> need (f doneBytes totalBytes) ''ISO operation cancelled'' IsoCancelled)"

section \<open>Fields read back what was written\<close>

named_theorems field_rules

lemma length_leBytes [simp]: "length (leBytes w v) = w"
  by (induction w v rule: leBytes.induct) simp_all

lemma leValue_leBytes: "leValue (leBytes w v) = v mod 256 ^ w"
proof (induction w v rule: leBytes.induct)
  case (2 w v)
  then show ?case by (simp add: unat_of_nat take_bit_eq_mod mod_mult2_eq add.commute)
qed simp

lemma length_overwrite [simp]: "off + length f \<le> length d \<Longrightarrow> length (overwrite off f d) = length d"
  by (simp add: overwrite_def)

lemma nth_overwrite:
  "off + length f \<le> length d \<Longrightarrow> i < length d \<Longrightarrow>
   overwrite off f d ! i = (if off \<le> i \<and> i < off + length f then f ! (i - off) else d ! i)"
  by (auto simp: overwrite_def nth_append min_def)

lemma field_same [field_rules]:
  "off + length f \<le> length d \<Longrightarrow> length f = w \<Longrightarrow> take w (drop off (overwrite off f d)) = f"
  by (rule nth_equalityI) (simp_all add: nth_overwrite)

lemma field_other [field_rules]:
  "off + length f \<le> length d \<Longrightarrow> o' + w' \<le> off \<or> off + length f \<le> o' \<Longrightarrow>
   take w' (drop o' (overwrite off f d)) = take w' (drop o' d)"
  by (rule nth_equalityI) (auto simp: nth_overwrite)

lemma Put_Inr:
  "Put d off v w big = Inr d' \<longleftrightarrow> w \<le> 8 \<and> off + w \<le> length d \<and> (w = 8 \<or> v < 256 ^ w)
     \<and> d' = overwrite off (if big then rev (leBytes w v) else leBytes w v) d"
proof -
  have "(2 :: nat) ^ (w * 8) = 256 ^ w" using power_mult [of "2 :: nat" 8 w] by (simp add: mult.commute)
  then show ?thesis by (auto simp: Put_def)
qed

lemma Get_Inr: "Get d off w big = Inr v \<longleftrightarrow> w \<le> 8 \<and> off + w \<le> length d
    \<and> v = leValue (if big then rev (take w (drop off d)) else take w (drop off d))"
  by (auto simp: Get_def Let_def)

lemma length_Put: "Put d off v w big = Inr d' \<Longrightarrow> length d' = length d"
  by (auto simp: Put_Inr)

lemma Get_Put_same: "Put d off v w big = Inr d' \<Longrightarrow> Get d' off w big = Inr (v mod 256 ^ w)"
  by (auto simp: Put_Inr Get_Inr field_same leValue_leBytes)

lemma field_Put: "Put d off v w big = Inr d' \<Longrightarrow> o' + w' \<le> off \<or> off + w \<le> o' \<Longrightarrow>
    take w' (drop o' d') = take w' (drop o' d)"
  by (auto simp: Put_Inr field_other)

lemma Get_Put_other:
  assumes "Put d off v w big = Inr d'" "o' + w' \<le> off \<or> off + w \<le> o'"
  shows "Get d' o' w' big' = Get d o' w' big'"
  using field_Put [OF assms] length_Put [OF assms(1)] by (simp add: Get_def)

lemma field_Put_from: "Put d off v w big = Inr d' \<Longrightarrow> off + w \<le> o' \<Longrightarrow> drop o' d' = drop o' d"
  using field_Put [of d off v w big d' o' "length d"] length_Put [of d off v w big d'] by simp

text \<open>A field written at any width and in either byte order reads back as the value written,
  and no other field of the record changes.\<close>

theorem Get_Put:
  assumes "Put d off v w big = Inr d'" "v < 2 ^ 64"
  shows "Get d' off w big = Inr v
    \<and> (\<forall>o' w' big'. o' + w' \<le> off \<or> off + w \<le> o' \<longrightarrow> Get d' o' w' big' = Get d o' w' big')"
proof -
  have "v < 256 ^ w" using assms by (auto simp: Put_Inr)
  then show ?thesis using Get_Put_same [OF assms(1)] Get_Put_other [OF assms(1)] by auto
qed

section \<open>UTF-8\<close>

lemma unat_byte [simp]: "unat (word_of_nat n :: 8 word) = n mod 256"
  by (simp add: unat_of_nat take_bit_eq_mod)

lemma top_bits:
  assumes "n < 256"
  shows "n AND 192 = n div 64 * (64 :: nat)"
proof -
  have "n AND push_bit 6 (mask 2) = push_bit 6 (take_bit 2 (drop_bit 6 n))"
    by (rule bit_eqI) (auto simp: bit_simps)
  also have "\<dots> = n div 64 * 64"
    using assms by (simp add: push_bit_eq_mult take_bit_eq_mod drop_bit_eq_div)
  finally show ?thesis by (simp add: push_bit_eq_mult mask_eq_exp_minus_1)
qed

lemma byte_less [simp]: "unat (b :: 8 word) < 256"
  using unsigned_less [of b] by simp

lemma tail_byte: "(b :: 8 word) AND 0xc0 = 0x80 \<longleftrightarrow> unat b div 64 = 2"
proof -
  have "b AND 0xc0 = 0x80 \<longleftrightarrow> unat (b AND 0xc0) = unat (0x80 :: 8 word)" by (simp only: word_unat_eq_iff)
  also have "unat (b AND 0xc0) = unat b div 64 * 64"
    by (simp add: unsigned_and_eq top_bits)
  finally show ?thesis by auto
qed

lemma byte_eq: "word_of_nat n = (b :: 8 word) \<longleftrightarrow> n mod 256 = unat b"
  by (simp add: word_unat_eq_iff)

lemma scalar_parts:
  fixes c :: nat
  obtains x y z r where "c = 64 * x + r" "x = 64 * y + z" "r < 64" "z < 64"
    "c div 64 = x" "c mod 64 = r" "c div 64 mod 64 = z" "c div 2 ^ 12 = y"
proof -
  have "c div 2 ^ 12 = c div 64 div 64" by (simp add: div_mult2_eq [symmetric])
  then show ?thesis using that [of "c div 64" "c mod 64" "c div 64 div 64" "c div 64 mod 64"] by simp
qed

lemma offset_mod: "k mod n = 0 \<Longrightarrow> x < n \<Longrightarrow> (k + x) mod n = (x :: nat)"
  by (metis add_0 mod_add_left_eq mod_less)

lemma continuation_tail [simp]:
  "r < 64 \<Longrightarrow> continuation (Suc k) c (word_of_nat (128 + r) # bs) = continuation k (c * 64 + r) bs"
proof -
  assume r: "r < 64"
  have "(128 + r) div 64 = 2" "(128 + r) mod 64 = r" "128 + r < 256" using r by (auto intro: div_nat_eqI offset_mod)
  then show ?thesis by (simp add: tail_byte del: of_nat_add)
qed

lemma decodeOne_lead:
  assumes "128 \<le> unat b" "extraBytes (unat b) = e" "e \<noteq> 0" "unat b \<le> 0xf4" "e \<le> length rest"
    and "continuation e (unat b mod 2 ^ (6 - e)) rest = Inr (c, rest')" "leastScalar e \<le> c" "scalar c"
  shows "decodeOne b rest = Inr (c, rest')"
  using assms by (simp add: decodeOne_def Let_def)

lemma decodeOne_utf8Of:
  assumes "scalar c"
  shows "\<exists>b bs. utf8Of c = b # bs \<and> (\<forall>rest. decodeOne b (bs @ rest) = Inr (c, rest))"
proof -
  obtain x y z r where p: "c = 64 * x + r" "x = 64 * y + z" "r < 64" "z < 64"
    "c div 64 = x" "c mod 64 = r" "c div 64 mod 64 = z" "c div 2 ^ 12 = y" by (rule scalar_parts)
  have top: "c \<le> 0x10ffff" using assms by (simp add: scalar_def)
  consider "c < 128" | "128 \<le> c" "c < 2048" | "2048 \<le> c" "c < 65536" | "65536 \<le> c" by linarith
  then show ?thesis
  proof cases
    case 1
    then show ?thesis using assms by (simp add: utf8Of_def decodeOne_def)
  next
    case 2
    then have x: "2 \<le> x" "x < 32" using p(1,3) by linarith+
    let ?b = "word_of_nat (192 + x) :: 8 word"
    have b: "unat ?b = 192 + x" "unat ?b mod 2 ^ (6 - 1) = x" using x by (simp_all add: offset_mod del: of_nat_add)
    have "utf8Of c = [?b, word_of_nat (128 + r)]"
      using 2 p(5,6) by (simp add: utf8Of_def)
    moreover have "decodeOne ?b ([word_of_nat (128 + r)] @ rest) = Inr (c, rest)" for rest
    proof (rule decodeOne_lead [where e = 1])
      show "continuation 1 (unat ?b mod 2 ^ (6 - 1)) ([word_of_nat (128 + r)] @ rest) = Inr (c, rest)"
        unfolding b(2) unfolding One_nat_def using p(1,3) by (simp del: of_nat_add continuation.simps(3))
    qed (use b x 2 assms in \<open>simp_all add: extraBytes_def leastScalar_def del: of_nat_add\<close>)
    ultimately show ?thesis by blast
  next
    case 3
    then have y: "y < 16" "32 \<le> x" using p(1-4) by linarith+
    let ?b = "word_of_nat (224 + y) :: 8 word"
    have b: "unat ?b = 224 + y" "unat ?b mod 2 ^ (6 - 2) = y" using y by (simp_all add: offset_mod del: of_nat_add)
    have "utf8Of c = [?b, word_of_nat (128 + z), word_of_nat (128 + r)]"
      using 3 p(6-8) by (simp add: utf8Of_def)
    moreover have "decodeOne ?b ([word_of_nat (128 + z), word_of_nat (128 + r)] @ rest) = Inr (c, rest)" for rest
    proof (rule decodeOne_lead [where e = 2])
      show "continuation 2 (unat ?b mod 2 ^ (6 - 2)) ([word_of_nat (128 + z), word_of_nat (128 + r)] @ rest) = Inr (c, rest)"
        unfolding b(2) unfolding numeral_2_eq_2 using p(1-4) by (simp del: of_nat_add continuation.simps(3))
    qed (use b y 3 assms in \<open>simp_all add: extraBytes_def leastScalar_def del: of_nat_add\<close>)
    ultimately show ?thesis by blast
  next
    case 4
    define w q where "w = y div 64" and "q = y mod 64"
    have wq: "y = 64 * w + q" "q < 64" by (simp_all add: w_def q_def)
    then have w: "w \<le> 4" using top p(1-4) by linarith
    have "c div 2 ^ 18 = c div 2 ^ 12 div 64" by (simp add: div_mult2_eq [symmetric])
    then have d: "c div 2 ^ 18 = w" "c div 2 ^ 12 mod 64 = q"
      unfolding p(8) by (simp_all add: w_def q_def)
    let ?b = "word_of_nat (240 + w) :: 8 word"
    have b: "unat ?b = 240 + w" "unat ?b mod 2 ^ (6 - 3) = w" using w by (simp_all add: offset_mod del: of_nat_add)
    have "utf8Of c = [?b, word_of_nat (128 + q), word_of_nat (128 + z), word_of_nat (128 + r)]"
      using 4 p(6,7) d by (simp add: utf8Of_def)
    moreover have "decodeOne ?b ([word_of_nat (128 + q), word_of_nat (128 + z), word_of_nat (128 + r)] @ rest) = Inr (c, rest)" for rest
    proof (rule decodeOne_lead [where e = 3])
      show "continuation 3 (unat ?b mod 2 ^ (6 - 3)) ([word_of_nat (128 + q), word_of_nat (128 + z), word_of_nat (128 + r)] @ rest)
          = Inr (c, rest)"
        unfolding b(2) unfolding numeral_3_eq_3 using p(1-4) wq by (simp del: of_nat_add continuation.simps(3))
    qed (use b w 4 assms in \<open>simp_all add: extraBytes_def leastScalar_def del: of_nat_add\<close>)
    ultimately show ?thesis by blast
  qed
qed

lemma continuation_Inr:
  "continuation (Suc k) c bs = Inr (c', rest) \<Longrightarrow>
   \<exists>r bs'. bs = word_of_nat (128 + r) # bs' \<and> r < 64 \<and> continuation k (c * 64 + r) bs' = Inr (c', rest)"
proof (cases bs)
  case (Cons b bs')
  assume run: "continuation (Suc k) c bs = Inr (c', rest)"
  then have b: "unat b div 64 = 2" and rest: "continuation k (c * 64 + unat b mod 64) bs' = Inr (c', rest)"
    by (auto simp: Cons tail_byte)
  have "unat b = 128 + unat b mod 64" using b div_mult_mod_eq [of "unat b" 64] by linarith
  then have "b = word_of_nat (128 + unat b mod 64)" by (metis byte_eq byte_less mod_less)
  then show ?thesis using Cons rest by (intro exI [of _ "unat b mod 64"] exI [of _ bs']) simp
qed simp

lemma digit: "c = a * n + r \<Longrightarrow> r < n \<Longrightarrow> c div n = a \<and> c mod n = (r :: nat)"
  by simp

lemma utf8Of_two: "c = 64 * x + r \<Longrightarrow> r < 64 \<Longrightarrow> 128 \<le> c \<Longrightarrow> c < 2048 \<Longrightarrow>
    utf8Of c = [word_of_nat (192 + x), word_of_nat (128 + r)]"
  by (simp add: utf8Of_def)

lemma utf8Of_three:
  assumes "c = (y * 64 + z) * 64 + r" "z < 64" "r < 64" "2048 \<le> c" "c < 65536"
  shows "utf8Of c = [word_of_nat (224 + y), word_of_nat (128 + z), word_of_nat (128 + r)]"
proof -
  have "c div 64 = y * 64 + z" "c mod 64 = r" using digit [OF assms(1,3)] by simp_all
  moreover have "c div 2 ^ 12 = c div 64 div 64" by (simp add: div_mult2_eq [symmetric])
  ultimately have "c div 2 ^ 12 = y" "c div 64 mod 64 = z" "c mod 64 = r" using digit [OF refl assms(2)] by simp_all
  then show ?thesis using assms(4,5) by (simp add: utf8Of_def del: of_nat_add)
qed

lemma utf8Of_four:
  assumes "c = ((w * 64 + q) * 64 + z) * 64 + r" "q < 64" "z < 64" "r < 64" "65536 \<le> c"
  shows "utf8Of c = [word_of_nat (240 + w), word_of_nat (128 + q), word_of_nat (128 + z), word_of_nat (128 + r)]"
proof -
  have a: "c div 64 = (w * 64 + q) * 64 + z" "c mod 64 = r" using digit [OF assms(1,4)] by simp_all
  then have b: "c div 64 div 64 = w * 64 + q" "c div 64 mod 64 = z" using digit [OF a(1) assms(3)] by simp_all
  have "c div 2 ^ 12 = c div 64 div 64" "c div 2 ^ 18 = c div 64 div 64 div 64" by (simp_all add: div_mult2_eq [symmetric])
  then have "c div 2 ^ 12 mod 64 = q" "c div 2 ^ 18 = w" using digit [OF b(1) assms(2)] by simp_all
  then show ?thesis using assms(5) a(2) b(2) by (simp add: utf8Of_def del: of_nat_add)
qed

lemma lead_byte: "k + x = unat b \<Longrightarrow> b = word_of_nat (k + x)" for b :: "8 word"
  by (metis byte_eq byte_less mod_less)

lemma decodeOne_Inr:
  assumes "decodeOne b bs = Inr (c, rest)"
  shows "scalar c \<and> b # bs = utf8Of c @ rest"
proof (cases "unat b < 128")
  case True
  then have "c = unat b" "rest = bs" "scalar c" using assms by (auto simp: decodeOne_def)
  then show ?thesis using True by (simp add: utf8Of_def)
next
  case False
  define e where "e = extraBytes (unat b)"
  have c: "e \<noteq> 0" "unat b \<le> 0xf4" "continuation e (unat b mod 2 ^ (6 - e)) bs = Inr (c, rest)" "leastScalar e \<le> c" "scalar c"
    using assms False by (auto simp: decodeOne_def Let_def e_def)
  consider "e = 1" "194 \<le> unat b" "unat b < 224" | "e = 2" "224 \<le> unat b" "unat b < 240" | "e = 3" "240 \<le> unat b"
    using c(1) by (auto simp: e_def extraBytes_def split: if_splits)
  then show ?thesis
  proof cases
    case 1
    define x where "x = unat b - 192"
    have x: "192 + x = unat b" "x < 32" using 1 by (simp_all add: x_def)
    have "unat b mod 2 ^ (6 - e) = x" using 1(1) x offset_mod [of 192 32 x] by simp
    then obtain r bs' where r: "bs = word_of_nat (128 + r) # bs'" "r < 64" "c = x * 64 + r" "bs' = rest"
      using c(3) 1(1) by (auto dest!: continuation_Inr)
    have "utf8Of c = [word_of_nat (192 + x), word_of_nat (128 + r)]"
      by (rule utf8Of_two) (use r x c(4) 1(1) in \<open>auto simp: leastScalar_def\<close>)
    then show ?thesis using c(5) r lead_byte [OF x(1)] by simp
  next
    case 2
    define y where "y = unat b - 224"
    have y: "224 + y = unat b" "y < 16" using 2 by (simp_all add: y_def)
    have "unat b mod 2 ^ (6 - e) = y" using 2(1) y offset_mod [of 224 16 y] by simp
    then have "continuation (Suc (Suc 0)) y bs = Inr (c, rest)" using c(3) 2(1) by (simp add: numeral_2_eq_2)
    then obtain z r bs' where r: "bs = word_of_nat (128 + z) # word_of_nat (128 + r) # bs'" "z < 64" "r < 64"
      "c = (y * 64 + z) * 64 + r" "bs' = rest"
      by (auto dest!: continuation_Inr)
    have "utf8Of c = [word_of_nat (224 + y), word_of_nat (128 + z), word_of_nat (128 + r)]"
      by (rule utf8Of_three [OF r(4,2,3)]) (use r y c(4) 2(1) in \<open>auto simp: leastScalar_def\<close>)
    then show ?thesis using c(5) r lead_byte [OF y(1)] by simp
  next
    case 3
    define w where "w = unat b - 240"
    have w: "240 + w = unat b" "w < 8" using 3 c(2) by (simp_all add: w_def)
    have "unat b mod 2 ^ (6 - e) = w" using 3(1) w offset_mod [of 240 8 w] by simp
    then have "continuation (Suc (Suc (Suc 0))) w bs = Inr (c, rest)" using c(3) 3(1) by (simp add: numeral_3_eq_3)
    then obtain q z r bs' where r: "bs = word_of_nat (128 + q) # word_of_nat (128 + z) # word_of_nat (128 + r) # bs'"
      "q < 64" "z < 64" "r < 64" "c = ((w * 64 + q) * 64 + z) * 64 + r" "bs' = rest"
      by (auto dest!: continuation_Inr)
    have "utf8Of c = [word_of_nat (240 + w), word_of_nat (128 + q), word_of_nat (128 + z), word_of_nat (128 + r)]"
      by (rule utf8Of_four [OF r(5,2,3,4)]) (use c(4) 3(1) in \<open>simp add: leastScalar_def\<close>)
    then show ?thesis using c(5) r lead_byte [OF w(1)] by simp
  qed
qed

lemma DecodeUtf8_utf8Of:
  "scalar c \<Longrightarrow> DecodeUtf8 (utf8Of c @ t) = bindE (DecodeUtf8 t) (\<lambda>us. Inr (unitsOf c @ us))"
  using decodeOne_utf8Of [of c] by auto

lemma EncodeUtf8_unitsOf:
  assumes "scalar c"
  shows "EncodeUtf8 (unitsOf c @ us) = bindE (EncodeUtf8 us) (\<lambda>t. Inr (utf8Of c @ t))"
proof (cases "0x10000 \<le> c")
  case True
  define d where "d = c - 0x10000"
  have d: "d < 1024 * 1024" "c = 0x10000 + d" using True assms by (simp_all add: d_def scalar_def)
  then have "d div 1024 < 1024" "d mod 1024 \<le> 1023" by (simp_all add: less_mult_imp_div_less)
  then show ?thesis
    using d(2) by (simp add: unitsOf_def add.commute)
next
  case False
  then show ?thesis using assms by (auto simp: unitsOf_def scalar_def)
qed

lemma DecodeUtf8_encoded: "DecodeUtf8 t = Inr us \<Longrightarrow> EncodeUtf8 us = Inr t \<and> (\<forall>u \<in> set us. u < 65536)"
proof (induction t arbitrary: us rule: DecodeUtf8.induct)
  case (2 b bs)
  then obtain c rest vs where d: "decodeOne b bs = Inr (c, rest)" "DecodeUtf8 rest = Inr vs" "us = unitsOf c @ vs"
    by (auto split: sum.splits)
  have s: "scalar c" "b # bs = utf8Of c @ rest" using decodeOne_Inr [OF d(1)] by simp_all
  have "EncodeUtf8 vs = Inr rest \<and> (\<forall>u \<in> set vs. u < 65536)" by (rule "2.IH" [OF d(1) refl d(2)])
  moreover have "\<forall>u \<in> set (unitsOf c). u < 65536"
    using s(1) by (auto simp: unitsOf_def scalar_def)
  ultimately show ?case using EncodeUtf8_unitsOf [OF s(1), of vs] d(3) s(2) by auto
qed simp

lemma EncodeUtf8_decoded: "EncodeUtf8 us = Inr t \<Longrightarrow> \<forall>u \<in> set us. u < 65536 \<Longrightarrow> DecodeUtf8 t = Inr us"
proof (induction us arbitrary: t rule: EncodeUtf8.induct)
  case (2 u us)
  show ?case
  proof (cases "0xd800 \<le> u \<and> u \<le> 0xdbff")
    case True
    then obtain v vs t' where p: "us = v # vs" "0xdc00 \<le> v" "v \<le> 0xdfff" "EncodeUtf8 vs = Inr t'"
      "t = utf8Of (0x10000 + (u - 0xd800) * 1024 + (v - 0xdc00)) @ t'"
      using "2.prems"(1) by (auto split: list.splits)
    define c where "c = 0x10000 + (u - 0xd800) * 1024 + (v - 0xdc00)"
    have "(u - 0xd800) * 1024 \<le> 1023 * 1024" using True by (intro mult_right_mono) linarith+
    then have "scalar c" using p(2,3) unfolding scalar_def c_def by linarith
    moreover have "unitsOf c = [u, v]"
    proof -
      have "c - 0x10000 = (u - 0xd800) * 1024 + (v - 0xdc00)" by (simp add: c_def)
      moreover have "v - 0xdc00 < 1024" using p(2,3) by linarith
      ultimately have "(c - 0x10000) div 1024 = u - 0xd800" "(c - 0x10000) mod 1024 = v - 0xdc00" by simp_all
      then show ?thesis using True p(2) by (simp add: unitsOf_def c_def)
    qed
    moreover have "DecodeUtf8 t' = Inr vs"
      by (rule "2.IH"(1) [OF True p(1)]) (use p "2.prems"(2) in auto)
    ultimately show ?thesis using p by (simp add: DecodeUtf8_utf8Of c_def [symmetric])
  next
    case False
    then obtain t' where p: "u < 0xdc00 \<or> 0xdfff < u" "u \<noteq> 0" "EncodeUtf8 us = Inr t'" "t = utf8Of u @ t'"
      using "2.prems"(1) by auto
    have "scalar u" using False p(1,2) "2.prems"(2) by (auto simp: scalar_def)
    moreover have "unitsOf u = [u]" using "2.prems"(2) by (simp add: unitsOf_def)
    moreover have "DecodeUtf8 us' = Inr us" if "us' = t'" for us'
      using "2.IH"(2) [OF False] p "2.prems"(2) that by auto
    ultimately show ?thesis using p(4) by (simp add: DecodeUtf8_utf8Of)
  qed
qed simp

text \<open>The two converters of names are inverse to each other: a text decodes to UTF-16 units
  exactly when these units encode to that text.  So neither accepts an overlong sequence, a
  lone surrogate or a NUL that the other would not give back.\<close>

theorem utf8_roundtrip:
  assumes "\<forall>u \<in> set us. u < 65536"
  shows "DecodeUtf8 t = Inr us \<longleftrightarrow> EncodeUtf8 us = Inr t"
  using DecodeUtf8_encoded EncodeUtf8_decoded [OF _ assms] by blast

lemma length_bigUnits: "length (concat (map bigUnit us)) = 2 * length us"
  by (induction us) (simp_all add: bigUnit_def)

lemma pairUnits_bigUnits: "\<forall>u \<in> set us. u < 65536 \<Longrightarrow> pairUnits (concat (map bigUnit us)) = us"
proof (induction us)
  case (Cons u us)
  then have "u div 256 < 256" "u div 256 * 256 + u mod 256 = u" by (simp_all add: less_mult_imp_div_less)
  then show ?case using Cons by (simp add: bigUnit_def)
qed simp

text \<open>A name put into the Joliet or the UDF namespace, in either encoding, reads undo as the name
  it was.\<close>

theorem Unicode_roundtrip:
  assumes "Unicode t osta = Inr v"
  shows "DecodeUnicode v osta = Inr t"
proof -
  obtain us where us: "DecodeUtf8 t = Inr us" using assms by (auto simp: Unicode_def)
  have enc: "EncodeUtf8 us = Inr t" "\<forall>u \<in> set us. u < 65536" using DecodeUtf8_encoded [OF us] by simp_all
  show ?thesis
  proof (cases "osta \<and> list_all (\<lambda>u. u < 256) us")
    case True
    then have "map (unat \<circ> (word_of_nat :: nat \<Rightarrow> 8 word)) us = us"
      by (simp add: list_all_iff map_idI)
    moreover have "v = 8 # map word_of_nat us"
      using assms us True by (simp add: Unicode_def Let_def)
    ultimately show ?thesis using True enc(1) by (simp add: DecodeUnicode_def Let_def)
  next
    case False
    then have "v = (if osta then [16] else []) @ concat (map bigUnit us)"
      using assms us False by (cases osta) (simp_all add: Unicode_def Let_def)
    then show ?thesis
      using enc pairUnits_bigUnits [OF enc(2)] by (auto simp: DecodeUnicode_def Let_def length_bigUnits)
  qed
qed

section \<open>Paths\<close>

fun partsOf :: "bytes \<Rightarrow> bytes \<Rightarrow> bytes list" where
  "partsOf part [] = [part]"
| "partsOf part (b # bs) = (if b = slash then part # partsOf [] bs else partsOf (part @ [b]) bs)"

lemma cleanFrom_Inr: "cleanFrom part bs = Inr () \<Longrightarrow>
    (\<forall>p \<in> set (partsOf part bs). goodPart p) \<and> (\<forall>b \<in> set bs. 32 \<le> b \<and> b \<noteq> 0x5c \<and> b \<noteq> 0x3a)"
  by (induction part bs rule: cleanFrom.induct) (auto split: if_splits)

text \<open>An image path that passes \<open>CleanPath\<close> is returned unchanged and is safe to extract: none of
  its components is empty, a dot or two dots, and it holds no backslash, colon or control
  character, so it can neither leave the directory it is extracted to nor name a stream.\<close>

theorem CleanPath_safe:
  assumes "CleanPath p = Inr q"
  shows "q = p \<and> list_all (\<lambda>c. c \<notin> {[], [0x2e], [0x2e, 0x2e]}) (partsOf [] p) \<and> list_all (\<lambda>b. 32 \<le> b \<and> b \<noteq> 0x5c \<and> b \<noteq> 0x3a) p"
  using assms cleanFrom_Inr [of "[]" p] by (auto simp: CleanPath_def goodPart_def list_all_iff)

section \<open>Checksums\<close>

lemma bit_crcBit: "bit (crcBit c) n \<longleftrightarrow> n < 16 \<and> ((0 < n \<and> bit c (n - 1)) \<noteq> (bit c 15 \<and> bit (0x1021 :: 16 word) n))"
proof -
  have "bit (push_bit 1 c) n \<longleftrightarrow> 1 \<le> n \<and> n < 16 \<and> bit c (n - 1)"
    by (simp only: bit_push_bit_iff possible_bit_word) simp
  moreover have "bit (0x1021 :: 16 word) n \<Longrightarrow> n < 16" by (drule bit_imp_le_length) simp
  ultimately show ?thesis by (cases "bit c 15") (auto simp only: crcBit_def bit_xor_iff if_True if_False bit_0_eq bot_apply bot_bool_def)
qed

lemma crcBit_inj: "crcBit c = crcBit c' \<Longrightarrow> c = c'"
proof (rule bit_word_eqI)
  fix n assume eq: "crcBit c = crcBit c'" and n: "n < LENGTH(16)"
  have "bit (0x1021 :: 16 word) 0" by simp
  then have top: "bit c 15 = bit c' 15"
    using bit_crcBit [of c 0] bit_crcBit [of c' 0] eq by simp
  show "bit c n = bit c' n"
  proof (cases "n = 15")
    case False
    then have "Suc n < 16" using n by simp
    then show ?thesis
      using bit_crcBit [of c "Suc n"] bit_crcBit [of c' "Suc n"] eq top by auto
  qed (use top in simp)
qed

lemma crcBits_inj: "(crcBit ^^ k) c = (crcBit ^^ k) c' \<Longrightarrow> c = c'"
  by (induction k) (auto dest: crcBit_inj)

lemma high_byte_inj: "push_bit 8 (ucast a :: 16 word) = push_bit 8 (ucast b) \<Longrightarrow> a = (b :: 8 word)"
proof (rule bit_word_eqI)
  fix n assume eq: "push_bit 8 (ucast a :: 16 word) = push_bit 8 (ucast b)" and n: "n < LENGTH(8)"
  have "bit (push_bit 8 (ucast x :: 16 word)) (n + 8) = bit x n" for x :: "8 word"
    using n by (simp add: bit_simps)
  then show "bit a n = bit b n" using eq by metis
qed

lemma xor_cancel: "a XOR x = b XOR x \<Longrightarrow> a = b" "x XOR a = x XOR b \<Longrightarrow> a = b" for a b x :: "16 word"
proof -
  have undo: "(u XOR v) XOR v = u" for u v :: "16 word"
    by (simp only: xor.assoc xor_self_eq xor.right_neutral)
  show "a XOR x = b XOR x \<Longrightarrow> a = b" by (metis undo)
  show "x XOR a = x XOR b \<Longrightarrow> a = b" by (metis undo xor.commute)
qed

lemma crcByte_inj: "crcByte c b = crcByte c' b \<Longrightarrow> c = c'"
  unfolding crcByte_def by (rule xor_cancel(1) [OF crcBits_inj])

lemma crcByte_byte: "crcByte c b = crcByte c b' \<Longrightarrow> b = b'"
  unfolding crcByte_def by (rule high_byte_inj [OF xor_cancel(2) [OF crcBits_inj]])

lemma foldl_crc_inj: "foldl crcByte c bs = foldl crcByte c' bs \<Longrightarrow> c = c'"
  by (induction bs arbitrary: c c') (auto dest: crcByte_inj)

text \<open>C23: the checksum of a descriptor detects every change confined to one of its bytes, whatever
  the byte becomes.\<close>

theorem Crc16_detects:
  assumes "b \<noteq> b'"
  shows "Crc16 (xs @ [b] @ ys) \<noteq> Crc16 (xs @ [b'] @ ys)"
proof
  assume "Crc16 (xs @ [b] @ ys) = Crc16 (xs @ [b'] @ ys)"
  then have "crcByte (foldl crcByte 0 xs) b = crcByte (foldl crcByte 0 xs) b'"
    by (simp add: Crc16_def) (rule foldl_crc_inj)
  then show False using crcByte_byte assms by blast
qed

section \<open>Tags\<close>

lemma tagSum_setByte [simp]: "tagSum (setByte 4 b d) = tagSum d"
  by (simp add: tagSum_def setByte_def)

lemma Get_setByte: "o' + w \<le> 4 \<or> 5 \<le> o' \<Longrightarrow> Get (setByte 4 b d) o' w big = Get d o' w big"
proof -
  assume "o' + w \<le> 4 \<or> 5 \<le> o'"
  then have "take w (drop o' (d[4 := b])) = take w (drop o' d)"
    by (auto intro!: nth_equalityI)
  then show ?thesis by (simp add: Get_def setByte_def)
qed

lemma crc_width: "unat (c :: 16 word) mod 65536 = unat c"
  using unsigned_less [of c, where 'a = nat] by simp

text \<open>What the writer tags, the reader accepts: a descriptor that \<open>Tag\<close> returned passes
  \<open>CheckTag\<close> at the same place and with the same identifier, provided the tagged length
  covers the fields the reader wants covered for this kind.\<close>

theorem CheckTag_Tag:
  assumes "Tag d ident location len = Inr d'" "leastCovered ident \<le> len - 16"
  shows "CheckTag d' location ident = Inr ()"
proof -
  have len: "16 \<le> len" "len \<le> length d" "len - 16 \<le> 65535" using assms(1) by (auto simp: Tag_def)
  obtain d1 d2 d3 d4 d5 d6 where
    p: "Put d 0 ident 2 False = Inr d1" "Put d1 2 2 2 False = Inr d2" "Put d2 6 1 2 False = Inr d3"
    "Put d3 8 (unat (Crc16 (take (len - 16) (drop 16 d3)))) 2 False = Inr d4"
    "Put d4 10 (len - 16) 2 False = Inr d5" "Put d5 12 location 4 False = Inr d6" "d' = setByte 4 (tagSum d6) d6"
    using assms(1) by (auto simp: Tag_def)
  have small: "ident < 65536" "location < 4294967296" using p(1,6) by (simp_all add: Put_Inr)
  have length: "length d6 = length d" using p(1-6) by (simp add: length_Put)
  note other = Get_Put_other [OF p(1)] Get_Put_other [OF p(2)] Get_Put_other [OF p(3)]
    Get_Put_other [OF p(4)] Get_Put_other [OF p(5)] Get_Put_other [OF p(6)]
  note same = Get_Put_same [OF p(1)] Get_Put_same [OF p(2)] Get_Put_same [OF p(4)] Get_Put_same [OF p(5)] Get_Put_same [OF p(6)]
  have fields: "Get d6 0 2 False = Inr ident" "Get d6 2 2 False = Inr 2" "Get d6 10 2 False = Inr (len - 16)"
    "Get d6 12 4 False = Inr location" "Get d6 8 2 False = Inr (unat (Crc16 (take (len - 16) (drop 16 d3))))"
    using same other small len by (simp_all add: crc_width)
  have "drop 16 d6 = drop 16 d3"
    using field_Put_from [OF p(4), of 16] field_Put_from [OF p(5), of 16] field_Put_from [OF p(6), of 16] by simp
  then have "drop 16 d' = drop 16 d3" by (simp add: p(7) setByte_def)
  moreover have "d' ! 4 = tagSum d6" "length d' = length d" using len length by (simp_all add: p(7) setByte_def)
  ultimately show ?thesis
    using fields assms(2) len length by (simp add: CheckTag_def p(7) Get_setByte)
qed

section \<open>Runs\<close>

lemma leBytes_two: "leBytes 2 v = [word_of_nat v, word_of_nat (v div 256)]"
  by (simp add: numeral_2_eq_2)

theorem Get_Put_witness:
  "Get [0, 0x12, 0x34, 0] 1 2 True = Inr 0x1234 \<and> Get [0, 0x12, 0x34, 0] 3 1 False = Get [0, 0, 0, 0] 3 1 False"
proof -
  have "Put [0, 0, 0, 0] 1 0x1234 2 True = Inr [0, 0x12, 0x34, 0]"
    by (simp add: Put_def overwrite_def leBytes_two)
  from Get_Put [OF this] show ?thesis by simp
qed

text \<open>The euro sign and a character outside the basic plane.\<close>

theorem utf8_roundtrip_witness:
  "DecodeUtf8 [0xe2, 0x82, 0xac, 0xf0, 0x9f, 0x98, 0x80] = Inr [0x20ac, 0xd83d, 0xde00]"
proof -
  have "EncodeUtf8 [0x20ac, 0xd83d, 0xde00] = Inr [0xe2, 0x82, 0xac, 0xf0, 0x9f, 0x98, 0x80]"
    by (simp add: utf8Of_def)
  moreover have "\<forall>u \<in> set [0x20ac, 0xd83d, 0xde00 :: nat]. u < 65536" by simp
  ultimately show ?thesis using utf8_roundtrip by blast
qed

theorem Unicode_roundtrip_witness: "DecodeUnicode [8, 0x61, 0x62] True = Inr [0x61, 0x62]"
proof -
  have "Unicode [0x61, 0x62] True = Inr [8, 0x61, 0x62]"
    by (simp add: Unicode_def decodeOne_def scalar_def unitsOf_def)
  from Unicode_roundtrip [OF this] show ?thesis .
qed

theorem CleanPath_safe_witness: "list_all (\<lambda>c. c \<notin> {[], [0x2e], [0x2e, 0x2e]}) (partsOf [] [0x61, 0x2f, 0x62])"
proof -
  have "CleanPath [0x61, 0x2f, 0x62] = Inr [0x61, 0x2f, 0x62]"
    by (simp add: CleanPath_def decodeOne_def scalar_def goodPart_def word_le_nat_alt)
  from CleanPath_safe [OF this] show ?thesis by blast
qed

theorem Crc16_detects_witness: "Crc16 [1, 2, 3] \<noteq> Crc16 [1, 7, 3]"
  using Crc16_detects [of "2 :: 8 word" 7 "[1]" "[3]"] by simp

theorem CheckTag_Tag_witness: "\<exists>d. Tag (replicate 24 0) 7 36 24 = Inr d \<and> CheckTag d 36 7 = Inr ()"
proof -
  have "\<exists>d. Tag (replicate 24 0) 7 36 24 = Inr d"
    using unsigned_less [where 'a = nat and w = "Crc16 c" for c] by (simp add: Tag_def Put_def)
  then obtain d where d: "Tag (replicate 24 0) 7 36 24 = Inr d" by blast
  have "CheckTag d 36 7 = Inr ()" by (rule CheckTag_Tag [OF d]) (simp add: leastCovered_def)
  with d show ?thesis by blast
qed

end
