(* ===== verification/IsoReader.thy ===== *)
theory IsoReader
  imports IsoCodec
begin

text \<open>
  \<open>HyperCommanderBuiltInPlugin/IsoImage/src/reader.cpp\<close>: reading an image.  The bytes of the
  image come from outside: the model takes what one read at an offset answers (\<open>isoSource\<close>).
  A \<open>Reader\<close> opens the image (\<open>initialize\<close>), walks the tree of the chosen namespace
  (\<open>readIso\<close>, \<open>readUdf\<close>) into a list of entries, and then answers \<open>Find\<close>, \<open>Child\<close> and \<open>Read\<close>.

  The walks recurse over directories of the image; the code stops them by the depth of 128
  and by refusing a sector it has visited, and the model recurses on the remaining depth.
  The sizes of the structures counted against the metadata budget are parameters.
\<close>

section \<open>Data\<close>

record extent =
  extOffset :: nat
  extSize :: nat

record isoEntry =
  path :: bytes
  isDirectory :: bool
  entrySize :: nat
  extents :: "extent list"
  embedded :: bytes
  children :: "nat list"

definition noEntry :: isoEntry where
  "noEntry = \<lparr>path = [], isDirectory = False, entrySize = 0, extents = [], embedded = [], children = []\<rparr>"

text \<open>The source of the image: its size, and the bytes of one read with the status of the host.
  The stream of a file delivers all bytes of a read or fewer; a host reads in parts.\<close>

record isoSource =
  imageBytes :: nat
  hosted :: bool
  hostRead :: "nat \<Rightarrow> nat \<Rightarrow> isoStatus + bytes"
  streamRead :: "nat \<Rightarrow> nat \<Rightarrow> bytes"
  entryBytes :: nat
  extentBytes :: nat
  indexBytes :: nat

record reader =
  entries :: "isoEntry list"
  paths :: "bytes \<Rightarrow> nat option"
  rootChildren :: "nat list"
  metadataBytes :: nat
  namespaces :: nat
  selectedNamespace :: nat
  features :: nat
  udfRevision :: nat
  volumeLabel :: bytes
  entryCount :: nat
  visited :: "nat set"

definition newReader :: reader where
  "newReader = \<lparr>entries = [], paths = (\<lambda>_. None), rootChildren = [], metadataBytes = 0, namespaces = 0, selectedNamespace = 0,
     features = 0, udfRevision = 0, volumeLabel = [], entryCount = 0, visited = {}\<rparr>"

abbreviation MaxMetadata :: nat where "MaxMetadata \<equiv> 256 * 1024 * 1024"
abbreviation MaxEntries :: nat where "MaxEntries \<equiv> 100000"

section \<open>Reading bytes\<close>

text \<open>The loop over the host: \<open>fuel\<close> is the number of bytes wanted, and every pass delivers one at
  least.\<close>

fun hostLoop :: "isoSource \<Rightarrow> nat \<Rightarrow> nat \<Rightarrow> nat \<Rightarrow> bytes \<Rightarrow> bytes iso" where
  "hostLoop src off len 0 got = (if length got < len then Inl (IsoIo, ''Invalid source read progress'') else Inr got)"
| "hostLoop src off len (Suc fuel) got =
    (if length got < len
     then let capacity = min (len - length got) (1024 * 1024) in
       (case hostRead src (off + length got) capacity of
          Inl status \<Rightarrow> Inl (status, ''ISO source read failed'')
        | Inr part \<Rightarrow>
            bindE (need (part \<noteq> [] \<and> length part \<le> capacity) ''Invalid source read progress'' IsoIo) (\<lambda>_.
            hostLoop src off len fuel (got @ part)))
     else Inr got)"

definition ReadAt :: "isoSource \<Rightarrow> nat \<Rightarrow> nat \<Rightarrow> bytes iso" where
  "ReadAt src off len =
    bindE (require (off \<le> imageBytes src \<and> len \<le> imageBytes src - off \<and> len \<le> MaxMetadata)
      ''Extent outside image or read budget'') (\<lambda>_.
    if hosted src then hostLoop src off len len []
    else let d = streamRead src off len in bindE (need (length d = len) ''Short ISO read'' IsoIo) (\<lambda>_. Inr d))"

fun readExtents :: "isoSource \<Rightarrow> nat \<Rightarrow> nat \<Rightarrow> bytes \<Rightarrow> extent list \<Rightarrow> bytes iso" where
  "readExtents src off wanted got [] = Inr got"
| "readExtents src off wanted got (e # es) =
    (if extSize e \<le> off then readExtents src (off - extSize e) wanted got es
     else bindE (ReadAt src (extOffset e + off) (min (wanted - length got) (extSize e - off))) (\<lambda>d.
       if length (got @ d) = wanted then Inr (got @ d) else readExtents src 0 wanted (got @ d) es))"

text \<open>\<open>Read\<close> fills the front of a buffer of the given capacity.\<close>

definition Read :: "isoSource \<Rightarrow> reader \<Rightarrow> nat \<Rightarrow> nat \<Rightarrow> nat \<Rightarrow> bytes iso" where
  "Read src rd index off capacity =
    bindE (require (index < length (entries rd)) ''Invalid entry index'') (\<lambda>_.
    let it = entries rd ! index in
    bindE (require (\<not> isDirectory it \<and> off \<le> entrySize it) ''Invalid file read'') (\<lambda>_.
    let wanted = min capacity (entrySize it - off) in
    if embedded it \<noteq> [] then Inr (take wanted (drop off (embedded it)))
    else bindE (readExtents src off wanted [] (extents it)) (\<lambda>d.
      bindE (require (length d = wanted) ''Allocation shorter than file'') (\<lambda>_. Inr d))))"

section \<open>Entries\<close>

definition addEntry :: "isoSource \<Rightarrow> isoEntry \<Rightarrow> reader \<Rightarrow> reader iso" where
  "addEntry src e rd =
    bindE (CleanPath (path e)) (\<lambda>_.
    bindE (require (length (entries rd) < MaxEntries \<and> paths rd (path e) = None) ''Duplicate path or entry budget exceeded'') (\<lambda>_.
    let used = metadataBytes rd + length (path e) + entryBytes src + length (extents e) * extentBytes src in
    bindE (require (used \<le> MaxMetadata) ''Metadata budget exceeded'') (\<lambda>_.
    Inr (rd\<lparr>paths := (paths rd)(path e \<mapsto> length (entries rd)), metadataBytes := used, entries := entries rd @ [e]\<rparr>))))"

definition Find :: "reader \<Rightarrow> bytes \<Rightarrow> nat option" where
  "Find rd p = paths rd p"

text \<open>The root is \<open>None\<close> for \<open>UINT64_MAX\<close>, as is a child that does not exist.\<close>

definition Child :: "reader \<Rightarrow> nat option \<Rightarrow> nat \<Rightarrow> nat option iso" where
  "Child rd directory index =
    bindE (require (case directory of None \<Rightarrow> True | Some d \<Rightarrow> d < length (entries rd) \<and> isDirectory (entries rd ! d))
      ''Invalid parent directory'') (\<lambda>_.
    let cs = (case directory of None \<Rightarrow> rootChildren rd | Some d \<Rightarrow> children (entries rd ! d))
    in Inr (if index < length cs then Some (cs ! index) else None))"

definition Paired :: "bytes \<Rightarrow> nat \<Rightarrow> nat \<Rightarrow> nat iso" where
  "Paired d off w = bindE (Get d off w False) (\<lambda>v. bindE (Get d (off + w) w True) (\<lambda>v'.
     bindE (require (v = v') ''ISO endian copies disagree'') (\<lambda>_. Inr v)))"

section \<open>The ISO 9660 tree\<close>

text \<open>\<open>Name.rfind\<close>: the text before the last occurrence of a byte, if there is one.\<close>

definition beforeLast :: "8 word \<Rightarrow> bytes \<Rightarrow> bytes" where
  "beforeLast c t = (if c \<in> set t then rev (tl (dropWhile (\<lambda>b. b \<noteq> c) (rev t))) else t)"

definition plainName :: "bytes \<Rightarrow> bytes" where
  "plainName name = (let n = beforeLast 0x3b name in if n \<noteq> [] \<and> last n = 0x2e then butlast n else n)"

definition joinPath :: "bytes \<Rightarrow> bytes \<Rightarrow> bytes" where
  "joinPath parent name = (if parent = [] then name else parent @ [slash] @ name)"

text \<open>One directory record, read into its path, its extent, whether it is a directory and whether the
  file goes on in the next record; \<open>None\<close> for the records of the directory and of its parent.\<close>

definition isoRecord :: "isoSource \<Rightarrow> bool \<Rightarrow> bytes \<Rightarrow> bytes \<Rightarrow> (bytes \<times> bool \<times> nat \<times> nat \<times> bool) option iso" where
  "isoRecord src joliet parent r =
    bindE (need (r ! 1 = 0 \<and> r ! 26 = 0 \<and> r ! 27 = 0) ''Extended attributes/interleaving unsupported'' IsoUnsupported) (\<lambda>_.
    let nameSize = unat (r ! 32) in
    bindE (require (nameSize \<noteq> 0 \<and> 33 + nameSize \<le> length r) ''Invalid ISO identifier'') (\<lambda>_.
    if nameSize = 1 \<and> r ! 33 \<le> 1 then Inr None
    else let nameData = take nameSize (drop 33 r); directory = bit (r ! 25) 1; multi = bit (r ! 25) 7 in
    bindE (if joliet then DecodeUnicode nameData False else Inr nameData) (\<lambda>name0.
    let name = (if \<not> directory \<and> \<not> joliet then plainName name0 else name0) in
    bindE (require (slash \<notin> set name) ''Invalid ISO component'') (\<lambda>_.
    bindE (Paired r 2 4) (\<lambda>block. bindE (Paired r 10 4) (\<lambda>len.
    bindE (require (block * Block \<le> imageBytes src \<and> len \<le> imageBytes src - block * Block) ''ISO file extent outside image'') (\<lambda>_.
    bindE (Paired r 28 2) (\<lambda>volume.
    bindE (need (volume = 1) ''Multi-volume ISO unsupported'' IsoUnsupported) (\<lambda>_.
    Inr (Some (joinPath parent name, directory, block, len, multi)))))))))))"

text \<open>What the loop over the records carries: the entry being collected, and whether it is open.\<close>

definition mergeRecord :: "bytes \<Rightarrow> bool \<Rightarrow> nat \<Rightarrow> nat \<Rightarrow> bool \<Rightarrow> isoEntry option \<Rightarrow> isoEntry iso" where
  "mergeRecord p directory block len multi pending =
    bindE (case pending of Some e \<Rightarrow> bindE (require (\<not> directory \<and> path e = p) ''Broken ISO multi-extent chain'') (\<lambda>_. Inr e)
           | None \<Rightarrow> Inr (noEntry\<lparr>path := p, isDirectory := directory\<rparr>)) (\<lambda>e.
    bindE (need (\<not> directory \<or> \<not> multi) ''Multi-extent directory unsupported'' IsoUnsupported) (\<lambda>_.
    Inr (e\<lparr>entrySize := entrySize e + len, extents := extents e @ [\<lparr>extOffset = block * Block, extSize = len\<rparr>]\<rparr>)))"

definition enterDirectory :: "nat \<Rightarrow> nat \<Rightarrow> reader \<Rightarrow> reader iso" where
  "enterDirectory sector len rd =
    bindE (require (sector \<notin> visited rd) ''Cyclic or excessively deep ISO directory'') (\<lambda>_.
    let used = metadataBytes rd + len in
    bindE (require (used \<le> MaxMetadata) ''Directory budget exceeded'') (\<lambda>_.
    Inr (rd\<lparr>visited := insert sector (visited rd), metadataBytes := used\<rparr>)))"

text \<open>The walk: \<open>depth\<close> is what is left of 129 levels; the records of a directory are read with fuel
  for every byte of it.\<close>

fun walkIso :: "isoSource \<Rightarrow> bool \<Rightarrow> nat \<Rightarrow> nat \<Rightarrow> nat \<Rightarrow> bytes \<Rightarrow> reader \<Rightarrow> reader iso"
  and isoRecords :: "isoSource \<Rightarrow> bool \<Rightarrow> nat \<Rightarrow> bytes \<Rightarrow> bytes \<Rightarrow> nat \<Rightarrow> nat \<Rightarrow> isoEntry option \<Rightarrow> reader \<Rightarrow> reader iso" where
  "walkIso src joliet 0 sector len parent rd = Inl (IsoInvalid, ''Cyclic or excessively deep ISO directory'')"
| "walkIso src joliet (Suc depth) sector len parent rd =
    bindE (enterDirectory sector len rd) (\<lambda>rd1.
    bindE (ReadAt src (sector * Block) len) (\<lambda>d. isoRecords src joliet depth parent d (length d) 0 None rd1))"
| "isoRecords src joliet depth parent d 0 off pending rd =
    bindE (require (pending = None) ''Unterminated ISO multi-extent chain'') (\<lambda>_. Inr rd)"
| "isoRecords src joliet depth parent d (Suc fuel) off pending rd =
    (if length d \<le> off then bindE (require (pending = None) ''Unterminated ISO multi-extent chain'') (\<lambda>_. Inr rd)
     else let len = unat (d ! off) in
       if len = 0 then bindE (Round (off + 1) Block) (\<lambda>off'. isoRecords src joliet depth parent d fuel off' pending rd)
       else bindE (require (34 \<le> len \<and> len \<le> length d - off \<and> off mod Block + len \<le> Block) ''Invalid ISO directory record'') (\<lambda>_.
         bindE (isoRecord src joliet parent (take len (drop off d))) (\<lambda>found.
         case found of None \<Rightarrow> isoRecords src joliet depth parent d fuel (off + len) pending rd
         | Some (p, directory, block, ext, multi) \<Rightarrow>
            bindE (mergeRecord p directory block ext multi pending) (\<lambda>e.
            if multi then isoRecords src joliet depth parent d fuel (off + len) (Some e) rd
            else bindE (addEntry src (if directory then e\<lparr>entrySize := 0\<rparr> else e) rd) (\<lambda>rd1.
              bindE (if directory then walkIso src joliet depth block ext p rd1 else Inr rd1) (\<lambda>rd2.
              isoRecords src joliet depth parent d fuel (off + len) None rd2))))))"

definition readIso :: "isoSource \<Rightarrow> bytes \<Rightarrow> bool \<Rightarrow> reader \<Rightarrow> reader iso" where
  "readIso src descriptor joliet rd =
    bindE (Paired descriptor 128 2) (\<lambda>block.
    bindE (need (block = Block) ''Unsupported ISO block len'' IsoUnsupported) (\<lambda>_.
    bindE (Paired descriptor 158 4) (\<lambda>sector. bindE (Paired descriptor 166 4) (\<lambda>len.
    walkIso src joliet 129 sector len [] rd))))"

section \<open>The UDF tree\<close>

record udfVolume =
  partStart :: nat
  partLength :: nat

definition ReadPartition :: "isoSource \<Rightarrow> udfVolume \<Rightarrow> nat \<Rightarrow> nat \<Rightarrow> bytes iso" where
  "ReadPartition src v sector len =
    bindE (require (sector \<le> partLength v \<and> len \<le> (partLength v - sector) * Block) ''Extent outside UDF partition'') (\<lambda>_.
    ReadAt src ((partStart v + sector) * Block) len)"

text \<open>The descriptor sequence: the partition and the logical volume found, and whether it ended.\<close>

fun udfSequence :: "isoSource \<Rightarrow> nat \<Rightarrow> nat \<Rightarrow> bytes \<Rightarrow> bytes \<Rightarrow> (bool \<times> bytes \<times> bytes) iso" where
  "udfSequence src sector 0 part logical = Inr (False, part, logical)"
| "udfSequence src sector (Suc n) part logical =
    bindE (ReadAt src (sector mod 2 ^ 32 * Block) Block) (\<lambda>d.
    bindE (CheckTag d (sector mod 2 ^ 32) 0) (\<lambda>_.
    bindE (Get d 0 2 False) (\<lambda>kind.
    bindE (need (kind = 5 \<longrightarrow> part = []) ''Multiple UDF partitions unsupported'' IsoUnsupported) (\<lambda>_.
    if kind = 8 then Inr (True, part, logical)
    else udfSequence src (Suc sector) n (if kind = 5 then d else part) (if kind = 6 then d else logical)))))"

text \<open>The allocation descriptors of a file entry: short ones of 8 bytes or long ones of 16.\<close>

fun allocations :: "udfVolume \<Rightarrow> nat \<Rightarrow> nat \<Rightarrow> bytes \<Rightarrow> nat \<Rightarrow> nat \<Rightarrow> extent list \<Rightarrow> extent list iso" where
  "allocations v kind width ads off 0 found = Inr found"
| "allocations v kind width ads off (Suc fuel) found =
    (if length ads \<le> off then Inr found
     else bindE (Get ads off 4 False) (\<lambda>len. bindE (Get ads (off + 4) 4 False) (\<lambda>location.
       bindE (need (len div 2 ^ 30 = 0) ''Sparse/continuation UDF allocation unsupported'' IsoUnsupported) (\<lambda>_.
       bindE (if kind = 1 then bindE (Get ads (off + 8) 2 False) (\<lambda>p. require (p = 0) ''Invalid UDF allocation partition'') else Inr ()) (\<lambda>_.
       bindE (require (location \<le> partLength v \<and> len \<le> (partLength v - location) * Block) ''Invalid UDF allocation extent'') (\<lambda>_.
       allocations v kind width ads (off + width) fuel
         (found @ [\<lparr>extOffset = (partStart v + location) * Block, extSize = len\<rparr>])))))))"

definition allocate :: "udfVolume \<Rightarrow> nat \<Rightarrow> bytes \<Rightarrow> isoEntry \<Rightarrow> isoEntry iso" where
  "allocate v kind ads e =
    (if kind = 3
     then bindE (require (entrySize e \<le> length ads) ''Embedded UDF file truncated'') (\<lambda>_. Inr (e\<lparr>embedded := take (entrySize e) ads\<rparr>))
     else bindE (need (kind \<le> 1) ''Unsupported UDF allocation type'' IsoUnsupported) (\<lambda>_.
       let width = (if kind = 0 then 8 else 16) in
       bindE (require (length ads mod width = 0) ''Truncated allocation descriptor'') (\<lambda>_.
       bindE (allocations v kind width ads 0 (length ads) []) (\<lambda>found.
       let allocated = sum_list (map extSize found) in
       bindE (require (entrySize e \<le> allocated \<and> allocated - entrySize e < Block) ''UDF allocation/file size mismatch'') (\<lambda>_.
       Inr (e\<lparr>extents := found\<rparr>))))))"

text \<open>The file entry at a sector, as far as it does not depend on the rest of the tree.\<close>

definition fileEntry :: "isoSource \<Rightarrow> udfVolume \<Rightarrow> nat \<Rightarrow> bytes \<Rightarrow> isoEntry iso" where
  "fileEntry src v sector p =
    bindE (ReadPartition src v sector Block) (\<lambda>fe.
    bindE (CheckTag fe sector 0) (\<lambda>_.
    bindE (Get fe 0 2 False) (\<lambda>ident.
    bindE (need (ident = 261 \<or> ident = 266) ''Unsupported UDF ICB'' IsoUnsupported) (\<lambda>_.
    bindE (Get fe 20 2 False) (\<lambda>strategy.
    bindE (need (strategy = 4 \<and> (fe ! 27 = 4 \<or> fe ! 27 = 5)) ''UDF strategy/special file unsupported'' IsoUnsupported) (\<lambda>_.
    bindE (Get fe 56 8 False) (\<lambda>len.
    let header = (if ident = 266 then 216 else 176) in
    bindE (Get fe (header - 8) 4 False) (\<lambda>eaLength. bindE (Get fe (header - 4) 4 False) (\<lambda>adLength.
    bindE (require (eaLength \<le> Block - header \<and> adLength \<le> Block - header - eaLength) ''Invalid UDF allocation length'') (\<lambda>_.
    bindE (Get fe 10 2 False) (\<lambda>covered.
    bindE (require (header - 16 + eaLength + adLength \<le> covered) ''UDF CRC excludes allocation descriptors'') (\<lambda>_.
    bindE (Get fe 34 2 False) (\<lambda>flags.
    allocate v (flags mod 8) (take adLength (drop (header + eaLength) fe))
      (noEntry\<lparr>path := p, isDirectory := (fe ! 27 = 4), entrySize := len\<rparr>))))))))))))))"

fun dirBytes :: "isoSource \<Rightarrow> nat \<Rightarrow> bytes \<Rightarrow> extent list \<Rightarrow> bytes iso" where
  "dirBytes src total_size got [] = Inr got"
| "dirBytes src total_size got (e # es) =
    bindE (ReadAt src (extOffset e) (min (extSize e) (total_size - length got))) (\<lambda>d.
    if length (got @ d) = total_size then Inr (got @ d) else dirBytes src total_size (got @ d) es)"

text \<open>The block of the partition that holds a position of the directory.\<close>

fun tagBlock :: "udfVolume \<Rightarrow> nat \<Rightarrow> nat \<Rightarrow> extent list \<Rightarrow> nat" where
  "tagBlock v sector position [] = sector"
| "tagBlock v sector position (e # es) =
    (if position < extSize e then (extOffset e + position) div Block - partStart v
     else tagBlock v sector (position - extSize e) es)"

text \<open>One file identifier: its length, and the name and the sector of the child unless it is deleted
  or the parent.\<close>

definition fileIdentifier :: "udfVolume \<Rightarrow> nat \<Rightarrow> isoEntry \<Rightarrow> bytes \<Rightarrow> nat \<Rightarrow> (nat \<times> (bytes \<times> nat) option) iso" where
  "fileIdentifier v sector e d off =
    bindE (require (38 \<le> length d - off) ''Truncated UDF FID'') (\<lambda>_.
    let rest = drop off d; nameSize = unat (rest ! 19) in
    bindE (Get rest 36 2 False) (\<lambda>implSize.
    bindE (Round (38 + implSize + nameSize) 4) (\<lambda>len.
    bindE (require (len \<le> length rest) ''UDF FID outside directory'') (\<lambda>_.
    bindE (CheckTag (take len rest) (if embedded e = [] then tagBlock v sector off (extents e) else sector) 257) (\<lambda>_.
    bindE (Get rest 10 2 False) (\<lambda>covered.
    bindE (require (len - 16 \<le> covered) ''UDF CRC excludes file identifier'') (\<lambda>_.
    bindE (Get rest 16 2 False) (\<lambda>version. bindE (Get rest 28 2 False) (\<lambda>part.
    bindE (require (version = 1 \<and> part = 0) ''Invalid UDF FID version/partition'') (\<lambda>_.
    if bit (rest ! 18) 2 \<or> bit (rest ! 18) 3 then Inr (len, None)
    else bindE (require (nameSize \<noteq> 0) ''Empty UDF file identifier'') (\<lambda>_.
      bindE (DecodeUnicode (take nameSize (drop (38 + implSize) rest)) True) (\<lambda>name.
      bindE (require (slash \<notin> set name) ''Invalid UDF component'') (\<lambda>_.
      bindE (Get rest 24 4 False) (\<lambda>child. Inr (len, Some (name, child))))))))))))))))"

definition enterEntry :: "nat \<Rightarrow> reader \<Rightarrow> reader iso" where
  "enterEntry sector rd =
    bindE (require (sector \<notin> visited rd) ''Cyclic UDF tree or shared ICB unsupported'') (\<lambda>_.
    Inr (rd\<lparr>visited := insert sector (visited rd)\<rparr>))"

fun walkUdf :: "isoSource \<Rightarrow> udfVolume \<Rightarrow> nat \<Rightarrow> nat \<Rightarrow> bytes \<Rightarrow> reader \<Rightarrow> reader iso"
  and identifiers :: "isoSource \<Rightarrow> udfVolume \<Rightarrow> nat \<Rightarrow> nat \<Rightarrow> bytes \<Rightarrow> isoEntry \<Rightarrow> bytes \<Rightarrow> nat \<Rightarrow> nat \<Rightarrow> reader \<Rightarrow> reader iso" where
  "walkUdf src v 0 sector p rd = Inl (IsoInvalid, ''Cyclic UDF tree or shared ICB unsupported'')"
| "walkUdf src v (Suc depth) sector p rd =
    bindE (enterEntry sector rd) (\<lambda>rd1.
    bindE (fileEntry src v sector p) (\<lambda>e.
    if \<not> isDirectory e then addEntry src e rd1
    else bindE (require (entrySize e \<le> MaxMetadata - min (metadataBytes rd1) MaxMetadata) ''UDF directory budget exceeded'') (\<lambda>_.
      let rd2 = rd1\<lparr>metadataBytes := metadataBytes rd1 + entrySize e\<rparr> in
      bindE (if embedded e = [] then dirBytes src (entrySize e) [] (extents e) else Inr (embedded e)) (\<lambda>d.
      bindE (if p \<noteq> [] then addEntry src (e\<lparr>entrySize := 0\<rparr>) rd2 else Inr rd2) (\<lambda>rd3.
      identifiers src v depth sector p e d (length d) 0 rd3)))))"
| "identifiers src v depth sector p e d 0 off rd = Inr rd"
| "identifiers src v depth sector p e d (Suc fuel) off rd =
    (if length d \<le> off then Inr rd
     else bindE (fileIdentifier v sector e d off) (\<lambda>(len, child).
       case child of None \<Rightarrow> identifiers src v depth sector p e d fuel (off + len) rd
       | Some (name, icb) \<Rightarrow>
           bindE (walkUdf src v depth icb (joinPath p name) rd) (\<lambda>rd1.
           identifiers src v depth sector p e d fuel (off + len) rd1)))"

text \<open>The checks of the logical volume, and the partition it lies in.\<close>

definition udfPartition :: "isoSource \<Rightarrow> bytes \<Rightarrow> bytes \<Rightarrow> udfVolume iso" where
  "udfPartition src part logical =
    bindE (Get logical 212 4 False) (\<lambda>block.
    bindE (need (block = Block) ''Unsupported UDF block size'' IsoUnsupported) (\<lambda>_.
    bindE (Get logical 264 4 False) (\<lambda>mapLength. bindE (Get logical 268 4 False) (\<lambda>maps.
    bindE (need (mapLength = 6 \<and> maps = 1 \<and> logical ! 440 = 1 \<and> logical ! 441 = 6)
      ''UDF virtual/metadata/sparable partition unsupported'' IsoUnsupported) (\<lambda>_.
    bindE (Get logical 444 2 False) (\<lambda>mapped. bindE (Get part 22 2 False) (\<lambda>number. bindE (Get logical 256 2 False) (\<lambda>fsdPart.
    bindE (require (mapped = number \<and> fsdPart = 0) ''Invalid UDF partition reference'') (\<lambda>_.
    bindE (Get part 188 4 False) (\<lambda>start. bindE (Get part 192 4 False) (\<lambda>len.
    bindE (require (start \<le> imageBytes src div Block \<and> len \<le> imageBytes src div Block - start) ''UDF partition outside image'') (\<lambda>_.
    Inr \<lparr>partStart = start, partLength = len\<rparr>))))))))))))"

definition readUdf :: "isoSource \<Rightarrow> reader \<Rightarrow> reader iso" where
  "readUdf src rd =
    bindE (ReadAt src (256 * Block) Block) (\<lambda>anchor.
    bindE (CheckTag anchor 256 2) (\<lambda>_.
    bindE (Get anchor 16 4 False) (\<lambda>sequenceBytes. bindE (Get anchor 20 4 False) (\<lambda>sequenceBlock.
    bindE (require (Block \<le> sequenceBytes \<and> sequenceBytes \<le> 256 * Block) ''Invalid UDF descriptor sequence'') (\<lambda>_.
    bindE (udfSequence src sequenceBlock (sequenceBytes div Block) [] []) (\<lambda>(terminated, part, logical).
    bindE (require (terminated \<and> part \<noteq> [] \<and> logical \<noteq> []) ''Incomplete UDF descriptors'') (\<lambda>_.
    bindE (udfPartition src part logical) (\<lambda>v.
    bindE (Get logical 240 2 False) (\<lambda>revision.
    bindE (Get logical 252 4 False) (\<lambda>fsdBlock.
    bindE (ReadPartition src v fsdBlock Block) (\<lambda>fsd.
    bindE (CheckTag fsd fsdBlock 256) (\<lambda>_.
    bindE (Get fsd 408 2 False) (\<lambda>rootPart.
    bindE (require (rootPart = 0) ''Invalid root partition reference'') (\<lambda>_.
    bindE (Get fsd 404 4 False) (\<lambda>root.
    walkUdf src v 129 root [] (rd\<lparr>udfRevision := revision\<rparr>))))))))))))))))"

section \<open>Opening\<close>

record scanned =
  primary :: bytes
  joliet :: bytes
  scanEnd :: bool
  hasUdf :: bool
  scanFeatures :: nat

definition magic :: "bytes \<Rightarrow> bytes \<Rightarrow> bool" where
  "magic d m \<longleftrightarrow> take 5 (drop 1 d) = m"

abbreviation CD001 :: bytes where "CD001 \<equiv> [0x43, 0x44, 0x30, 0x30, 0x31]"

definition scanSector :: "bytes \<Rightarrow> scanned \<Rightarrow> scanned iso" where
  "scanSector d sc =
    bindE (if magic d CD001 \<and> \<not> scanEnd sc
           then bindE (need (d ! 6 = 1) ''Unsupported ISO descriptor version'' IsoUnsupported) (\<lambda>_.
             Inr (sc\<lparr>primary := (if d ! 0 = 1 then d else primary sc),
                     scanFeatures := (if d ! 0 = 0 then or (scanFeatures sc) 1 else scanFeatures sc),
                     joliet := (if d ! 0 = 2 \<and> d ! 88 = 0x25 \<and> d ! 89 = 0x2f \<and> d ! 90 \<in> {0x40, 0x43, 0x45} then d else joliet sc),
                     scanEnd := (scanEnd sc \<or> d ! 0 = 255)\<rparr>))
           else Inr sc) (\<lambda>sc1.
    Inr (sc1\<lparr>hasUdf := (hasUdf sc1 \<or> magic d [0x4e, 0x53, 0x52, 0x30, 0x32] \<or> magic d [0x4e, 0x53, 0x52, 0x30, 0x33])\<rparr>))"

fun scanSectors :: "isoSource \<Rightarrow> nat \<Rightarrow> nat \<Rightarrow> scanned \<Rightarrow> scanned iso" where
  "scanSectors src sector 0 sc = Inr sc"
| "scanSectors src sector (Suc n) sc =
    (if (sector + 1) * Block \<le> imageBytes src
     then bindE (ReadAt src (sector * Block) Block) (\<lambda>d. bindE (scanSector d sc) (scanSectors src (Suc sector) n))
     else Inr sc)"

text \<open>The children of every directory, in the order of the entries.\<close>

fun linkChildren :: "isoSource \<Rightarrow> nat \<Rightarrow> nat \<Rightarrow> reader \<Rightarrow> reader iso" where
  "linkChildren src i 0 rd = Inr rd"
| "linkChildren src i (Suc n) rd =
    (let p = path (entries rd ! i) in
     bindE (if slash \<notin> set p then Inr (rd\<lparr>rootChildren := rootChildren rd @ [i]\<rparr>)
            else (case paths rd (beforeLast slash p) of
                None \<Rightarrow> Inl (IsoInvalid, ''Missing parent directory'')
              | Some k \<Rightarrow> bindE (require (isDirectory (entries rd ! k)) ''Missing parent directory'') (\<lambda>_.
                  Inr (rd\<lparr>entries := (entries rd)[k := (entries rd ! k)\<lparr>children := children (entries rd ! k) @ [i]\<rparr>]\<rparr>)))) (\<lambda>rd1.
     let used = metadataBytes rd1 + indexBytes src in
     bindE (require (used \<le> MaxMetadata) ''Child index budget exceeded'') (\<lambda>_.
     linkChildren src (Suc i) n (rd1\<lparr>metadataBytes := used\<rparr>))))"

abbreviation PrimaryNs :: nat where "PrimaryNs \<equiv> 1"
abbreviation JolietNs :: nat where "JolietNs \<equiv> 2"
abbreviation UdfNs :: nat where "UdfNs \<equiv> 3"

definition chooseNamespace :: "scanned \<Rightarrow> nat \<Rightarrow> nat" where
  "chooseNamespace sc ns = (if ns = 0 then (if hasUdf sc then UdfNs else if joliet sc \<noteq> [] then JolietNs else PrimaryNs) else ns)"

definition presentNamespaces :: "scanned \<Rightarrow> nat" where
  "presentNamespaces sc = 2 ^ PrimaryNs + (if joliet sc \<noteq> [] then 2 ^ JolietNs else 0) + (if hasUdf sc then 2 ^ UdfNs else 0)"

definition initialize :: "isoSource \<Rightarrow> nat \<Rightarrow> reader iso" where
  "initialize src ns =
    bindE (require (18 * Block \<le> imageBytes src \<and> imageBytes src mod Block = 0) ''Truncated ISO image'') (\<lambda>_.
    bindE (scanSectors src 16 64 \<lparr>primary = [], joliet = [], scanEnd = False, hasUdf = False, scanFeatures = 0\<rparr>) (\<lambda>sc.
    bindE (require (primary sc \<noteq> [] \<and> scanEnd sc) ''Missing ISO primary descriptor or terminator'') (\<lambda>_.
    bindE (Paired (primary sc) 128 2) (\<lambda>block. bindE (Paired (primary sc) 80 4) (\<lambda>blocks.
    bindE (require (block = Block \<and> blocks * Block \<le> imageBytes src) ''Invalid ISO volume extent'') (\<lambda>_.
    bindE (Paired (primary sc) 158 4) (\<lambda>root.
    bindE (ReadAt src (root * Block) Block) (\<lambda>d.
    let self = unat (d ! 0) in
    bindE (require (34 \<le> self) ''Missing primary root self record'') (\<lambda>_.
    let label = rev (dropWhile (\<lambda>b. b = 0x20) (rev (take 32 (drop 40 (primary sc)))));
        chosen = chooseNamespace sc ns;
        rd = newReader\<lparr>features := (if list_ex (\<lambda>b. b \<noteq> 0) (take (self - 34) (drop 34 d)) then or (scanFeatures sc) 2 else scanFeatures sc),
               namespaces := presentNamespaces sc, volumeLabel := label\<rparr> in
    bindE (need (PrimaryNs \<le> chosen \<and> chosen \<le> UdfNs \<and> bit (presentNamespaces sc) chosen) ''Requested namespace absent'' IsoUnsupported) (\<lambda>_.
    let rd1 = rd\<lparr>selectedNamespace := chosen\<rparr> in
    bindE (if chosen = UdfNs then readUdf src rd1
           else readIso src (if chosen = JolietNs then joliet sc else primary sc) (chosen = JolietNs) rd1) (\<lambda>rd2.
    linkChildren src 0 (length (entries rd2)) (rd2\<lparr>entryCount := length (entries rd2)\<rparr>))))))))))))"

section \<open>What an open image satisfies\<close>

definition inside :: "isoSource \<Rightarrow> isoEntry \<Rightarrow> bool" where
  "inside src e \<longleftrightarrow> list_all (\<lambda>x. extOffset x + extSize x \<le> imageBytes src) (extents e)"

definition readerOk :: "isoSource \<Rightarrow> reader \<Rightarrow> bool" where
  "readerOk src rd \<longleftrightarrow> list_all (\<lambda>e. CleanPath (path e) = Inr (path e) \<and> inside src e) (entries rd)
     \<and> (\<forall>p i. paths rd p = Some i \<longleftrightarrow> i < length (entries rd) \<and> path (entries rd ! i) = p)
     \<and> length (entries rd) \<le> MaxEntries \<and> metadataBytes rd \<le> MaxMetadata"

lemma readerOk_new: "readerOk src newReader"
  by (simp add: readerOk_def newReader_def)

lemma CleanPath_same: "CleanPath p = Inr q \<Longrightarrow> q = p"
  by (auto simp: CleanPath_def)

lemma addEntry_ok:
  assumes "addEntry src e rd = Inr rd'" "readerOk src rd" "inside src e"
  shows "readerOk src rd'"
proof -
  have p: "CleanPath (path e) = Inr (path e)" "length (entries rd) < MaxEntries" "paths rd (path e) = None"
    and rd': "entries rd' = entries rd @ [e]" "paths rd' = (paths rd)(path e \<mapsto> length (entries rd))"
      "metadataBytes rd' \<le> MaxMetadata"
    using assms(1) by (auto simp: addEntry_def Let_def dest: CleanPath_same)
  have "path (entries rd ! i) \<noteq> path e" if "i < length (entries rd)" for i
    using assms(2) p(3) that unfolding readerOk_def by (metis option.distinct(1))
  then have "paths rd' q = Some i \<longleftrightarrow> i < length (entries rd') \<and> path (entries rd' ! i) = q" for q i
    using assms(2) unfolding rd' readerOk_def by (auto simp: nth_append less_Suc_eq)
  then show ?thesis using assms(2,3) p rd' by (simp add: readerOk_def)
qed

lemma enterDirectory_ok: "enterDirectory sector n rd = Inr rd' \<Longrightarrow> readerOk src rd \<Longrightarrow> readerOk src rd'"
  by (auto simp: enterDirectory_def readerOk_def Let_def)

lemma isoRecord_inside:
  "isoRecord src j parent r = Inr (Some (p, directory, block, n, multi)) \<Longrightarrow> block * Block + n \<le> imageBytes src"
  by (auto simp: isoRecord_def Let_def split: if_splits)

lemma mergeRecord_inside:
  "mergeRecord p directory block n multi pending = Inr e \<Longrightarrow> block * Block + n \<le> imageBytes src \<Longrightarrow>
   (\<And>e. pending = Some e \<Longrightarrow> inside src e) \<Longrightarrow> inside src e"
  by (auto simp: mergeRecord_def inside_def noEntry_def split: option.splits)

lemma inside_size [simp]: "inside src (e\<lparr>entrySize := n\<rparr>) = inside src e"
  by (simp add: inside_def)

lemma walkIso_ok:
  "walkIso src j depth sector n parent rd = Inr rd' \<Longrightarrow> readerOk src rd \<Longrightarrow> readerOk src rd'"
  "isoRecords src j depth parent d fuel off pending rd = Inr rd' \<Longrightarrow> readerOk src rd \<Longrightarrow>
     (\<And>e. pending = Some e \<Longrightarrow> inside src e) \<Longrightarrow> readerOk src rd'"
proof (induction src j depth sector n parent rd and src j depth parent d fuel off pending rd
    arbitrary: rd' and rd' rule: walkIso_isoRecords.induct)
  case (2 src j depth sector n parent rd)
  then obtain rd1 d where "enterDirectory sector n rd = Inr rd1" "isoRecords src j depth parent d (length d) 0 None rd1 = Inr rd'"
    by auto
  then show ?case using "2.IH" enterDirectory_ok "2.prems"(2) by blast
next
  case (4 src j depth parent d fuel off pending rd)
  let ?s = "unat (d ! off)"
  show ?case
  proof (cases "length d \<le> off")
    case False
    show ?thesis
    proof (cases "?s = 0")
      case True
      then obtain off' where "isoRecords src j depth parent d fuel off' pending rd = Inr rd'"
        using "4.prems"(1) False by auto
      then show ?thesis using "4.IH"(1) [OF False refl True] "4.prems"(2,3) by blast
    next
      case size: False
      obtain found where f: "isoRecord src j parent (take ?s (drop off d)) = Inr found"
        and go: "(case found of None \<Rightarrow> isoRecords src j depth parent d fuel (off + ?s) pending rd
         | Some (p, directory, block, ext, multi) \<Rightarrow>
            bindE (mergeRecord p directory block ext multi pending) (\<lambda>e.
            if multi then isoRecords src j depth parent d fuel (off + ?s) (Some e) rd
            else bindE (addEntry src (if directory then e\<lparr>entrySize := 0\<rparr> else e) rd) (\<lambda>rd1.
              bindE (if directory then walkIso src j depth block ext p rd1 else Inr rd1) (\<lambda>rd2.
              isoRecords src j depth parent d fuel (off + ?s) None rd2)))) = Inr rd'"
        using "4.prems"(1) False size by (auto simp: Let_def)
      show ?thesis
      proof (cases found)
        case None
        then show ?thesis using go "4.IH"(2) [OF False refl size] "4.prems"(2,3) by simp
      next
        case (Some t)
        obtain p directory block ext multi where t: "t = (p, directory, block, ext, multi)" by (cases t)
        obtain e where e: "mergeRecord p directory block ext multi pending = Inr e" using go Some t by auto
        have ins: "inside src e"
          using mergeRecord_inside [OF e isoRecord_inside] f Some t "4.prems"(3) by blast
        show ?thesis
        proof (cases multi)
          case True
          then have "isoRecords src j depth parent d fuel (off + ?s) (Some e) rd = Inr rd'" using go Some t e by simp
          then show ?thesis using "4.IH"(3) [OF False refl size True] "4.prems"(2) ins by blast
        next
          case one: False
          then obtain rd1 rd2 where rd1: "addEntry src (if directory then e\<lparr>entrySize := 0\<rparr> else e) rd = Inr rd1"
            and rd2: "(if directory then walkIso src j depth block ext p rd1 else Inr rd1) = Inr rd2"
            and rest: "isoRecords src j depth parent d fuel (off + ?s) None rd2 = Inr rd'"
            using go Some t e by (auto split del: if_split)
          have ok1: "readerOk src rd1" by (rule addEntry_ok [OF rd1 "4.prems"(2)]) (simp add: ins)
          have "readerOk src rd2"
          proof (cases directory)
            case True
            then have "walkIso src j depth block ext p rd1 = Inr rd2" using rd2 by simp
            then show ?thesis using "4.IH"(4) [OF False refl size one True] ok1 by blast
          qed (use rd2 ok1 in simp)
          then show ?thesis using "4.IH"(5) [OF False refl size one] rest by blast
        qed
      qed
    qed
  qed (use "4.prems" in auto)
qed auto

definition volumeInside :: "isoSource \<Rightarrow> udfVolume \<Rightarrow> bool" where
  "volumeInside src v \<longleftrightarrow> (partStart v + partLength v) * Block \<le> imageBytes src"

lemma allocation_inside:
  assumes "volumeInside src v" "location \<le> partLength v" "n \<le> (partLength v - location) * Block"
  shows "(partStart v + location) * Block + n \<le> imageBytes src"
proof -
  have "(partStart v + location) * Block + n \<le> (partStart v + location) * Block + (partLength v - location) * Block"
    by (rule add_left_mono [OF assms(3)])
  also have "\<dots> = (partStart v + partLength v) * Block"
    using assms(2) by (simp only: add_mult_distrib [symmetric]) simp
  also have "\<dots> \<le> imageBytes src" using assms(1) by (simp only: volumeInside_def)
  finally show ?thesis .
qed

lemma allocations_inside:
  "allocations v kind width ads off fuel found = Inr found' \<Longrightarrow> volumeInside src v \<Longrightarrow>
   list_all (\<lambda>x. extOffset x + extSize x \<le> imageBytes src) found \<Longrightarrow>
   list_all (\<lambda>x. extOffset x + extSize x \<le> imageBytes src) found'"
proof (induction v kind width ads off fuel found rule: allocations.induct)
  case (2 v kind width ads off fuel found)
  show ?case
  proof (cases "length ads \<le> off")
    case False
    then obtain n location where a: "location \<le> partLength v" "n \<le> (partLength v - location) * Block"
      "allocations v kind width ads (off + width) fuel
         (found @ [\<lparr>extOffset = (partStart v + location) * Block, extSize = n\<rparr>]) = Inr found'"
      using "2.prems"(1) by (auto simp del: allocations.simps(1) split del: if_split)
    have "list_all (\<lambda>x. extOffset x + extSize x \<le> imageBytes src)
        (found @ [\<lparr>extOffset = (partStart v + location) * Block, extSize = n\<rparr>])"
      using "2.prems"(3) allocation_inside [OF "2.prems"(2) a(1,2)] by simp
    then show ?thesis using "2.IH" [OF False] a(3) "2.prems"(2) by blast
  qed (use "2.prems" in simp)
qed simp

lemma allocate_inside:
  "allocate v kind ads e = Inr e' \<Longrightarrow> volumeInside src v \<Longrightarrow> extents e = [] \<Longrightarrow> inside src e'"
  by (auto simp: allocate_def inside_def Let_def dest: allocations_inside [where found = "[]"] split: if_splits)

lemma fileEntry_inside: "fileEntry src v sector p = Inr e \<Longrightarrow> volumeInside src v \<Longrightarrow> inside src e"
  unfolding fileEntry_def Let_def bindE_Inr
  by (elim exE conjE) (erule allocate_inside, simp_all add: noEntry_def)

lemma enterEntry_ok: "enterEntry sector rd = Inr rd' \<Longrightarrow> readerOk src rd \<Longrightarrow> readerOk src rd'"
  by (auto simp: enterEntry_def readerOk_def)

lemma walkUdf_ok:
  "walkUdf src v depth sector p rd = Inr rd' \<Longrightarrow> readerOk src rd \<Longrightarrow> volumeInside src v \<Longrightarrow> readerOk src rd'"
  "identifiers src v depth sector p e d fuel off rd = Inr rd' \<Longrightarrow> readerOk src rd \<Longrightarrow> volumeInside src v \<Longrightarrow> readerOk src rd'"
proof (induction src v depth sector p rd and src v depth sector p e d fuel off rd
    arbitrary: rd' and rd' rule: walkUdf_identifiers.induct)
  case (2 src v depth sector p rd)
  obtain rd1 e where rd1: "enterEntry sector rd = Inr rd1" and e: "fileEntry src v sector p = Inr e"
    using "2.prems"(1) by auto
  have ok1: "readerOk src rd1" by (rule enterEntry_ok [OF rd1 "2.prems"(2)])
  have ins: "inside src e" by (rule fileEntry_inside [OF e "2.prems"(3)])
  show ?case
  proof (cases "isDirectory e")
    case False
    then show ?thesis using "2.prems"(1) rd1 e addEntry_ok [OF _ ok1 ins] by auto
  next
    case True
    let ?rd2 = "rd1\<lparr>metadataBytes := metadataBytes rd1 + entrySize e\<rparr>"
    obtain d rd3 where small: "entrySize e \<le> MaxMetadata - min (metadataBytes rd1) MaxMetadata"
      and rd3: "(if p \<noteq> [] then addEntry src (e\<lparr>entrySize := 0\<rparr>) ?rd2 else Inr ?rd2) = Inr rd3"
      and rest: "identifiers src v depth sector p e d (length d) 0 rd3 = Inr rd'"
      using "2.prems"(1) rd1 e True by (auto simp: Let_def split del: if_split)
    have "metadataBytes rd1 \<le> MaxMetadata" using ok1 by (simp add: readerOk_def)
    then have "entrySize e + metadataBytes rd1 \<le> MaxMetadata"
      using small le_diff_conv2 [of "metadataBytes rd1" MaxMetadata "entrySize e"] by (simp add: min_def)
    then have "readerOk src ?rd2" using ok1 by (simp add: readerOk_def add.commute)
    then have "readerOk src rd3"
      using rd3 addEntry_ok [of src "e\<lparr>entrySize := 0\<rparr>" ?rd2 rd3] ins by (auto split: if_splits)
    then show ?thesis using "2.IH" True rest "2.prems"(3) by blast
  qed
next
  case (4 src v depth sector p e d fuel off rd)
  show ?case
  proof (cases "length d \<le> off")
    case False
    then obtain n child where go: "(case child of None \<Rightarrow> identifiers src v depth sector p e d fuel (off + n) rd
       | Some (name, icb) \<Rightarrow>
           bindE (walkUdf src v depth icb (joinPath p name) rd) (\<lambda>rd1.
           identifiers src v depth sector p e d fuel (off + n) rd1)) = Inr rd'"
      using "4.prems"(1) by auto
    show ?thesis
    proof (cases child)
      case None
      then show ?thesis using go "4.IH"(1) [OF False] "4.prems"(2,3) by simp
    next
      case (Some t)
      obtain name icb where t: "t = (name, icb)" by (cases t)
      then obtain rd1 where "walkUdf src v depth icb (joinPath p name) rd = Inr rd1"
        "identifiers src v depth sector p e d fuel (off + n) rd1 = Inr rd'"
        using go Some by auto
      then show ?thesis using "4.IH"(2,3) [OF False] "4.prems"(2,3) by blast
    qed
  qed (use "4.prems" in auto)
qed auto

lemma udfPartition_inside: "udfPartition src part logical = Inr v \<Longrightarrow> volumeInside src v"
proof -
  assume "udfPartition src part logical = Inr v"
  then have "partStart v \<le> imageBytes src div Block" "partLength v \<le> imageBytes src div Block - partStart v"
    by (auto simp: udfPartition_def)
  then have "(partStart v + partLength v) * Block \<le> imageBytes src div Block * Block" by (intro mult_le_mono1) simp
  also have "\<dots> \<le> imageBytes src" by simp
  finally show ?thesis by (simp only: volumeInside_def)
qed

lemma readUdf_ok: "readUdf src rd = Inr rd' \<Longrightarrow> readerOk src rd \<Longrightarrow> readerOk src rd'"
  unfolding readUdf_def bindE_Inr
proof (elim exE conjE)
  fix anchor sequenceBytes sequenceBlock found
  assume ok: "readerOk src rd"
    and "(case found of (terminated, part, logical) \<Rightarrow>
       bindE (require (terminated \<and> part \<noteq> [] \<and> logical \<noteq> []) ''Incomplete UDF descriptors'') (\<lambda>_.
       bindE (udfPartition src part logical) (\<lambda>v.
       bindE (Get logical 240 2 False) (\<lambda>revision.
       bindE (Get logical 252 4 False) (\<lambda>fsdBlock.
       bindE (ReadPartition src v fsdBlock Block) (\<lambda>fsd.
       bindE (CheckTag fsd fsdBlock 256) (\<lambda>_.
       bindE (Get fsd 408 2 False) (\<lambda>rootPart.
       bindE (require (rootPart = 0) ''Invalid root partition reference'') (\<lambda>_.
       bindE (Get fsd 404 4 False) (\<lambda>root.
       walkUdf src v 129 root [] (rd\<lparr>udfRevision := revision\<rparr>))))))))))) = Inr rd'"
  then obtain part logical v revision root where v: "udfPartition src part logical = Inr v"
    and walk: "walkUdf src v 129 root [] (rd\<lparr>udfRevision := revision\<rparr>) = Inr rd'"
    by (cases found) auto
  show "readerOk src rd'"
    by (rule walkUdf_ok(1) [OF walk _ udfPartition_inside [OF v]]) (use ok in \<open>simp add: readerOk_def\<close>)
qed

lemma linkChildren_ok:
  "linkChildren src i n rd = Inr rd' \<Longrightarrow> readerOk src rd \<Longrightarrow> readerOk src rd'"
proof (induction src i n rd rule: linkChildren.induct)
  case (2 src i n rd)
  obtain rd1 where one: "(if slash \<notin> set (path (entries rd ! i)) then Inr (rd\<lparr>rootChildren := rootChildren rd @ [i]\<rparr>)
            else (case paths rd (beforeLast slash (path (entries rd ! i))) of
                None \<Rightarrow> Inl (IsoInvalid, ''Missing parent directory'')
              | Some k \<Rightarrow> bindE (require (isDirectory (entries rd ! k)) ''Missing parent directory'') (\<lambda>_.
                  Inr (rd\<lparr>entries := (entries rd)[k := (entries rd ! k)\<lparr>children := children (entries rd ! k) @ [i]\<rparr>]\<rparr>)))) = Inr rd1"
    and used: "metadataBytes rd1 + indexBytes src \<le> MaxMetadata"
    and rest: "linkChildren src (Suc i) n (rd1\<lparr>metadataBytes := metadataBytes rd1 + indexBytes src\<rparr>) = Inr rd'"
    using "2.prems"(1) by (auto simp: Let_def split del: if_split)
  have upd: "list_all Q (xs[k := y])" if "list_all Q xs" "Q y" for Q and xs :: "isoEntry list" and k y
    using that by (auto simp: list_all_iff dest!: set_update_subset_insert [THEN subsetD])
  have "readerOk src rd1"
  proof (cases "slash \<notin> set (path (entries rd ! i))")
    case True
    then show ?thesis using one "2.prems"(2) by (auto simp: readerOk_def)
  next
    case False
    then obtain k where k: "paths rd (beforeLast slash (path (entries rd ! i))) = Some k"
      "rd1 = rd\<lparr>entries := (entries rd)[k := (entries rd ! k)\<lparr>children := children (entries rd ! k) @ [i]\<rparr>]\<rparr>"
      using one by (auto split: option.splits)
    have "k < length (entries rd)" using k(1) "2.prems"(2) by (auto simp: readerOk_def)
    note klt = this
    then have mem: "entries rd ! k \<in> set (entries rd)" by simp
    define e' where "e' = (entries rd ! k)\<lparr>children := children (entries rd ! k) @ [i]\<rparr>"
    have rd1: "entries rd1 = (entries rd)[k := e']" "paths rd1 = paths rd" "metadataBytes rd1 = metadataBytes rd"
      using k(2) by (simp_all add: e'_def)
    have e': "path e' = path (entries rd ! k)" "inside src e' = inside src (entries rd ! k)"
      by (simp_all add: e'_def inside_def)
    have same: "path ((entries rd)[k := e'] ! m) = path (entries rd ! m)" for m
      by (cases "m = k") (simp_all add: e' klt)
    have all: "list_all (\<lambda>e. CleanPath (path e) = Inr (path e) \<and> inside src e) (entries rd)"
      using "2.prems"(2) by (simp add: readerOk_def)
    have "list_all (\<lambda>e. CleanPath (path e) = Inr (path e) \<and> inside src e) ((entries rd)[k := e'])"
      by (rule upd [OF all]) (use all mem e' in \<open>auto simp: list_all_iff\<close>)
    then show ?thesis
      using "2.prems"(2) by (simp add: readerOk_def rd1 same)
  qed
  then have "readerOk src (rd1\<lparr>metadataBytes := metadataBytes rd1 + indexBytes src\<rparr>)"
    using used by (simp add: readerOk_def)
  then show ?case using "2.IH" rest one by blast
qed simp

lemma initialize_ok: "initialize src ns = Inr rd \<Longrightarrow> readerOk src rd"
proof -
  assume "initialize src ns = Inr rd"
  then obtain sc feats label chosen rd2 where
    tree: "(if chosen = UdfNs then readUdf src (newReader\<lparr>features := feats, namespaces := presentNamespaces sc, volumeLabel := label,
              selectedNamespace := chosen\<rparr>)
           else readIso src (if chosen = JolietNs then joliet sc else primary sc) (chosen = JolietNs)
              (newReader\<lparr>features := feats, namespaces := presentNamespaces sc, volumeLabel := label,
              selectedNamespace := chosen\<rparr>)) = Inr rd2"
    and link: "linkChildren src 0 (length (entries rd2)) (rd2\<lparr>entryCount := length (entries rd2)\<rparr>) = Inr rd"
    unfolding initialize_def Let_def bindE_Inr by (elim exE conjE) blast
  have start: "readerOk src (newReader\<lparr>features := feats, namespaces := presentNamespaces sc, volumeLabel := label,
              selectedNamespace := chosen\<rparr>)"
    using readerOk_new [of src] by (simp add: readerOk_def)
  have "readerOk src rd2"
  proof (cases "chosen = UdfNs")
    case True
    then show ?thesis using tree readUdf_ok start by auto
  next
    case False
    then show ?thesis using tree walkIso_ok(1) start by (auto simp: readIso_def)
  qed
  then show ?thesis using linkChildren_ok [OF link] by (simp add: readerOk_def)
qed

text \<open>C24: whatever the bytes of an image, a reader that opens on it holds at most 100000 entries within
  the metadata budget; every path is one that \<open>CleanPath\<close> accepts, no two entries share a
  path and \<open>Find\<close> gives the entry of a path; every extent lies inside the image.  Otherwise
  opening fails with an error.\<close>

theorem initialize_safe:
  "case initialize src ns of
     Inr rd \<Rightarrow> list_all (\<lambda>e. CleanPath (path e) = Inr (path e) \<and> inside src e) (entries rd)
       \<and> (\<forall>p i. Find rd p = Some i \<longleftrightarrow> i < length (entries rd) \<and> path (entries rd ! i) = p)
       \<and> length (entries rd) \<le> MaxEntries \<and> metadataBytes rd \<le> MaxMetadata
   | Inl e \<Rightarrow> True"
  using initialize_ok [of src ns] by (auto simp: readerOk_def Find_def split: sum.splits)

section \<open>What a read delivers\<close>

text \<open>A source that tells the truth: a stream reads all it is asked for, a host answers every read
  inside the image with one byte at least, and the bytes are those of the image.\<close>

definition honest :: "isoSource \<Rightarrow> bytes \<Rightarrow> bool" where
  "honest src img \<longleftrightarrow> imageBytes src = length img
     \<and> (if hosted src then \<forall>off c. off + c \<le> length img \<and> 0 < c \<longrightarrow> (\<exists>part. hostRead src off c = Inr part
            \<and> part \<noteq> [] \<and> length part \<le> c \<and> part = take (length part) (drop off img))
        else \<forall>off n. off + n \<le> length img \<longrightarrow> streamRead src off n = take n (drop off img))"

lemma hostLoop_exact:
  assumes "honest src img" "hosted src" "off + n \<le> length img"
  shows "got = take (length got) (drop off img) \<Longrightarrow> length got \<le> n \<Longrightarrow> n - length got \<le> fuel \<Longrightarrow>
    hostLoop src off n fuel got = Inr (take n (drop off img))"
proof (induction fuel arbitrary: got)
  case (Suc fuel)
  show ?case
  proof (cases "length got < n")
    case True
    define c where "c = min (n - length got) (1024 * 1024)"
    have c: "0 < c" "off + length got + c \<le> length img" "c \<le> n - length got" using True assms(3) by (auto simp: c_def)
    then obtain part where part: "hostRead src (off + length got) c = Inr part" "part \<noteq> []" "length part \<le> c"
      "part = take (length part) (drop (off + length got) img)"
      using assms(1,2) unfolding honest_def by (metis (no_types, lifting))
    have step: "hostLoop src off n (Suc fuel) got = hostLoop src off n fuel (got @ part)"
      using True part(1-3) unfolding hostLoop.simps Let_def c_def [symmetric] by simp
    have "take (length got + length part) (drop off img) = take (length got) (drop off img) @ take (length part) (drop (length got) (drop off img))"
      by (rule take_add)
    then have "got @ part = take (length (got @ part)) (drop off img)"
      using Suc.prems(1) part(4) by (simp add: add.commute)
    moreover have "0 < length part" using part(2) by simp
    then have "length (got @ part) \<le> n" "n - length (got @ part) \<le> fuel"
      using part(3) c(3) True Suc.prems(3) unfolding length_append by linarith+
    ultimately show ?thesis unfolding step by (rule Suc.IH)
  next
    case False
    then have "length got = n" using Suc.prems(2) by simp
    then show ?thesis using Suc.prems(1) by simp
  qed
qed simp

lemma ReadAt_honest:
  assumes "honest src img" "off + n \<le> length img" "n \<le> MaxMetadata"
  shows "ReadAt src off n = Inr (take n (drop off img))"
proof (cases "hosted src")
  case True
  then show ?thesis
    using assms hostLoop_exact [OF assms(1) True assms(2), of "[]" n] by (simp add: ReadAt_def honest_def)
next
  case False
  then show ?thesis using assms by (simp add: ReadAt_def honest_def Let_def)
qed

text \<open>A read inside the image returns, after finitely many reads of the host, exactly the bytes of
  the image, however the host splits them.\<close>

theorem ReadAt_exact:
  assumes "honest src img" "off + n \<le> length img" "n \<le> MaxMetadata"
  shows "ReadAt src off n = Inr (take n (drop off img))"
  by (rule ReadAt_honest [OF assms])

lemma ReadAt_outside:
  "imageBytes src < off + n \<or> MaxMetadata < n \<Longrightarrow> ReadAt src off n = Inl (IsoInvalid, ''Extent outside image or read budget'')"
  by (auto simp: ReadAt_def need_def)

definition extentData :: "bytes \<Rightarrow> extent list \<Rightarrow> bytes" where
  "extentData img xs = concat (map (\<lambda>x. take (extSize x) (drop (extOffset x) img)) xs)"

lemma length_extentData:
  "list_all (\<lambda>x. extOffset x + extSize x \<le> length img) xs \<Longrightarrow> length (extentData img xs) = sum_list (map extSize xs)"
  by (induction xs) (auto simp: extentData_def)

lemma readExtents_exact:
  assumes "honest src img" "wanted \<le> MaxMetadata"
  shows "list_all (\<lambda>x. extOffset x + extSize x \<le> length img) xs \<Longrightarrow> length got < wanted \<Longrightarrow>
    wanted - length got \<le> length (drop off (extentData img xs)) \<Longrightarrow>
    readExtents src off wanted got xs = Inr (got @ take (wanted - length got) (drop off (extentData img xs)))"
proof (induction xs arbitrary: off got)
  case Nil
  then show ?case by (simp add: extentData_def)
next
  case (Cons x xs)
  define A where "A = take (extSize x) (drop (extOffset x) img)"
  have A: "length A = extSize x" "extentData img (x # xs) = A @ extentData img xs"
    using Cons.prems(1) by (auto simp: A_def extentData_def min_def)
  show ?case
  proof (cases "extSize x \<le> off")
    case True
    then show ?thesis using Cons.IH [of got "off - extSize x"] Cons.prems A by simp
  next
    case False
    define n where "n = min (wanted - length got) (extSize x - off)"
    have "ReadAt src (extOffset x + off) n = Inr (take n (drop (extOffset x + off) img))"
      by (rule ReadAt_honest [OF assms(1)]) (use Cons.prems(1) False assms(2) in \<open>auto simp: n_def\<close>)
    also have "take n (drop (extOffset x + off) img) = take n (drop off A)"
      by (simp add: A_def n_def drop_take add.commute min_def)
    finally have read: "ReadAt src (extOffset x + off) n = Inr (take n (drop off A))" .
    have len: "length (take n (drop off A)) = n" by (simp add: n_def A(1))
    show ?thesis
    proof (cases "wanted - length got \<le> extSize x - off")
      case True
      then have "n = wanted - length got" by (simp add: n_def)
      then show ?thesis
        using False read len Cons.prems(2) A True by (simp add: n_def [symmetric])
    next
      case more: False
      then have n: "n = extSize x - off" by (simp add: n_def)
      have all: "take n (drop off A) = drop off A" using n A(1) by simp
      have got: "length (got @ drop off A) < wanted" using more A(1) False by simp
      have "readExtents src off wanted got (x # xs) = readExtents src 0 wanted (got @ drop off A) xs"
        using False read got len by (simp add: n_def [symmetric] all)
      also have "\<dots> = Inr ((got @ drop off A) @ take (wanted - length (got @ drop off A)) (drop 0 (extentData img xs)))"
        by (rule Cons.IH) (use Cons.prems got A False in \<open>auto simp: n\<close>)
      finally show ?thesis
        using False A more by (simp add: n)
    qed
  qed
qed

text \<open>C26: reading a file of the image delivers exactly the bytes of its extents from the offset on, as
  many as the buffer takes and the file has, whichever extents they cross.\<close>

theorem Read_exact:
  assumes "honest src img" "index < length (entries rd)" "\<not> isDirectory (entries rd ! index)"
    and "inside src (entries rd ! index)" "embedded (entries rd ! index) = []"
    and "entrySize (entries rd ! index) \<le> sum_list (map extSize (extents (entries rd ! index)))"
    and "off \<le> entrySize (entries rd ! index)" "capacity \<le> MaxMetadata"
  shows "Read src rd index off capacity
    = Inr (take (min capacity (entrySize (entries rd ! index) - off)) (drop off (extentData img (extents (entries rd ! index)))))"
proof -
  define e where "e = entries rd ! index"
  define wanted where "wanted = min capacity (entrySize e - off)"
  have ins: "list_all (\<lambda>x. extOffset x + extSize x \<le> length img) (extents e)"
    using assms(1,4) by (simp add: inside_def honest_def e_def)
  have enough: "wanted \<le> length (drop off (extentData img (extents e)))" "wanted \<le> MaxMetadata"
    using length_extentData [OF ins] assms(6,7,8) by (auto simp: wanted_def e_def)
  have "readExtents src off wanted [] (extents e) = Inr (take wanted (drop off (extentData img (extents e))))"
    if "0 < wanted"
    using readExtents_exact [OF assms(1) enough(2) ins, of "[]" off] that enough(1) by simp
  moreover have "readExtents src off 0 [] xs = Inr []" if "list_all (\<lambda>x. extOffset x + extSize x \<le> length img) xs" for xs off
    using that
  proof (induction xs arbitrary: off)
    case (Cons x xs)
    have "ReadAt src (extOffset x + off) 0 = Inr []" if "off < extSize x"
      using ReadAt_honest [OF assms(1), of "extOffset x + off" 0] Cons.prems that by simp
    then show ?case using Cons by simp
  qed simp
  ultimately have "readExtents src off wanted [] (extents e) = Inr (take wanted (drop off (extentData img (extents e))))"
    using ins by (cases "wanted = 0") simp_all
  moreover have "length (take wanted (drop off (extentData img (extents e)))) = wanted" using enough(1) by simp
  ultimately show ?thesis
    using assms(2,3,5,7) by (simp add: Read_def Let_def e_def [symmetric] wanted_def [symmetric])
qed

section \<open>Runs\<close>

text \<open>An image of four bytes behind a host that delivers one byte at a time.\<close>

definition sampleImage :: bytes where "sampleImage = [1, 2, 3, 4]"

definition sampleSource :: isoSource where
  "sampleSource = \<lparr>imageBytes = 4, hosted = True, hostRead = (\<lambda>off c. Inr (take 1 (drop off sampleImage))),
     streamRead = (\<lambda>_ _. []), entryBytes = 0, extentBytes = 0, indexBytes = 0\<rparr>"

definition sampleReader :: reader where
  "sampleReader = newReader\<lparr>entries := [noEntry\<lparr>path := [0x61], entrySize := 3,
     extents := [\<lparr>extOffset = 2, extSize = 2\<rparr>, \<lparr>extOffset = 0, extSize = 2\<rparr>]\<rparr>]\<rparr>"

lemma sample_honest: "honest sampleSource sampleImage"
proof -
  have "\<exists>part. hostRead sampleSource off c = Inr part \<and> part \<noteq> [] \<and> length part \<le> c
      \<and> part = take (length part) (drop off sampleImage)" if "off + c \<le> length sampleImage" "0 < c" for off c
  proof (intro exI conjI)
    have off: "off < length sampleImage" using that by simp
    show "hostRead sampleSource off c = Inr (take 1 (drop off sampleImage))" by (simp add: sampleSource_def)
    show "take 1 (drop off sampleImage) \<noteq> []" "length (take 1 (drop off sampleImage)) \<le> c" using off that by simp_all
    show "take 1 (drop off sampleImage) = take (length (take 1 (drop off sampleImage))) (drop off sampleImage)"
      using off by (simp add: min_def)
  qed
  moreover have "imageBytes sampleSource = length sampleImage" "hosted sampleSource"
    by (simp_all add: sampleSource_def sampleImage_def)
  ultimately show ?thesis unfolding honest_def by simp
qed

theorem ReadAt_exact_witness: "ReadAt sampleSource 1 3 = Inr [2, 3, 4]"
  using ReadAt_exact [OF sample_honest, of 1 3] by (simp add: sampleImage_def)

theorem Read_exact_witness: "Read sampleSource sampleReader 0 1 8 = Inr [4, 1]"
  using Read_exact [OF sample_honest, of 0 sampleReader 1 8]
  by (simp add: sampleReader_def newReader_def noEntry_def inside_def sampleSource_def extentData_def sampleImage_def)
end
