(* ===== verification/IsoWriter.thy ===== *)
theory IsoWriter
  imports IsoReader "HOL-Library.List_Lexorder"
begin

text \<open>
  \<open>HyperCommanderBuiltInPlugin/IsoImage/src/writer.cpp\<close> and \<open>udfWriter.cpp\<close>: building an image.
  The sources become a tree of nodes (\<open>inventory\<close>), files of equal bytes share one payload
  (\<open>connectPayloads\<close>), every structure gets its blocks (\<open>layout\<close>, \<open>udfLayout\<close>), the image
  is written (\<open>Write\<close>) and read back through the reader of the other half of the library.

  The file system is outside: an input says whether its disk file is a regular one, its size
  and its bytes, and whether it is still the file it was at each look (\<open>stable\<close>).  The output
  stream is the bytes of the image; a fresh part of it is zero.  The sizes of structures held in
  memory and the block numbers of an image of at most 128 GiB stay far below the bounds of
  their types, so the rounding of \<open>Round\<close> is written without its overflow check there.
\<close>

section \<open>Data\<close>

record isoInput =
  imagePath :: "bytes option"
  inputDirectory :: bool
  diskPath :: "bytes option"
  regular :: bool
  opens :: bool
  fileSize :: nat
  fileBytes :: bytes
  stable :: bool

record node =
  nodeName :: bytes
  nodePath :: bytes
  isoName :: bytes
  source :: nat
  nodeSize :: nat
  nodeDir :: bool
  parent :: nat
  kids :: "nat list"
  dataBlock :: nat
  isoBlock :: nat
  jolietBlock :: nat
  feBlock :: nat
  isoData :: bytes
  jolietData :: bytes
  udfData :: bytes
  payload :: "nat option"

definition newNode :: node where
  "newNode = \<lparr>nodeName = [], nodePath = [], isoName = [], source = 0, nodeSize = 0, nodeDir = False, parent = 0, kids = [],
     dataBlock = 0, isoBlock = 0, jolietBlock = 0, feBlock = 0, isoData = [], jolietData = [], udfData = [], payload = None\<rparr>"

record payloadRec =
  sourceNode :: nat
  payloadBlock :: nat

record isoOptions =
  structOk :: bool
  profile :: nat
  volumeName :: "bytes option"
  maxImage :: nat
  timestampUtc :: int
  progressOf :: "(nat \<Rightarrow> nat \<Rightarrow> bool) option"

record writer =
  options :: isoOptions
  inputs :: "isoInput list"
  wlabel :: bytes
  nodes :: "node list"
  payloads :: "payloadRec list"
  shareContents :: bool
  explicitTimestamp :: bool
  directories :: "nat list"
  nextBlock :: nat
  totalBlocks :: nat
  partitionEnd :: nat
  tableBlocks :: "nat list"
  payloadBytes :: nat

definition hasJoliet :: "writer \<Rightarrow> bool" where
  "hasJoliet w \<longleftrightarrow> profile (options w) = 1 \<or> profile (options w) = 2"

definition writesUdf :: "writer \<Rightarrow> bool" where
  "writesUdf w \<longleftrightarrow> profile (options w) = 2 \<or> profile (options w) = 3"

fun foldE :: "('a \<Rightarrow> 'b \<Rightarrow> 'b iso) \<Rightarrow> 'a list \<Rightarrow> 'b \<Rightarrow> 'b iso" where
  "foldE f [] s = Inr s"
| "foldE f (x # xs) s = bindE (f x s) (foldE f xs)"

definition roundUp :: "nat \<Rightarrow> nat \<Rightarrow> nat" where
  "roundUp n alignment = (n + alignment - 1) div alignment * alignment"

definition padTo :: "nat \<Rightarrow> bytes \<Rightarrow> bytes" where
  "padTo n d = take n d @ replicate (n - length d) 0"

definition ascii :: "string \<Rightarrow> bytes" where
  "ascii s = map (\<lambda>c. word_of_nat (of_char c)) s"

fun decimal :: "nat \<Rightarrow> bytes" where
  "decimal n = (if n < 10 then [word_of_nat (48 + n)] else decimal (n div 10) @ [word_of_nat (48 + n mod 10)])"

declare decimal.simps [simp del]

section \<open>Names and records\<close>

abbreviation dot :: "8 word" where "dot \<equiv> 0x2e"
abbreviation underscore :: "8 word" where "underscore \<equiv> 0x5f"

definition primaryByte :: "8 word \<Rightarrow> 8 word" where
  "primaryByte c = (if 0x61 \<le> c \<and> c \<le> 0x7a then c - 0x20
     else if (0x41 \<le> c \<and> c \<le> 0x5a) \<or> (0x30 \<le> c \<and> c \<le> 0x39) \<or> c = underscore \<or> c = dot then c else underscore)"

definition undot :: "bytes \<Rightarrow> bytes" where
  "undot t = map (\<lambda>c. if c = dot then underscore else c) t"

text \<open>Every dot but the last becomes an underscore.\<close>

definition lastDotOnly :: "bytes \<Rightarrow> bytes" where
  "lastDotOnly t = (if dot \<in> set t then undot (beforeLast dot t) @ drop (length (beforeLast dot t)) t else t)"

definition PrimaryName :: "bytes \<Rightarrow> bool \<Rightarrow> nat \<Rightarrow> bytes" where
  "PrimaryName name directory suffix =
    (let t = map primaryByte name;
         t1 = (if directory then undot t else lastDotOnly t);
         tail = (if suffix \<noteq> 0 then underscore # decimal suffix else []);
         limit = (if directory then 31 else 29);
         t2 = (if limit < length t1 + length tail then take (limit - length tail) t1 else t1) @ tail
     in if directory then t2 else (if dot \<in> set t2 then t2 else t2 @ [dot]) @ [0x3b, 0x31])"

abbreviation IsoExtentMax :: nat where "IsoExtentMax \<equiv> 0xfffff800"

definition Record :: "node \<Rightarrow> bytes \<Rightarrow> bool \<Rightarrow> nat \<Rightarrow> bool \<Rightarrow> bytes iso" where
  "Record it name jol off further =
    (let n = (if nodeDir it then (if jol then length (jolietData it) else length (isoData it)) else min IsoExtentMax (nodeSize it - off));
         sector = (if nodeDir it then (if jol then jolietBlock it else isoBlock it) else dataBlock it + off div Block);
         total_len = roundUp (33 + length name) 2
     in bindE (require (total_len \<le> 255) ''ISO directory identifier too long'') (\<lambda>_.
        bindE (Both (setByte 0 (word_of_nat total_len) (replicate total_len 0)) 2 sector 4) (\<lambda>d.
        bindE (Both d 10 (n mod 2 ^ 32) 4) (\<lambda>d.
        bindE (Timestamp d 18 0 False False) (\<lambda>d.
        bindE (Both (setByte 25 (word_of_nat ((if nodeDir it then 2 else 0) + (if further then 128 else 0))) d) 28 1 2) (\<lambda>d.
        Inr (overwrite 33 name (setByte 32 (word_of_nat (length name)) d))))))))"

section \<open>The inventory\<close>

definition afterLast :: "8 word \<Rightarrow> bytes \<Rightarrow> bytes" where
  "afterLast c t = (if c \<in> set t then rev (takeWhile (\<lambda>b. b \<noteq> c) (rev t)) else t)"

definition parentPath :: "bytes \<Rightarrow> bytes" where
  "parentPath p = (if slash \<in> set p then beforeLast slash p else [])"

type_synonym tree = "node list \<times> (bytes \<Rightarrow> nat option)"

definition attach :: "node \<Rightarrow> tree \<Rightarrow> nat \<times> tree" where
  "attach it = (\<lambda>(ns, found).
    let i = length ns; ns' = ns @ [it]
    in (i, ns'[parent it := (ns' ! parent it)\<lparr>kids := kids (ns' ! parent it) @ [i]\<rparr>], found(nodePath it \<mapsto> i)))"

text \<open>\<open>Directory\<close>: the node of a directory, made with all its parents if it is missing.\<close>

fun makeDirectory :: "nat \<Rightarrow> bytes \<Rightarrow> tree \<Rightarrow> (nat \<times> tree) iso" where
  "makeDirectory fuel p (ns, found) =
    (case found p of
       Some i \<Rightarrow> bindE (require (nodeDir (ns ! i)) ''File/directory collision'') (\<lambda>_. Inr (i, (ns, found)))
     | None \<Rightarrow> (case fuel of 0 \<Rightarrow> Inl (IsoInvalid, ''Invalid image path'')
         | Suc k \<Rightarrow> bindE (makeDirectory k (parentPath p) (ns, found)) (\<lambda>(par, t).
             Inr (attach (newNode\<lparr>nodePath := p, nodeName := afterLast slash p, nodeDir := True, parent := par\<rparr>) t))))"

definition addSource :: "writer \<Rightarrow> nat \<Rightarrow> tree \<times> bytes set \<times> nat \<Rightarrow> (tree \<times> bytes set \<times> nat) iso" where
  "addSource w i = (\<lambda>((ns, found), seen, used).
    let src = inputs w ! i in
    bindE (CleanPath (the (imagePath src))) (\<lambda>p.
    bindE (require (length (filter (\<lambda>b. b = slash) p) < 128 \<and> p \<notin> seen) ''Duplicate/deep source path'') (\<lambda>_.
    bindE (if inputDirectory src then bindE (makeDirectory (Suc (length p)) p (ns, found)) (\<lambda>(_, t). Inr (t, used))
      else bindE (require (found p = None) ''File/directory collision'') (\<lambda>_.
        bindE (makeDirectory (Suc (length p)) (parentPath p) (ns, found)) (\<lambda>(par, t).
        bindE (require (diskPath src \<noteq> None \<and> diskPath src \<noteq> Some []) ''Missing disk path'') (\<lambda>_.
        bindE (DecodeUtf8 (the (diskPath src))) (\<lambda>_.
        bindE (require (regular src) ''Source is not a regular file'') (\<lambda>_.
        bindE (require (fileSize src \<le> maxImage (options w) \<and> used \<le> 2 ^ 64 - 1 - fileSize src) ''Input size overflow'') (\<lambda>_.
        bindE (require (shareContents w \<or> used \<le> maxImage (options w) - fileSize src) ''Input exceeds image budget'') (\<lambda>_.
        Inr (snd (attach (newNode\<lparr>nodePath := p, nodeName := afterLast slash p, parent := par, source := i, nodeSize := fileSize src\<rparr>) t),
             used + fileSize src))))))))) (\<lambda>(t, used').
    bindE (require (length (fst t) \<le> MaxEntries) ''Source entry budget exceeded'') (\<lambda>_.
    Inr (t, insert p seen, used'))))))"

text \<open>The first alias of a name that is not taken.  Two suffixes give the same alias at most when one of
  them is absent, so three more than the nodes are enough.\<close>

definition aliasOf :: "bytes set \<Rightarrow> nat \<Rightarrow> node \<Rightarrow> bytes option" where
  "aliasOf taken tries it = map_option (PrimaryName (nodeName it) (nodeDir it))
     (List.find (\<lambda>k. PrimaryName (nodeName it) (nodeDir it) k \<notin> taken) [0..<tries])"

definition nameChild :: "writer \<Rightarrow> nat \<Rightarrow> node list \<times> bytes set \<times> nat list \<Rightarrow> (node list \<times> bytes set \<times> nat list) iso" where
  "nameChild w i = (\<lambda>(ns, taken, queue).
    let it = ns ! i in
    (case aliasOf taken (length ns + 3) it of None \<Rightarrow> Inl (IsoInvalid, ''ISO alias'')
     | Some alias \<Rightarrow>
        bindE (if hasJoliet w then bindE (DecodeUtf8 (nodeName it)) (\<lambda>us.
                 need (length us \<le> 64) ''Joliet component exceeds 64 UTF-16 units'' IsoUnsupported) else Inr ()) (\<lambda>_.
        bindE (if writesUdf w then bindE (Unicode (nodeName it) True) (\<lambda>u.
                 need (length u \<le> 255) ''UDF identifier exceeds 255 bytes'' IsoUnsupported) else Inr ()) (\<lambda>_.
        Inr (ns[i := it\<lparr>isoName := alias\<rparr>], insert alias taken, if nodeDir it then queue @ [i] else queue)))))"

text \<open>Breadth-first numbering: every directory is taken once, so the nodes bound the loop.\<close>

fun numberDirectories :: "writer \<Rightarrow> nat \<Rightarrow> nat list \<Rightarrow> nat list \<Rightarrow> node list \<Rightarrow> (node list \<times> nat list) iso" where
  "numberDirectories w fuel out [] ns = Inr (ns, out)"
| "numberDirectories w 0 out (d # queue) ns = Inl (IsoInvalid, ''ISO path table directory limit exceeded'')"
| "numberDirectories w (Suc fuel) out (d # queue) ns =
    (let cs = sort_key (\<lambda>i. nodeName (ns ! i)) (kids (ns ! d)); ns1 = ns[d := (ns ! d)\<lparr>kids := cs\<rparr>]
     in bindE (foldE (nameChild w) cs (ns1, {}, queue)) (\<lambda>(ns2, _, queue'). numberDirectories w fuel (out @ [d]) queue' ns2))"

definition inventory :: "writer \<Rightarrow> writer iso" where
  "inventory w =
    (let n = length (inputs w); root = newNode\<lparr>nodeDir := True\<rparr> in
     bindE (require (n \<le> MaxEntries) ''Invalid source inventory'') (\<lambda>_.
     bindE (require (\<forall>s \<in> set (inputs w). imagePath s \<noteq> None) ''Missing image path'') (\<lambda>_.
     bindE (foldE (\<lambda>i st. bindE (Pulse (progressOf (options w)) i n) (\<lambda>_. addSource w i st))
              (sort_key (\<lambda>i. the (imagePath (inputs w ! i))) [0..<n]) (([root], [[] \<mapsto> 0]), {}, payloadBytes w)) (\<lambda>((ns, _), _, used).
     bindE (numberDirectories w (Suc (length ns)) [] [0] ns) (\<lambda>(ns', dirs).
     bindE (require (length dirs \<le> 65535) ''ISO path table directory limit exceeded'') (\<lambda>_.
     Inr (w\<lparr>nodes := ns', directories := dirs, payloadBytes := used\<rparr>)))))))"

section \<open>Shared payloads\<close>

definition fnv :: "bytes \<Rightarrow> 64 word" where
  "fnv bs = foldl (\<lambda>h b. (h XOR ucast b) * 1099511628211) 14695981039346656037 bs"

definition bytesOf :: "writer \<Rightarrow> node \<Rightarrow> bytes" where
  "bytesOf w it = take (nodeSize it) (fileBytes (inputs w ! source it))"

definition unchanged :: "writer \<Rightarrow> node \<Rightarrow> string \<Rightarrow> unit iso" where
  "unchanged w it message = require (regular (inputs w ! source it) \<and> stable (inputs w ! source it)) message"

abbreviation compareMessage :: string where "compareMessage \<equiv> ''Source changed during duplicate comparison''"

text \<open>The ends of the pieces a file of a size is read in, at most a megabyte each.\<close>

definition pieceEnds :: "nat \<Rightarrow> nat list" where
  "pieceEnds n = map (\<lambda>k. min n (k * 1048576)) [1..<Suc ((n + 1048575) div 1048576)]"

text \<open>Reading a file through: every piece has to be there, and is reported.\<close>

definition readThrough :: "writer \<Rightarrow> node \<Rightarrow> string \<Rightarrow> (nat \<Rightarrow> unit iso) \<Rightarrow> unit iso" where
  "readThrough w it message report =
    foldE (\<lambda>e _. bindE (need (e \<le> length (fileBytes (inputs w ! source it))) message IsoIo) (\<lambda>_. report e)) (pieceEnds (nodeSize it)) ()"

text \<open>A candidate has the same size and fingerprint; sharing wants the bytes to be equal.\<close>

definition candidateOf :: "writer \<Rightarrow> node \<Rightarrow> payloadRec \<Rightarrow> bool" where
  "candidateOf w it p \<longleftrightarrow> nodeSize (nodes w ! sourceNode p) = nodeSize it
     \<and> fnv (bytesOf w (nodes w ! sourceNode p)) = fnv (bytesOf w it)"

fun tryCandidates :: "writer \<Rightarrow> node \<Rightarrow> nat \<Rightarrow> payloadRec list \<Rightarrow> nat list \<Rightarrow> nat option iso" where
  "tryCandidates w it compared ps [] = Inr None"
| "tryCandidates w it compared ps (k # ks) =
    (let canonical = nodes w ! sourceNode (ps ! k) in
     bindE (unchanged w canonical compareMessage) (\<lambda>_.
     bindE (need (opens (inputs w ! source it) \<and> opens (inputs w ! source canonical)) ''Cannot open payload comparison'' IsoIo) (\<lambda>_.
     bindE (if nodeSize it \<noteq> 0 then Pulse (progressOf (options w)) compared (payloadBytes w) else Inr ()) (\<lambda>_.
     bindE (unchanged w it compareMessage) (\<lambda>_. bindE (unchanged w canonical compareMessage) (\<lambda>_.
     if bytesOf w canonical = bytesOf w it then Inr (Some k) else tryCandidates w it compared ps ks))))))"

definition compares :: "writer \<Rightarrow> node \<Rightarrow> bool" where
  "compares w it \<longleftrightarrow> shareContents w \<and> 1 < length (filter (\<lambda>x. \<not> nodeDir x \<and> nodeSize x = nodeSize it) (nodes w))"

definition connectNode :: "writer \<Rightarrow> nat \<Rightarrow> payloadRec list \<times> nat option list \<times> nat \<Rightarrow> (payloadRec list \<times> nat option list \<times> nat) iso" where
  "connectNode w i = (\<lambda>(ps, links, compared).
    let it = nodes w ! i; report = (\<lambda>c. Pulse (progressOf (options w)) c (payloadBytes w)) in
    if nodeDir it then Inr (ps, links @ [None], compared)
    else bindE (report compared) (\<lambda>_. bindE (unchanged w it compareMessage) (\<lambda>_.
      bindE (if compares w it
         then bindE (need (opens (inputs w ! source it)) ''Cannot open duplicate candidate'' IsoIo) (\<lambda>_.
           bindE (readThrough w it ''Short duplicate candidate read'' (\<lambda>e. report (compared + e))) (\<lambda>_.
           bindE (unchanged w it compareMessage) (\<lambda>_.
           bindE (tryCandidates w it (compared + nodeSize it) ps (filter (\<lambda>k. candidateOf w it (ps ! k)) [0..<length ps])) (\<lambda>k.
           Inr (k, compared + nodeSize it)))))
         else Inr (None, compared)) (\<lambda>(shared, compared').
      case shared of Some k \<Rightarrow> Inr (ps, links @ [Some k], compared')
      | None \<Rightarrow> Inr (ps @ [\<lparr>sourceNode = i, payloadBlock = 0\<rparr>], links @ [Some (length ps)], compared')))))"

definition connectPayloads :: "writer \<Rightarrow> writer iso" where
  "connectPayloads w =
    bindE (foldE (connectNode w) [0..<length (nodes w)] ([], [], 0)) (\<lambda>(ps, links, _).
    Inr (w\<lparr>payloads := ps, nodes := map2 (\<lambda>it l. it\<lparr>payload := l\<rparr>) (nodes w) links\<rparr>))"

section \<open>Directories, path tables, descriptors\<close>

definition stampOf :: "writer \<Rightarrow> bytes \<Rightarrow> nat \<Rightarrow> bool \<Rightarrow> bytes iso" where
  "stampOf w d off udf = Timestamp d off (timestampUtc (options w)) udf (explicitTimestamp w)"

definition appendRecord :: "writer \<Rightarrow> bytes \<Rightarrow> bytes \<Rightarrow> bytes iso" where
  "appendRecord w r d = bindE (stampOf w r 18 False) (\<lambda>r1.
     Inr ((if Block < length d mod Block + length r1 then padTo (roundUp (length d) Block) d else d) @ r1))"

text \<open>The records of one file: a further one for every full extent.\<close>

fun fileRecords :: "writer \<Rightarrow> node \<Rightarrow> bytes \<Rightarrow> bool \<Rightarrow> nat \<Rightarrow> nat \<Rightarrow> bytes \<Rightarrow> bytes iso" where
  "fileRecords w it name jol off 0 d = bindE (Record it name jol off False) (\<lambda>r. appendRecord w r d)"
| "fileRecords w it name jol off (Suc fuel) d =
    (let further = (\<not> nodeDir it \<and> IsoExtentMax < nodeSize it - off) in
     bindE (Record it name jol off further) (\<lambda>r. bindE (appendRecord w r d) (\<lambda>d1.
     if further then fileRecords w it name jol (off + IsoExtentMax) fuel d1 else Inr d1)))"

definition nameOf :: "node \<Rightarrow> bool \<Rightarrow> bytes iso" where
  "nameOf it jol = (if jol then Unicode (nodeName it) False else Inr (isoName it))"

definition sortName :: "bool \<Rightarrow> node \<Rightarrow> bytes" where
  "sortName jol it = (case nameOf it jol of Inr n \<Rightarrow> n | Inl _ \<Rightarrow> [])"

definition directory :: "writer \<Rightarrow> nat \<Rightarrow> bool \<Rightarrow> bytes iso" where
  "directory w i jol =
    (let p = nodes w ! i in
     bindE (Record p [0] jol 0 False) (\<lambda>self. bindE (appendRecord w self []) (\<lambda>d0.
     bindE (Record (nodes w ! parent p) [1] jol 0 False) (\<lambda>up. bindE (appendRecord w up d0) (\<lambda>d1.
     bindE (foldE (\<lambda>c d. bindE (nameOf (nodes w ! c) jol) (\<lambda>name.
              fileRecords w (nodes w ! c) name jol 0 (nodeSize (nodes w ! c) div IsoExtentMax) d))
            (sort_key (\<lambda>c. sortName jol (nodes w ! c)) (kids p)) d1) (\<lambda>d.
     Inr (padTo (roundUp (length d) Block) d)))))))"

definition tableEntry :: "writer \<Rightarrow> bool \<Rightarrow> bool \<Rightarrow> nat \<Rightarrow> bytes \<Rightarrow> bytes iso" where
  "tableEntry w jol big i d =
    (let it = nodes w ! i; number = (\<lambda>k. case List.find (\<lambda>j. directories w ! j = k) [0..<length (directories w)] of
        Some j \<Rightarrow> j + 1 | None \<Rightarrow> 0) in
     bindE (if i = 0 then Inr [0] else nameOf it jol) (\<lambda>name.
     bindE (Put (setByte 0 (word_of_nat (length name)) (replicate (roundUp (8 + length name) 2) 0)) 2
              (if jol then jolietBlock it else isoBlock it) 4 big) (\<lambda>r.
     bindE (Put r 6 (number (parent it)) 2 big) (\<lambda>r1.
     Inr (d @ overwrite 8 name r1)))))"

definition pathTable :: "writer \<Rightarrow> bool \<Rightarrow> bool \<Rightarrow> bytes iso" where
  "pathTable w jol big = foldE (tableEntry w jol big) (directories w) []"

definition andAll :: "(bytes \<Rightarrow> bytes iso) list \<Rightarrow> bytes \<Rightarrow> bytes iso" where
  "andAll fs d = foldE (\<lambda>f d. f d) fs d"

abbreviation PutF :: "nat \<Rightarrow> nat \<Rightarrow> nat \<Rightarrow> bytes \<Rightarrow> bytes iso" where
  "PutF off v n \<equiv> (\<lambda>d. Put d off v n False)"

abbreviation ByteF :: "nat \<Rightarrow> 8 word \<Rightarrow> bytes \<Rightarrow> bytes iso" where
  "ByteF off b \<equiv> (\<lambda>d. Inr (setByte off b d))"

definition volume :: "writer \<Rightarrow> bool \<Rightarrow> bytes iso" where
  "volume w jol =
    bindE (andAll [ByteF 0 (if jol then 2 else 1), (\<lambda>d. Text d 1 CD001 5 0), ByteF 6 1,
        (\<lambda>d. Text d 8 (ascii ''HYPERCOMMANDER'') 32 0x20),
        (\<lambda>d. if jol then bindE (Unicode (wlabel w) False) (\<lambda>u.
               bindE (require (length u \<le> 32) ''Joliet volume label exceeds 16 characters'') (\<lambda>_.
               Text (overwrite 40 u d) 88 (ascii ''%/E'') 3 0)) else Text d 40 (wlabel w) 32 0x20),
        (\<lambda>d. Both d 80 (totalBlocks w) 4), (\<lambda>d. Both d 120 1 2), (\<lambda>d. Both d 124 1 2), (\<lambda>d. Both d 128 Block 2),
        (\<lambda>d. bindE (pathTable w jol False) (\<lambda>t. Both d 132 (length t) 4)),
        PutF 140 (tableBlocks w ! (if jol then 2 else 0)) 4,
        (\<lambda>d. Put d 148 (tableBlocks w ! (if jol then 3 else 1)) 4 True)] (replicate Block 0)) (\<lambda>d.
    bindE (Record (nodes w ! 0) [0] jol 0 False) (\<lambda>root. bindE (stampOf w root 18 False) (\<lambda>root1.
    andAll ([(\<lambda>d. Text d 190 [] 128 0x20), (\<lambda>d. Text d 318 [] 128 0x20), (\<lambda>d. Text d 446 [] 128 0x20),
        (\<lambda>d. Text d 574 (ascii ''HYPERCOMMANDER ISO C++'') 128 0x20), (\<lambda>d. Text d 702 [] 111 0x20)]
        @ map (\<lambda>off d. Text d off (ascii ''0000000000000000'') 16 0) [813, 830, 847, 864] @ [ByteF 881 1])
      (overwrite 156 root1 d))))"

section \<open>The UDF namespace\<close>

abbreviation PartitionStart :: nat where "PartitionStart \<equiv> 257"

definition Entity :: "nat \<Rightarrow> string \<Rightarrow> bool \<Rightarrow> bytes \<Rightarrow> bytes iso" where
  "Entity off name domain d =
    bindE (Text d (off + 1) (ascii name) 23 0) (\<lambda>d1.
    if domain then bindE (Put d1 (off + 24) 0x0102 2 False) (\<lambda>d2. Inr (setByte (off + 26) 3 d2)) else Inr d1)"

definition Charspec :: "nat \<Rightarrow> bytes \<Rightarrow> bytes iso" where
  "Charspec off d = Text d (off + 1) (ascii ''OSTA Compressed Unicode'') 63 0"

definition Dstring :: "nat \<Rightarrow> nat \<Rightarrow> bytes \<Rightarrow> bytes \<Rightarrow> bytes iso" where
  "Dstring off len t d =
    bindE (Unicode t True) (\<lambda>u. bindE (require (length u < len) ''UDF dstring too long'') (\<lambda>_.
    Inr (setByte (off + len - 1) (word_of_nat (length u)) (overwrite off u d))))"

definition LongAd :: "nat \<Rightarrow> nat \<Rightarrow> nat \<Rightarrow> bytes \<Rightarrow> bytes iso" where
  "LongAd off len location d = bindE (Put d off len 4 False) (\<lambda>d1. Put d1 (off + 4) location 4 False)"

definition Fid :: "node \<Rightarrow> bool \<Rightarrow> nat \<Rightarrow> bytes iso" where
  "Fid it up location =
    bindE (if up then Inr [] else Unicode (nodeName it) True) (\<lambda>name.
    let d = replicate (roundUp (38 + length name) 4) 0 in
    bindE (andAll [PutF 16 1 2, ByteF 18 (word_of_nat ((if nodeDir it then 2 else 0) + (if up then 8 else 0))),
        ByteF 19 (word_of_nat (length name)), LongAd 20 Block (feBlock it), (\<lambda>d. Inr (overwrite 38 name d))] d) (\<lambda>d1.
    Tag d1 257 location (length d1)))"

definition setNode :: "nat \<Rightarrow> (node \<Rightarrow> node) \<Rightarrow> writer \<Rightarrow> writer" where
  "setNode i f w = w\<lparr>nodes := (nodes w)[i := f (nodes w ! i)]\<rparr>"

definition udfDirectory :: "nat \<Rightarrow> writer \<Rightarrow> writer iso" where
  "udfDirectory i w =
    (let it = nodes w ! i; at = nextBlock w; located = setNode i (\<lambda>n. n\<lparr>dataBlock := at\<rparr>) w in
     bindE (Fid (nodes located ! parent it) True (at - PartitionStart)) (\<lambda>d0.
     bindE (foldE (\<lambda>c d. bindE (Fid (nodes located ! c) False (at - PartitionStart + length d div Block)) (\<lambda>r. Inr (d @ r))) (kids it) d0) (\<lambda>d.
     Inr ((setNode i (\<lambda>n. n\<lparr>udfData := d\<rparr>) located)\<lparr>nextBlock := at + roundUp (length d) Block div Block\<rparr>))))"

definition udfLayout :: "writer \<Rightarrow> writer iso" where
  "udfLayout w = foldE udfDirectory (directories w) w"

section \<open>Layout\<close>

definition placeTable :: "nat \<Rightarrow> writer \<Rightarrow> writer iso" where
  "placeTable i w = bindE (pathTable w (2 \<le> i) (i mod 2 \<noteq> 0)) (\<lambda>t.
     Inr (w\<lparr>tableBlocks := (tableBlocks w)[i := nextBlock w], nextBlock := nextBlock w + roundUp (length t) Block div Block\<rparr>))"

definition placeDirectory :: "nat \<Rightarrow> writer \<Rightarrow> writer iso" where
  "placeDirectory i w =
    bindE (directory w i False) (\<lambda>d.
    let w1 = (setNode i (\<lambda>n. n\<lparr>isoData := d, isoBlock := nextBlock w\<rparr>) w)\<lparr>nextBlock := nextBlock w + length d div Block\<rparr> in
    if hasJoliet w then bindE (directory w1 i True) (\<lambda>j.
      Inr ((setNode i (\<lambda>n. n\<lparr>jolietData := j, jolietBlock := nextBlock w1\<rparr>) w1)\<lparr>nextBlock := nextBlock w1 + length j div Block\<rparr>))
    else Inr w1)"

definition placePayload :: "nat \<Rightarrow> nat \<times> writer \<Rightarrow> (nat \<times> writer) iso" where
  "placePayload k = (\<lambda>(physical, w).
    let p = payloads w ! k; n = roundUp (nodeSize (nodes w ! sourceNode p)) Block in
    bindE (require (n \<le> maxImage (options w) \<and> physical \<le> maxImage (options w) - n) ''Unique payload exceeds image budget'') (\<lambda>_.
    Inr (physical + n, w\<lparr>payloads := (payloads w)[k := p\<lparr>payloadBlock := nextBlock w\<rparr>], nextBlock := nextBlock w + n div Block\<rparr>)))"

text \<open>The directories once more, now that every block number is known.\<close>

definition fillDirectory :: "nat \<Rightarrow> nat \<times> writer \<Rightarrow> (nat \<times> writer) iso" where
  "fillDirectory i = (\<lambda>(used, w).
    bindE (directory w i False) (\<lambda>d. let w1 = setNode i (\<lambda>n. n\<lparr>isoData := d\<rparr>) w in
    bindE (if hasJoliet w1 then bindE (directory w1 i True) (\<lambda>j. Inr (setNode i (\<lambda>n. n\<lparr>jolietData := j\<rparr>) w1)) else Inr w1) (\<lambda>w2.
    let it = nodes w2 ! i in Inr (used + length (isoData it) + length (jolietData it) + length (udfData it), w2))))"

definition layout :: "writer \<Rightarrow> writer iso" where
  "layout w =
    (let w0 = w\<lparr>nextBlock := (if writesUdf w then 259 + length (nodes w) else 32), tableBlocks := replicate 4 0,
                nodes := map2 (\<lambda>i it. it\<lparr>feBlock := 2 + i\<rparr>) [0..<length (nodes w)] (nodes w)\<rparr>
     in bindE (foldE placeTable [0..<(if hasJoliet w then 4 else 2)] w0) (\<lambda>w1.
        bindE (foldE placeDirectory (directories w1) w1) (\<lambda>w2.
        bindE (if writesUdf w2 then udfLayout w2 else Inr w2) (\<lambda>w3.
        bindE (foldE placePayload [0..<length (payloads w3)] (0, w3)) (\<lambda>(_, w4).
        let w5 = w4\<lparr>nodes := map (\<lambda>it. if nodeDir it then it else it\<lparr>dataBlock := payloadBlock (payloads w4 ! the (payload it))\<rparr>) (nodes w4),
                    partitionEnd := nextBlock w4 + 1, totalBlocks := nextBlock w4 + 1 + (if writesUdf w4 then 257 else 0)\<rparr>
        in bindE (require (totalBlocks w5 * Block \<le> maxImage (options w5)) ''Image exceeds output budget'') (\<lambda>_.
           bindE (foldE fillDirectory (directories w5) (0, w5)) (\<lambda>(used, w6).
           bindE (require (used \<le> MaxMetadata) ''Writer metadata budget exceeded'') (\<lambda>_. Inr w6))))))))"

abbreviation ImageBudget :: nat where "ImageBudget \<equiv> 128 * 1024 * 1024 * 1024"

definition newWriter :: "isoInput list \<Rightarrow> isoOptions \<Rightarrow> bool \<Rightarrow> bool \<Rightarrow> writer iso" where
  "newWriter sources opts share explicitTime =
    bindE (require (structOk opts \<and> profile opts \<le> 3) ''Invalid ISO build options'') (\<lambda>_.
    let label = (case volumeName opts of Some l \<Rightarrow> l | None \<Rightarrow> ascii ''HYPERCOMMANDER'');
        opts1 = (if maxImage opts = 0 then opts\<lparr>maxImage := ImageBudget\<rparr> else opts);
        w = \<lparr>options = opts1, inputs = sources, wlabel = label, nodes = [], payloads = [], shareContents = share,
             explicitTimestamp = explicitTime, directories = [], nextBlock = 0, totalBlocks = 0, partitionEnd = 0,
             tableBlocks = replicate 4 0, payloadBytes = 0\<rparr>
    in bindE (require (label \<noteq> [] \<and> length label \<le> 32 \<and> list_all (\<lambda>b. 32 \<le> b \<and> b < 127) label)
         ''Volume label must contain 1..32 ASCII characters'') (\<lambda>_.
       bindE (need (maxImage opts1 \<le> ImageBudget) ''Maximum supported image size is 128 GiB'' IsoUnsupported) (\<lambda>_.
       bindE (require (hasJoliet w \<longrightarrow> length label \<le> 16) ''Joliet volume label exceeds 16 characters'') (\<lambda>_.
       bindE (require (writesUdf w \<longrightarrow> length label \<le> 30) ''UDF volume label exceeds 30 characters'') (\<lambda>_.
       bindE (Timestamp (replicate 12 0) 0 (timestampUtc opts1) True explicitTime) (\<lambda>_.
       bindE (inventory w) (\<lambda>w1. bindE (connectPayloads w1) layout)))))))"

end
