(* ===== verification/IsoImageWriter.thy ===== *)
theory IsoImageWriter
  imports IsoWriter
begin

text \<open>
  \<open>writer.cpp\<close>, \<open>udfWriter.cpp\<close>, \<open>api.cpp\<close>: the bytes of the image.  The staging file is a list of
  bytes, every structure is put in at its sector, and the image is opened again in every namespace
  and compared with the inventory.  The writes of the stream succeed here; a source file that
  changed (\<open>stable\<close>) or cannot be opened (\<open>opens\<close>) stops the run.  \<open>sizes\<close> gives the sizes of the
  C++ structures the reader charges to its budget.
\<close>

definition writeAt :: "writer \<Rightarrow> nat \<Rightarrow> bytes \<Rightarrow> bytes \<Rightarrow> bytes iso" where
  "writeAt w sector d img =
    bindE (require (sector * Block + length d \<le> totalBlocks w * Block) ''Writer extent overflow'') (\<lambda>_.
    Inr (overwrite (sector * Block) d img))"

text \<open>A structure of one block is made by steps on an empty block and written at its sector.\<close>

definition putBlock :: "writer \<Rightarrow> nat \<Rightarrow> (bytes \<Rightarrow> bytes iso) list \<Rightarrow> bytes \<Rightarrow> bytes iso" where
  "putBlock w sector steps img = bindE (andAll steps (replicate Block 0)) (\<lambda>d. writeAt w sector d img)"

abbreviation TagF :: "nat \<Rightarrow> nat \<Rightarrow> nat \<Rightarrow> bytes \<Rightarrow> bytes iso" where
  "TagF ident location len \<equiv> (\<lambda>d. Tag d ident location len)"

abbreviation StampF :: "writer \<Rightarrow> nat \<Rightarrow> bytes \<Rightarrow> bytes iso" where
  "StampF w off \<equiv> (\<lambda>d. stampOf w d off True)"

abbreviation Creator :: string where "Creator \<equiv> ''*HyperCommander''"

section \<open>The UDF descriptors\<close>

definition recognition :: "writer \<Rightarrow> bytes \<Rightarrow> bytes iso" where
  "recognition w = foldE (\<lambda>i. putBlock w ((if hasJoliet w then 19 else 18) + i)
     [(\<lambda>d. Text d 1 (ascii (if i = 0 then ''BEA01'' else if i = 1 then ''NSR02'' else ''TEA01'')) 5 0), ByteF 6 1]) [0, 1, 2]"

definition primaryVolume :: "writer \<Rightarrow> nat \<Rightarrow> bytes \<Rightarrow> bytes iso" where
  "primaryVolume w base = putBlock w base
    [PutF 16 0 4, Dstring 24 32 (wlabel w), PutF 56 1 2, PutF 58 1 2, PutF 60 2 2, PutF 62 3 2, PutF 64 1 4, PutF 68 1 4,
     Dstring 72 128 (ascii ''0000000000000000'' @ wlabel w), Charspec 200, Charspec 264, StampF w 376, Entity 388 Creator False,
     TagF 1 base 512]"

definition implementationVolume :: "writer \<Rightarrow> nat \<Rightarrow> bytes \<Rightarrow> bytes iso" where
  "implementationVolume w base = putBlock w (base + 1)
    [PutF 16 1 4, Entity 20 ''*UDF LV Info'' False, PutF 44 0x0102 2, Charspec 52, Dstring 116 128 (wlabel w),
     Entity 352 Creator False, TagF 4 (base + 1) 512]"

definition partitionDescriptor :: "writer \<Rightarrow> nat \<Rightarrow> bytes \<Rightarrow> bytes iso" where
  "partitionDescriptor w base = putBlock w (base + 2)
    [PutF 16 2 4, PutF 20 1 2, Entity 24 ''+NSR02'' False, ByteF 24 2, PutF 184 1 4, PutF 188 PartitionStart 4,
     PutF 192 (partitionEnd w - PartitionStart) 4, Entity 196 Creator False, TagF 5 (base + 2) 512]"

definition logicalVolume :: "writer \<Rightarrow> nat \<Rightarrow> bytes \<Rightarrow> bytes iso" where
  "logicalVolume w base = putBlock w (base + 3)
    [PutF 16 3 4, Charspec 20, Dstring 84 128 (wlabel w), PutF 212 Block 4, Entity 216 ''*OSTA UDF Compliant'' True,
     LongAd 248 (2 * Block) 0, PutF 264 6 4, PutF 268 1 4, Entity 272 Creator False, LongAd 432 (2 * Block) 64,
     ByteF 440 1, ByteF 441 6, PutF 442 1 2, TagF 6 (base + 3) 446]"

definition volumeSequence :: "writer \<Rightarrow> nat \<Rightarrow> bytes \<Rightarrow> bytes iso" where
  "volumeSequence w base = andAll
    [primaryVolume w base, implementationVolume w base, partitionDescriptor w base, logicalVolume w base,
     putBlock w (base + 4) [PutF 16 4 4, TagF 7 (base + 4) 24],
     putBlock w (base + 5) [TagF 8 (base + 5) 512]]"

definition anchor :: "writer \<Rightarrow> nat \<Rightarrow> bytes \<Rightarrow> bytes iso" where
  "anchor w sector = putBlock w sector [LongAd 16 (16 * Block) 32, LongAd 24 (16 * Block) 48, TagF 2 sector 512]"

definition integrity :: "writer \<Rightarrow> bytes \<Rightarrow> bytes iso" where
  "integrity w = putBlock w 64
    [StampF w 16, PutF 28 1 4, PutF 40 (length (nodes w) + 16) 8, PutF 72 1 4, PutF 76 46 4,
     PutF 84 (partitionEnd w - PartitionStart) 4, Entity 88 Creator False,
     PutF 120 (length (nodes w) - length (directories w)) 4, PutF 124 (length (directories w)) 4,
     PutF 128 0x0102 2, PutF 130 0x0102 2, PutF 132 0x0102 2, TagF 9 64 134]"

definition fileSet :: "writer \<Rightarrow> bytes \<Rightarrow> bytes iso" where
  "fileSet w = putBlock w PartitionStart
    [StampF w 16, PutF 28 3 2, PutF 30 3 2, PutF 32 1 4, PutF 36 1 4, Charspec 48, Dstring 112 128 (wlabel w), Charspec 240,
     Dstring 304 32 (wlabel w), LongAd 400 Block (feBlock (nodes w ! 0)), Entity 416 ''*OSTA UDF Compliant'' True, TagF 256 0 512]"

text \<open>The short allocation descriptors of a file entry; one of them holds less than 2^30 bytes.\<close>

abbreviation ChunkMax :: nat where "ChunkMax \<equiv> 0x3ffff800"

fun shortAds :: "nat \<Rightarrow> nat \<Rightarrow> nat \<Rightarrow> nat \<Rightarrow> nat \<Rightarrow> bytes \<Rightarrow> (nat \<times> bytes) iso" where
  "shortAds block len 0 off ad d = Inr (ad, d)"
| "shortAds block len (Suc fuel) off ad d =
    (if len \<le> off then Inr (ad, d)
     else let chunk = min (len - off) ChunkMax in
       bindE (need (ad + 8 \<le> Block) ''File needs allocation continuation descriptors'' IsoUnsupported) (\<lambda>_.
       bindE (Put d ad chunk 4 False) (\<lambda>d1. bindE (Put d1 (ad + 4) (block + off div Block) 4 False) (\<lambda>d2.
       shortAds block len fuel (off + chunk) (ad + 8) d2))))"

definition udfNode :: "writer \<Rightarrow> nat \<Rightarrow> bytes \<Rightarrow> bytes iso" where
  "udfNode w i img =
    (let it = nodes w ! i; len = (if nodeDir it then length (udfData it) else nodeSize it);
         links = 1 + (if nodeDir it then length (filter (\<lambda>c. nodeDir (nodes w ! c)) (kids it)) else 0)
     in bindE (andAll [PutF 20 4 2, PutF 24 1 2, ByteF 27 (if nodeDir it then 4 else 5), PutF 36 (2 ^ 32 - 1) 4, PutF 40 (2 ^ 32 - 1) 4,
            PutF 44 0x14a5 4, PutF 48 links 2, PutF 56 len 8, PutF 64 (roundUp len Block div Block) 8, StampF w 72, StampF w 84, StampF w 96,
            PutF 108 1 4, Entity 128 Creator False, PutF 160 (if i = 0 then 0 else i + 16) 8] (replicate Block 0)) (\<lambda>fe.
        bindE (shortAds (dataBlock it - PartitionStart) len (len div ChunkMax + 1) 0 176 fe) (\<lambda>(ad, fe1).
        bindE (andAll [PutF 172 (ad - 176) 4, TagF 261 (feBlock it) ad] fe1) (\<lambda>fe2.
        bindE (writeAt w (PartitionStart + feBlock it) fe2 img) (\<lambda>img1.
        if nodeDir it then writeAt w (dataBlock it) (udfData it) img1 else Inr img1)))))"

definition udfWrite :: "writer \<Rightarrow> bytes \<Rightarrow> bytes iso" where
  "udfWrite w = andAll
    ([recognition w, volumeSequence w 32, volumeSequence w 48]
     @ map (anchor w) [256, partitionEnd w, totalBlocks w - 1]
     @ [integrity w, putBlock w 65 [TagF 8 65 512], fileSet w, putBlock w (PartitionStart + 1) [TagF 8 1 512]]
     @ map (udfNode w) [0..<length (nodes w)])"

section \<open>The img\<close>

definition writeMetadata :: "writer \<Rightarrow> bytes \<Rightarrow> bytes iso" where
  "writeMetadata w img =
    bindE (volume w False) (\<lambda>pvd. bindE (writeAt w 16 pvd img) (\<lambda>img1.
    bindE (if hasJoliet w then bindE (volume w True) (\<lambda>svd. writeAt w 17 svd img1) else Inr img1) (\<lambda>img2.
    bindE (putBlock w (if hasJoliet w then 18 else 17) [ByteF 0 255, (\<lambda>d. Text d 1 CD001 5 0), ByteF 6 1] img2) (\<lambda>img3.
    bindE (foldE (\<lambda>i im. bindE (pathTable w (2 \<le> i) (i mod 2 \<noteq> 0)) (\<lambda>t. writeAt w (tableBlocks w ! i) t im))
             [0..<(if hasJoliet w then 4 else 2)] img3) (\<lambda>img4.
    bindE (foldE (\<lambda>i im. bindE (writeAt w (isoBlock (nodes w ! i)) (isoData (nodes w ! i)) im) (\<lambda>im1.
              if hasJoliet w then writeAt w (jolietBlock (nodes w ! i)) (jolietData (nodes w ! i)) im1 else Inr im1))
             (directories w) img4) (\<lambda>img5.
    if writesUdf w then udfWrite w img5 else Inr img5))))))"

definition writePayload :: "writer \<Rightarrow> payloadRec \<Rightarrow> nat \<times> bytes \<Rightarrow> (nat \<times> bytes) iso" where
  "writePayload w p = (\<lambda>(written, img).
    let it = nodes w ! sourceNode p; src = inputs w ! source it;
        report = (\<lambda>c. Pulse (progressOf (options w)) c (payloadBytes w * 2)) in
    bindE (report written) (\<lambda>_.
    bindE (require (stable src) ''Source changed before writing'') (\<lambda>_.
    bindE (need (opens src) ''Cannot open input file'' IsoIo) (\<lambda>_.
    bindE (readThrough w it ''Input changed or short read'' (\<lambda>e. report (written + e))) (\<lambda>_.
    bindE (require (stable src) ''Source changed while writing'') (\<lambda>_.
    Inr (written + nodeSize it, overwrite (dataBlock it * Block) (bytesOf w it) img)))))))"

section \<open>Opening it again\<close>

record structSizes =
  entrySizeof :: nat
  extentSizeof :: nat
  indexSizeof :: nat

definition imageSource :: "structSizes \<Rightarrow> bytes \<Rightarrow> isoSource" where
  "imageSource sizes img = \<lparr>imageBytes = length img, hosted = False, hostRead = (\<lambda>_ _. Inl IsoIo),
     streamRead = (\<lambda>off n. take n (drop off img)), entryBytes = entrySizeof sizes, extentBytes = extentSizeof sizes,
     indexBytes = indexSizeof sizes\<rparr>"

definition emittedNamespaces :: "writer \<Rightarrow> nat list" where
  "emittedNamespaces w = filter (\<lambda>ns. ns = JolietNs \<longrightarrow> hasJoliet w)
     [PrimaryNs..<Suc (if writesUdf w then UdfNs else if profile (options w) = 1 then JolietNs else PrimaryNs)]"

text \<open>The name an entry has in a namespace: without the version, and without a dot that ends it.\<close>

definition emittedName :: "nat \<Rightarrow> node \<Rightarrow> bytes" where
  "emittedName ns it = (if ns = PrimaryNs
     then (if nodeDir it then isoName it
           else let n = take (length (isoName it) - 2) (isoName it) in if n \<noteq> [] \<and> last n = dot then butlast n else n)
     else nodeName it)"

fun comparePieces :: "writer \<Rightarrow> isoSource \<Rightarrow> reader \<Rightarrow> nat \<Rightarrow> node \<Rightarrow> nat \<Rightarrow> nat list \<Rightarrow> unit iso" where
  "comparePieces w src rd k it off [] = Inr ()"
| "comparePieces w src rd k it off (e # es) =
    bindE (Read src rd k off (e - off)) (\<lambda>d.
    bindE (require (length d = e - off) ''Reopened payload truncated'') (\<lambda>_.
    bindE (require (d = take (e - off) (drop off (fileBytes (inputs w ! source it)))) ''Reopened payload differs from source'') (\<lambda>_.
    bindE (Pulse (progressOf (options w)) (payloadBytes w + e) (payloadBytes w * 2)) (\<lambda>_.
    comparePieces w src rd k it e es))))"

definition verifyChild :: "writer \<Rightarrow> isoSource \<Rightarrow> reader \<Rightarrow> nat \<Rightarrow> nat \<Rightarrow> nat \<Rightarrow> (nat \<Rightarrow> bytes) \<Rightarrow> (nat \<Rightarrow> bytes) iso" where
  "verifyChild w src rd ns up c names =
    (let it = nodes w ! c; p = joinPath (names up) (emittedName ns it) in
     (case List.find (\<lambda>k. path (entries rd ! k) = p) [0..<length (entries rd)] of
        None \<Rightarrow> Inl (IsoInvalid, ''Reopened path mismatch'')
      | Some k \<Rightarrow>
          bindE (require (isDirectory (entries rd ! k) = nodeDir it \<and> entrySize (entries rd ! k) = nodeSize it)
            ''Reopened file metadata mismatch'') (\<lambda>_.
          bindE (if nodeDir it then Inr ()
            else bindE (comparePieces w src rd k it 0 (pieceEnds (nodeSize it))) (\<lambda>_.
              require (stable (inputs w ! source it)) ''Source changed during verification'')) (\<lambda>_.
          Inr (names(c := p))))))"

definition verifyNamespace :: "writer \<Rightarrow> isoSource \<Rightarrow> nat \<Rightarrow> unit iso" where
  "verifyNamespace w src ns =
    bindE (initialize src ns) (\<lambda>rd.
    bindE (require (length (entries rd) + 1 = length (nodes w)) ''Reopened inventory count mismatch'') (\<lambda>_.
    bindE (foldE (\<lambda>up. foldE (verifyChild w src rd ns up) (kids (nodes w ! up))) (directories w) (\<lambda>_. [])) (\<lambda>_. Inr ())))"

text \<open>\<open>Write\<close>: the bytes of the staging file, if everything went well; otherwise the file is removed.
  \<open>fresh\<close> says that it could be created exclusively.\<close>

definition Write :: "structSizes \<Rightarrow> bool \<Rightarrow> writer \<Rightarrow> bytes iso" where
  "Write sizes fresh w =
    bindE (need fresh ''Cannot exclusively create ISO staging file'' IsoIo) (\<lambda>_.
    bindE (writeMetadata w (replicate (totalBlocks w * Block) 0)) (\<lambda>img.
    bindE (foldE (writePayload w) (payloads w) (0, img)) (\<lambda>(_, img1).
    bindE (foldE (\<lambda>ns _. verifyNamespace w (imageSource sizes img1) ns) (emittedNamespaces w) ()) (\<lambda>_.
    bindE (Pulse (progressOf (options w)) (payloadBytes w * 2) (payloadBytes w * 2)) (\<lambda>_. Inr img1)))))"

definition hcIsoBuildEx :: "structSizes \<Rightarrow> bool \<Rightarrow> isoInput list \<Rightarrow> bool \<Rightarrow> nat \<Rightarrow> nat \<Rightarrow> isoOptions \<Rightarrow> bytes iso" where
  "hcIsoBuildEx sizes fresh sources sized version flags opts =
    bindE (need (sized \<and> version = 1 \<and> flags < 4) ''Unsupported extended build options'' IsoUnsupported) (\<lambda>_.
    bindE (newWriter sources opts (bit flags 0) (bit flags 1)) (Write sizes fresh))"

definition hcIsoBuild :: "structSizes \<Rightarrow> bool \<Rightarrow> isoInput list \<Rightarrow> isoOptions \<Rightarrow> bytes iso" where
  "hcIsoBuild sizes fresh sources opts = bindE (newWriter sources opts False False) (Write sizes fresh)"

text \<open>The results of the C interface: a status with its message, and the end of a directory.\<close>

datatype isoResult = IsoFail isoStatus string | IsoEnd | IsoIndex nat

definition indexResult :: "nat option iso \<Rightarrow> isoResult" where
  "indexResult r = (case r of Inl (status, message) \<Rightarrow> IsoFail status message | Inr None \<Rightarrow> IsoEnd | Inr (Some k) \<Rightarrow> IsoIndex k)"

definition hcIsoFindEntry :: "reader \<Rightarrow> bytes \<Rightarrow> isoResult" where
  "hcIsoFindEntry rd p = indexResult (Inr (Find rd p))"

definition hcIsoGetChild :: "reader \<Rightarrow> nat option \<Rightarrow> nat \<Rightarrow> isoResult" where
  "hcIsoGetChild rd folder child = indexResult (Child rd folder child)"

definition hcIsoGetEntry :: "reader \<Rightarrow> bool \<Rightarrow> nat \<Rightarrow> (bytes \<times> bool \<times> nat) iso" where
  "hcIsoGetEntry rd sized index =
    bindE (require (sized \<and> index < length (entries rd)) ''Invalid entry arguments'') (\<lambda>_.
    let it = entries rd ! index in Inr (path it, isDirectory it, entrySize it))"

definition hcIsoRead :: "isoSource \<Rightarrow> reader \<Rightarrow> nat \<Rightarrow> nat \<Rightarrow> nat \<Rightarrow> bytes iso" where
  "hcIsoRead src rd index off capacity = Read src rd index off capacity"

section \<open>What a written image satisfies\<close>

lemma foldE_each: "foldE f xs s = Inr s' \<Longrightarrow> x \<in> set xs \<Longrightarrow> \<exists>s1 s2. f x s1 = Inr s2"
  by (induction xs arbitrary: s) auto

text \<open>The pieces of a file read from an entry are the pieces of the source.\<close>

definition piecesRead :: "isoSource \<Rightarrow> reader \<Rightarrow> nat \<Rightarrow> bytes \<Rightarrow> nat list \<Rightarrow> bool" where
  "piecesRead src rd k contents ends = list_all (\<lambda>(off, e). Read src rd k off (e - off) = Inr (take (e - off) (drop off contents))) (zip (0 # ends) ends)"

lemma comparePieces_read:
  "comparePieces w src rd k it off ends = Inr () \<Longrightarrow>
   list_all (\<lambda>(off, e). Read src rd k off (e - off) = Inr (take (e - off) (drop off (fileBytes (inputs w ! source it))))) (zip (off # ends) ends)"
  by (induction ends arbitrary: off) auto

definition readsBack :: "writer \<Rightarrow> isoSource \<Rightarrow> reader \<Rightarrow> nat \<Rightarrow> nat \<Rightarrow> bool" where
  "readsBack w src rd ns c = (let it = nodes w ! c in
     list_ex (\<lambda>k. drop (length (path (entries rd ! k)) - length (emittedName ns it)) (path (entries rd ! k)) = emittedName ns it
       \<and> isDirectory (entries rd ! k) = nodeDir it \<and> entrySize (entries rd ! k) = nodeSize it
       \<and> (nodeDir it \<or> piecesRead src rd k (fileBytes (inputs w ! source it)) (pieceEnds (nodeSize it)))) [0..<length (entries rd)])"

lemma verifyChild_reads: "verifyChild w src rd ns up c names = Inr names' \<Longrightarrow> readsBack w src rd ns c"
proof -
  let ?it = "nodes w ! c" and ?p = "joinPath (names up) (emittedName ns (nodes w ! c))"
  assume v: "verifyChild w src rd ns up c names = Inr names'"
  then obtain k where k: "List.find (\<lambda>k. path (entries rd ! k) = ?p) [0..<length (entries rd)] = Some k"
    by (auto simp: verifyChild_def Let_def split: option.splits)
  then have at: "k < length (entries rd)" "path (entries rd ! k) = ?p" by (auto simp: find_Some_iff)
  have same: "isDirectory (entries rd ! k) = nodeDir ?it" "entrySize (entries rd ! k) = nodeSize ?it"
    and pieces: "\<not> nodeDir ?it \<Longrightarrow> comparePieces w src rd k ?it 0 (pieceEnds (nodeSize ?it)) = Inr ()"
    using v k by (auto simp: verifyChild_def Let_def split: if_splits)
  have "drop (length ?p - length (emittedName ns ?it)) ?p = emittedName ns ?it" by (simp add: joinPath_def)
  moreover have "nodeDir ?it \<or> piecesRead src rd k (fileBytes (inputs w ! source ?it)) (pieceEnds (nodeSize ?it))"
    using comparePieces_read[OF pieces] by (auto simp: piecesRead_def)
  ultimately show ?thesis using at same unfolding readsBack_def Let_def list_ex_iff by (intro bexI[of _ k]) simp_all
qed

definition namespaceReads :: "writer \<Rightarrow> isoSource \<Rightarrow> nat \<Rightarrow> bool" where
  "namespaceReads w src ns = (case initialize src ns of Inl _ \<Rightarrow> False
     | Inr rd \<Rightarrow> length (entries rd) + 1 = length (nodes w)
         \<and> list_all (\<lambda>up. list_all (readsBack w src rd ns) (kids (nodes w ! up))) (directories w))"

lemma verifyNamespace_reads: "verifyNamespace w src ns = Inr () \<Longrightarrow> namespaceReads w src ns"
proof -
  assume "verifyNamespace w src ns = Inr ()"
  then obtain rd names where rd: "initialize src ns = Inr rd" "length (entries rd) + 1 = length (nodes w)"
      "foldE (\<lambda>up. foldE (verifyChild w src rd ns up) (kids (nodes w ! up))) (directories w) (\<lambda>_. []) = Inr names"
    by (auto simp: verifyNamespace_def)
  have "readsBack w src rd ns c" if "up \<in> set (directories w)" "c \<in> set (kids (nodes w ! up))" for up c
    using foldE_each[OF rd(3) that(1)] foldE_each[OF _ that(2)] verifyChild_reads by metis
  then show ?thesis using rd(1,2) by (simp add: namespaceReads_def list_all_iff)
qed


end
