(* ===== verification/Locators.thy ===== *)
theory Locators
  imports Main
begin

text \<open>
  The persistence format of locations and resources in \<open>commonLibs/storage/storage.hpp\<close>: fields
  framed by their length in decimal, \<open>Serialize\<close> and \<open>ParseLocator\<close>, \<open>ParseResourceId\<close>.  A C++
  string is a list of characters.  The lemmas show that what was written parses back, that nothing
  else is accepted than well-formed values, and that the format separates different values.
\<close>

section \<open>Fields\<close>

definition digitChar :: "nat \<Rightarrow> char" where
  "digitChar n = char_of (48 + n)"

fun showNat :: "nat \<Rightarrow> string" where
  "showNat n = (if n < 10 then [digitChar n] else showNat (n div 10) @ [digitChar (n mod 10)])"

declare showNat.simps [simp del]

abbreviation colon :: char where "colon \<equiv> CHR '':''"

definition AppendField :: "string \<Rightarrow> string" where
  "AppendField field = showNat (length field) @ [colon] @ field"

definition isDigit :: "char \<Rightarrow> bool" where
  "isDigit c \<longleftrightarrow> 48 \<le> (of_char c :: nat) \<and> (of_char c :: nat) \<le> 57"

definition readNat :: "string \<Rightarrow> nat" where
  "readNat = foldl (\<lambda>n c. n * 10 + (of_char c - 48)) 0"

text \<open>The field and what follows it.\<close>

definition TakeField :: "string \<Rightarrow> (string \<times> string) option" where
  "TakeField input =
    (let digits = takeWhile (\<lambda>c. c \<noteq> colon) input; rest = drop (length digits + 1) input
     in if colon \<notin> set input \<or> digits = [] \<or> 7 < length digits \<or> \<not> list_all isDigit digits \<or> length rest < readNat digits then None
        else Some (take (readNat digits) rest, drop (readNat digits) rest))"

section \<open>Locators\<close>

datatype LocatorKind = Local | Shell | Smb | Archive | Plugin

fun kindNumber :: "LocatorKind \<Rightarrow> nat" where
  "kindNumber Local = 0"
| "kindNumber Shell = 1"
| "kindNumber Smb = 2"
| "kindNumber Archive = 3"
| "kindNumber Plugin = 4"

definition kindOf :: "char \<Rightarrow> LocatorKind option" where
  "kindOf c = List.find (\<lambda>k. digitChar (kindNumber k) = c) [Local, Shell, Smb, Archive, Plugin]"

record ContainerHop =
  hopProvider :: string
  hopEntry :: string

record Locator =
  locatorKind :: LocatorKind
  locatorRoot :: string
  nesting :: "ContainerHop list"

definition SameArchiveContainer :: "Locator \<Rightarrow> Locator \<Rightarrow> bool" where
  "SameArchiveContainer l r \<longleftrightarrow> locatorKind l = Archive \<and> locatorKind r = Archive \<and> locatorRoot l = locatorRoot r
     \<and> nesting l \<noteq> [] \<and> length (nesting l) = length (nesting r)
     \<and> list_all2 (\<lambda>a b. hopProvider a = hopProvider b) (nesting l) (nesting r)
     \<and> list_all2 (\<lambda>a b. hopEntry a = hopEntry b) (butlast (nesting l)) (butlast (nesting r))"

definition hopText :: "ContainerHop \<Rightarrow> string" where
  "hopText h = AppendField (hopProvider h) @ AppendField (hopEntry h)"

definition SerializeLocator :: "Locator \<Rightarrow> string" where
  "SerializeLocator v = ''hcl1'' @ AppendField (showNat (kindNumber (locatorKind v))) @ AppendField (locatorRoot v)
     @ concat (map hopText (nesting v))"

text \<open>The hops: \<open>count\<close> is what is left of the 32 allowed.\<close>

fun parseHops :: "nat \<Rightarrow> string \<Rightarrow> ContainerHop list option" where
  "parseHops count [] = Some []"
| "parseHops 0 (c # cs) = None"
| "parseHops (Suc count) (c # cs) =
    (case TakeField (c # cs) of None \<Rightarrow> None
     | Some (provider, rest) \<Rightarrow>
        if provider = [] then None else
        (case TakeField rest of None \<Rightarrow> None
         | Some (entry, rest') \<Rightarrow>
            if entry = [] then None
            else map_option (\<lambda>hs. \<lparr>hopProvider = provider, hopEntry = entry\<rparr> # hs) (parseHops count rest')))"

abbreviation ParseLimit :: nat where "ParseLimit \<equiv> 1024 * 1024"

definition ParseLocator :: "string \<Rightarrow> Locator option" where
  "ParseLocator input =
    (if ParseLimit < length input \<or> take 4 input \<noteq> ''hcl1'' then None
     else (case TakeField (drop 4 input) of None \<Rightarrow> None
       | Some (kindText, rest) \<Rightarrow>
          (case kindText of [c] \<Rightarrow>
            (case kindOf c of None \<Rightarrow> None
             | Some kind \<Rightarrow>
                (case TakeField rest of None \<Rightarrow> None
                 | Some (root, rest') \<Rightarrow>
                    if root = [] then None
                    else (case parseHops 32 rest' of None \<Rightarrow> None
                      | Some hops \<Rightarrow>
                         if (kind = Archive) = (hops \<noteq> []) then Some \<lparr>locatorKind = kind, locatorRoot = root, nesting = hops\<rparr>
                         else None)))
           | _ \<Rightarrow> None)))"

section \<open>Resources\<close>

datatype IdentityScope = Persistent | NavigationSession

record ResourceId =
  providerId :: string
  resourceKey :: string
  idScope :: IdentityScope
  revision :: "string option"

definition SerializeResource :: "ResourceId \<Rightarrow> string" where
  "SerializeResource v = ''hci1'' @ AppendField (providerId v) @ AppendField (resourceKey v)
     @ AppendField (if idScope v = Persistent then ''p'' else ''s'')
     @ (case revision v of None \<Rightarrow> AppendField ''0'' | Some token \<Rightarrow> AppendField ''1'' @ AppendField token)"

definition ParseResourceId :: "string \<Rightarrow> ResourceId option" where
  "ParseResourceId input =
    (if ParseLimit < length input \<or> take 4 input \<noteq> ''hci1'' then None
     else (case TakeField (drop 4 input) of None \<Rightarrow> None | Some (provider, r1) \<Rightarrow>
       if provider = [] then None else
       (case TakeField r1 of None \<Rightarrow> None | Some (key, r2) \<Rightarrow>
       if key = [] then None else
       (case TakeField r2 of None \<Rightarrow> None | Some (scope, r3) \<Rightarrow>
       if scope \<noteq> ''p'' \<and> scope \<noteq> ''s'' then None else
       (case TakeField r3 of None \<Rightarrow> None | Some (flag, r4) \<Rightarrow>
       let v = \<lparr>providerId = provider, resourceKey = key, idScope = (if scope = ''p'' then Persistent else NavigationSession), revision = None\<rparr>
       in if flag = ''1''
          then (case TakeField r4 of Some (token, []) \<Rightarrow> Some (v\<lparr>revision := Some token\<rparr>) | _ \<Rightarrow> None)
          else if flag = ''0'' \<and> r4 = [] then Some v else None)))))"

section \<open>The provider registry\<close>

datatype registryError = InvalidProvider | DuplicateProvider string | ProviderNotRegistered string

definition Register :: "(string \<times> 'p) option \<Rightarrow> (string \<rightharpoonup> 'p) \<Rightarrow> registryError + (string \<rightharpoonup> 'p)" where
  "Register provider table = (case provider of None \<Rightarrow> Inl InvalidProvider
     | Some (ident, p) \<Rightarrow> if ident = [] then Inl InvalidProvider
         else if table ident = None then Inr (table(ident \<mapsto> p)) else Inl (DuplicateProvider ident))"

definition Resolve :: "(string \<rightharpoonup> 'p) \<Rightarrow> string \<Rightarrow> registryError + 'p" where
  "Resolve table ident = (case table ident of None \<Rightarrow> Inl (ProviderNotRegistered ident) | Some p \<Rightarrow> Inr p)"

section \<open>Fields parse back\<close>

lemma of_digitChar [simp]: "n < 10 \<Longrightarrow> (of_char (digitChar n) :: nat) = 48 + n"
  by (simp add: digitChar_def of_char_of)

lemma digitChar_small [simp]: "digitChar 0 = CHR ''0''" "digitChar 1 = CHR ''1''" "digitChar (Suc 0) = CHR ''1''"
    "digitChar 2 = CHR ''2''" "digitChar 3 = CHR ''3''" "digitChar 4 = CHR ''4''"
  by (simp_all add: digitChar_def char_of_def bit_Suc_0_iff)

lemma showNat_small: "n < 10 \<Longrightarrow> showNat n = [digitChar n]"
  by (subst showNat.simps) simp

lemma isDigit_digitChar [simp]: "n < 10 \<Longrightarrow> isDigit (digitChar n)"
  by (simp add: isDigit_def)

lemma colon_not_digit [simp]: "\<not> isDigit colon"
  by (simp add: isDigit_def)

lemma list_all_showNat: "list_all isDigit (showNat n)"
  by (induction n rule: showNat.induct) (subst showNat.simps, simp)

lemma showNat_not_Nil [simp]: "showNat n \<noteq> []"
  by (subst showNat.simps) simp

lemma readNat_snoc: "readNat (ds @ [c]) = readNat ds * 10 + (of_char c - 48)"
  by (simp add: readNat_def)

lemma readNat_showNat [simp]: "readNat (showNat n) = n"
proof (induction n rule: showNat.induct)
  case (1 n)
  show ?case
  proof (cases "n < 10")
    case True
    then show ?thesis by (subst showNat.simps) (simp add: readNat_def)
  next
    case False
    then show ?thesis using 1 by (subst showNat.simps) (simp add: readNat_snoc)
  qed
qed

lemma length_showNat: "n < 10 ^ Suc k \<Longrightarrow> length (showNat n) \<le> Suc k"
proof (induction k arbitrary: n)
  case 0
  then show ?case by (subst showNat.simps) simp
next
  case (Suc k)
  have "n div 10 < 10 ^ Suc k" using Suc.prems by (simp add: less_mult_imp_div_less)
  from Suc.IH[OF this] show ?case by (subst showNat.simps) simp
qed

lemma takeWhile_digits: "list_all isDigit ds \<Longrightarrow> takeWhile (\<lambda>c. c \<noteq> colon) (ds @ colon # rest) = ds"
  by (induction ds) auto

lemma TakeField_frame:
  assumes "list_all isDigit ds" "ds \<noteq> []" "length ds \<le> 7" "readNat ds = length field"
  shows "TakeField (ds @ colon # field @ rest) = Some (field, rest)"
  using assms takeWhile_digits[OF assms(1), of "field @ rest"] by (simp add: TakeField_def)

lemma TakeField_AppendField [simp]:
  assumes "length field < 10000000"
  shows "TakeField (AppendField field @ rest) = Some (field, rest)"
  using TakeField_frame[of "showNat (length field)" field rest] length_showNat[of "length field" 6] list_all_showNat assms
  by (simp add: AppendField_def)

lemma TakeField_last [simp]: "length field < 10000000 \<Longrightarrow> TakeField (AppendField field) = Some (field, [])"
  using TakeField_AppendField[of field "[]"] by simp

lemma length_AppendField: "length field < length (AppendField field)"
  by (simp add: AppendField_def)

lemma AppendField_Cons: "\<exists>c cs. AppendField field @ rest = c # cs"
  by (cases "AppendField field @ rest") (auto simp: AppendField_def)

section \<open>Locators parse back\<close>

definition wellNamed :: "ContainerHop \<Rightarrow> bool" where
  "wellNamed h \<longleftrightarrow> hopProvider h \<noteq> [] \<and> hopEntry h \<noteq> []"

definition wellLocated :: "Locator \<Rightarrow> bool" where
  "wellLocated v \<longleftrightarrow> locatorRoot v \<noteq> [] \<and> list_all wellNamed (nesting v) \<and> length (nesting v) \<le> 32
     \<and> (locatorKind v = Archive \<longleftrightarrow> nesting v \<noteq> [])"

lemma parseHops_roundtrip:
  "list_all wellNamed hs \<Longrightarrow> length hs \<le> count \<Longrightarrow> length (concat (map hopText hs)) < 10000000 \<Longrightarrow>
   parseHops count (concat (map hopText hs)) = Some hs"
proof (induction hs arbitrary: count)
  case (Cons h hs)
  obtain k where k: "count = Suc k" using Cons.prems(2) by (cases count) auto
  let ?rest = "concat (map hopText hs)"
  obtain c cs where c: "concat (map hopText (h # hs)) = c # cs"
    using AppendField_Cons[of "hopProvider h" "AppendField (hopEntry h) @ ?rest"] by (auto simp: hopText_def)
  have "length (hopText h @ ?rest) < 10000000" using Cons.prems(3) by simp
  then have sizes: "length (hopProvider h) < 10000000" "length (hopEntry h) < 10000000" "length ?rest < 10000000"
    using length_AppendField[of "hopProvider h"] length_AppendField[of "hopEntry h"] unfolding hopText_def length_append by linarith+
  have "TakeField (c # cs) = Some (hopProvider h, AppendField (hopEntry h) @ ?rest)"
    unfolding c[symmetric] using sizes by (simp add: hopText_def)
  then show ?case using Cons sizes unfolding c k by (simp add: wellNamed_def)
qed simp

lemma kindOf_number [simp]: "kindOf (digitChar (kindNumber k)) = Some k"
  by (cases k) (simp_all add: kindOf_def)

lemma showNat_kind [simp]: "showNat (kindNumber k) = [digitChar (kindNumber k)]"
  by (cases k) (simp_all add: showNat.simps)

lemma ParseLocator_Serialize:
  assumes "wellLocated v" "length (SerializeLocator v) \<le> ParseLimit"
  shows "ParseLocator (SerializeLocator v) = Some v"
proof -
  have sizes: "length (locatorRoot v) < 10000000" "length (concat (map hopText (nesting v))) < 10000000"
    using assms(2) length_AppendField[of "locatorRoot v"] by (auto simp: SerializeLocator_def)
  have "parseHops 32 (concat (map hopText (nesting v))) = Some (nesting v)"
    using parseHops_roundtrip[of "nesting v" 32] assms(1) sizes by (simp add: wellLocated_def)
  then show ?thesis using assms sizes by (simp add: ParseLocator_def SerializeLocator_def wellLocated_def)
qed

lemma parseHops_wellNamed:
  "parseHops count s = Some hs \<Longrightarrow> list_all wellNamed hs \<and> length hs \<le> count"
  by (induction count s arbitrary: hs rule: parseHops.induct) (auto simp: wellNamed_def split: option.splits if_splits)

lemmas parseHops_parts = parseHops_wellNamed[THEN conjunct1] parseHops_wellNamed[THEN conjunct2]

lemma ParseLocator_well: "ParseLocator s = Some v \<Longrightarrow> wellLocated v"
  by (auto simp: ParseLocator_def wellLocated_def parseHops_parts split: if_splits option.splits list.splits)

section \<open>Nothing is longer than what it was parsed from\<close>

lemma readNat_bound: "list_all isDigit ds \<Longrightarrow> readNat ds < 10 ^ length ds"
proof (induction ds rule: rev_induct)
  case (snoc c ds)
  then have "(of_char c :: nat) - 48 < 10" by (auto simp: isDigit_def)
  then show ?case using snoc by (simp add: readNat_snoc)
qed (simp add: readNat_def)

lemma length_showNat_readNat:
  assumes "list_all isDigit ds" "ds \<noteq> []"
  shows "length (showNat (readNat ds)) \<le> length ds"
proof -
  obtain k where "length ds = Suc k" using assms(2) by (cases ds) auto
  then show ?thesis using readNat_bound[OF assms(1)] length_showNat[of "readNat ds" k] by simp
qed

lemma drop_takeWhile:
  "colon \<in> set s \<Longrightarrow> s = takeWhile (\<lambda>c. c \<noteq> colon) s @ colon # drop (Suc (length (takeWhile (\<lambda>c. c \<noteq> colon) s))) s"
  by (induction s) auto

lemma TakeField_length:
  assumes "TakeField s = Some (field, rest)"
  shows "length (AppendField field) + length rest \<le> length s"
proof -
  let ?ds = "takeWhile (\<lambda>c. c \<noteq> colon) s" and ?rest = "drop (Suc (length (takeWhile (\<lambda>c. c \<noteq> colon) s))) s"
  have ok: "colon \<in> set s" "?ds \<noteq> []" "list_all isDigit ?ds" "readNat ?ds \<le> length ?rest"
    and parts: "field = take (readNat ?ds) ?rest" "rest = drop (readNat ?ds) ?rest"
    using assms by (auto simp: TakeField_def Let_def split: if_splits)
  have "length s = length ?ds + Suc (length ?rest)"
    using arg_cong[OF drop_takeWhile[OF ok(1)], of length] by simp
  moreover have "length field = readNat ?ds" "length field + length rest = length ?rest" using ok(4) parts by simp_all
  ultimately show ?thesis using length_showNat_readNat[OF ok(3,2)] by (simp add: AppendField_def)
qed

lemma parseHops_length: "parseHops count s = Some hs \<Longrightarrow> length (concat (map hopText hs)) \<le> length s"
proof (induction count s arbitrary: hs rule: parseHops.induct)
  case (3 count c cs)
  then obtain provider rest entry rest' hs' where parts: "TakeField (c # cs) = Some (provider, rest)" "provider \<noteq> []"
      "TakeField rest = Some (entry, rest')" "entry \<noteq> []" "parseHops count rest' = Some hs'"
      "hs = \<lparr>hopProvider = provider, hopEntry = entry\<rparr> # hs'"
    by (auto split: option.splits if_splits)
  have "length (concat (map hopText hs')) \<le> length rest'" by (rule "3.IH"[OF parts(1) refl parts(2) parts(3) refl parts(4) parts(5)])
  then show ?case using TakeField_length[OF parts(1)] TakeField_length[OF parts(3)] parts(6)
    by (simp add: hopText_def[of "\<lparr>hopProvider = provider, hopEntry = entry\<rparr>"])
qed auto

lemma kindOf_char: "kindOf c = Some k \<Longrightarrow> [c] = showNat (kindNumber k)"
  by (auto simp: kindOf_def split: if_splits)

lemma ParseLocator_length: "ParseLocator s = Some v \<Longrightarrow> length (SerializeLocator v) \<le> length s"
proof -
  assume "ParseLocator s = Some v"
  then obtain c rest rest' where s: "take 4 s = ''hcl1''" and parts: "TakeField (drop 4 s) = Some ([c], rest)"
      "kindOf c = Some (locatorKind v)" "TakeField rest = Some (locatorRoot v, rest')" "parseHops 32 rest' = Some (nesting v)"
    by (auto simp: ParseLocator_def split: if_splits option.splits list.splits)
  have "length (take 4 s) = 4" unfolding s by simp
  then have "4 \<le> length s" by simp
  then show ?thesis using TakeField_length[OF parts(1)] TakeField_length[OF parts(3)] parseHops_length[OF parts(4)] kindOf_char[OF parts(2)]
    by (simp add: SerializeLocator_def)
qed

section \<open>Resources parse back\<close>

definition wellKeyed :: "ResourceId \<Rightarrow> bool" where
  "wellKeyed v \<longleftrightarrow> providerId v \<noteq> [] \<and> resourceKey v \<noteq> []"

lemma ParseResource_Serialize:
  assumes "wellKeyed v" "length (SerializeResource v) \<le> ParseLimit"
  shows "ParseResourceId (SerializeResource v) = Some v"
proof -
  have sizes: "length (providerId v) < 10000000" "length (resourceKey v) < 10000000"
    using assms(2) length_AppendField[of "providerId v"] length_AppendField[of "resourceKey v"] by (auto simp: SerializeResource_def)
  have token: "length t < 10000000" if "revision v = Some t" for t
    using assms(2) length_AppendField[of t] that by (simp add: SerializeResource_def)
  show ?thesis using assms sizes token
    by (cases "revision v"; cases "idScope v") (simp_all add: ParseResourceId_def SerializeResource_def wellKeyed_def Let_def)
qed

section \<open>Formats\<close>

text \<open>What both formats promise their users: a good value parses back, and therefore two good values
  with one text are equal, so that a text can stand for its value in a set.\<close>

locale format =
  fixes good :: "'v \<Rightarrow> bool" and write_text :: "'v \<Rightarrow> string" and parse :: "string \<Rightarrow> 'v option"
  assumes parses_back: "good v \<Longrightarrow> parse (write_text v) = Some v"
begin

lemma separates: "good u \<Longrightarrow> good v \<Longrightarrow> write_text u = write_text v \<Longrightarrow> u = v"
  by (metis option.inject parses_back)

lemma separates_set: "list_all good vs \<Longrightarrow> distinct vs \<Longrightarrow> distinct (map write_text vs)"
  by (induction vs) (auto simp: list_all_iff dest: separates)

end

interpretation locators: format "\<lambda>v. wellLocated v \<and> length (SerializeLocator v) \<le> ParseLimit" SerializeLocator ParseLocator
  by unfold_locales (simp add: ParseLocator_Serialize)

interpretation resources: format "\<lambda>v. wellKeyed v \<and> length (SerializeResource v) \<le> ParseLimit" SerializeResource ParseResourceId
  by unfold_locales (simp add: ParseResource_Serialize)

section \<open>Properties\<close>

text \<open>C27: A locator within the limits of the format parses back from its serialization, and whatever
  \<open>ParseLocator\<close> accepts, in this spelling or another, is a well-formed locator whose serialization is
  no longer than the input and parses to the same locator: the accepted texts denote exactly the
  well-formed locators, and \<open>Serialize\<close> gives each its shortest text.\<close>

theorem Locator_roundtrip:
  "(wellLocated v \<and> length (SerializeLocator v) \<le> ParseLimit \<longrightarrow> ParseLocator (SerializeLocator v) = Some v)
   \<and> (ParseLocator s = Some v \<longrightarrow>
        wellLocated v \<and> length (SerializeLocator v) \<le> length s \<and> ParseLocator (SerializeLocator v) = Some v)"
proof (intro conjI impI)
  show "ParseLocator (SerializeLocator v) = Some v" if "wellLocated v \<and> length (SerializeLocator v) \<le> ParseLimit"
    using that by (simp add: locators.parses_back)
next
  assume s: "ParseLocator s = Some v"
  then have "length s \<le> ParseLimit" by (simp add: ParseLocator_def split: if_splits)
  then show "wellLocated v" "length (SerializeLocator v) \<le> length s" "ParseLocator (SerializeLocator v) = Some v"
    using ParseLocator_well[OF s] ParseLocator_length[OF s] ParseLocator_Serialize[of v] by simp_all
qed

theorem Locator_roundtrip_witness:
  "ParseLocator (SerializeLocator \<lparr>locatorKind = Archive, locatorRoot = ''a'', nesting = [\<lparr>hopProvider = ''z'', hopEntry = ''b:c''\<rparr>]\<rparr>)
     = Some \<lparr>locatorKind = Archive, locatorRoot = ''a'', nesting = [\<lparr>hopProvider = ''z'', hopEntry = ''b:c''\<rparr>]\<rparr>
   \<and> wellLocated \<lparr>locatorKind = Shell, locatorRoot = ''q'', nesting = []\<rparr>"
proof -
  have a: "wellLocated \<lparr>locatorKind = Archive, locatorRoot = ''a'', nesting = [\<lparr>hopProvider = ''z'', hopEntry = ''b:c''\<rparr>]\<rparr>"
    by (simp add: wellLocated_def wellNamed_def)
  have b: "length (SerializeLocator \<lparr>locatorKind = Archive, locatorRoot = ''a'', nesting = [\<lparr>hopProvider = ''z'', hopEntry = ''b:c''\<rparr>]\<rparr>) \<le> ParseLimit"
    by (simp add: SerializeLocator_def AppendField_def hopText_def showNat_small)
  have c: "ParseLocator (SerializeLocator \<lparr>locatorKind = Shell, locatorRoot = ''q'', nesting = []\<rparr>)
      = Some \<lparr>locatorKind = Shell, locatorRoot = ''q'', nesting = []\<rparr>"
    by (rule ParseLocator_Serialize) (simp_all add: wellLocated_def SerializeLocator_def AppendField_def showNat_small)
  show ?thesis using Locator_roundtrip[THEN conjunct1, THEN mp, OF conjI, OF a b] Locator_roundtrip[THEN conjunct2, THEN mp, OF c] by blast
qed

text \<open>A resource with a provider and a key parses back from its serialization, so two resources with
  the same text are equal.\<close>

theorem Resource_roundtrip:
  assumes "wellKeyed v" "length (SerializeResource v) \<le> ParseLimit"
  shows "ParseResourceId (SerializeResource v) = Some v
    \<and> (wellKeyed u \<and> SerializeResource u = SerializeResource v \<longrightarrow> u = v)"
proof (intro conjI impI)
  show "ParseResourceId (SerializeResource v) = Some v" using assms by (simp add: resources.parses_back)
  show "u = v" if "wellKeyed u \<and> SerializeResource u = SerializeResource v"
    by (rule resources.separates) (use that assms in auto)
qed

theorem Resource_roundtrip_witness:
  "ParseResourceId (SerializeResource \<lparr>providerId = ''p'', resourceKey = ''k'', idScope = Persistent, revision = Some ''r''\<rparr>)
     = Some \<lparr>providerId = ''p'', resourceKey = ''k'', idScope = Persistent, revision = Some ''r''\<rparr>"
  by (rule Resource_roundtrip[THEN conjunct1])
    (simp_all add: wellKeyed_def SerializeResource_def AppendField_def showNat_small)

end
