(* ===== verification/EventHub.thy ===== *)
theory EventHub
  imports "HOL-Library.Word" "HOL-Library.Sublist"
begin

text \<open>
  The event side of \<open>commonLibs/commands/commandBus.hpp\<close>: envelopes, the subscribers with
  their bounded queues (\<open>detail::Subscriber\<close>), subscriptions and \<open>EventHub\<close>.

  Every section the code runs under a mutex is one step.  What happens between the locks is
  kept as the \<open>agents\<close> of a subscriber: a publisher that is about to post the drain, a
  drain accepted by the executor, a drain about to take its next event, a drain inside the
  callback.  The agents are also the owners of the subscriber besides its subscription, so a
  subscriber that has neither is one whose weak pointer has expired.

  \<open>taken\<close>, \<open>enqueued\<close>, \<open>dropped\<close> and \<open>published\<close> are the history of a run and no part
  of the code's state: the events handed to the callback, the events ever put into the
  queue, whether the executor destroyed an accepted drain (it is shutting down), and the
  number of events numbered so far.
\<close>

section \<open>Values and envelopes\<close>

text \<open>\<open>std::variant<bool, std::int64_t, std::string>\<close>, and \<open>std::map\<close> as the list of its
  entries in the order of their keys.\<close>

datatype Value = Boolean bool | Integer "64 word" | String string

type_synonym Parameters = "(string \<times> Value) list"

record EventEnvelope =
  evId :: string
  evSchema :: "32 word"
  evTime :: nat
  evProducer :: string
  evCorrelation :: string
  evCausation :: string
  evSequence :: "64 word"
  evPayload :: Parameters
  evProgress :: bool

record PublishResult =
  accepted :: nat
  coalesced :: nat
  rejected :: nat

section \<open>Subscribers\<close>

datatype agent = Waking | Posted | Draining nat | Calling nat EventEnvelope

record Subscriber =
  active :: bool
  scheduled :: bool
  capacity :: nat
  filterId :: string
  queue :: "EventEnvelope list"
  held :: bool
  agents :: "agent list"
  taken :: "EventEnvelope list"
  enqueued :: "EventEnvelope list"
  dropped :: bool

definition Close :: "Subscriber \<Rightarrow> Subscriber" where
  "Close s = s\<lparr>active := False, queue := []\<rparr>"

text \<open>
  What the owner of an agent can do next: the executor answers \<open>Post\<close>, runs or destroys
  the work it accepted; a drain takes an event or ends; a callback returns or throws.
  The result is the subscriber and what becomes of the agent.
\<close>

datatype choice = PostAccepted | PostRefused | Run | Destroyed | Take | CallbackReturned | CallbackThrew

text \<open>The body of the loop of \<open>Drain\<close> up to the callback; after 16 events the drain posts
  itself again.\<close>

definition Batch :: nat where "Batch = 16"

definition takeEvent :: "nat \<Rightarrow> Subscriber \<Rightarrow> Subscriber \<times> agent option" where
  "takeEvent i s =
     (if Batch \<le> i then (s, Some Waking)
      else if \<not> active s \<or> queue s = [] then (s\<lparr>scheduled := False\<rparr>, None)
      else (s\<lparr>queue := tl (queue s), taken := taken s @ [hd (queue s)]\<rparr>,
            Some (Calling i (hd (queue s)))))"

fun agentMove :: "choice \<Rightarrow> agent \<Rightarrow> Subscriber \<Rightarrow> (Subscriber \<times> agent option) option" where
  "agentMove PostAccepted Waking s = Some (s, Some Posted)"
| "agentMove PostRefused Waking s = Some (Close s, None)"
| "agentMove Run Posted s = Some (s, Some (Draining 0))"
| "agentMove Destroyed Posted s = Some (s\<lparr>dropped := True\<rparr>, None)"
| "agentMove Take (Draining i) s = Some (takeEvent i s)"
| "agentMove CallbackReturned (Calling i e) s = Some (s, Some (Draining (Suc i)))"
| "agentMove CallbackThrew (Calling i e) s = Some (Close s, None)"
| "agentMove _ _ s = None"

definition move :: "choice \<Rightarrow> nat \<Rightarrow> Subscriber \<Rightarrow> Subscriber" where
  "move c j s =
     (if j < length (agents s) then
        (case agentMove c (agents s ! j) s of None \<Rightarrow> s
         | Some (s', a) \<Rightarrow>
             s'\<lparr>agents := take j (agents s) @ (case a of None \<Rightarrow> [] | Some b \<Rightarrow> [b]) @ drop (Suc j) (agents s)\<rparr>)
      else s)"

section \<open>The hub\<close>

record EventHub =
  hubSequence :: "64 word"
  subscribers :: "Subscriber list"
  published :: nat

definition emptyHub :: EventHub where
  "emptyHub = \<lparr>hubSequence = 0, subscribers = [], published = 0\<rparr>"

text \<open>\<open>Subscribe\<close>; the first two arguments say whether the executor and the callback are given.\<close>

definition newSubscriber :: "string \<Rightarrow> nat \<Rightarrow> Subscriber" where
  "newSubscriber wanted cap = \<lparr>active = True, scheduled = False, capacity = cap, filterId = wanted,
     queue = [], held = True, agents = [], taken = [], enqueued = [], dropped = False\<rparr>"

definition Subscribe :: "bool \<Rightarrow> bool \<Rightarrow> string \<Rightarrow> nat \<Rightarrow> EventHub \<Rightarrow> string + EventHub" where
  "Subscribe executor callback wanted cap h =
     (if \<not> executor \<or> \<not> callback \<or> cap = 0 \<or> 65536 < cap then Inl ''invalid-subscription''
      else Inr (h\<lparr>subscribers := subscribers h @ [newSubscriber wanted cap]\<rparr>))"

text \<open>\<open>EventSubscription::Reset\<close>.\<close>

definition Reset :: "Subscriber \<Rightarrow> Subscriber" where
  "Reset s = (if held s then (Close s)\<lparr>held := False\<rparr> else s)"

definition supersedes :: "EventEnvelope \<Rightarrow> EventEnvelope \<Rightarrow> bool" where
  "supersedes e p \<longleftrightarrow> evProgress p \<and> evId p = evId e \<and> evCorrelation p = evCorrelation e"

fun eraseFirst :: "('a \<Rightarrow> bool) \<Rightarrow> 'a list \<Rightarrow> 'a list" where
  "eraseFirst P [] = []"
| "eraseFirst P (x # xs) = (if P x then xs else x # eraseFirst P xs)"

definition wants :: "Subscriber \<Rightarrow> EventEnvelope \<Rightarrow> bool" where
  "wants s e \<longleftrightarrow> active s \<and> (filterId s = [] \<or> filterId s = evId e)"

definition merged :: "EventEnvelope \<Rightarrow> Subscriber \<Rightarrow> bool" where
  "merged e s \<longleftrightarrow> evProgress e \<and> list_ex (supersedes e) (queue s)"

definition room :: "EventEnvelope \<Rightarrow> Subscriber \<Rightarrow> EventEnvelope list" where
  "room e s = (if merged e s then eraseFirst (supersedes e) (queue s) else queue s)"

text \<open>What \<open>Publish\<close> does to one subscriber under the locks; a subscriber that was not
  scheduled gets a new agent, which will post its drain once the locks are released.\<close>

definition offer :: "EventEnvelope \<Rightarrow> Subscriber \<Rightarrow> Subscriber" where
  "offer e s =
     (if \<not> wants s e then s
      else if capacity s \<le> length (room e s) then s\<lparr>queue := room e s\<rparr>
      else s\<lparr>queue := room e s @ [e], enqueued := enqueued s @ [e], scheduled := True,
             agents := (if scheduled s then agents s else agents s @ [Waking])\<rparr>)"

definition offerResult :: "EventEnvelope \<Rightarrow> Subscriber \<Rightarrow> PublishResult \<Rightarrow> PublishResult" where
  "offerResult e s r =
     (if \<not> wants s e then r
      else let r' = (if merged e s then r\<lparr>coalesced := Suc (coalesced r)\<rparr> else r) in
        if capacity s \<le> length (room e s) then r'\<lparr>rejected := Suc (rejected r')\<rparr>
        else r'\<lparr>accepted := Suc (accepted r')\<rparr>)"

definition expired :: "Subscriber \<Rightarrow> bool" where
  "expired s \<longleftrightarrow> \<not> held s \<and> agents s = []"

definition invalid :: "EventEnvelope \<Rightarrow> bool" where
  "invalid e \<longleftrightarrow> evId e = [] \<or> evSchema e \<noteq> 1"

definition stamp :: "nat \<Rightarrow> EventHub \<Rightarrow> EventEnvelope \<Rightarrow> EventEnvelope" where
  "stamp now h e = e\<lparr>evSequence := hubSequence h + 1, evTime := now\<rparr>"

definition enqueue :: "nat \<Rightarrow> EventEnvelope \<Rightarrow> EventHub \<Rightarrow> EventHub" where
  "enqueue now e h = (if invalid e then h
     else h\<lparr>hubSequence := hubSequence h + 1, published := Suc (published h),
            subscribers := map (offer (stamp now h e)) (filter (\<lambda>s. \<not> expired s) (subscribers h))\<rparr>)"

definition enqueueResult :: "nat \<Rightarrow> EventEnvelope \<Rightarrow> EventHub \<Rightarrow> PublishResult" where
  "enqueueResult now e h =
     (if invalid e then \<lparr>accepted = 0, coalesced = 0, rejected = 1\<rparr>
      else fold (offerResult (stamp now h e)) (filter (\<lambda>s. \<not> expired s) (subscribers h))
             \<lparr>accepted = 0, coalesced = 0, rejected = 0\<rparr>)"

text \<open>The whole of \<open>Publish\<close> without interruption: after the locks, \<open>Schedule\<close> for the
  subscribers it woke; \<open>post k\<close> is the answer of the executor to the \<open>k\<close>-th of them.\<close>

definition wakes :: "EventEnvelope \<Rightarrow> Subscriber \<Rightarrow> bool" where
  "wakes e s \<longleftrightarrow> wants s e \<and> length (room e s) < capacity s \<and> \<not> scheduled s"

fun scheduleAll :: "(nat \<Rightarrow> bool) \<Rightarrow> nat \<Rightarrow> (Subscriber \<times> bool) list \<Rightarrow> Subscriber list \<times> nat" where
  "scheduleAll post k [] = ([], 0)"
| "scheduleAll post k ((s, False) # rest) =
     (let (ss, failed) = scheduleAll post k rest in (s # ss, failed))"
| "scheduleAll post k ((s, True) # rest) =
     (let (ss, failed) = scheduleAll post (Suc k) rest in
        (move (if post k then PostAccepted else PostRefused) (length (agents s) - 1) s # ss,
         if post k then failed else Suc failed))"

definition Publish :: "(nat \<Rightarrow> bool) \<Rightarrow> nat \<Rightarrow> EventEnvelope \<Rightarrow> EventHub \<Rightarrow> EventHub \<times> PublishResult" where
  "Publish post now e h =
     (if invalid e then (h, enqueueResult now e h)
      else let live = filter (\<lambda>s. \<not> expired s) (subscribers h);
               (ss, failed) = scheduleAll post 0 (zip (map (offer (stamp now h e)) live) (map (wakes (stamp now h e)) live));
               r = enqueueResult now e h
           in (h\<lparr>hubSequence := hubSequence h + 1, published := Suc (published h), subscribers := ss\<rparr>,
               r\<lparr>accepted := accepted r - failed, rejected := rejected r + failed\<rparr>))"

section \<open>Runs\<close>

definition at :: "nat \<Rightarrow> (Subscriber \<Rightarrow> Subscriber) \<Rightarrow> EventHub \<Rightarrow> EventHub" where
  "at i f h = (if i < length (subscribers h)
     then h\<lparr>subscribers := (subscribers h)[i := f (subscribers h ! i)]\<rparr> else h)"

inductive reachable :: "EventHub \<Rightarrow> bool" where
  start: "reachable emptyHub"
| subscribe: "reachable h \<Longrightarrow> Subscribe x c wanted cap h = Inr h' \<Longrightarrow> reachable h'"
| publish: "reachable h \<Longrightarrow> reachable (enqueue now e h)"
| reset: "reachable h \<Longrightarrow> reachable (at i Reset h)"
| agent: "reachable h \<Longrightarrow> reachable (at i (move c j) h)"

section \<open>The invariant of a subscriber\<close>

definition plain :: "EventEnvelope list \<Rightarrow> EventEnvelope list" where
  "plain es = filter (\<lambda>e. \<not> evProgress e) es"

definition agentOk :: "Subscriber \<Rightarrow> agent \<Rightarrow> bool" where
  "agentOk s a = (case a of Draining k \<Rightarrow> k \<le> Batch
     | Calling k e \<Rightarrow> k < Batch \<and> taken s \<noteq> [] \<and> e = last (taken s) | _ \<Rightarrow> True)"

definition wakeInv :: "Subscriber \<Rightarrow> bool" where
  "wakeInv s \<longleftrightarrow> length (agents s) \<le> 1 \<and> (agents s \<noteq> [] \<longrightarrow> scheduled s)
     \<and> (active s \<and> scheduled s \<and> \<not> dropped s \<longrightarrow> agents s \<noteq> [])
     \<and> (active s \<and> queue s \<noteq> [] \<longrightarrow> scheduled s)
     \<and> list_all (agentOk s) (agents s)"

definition queueInv :: "Subscriber \<Rightarrow> bool" where
  "queueInv s \<longleftrightarrow> (\<not> active s \<longrightarrow> queue s = []) \<and> 0 < capacity s \<and> length (queue s) \<le> capacity s
     \<and> subseq (taken s @ queue s) (enqueued s)
     \<and> (active s \<longrightarrow> plain (taken s @ queue s) = plain (enqueued s))"

lemma length_eraseFirst [simp]: "length (eraseFirst P xs) \<le> length xs"
  by (induction xs) auto

lemma subseq_eraseFirst [simp]: "subseq (eraseFirst P xs) xs"
  by (induction xs) auto

lemma plain_Nil [simp]: "plain [] = []"
  by (simp add: plain_def)

lemma plain_Cons [simp]: "plain (x # xs) = (if evProgress x then plain xs else x # plain xs)"
  by (simp add: plain_def)

lemma plain_append [simp]: "plain (xs @ ys) = plain xs @ plain ys"
  by (simp add: plain_def)

lemma plain_eraseFirst [simp]: "plain (eraseFirst (supersedes e) q) = plain q"
  by (induction q) (auto simp: plain_def supersedes_def)

lemma plain_room [simp]: "plain (room e s) = plain (queue s)"
  by (simp add: room_def)

lemma subseq_room [simp]: "subseq (room e s) (queue s)"
  by (simp add: room_def)

lemma length_room [simp]: "length (room e s) \<le> length (queue s)"
  by (simp add: room_def)

lemma room_Nil [simp]: "queue s = [] \<Longrightarrow> room e s = []"
  by (simp add: room_def)

lemma wakeInv_new: "0 < cap \<Longrightarrow> wakeInv (newSubscriber wanted cap)"
  and queueInv_new: "0 < cap \<Longrightarrow> queueInv (newSubscriber wanted cap)"
  by (simp_all add: wakeInv_def queueInv_def newSubscriber_def)

lemma wakeInv_Close: "wakeInv s \<Longrightarrow> wakeInv (Close s)"
  by (cases "agents s") (auto simp: wakeInv_def Close_def agentOk_def split: agent.splits)

lemma queueInv_Close: "queueInv s \<Longrightarrow> queueInv (Close s)"
  using subseq_order.trans [OF subseq_rev_drop_many [OF subseq_order.order_refl]]
  by (auto simp: queueInv_def Close_def)

lemma wakeInv_Reset: "wakeInv s \<Longrightarrow> wakeInv (Reset s)"
  by (cases "agents s") (auto simp: Reset_def wakeInv_def Close_def agentOk_def split: agent.splits)

lemma queueInv_Reset: "queueInv s \<Longrightarrow> queueInv (Reset s)"
  using queueInv_Close [of s] by (simp add: Reset_def) (simp add: queueInv_def)

lemma wakeInv_offer: "wakeInv s \<Longrightarrow> wakeInv (offer e s)"
  by (cases "agents s") (auto simp: wakeInv_def offer_def wants_def agentOk_def split: agent.splits)

lemma queueInv_offer:
  assumes "queueInv s"
  shows "queueInv (offer e s)"
proof -
  have "subseq (taken s @ room e s) (enqueued s)"
    by (rule subseq_order.trans [of _ "taken s @ queue s"]) (use assms in \<open>simp_all add: queueInv_def subseq_append'\<close>)
  then have "subseq ((taken s @ room e s) @ [e]) (enqueued s @ [e])"
    by (rule list_emb_append_mono) simp
  with \<open>subseq (taken s @ room e s) (enqueued s)\<close> show ?thesis
    using assms le_trans [OF length_room, of s "capacity s" e]
    by (auto simp: queueInv_def offer_def wants_def)
qed

lemma single: "length xs \<le> 1 \<Longrightarrow> j < length xs \<Longrightarrow> j = 0 \<and> xs = [xs ! 0]"
  by (cases xs) auto

lemma wakeInv_move: "wakeInv s \<Longrightarrow> wakeInv (move c j s)"
proof (cases "j < length (agents s)")
  case True
  assume inv: "wakeInv s"
  then have j: "j = 0" "agents s = [agents s ! 0]"
    using True single [of "agents s" j] by (auto simp: wakeInv_def)
  then obtain a where a: "agents s = [a]" by metis
  show ?thesis
    using inv a j(1) by (cases c; cases a) (auto simp: move_def wakeInv_def Close_def takeEvent_def Batch_def agentOk_def)
qed (simp add: move_def)

lemma queueInv_agents [simp]: "queueInv (s\<lparr>agents := as\<rparr>) = queueInv s"
  by (simp add: queueInv_def)

lemma queueInv_takeEvent: "queueInv s \<Longrightarrow> queueInv (fst (takeEvent i s))"
  by (cases "queue s") (auto simp: queueInv_def takeEvent_def)

lemma queueInv_agentMove: "queueInv s \<Longrightarrow> agentMove c a s = Some (s', b) \<Longrightarrow> queueInv s'"
  using queueInv_Close [of s] queueInv_takeEvent [of s]
  by (cases c; cases a) (auto simp: prod_eq_iff, auto simp: queueInv_def)

lemma queueInv_move: "queueInv s \<Longrightarrow> queueInv (move c j s)"
  by (auto simp: move_def queueInv_agentMove split: option.split prod.splits)

section \<open>Every reachable hub\<close>

definition everySubscriber :: "(Subscriber \<Rightarrow> bool) \<Rightarrow> EventHub \<Rightarrow> bool" where
  "everySubscriber P h \<longleftrightarrow> (\<forall>s\<in>set (subscribers h). P s)"

lemma everySubscriber_at: "everySubscriber P h \<Longrightarrow> (\<And>s. P s \<Longrightarrow> P (f s)) \<Longrightarrow> everySubscriber P (at i f h)"
  by (auto simp: everySubscriber_def at_def dest!: set_update_subset_insert [THEN subsetD])

lemma everySubscriber_enqueue:
  "everySubscriber P h \<Longrightarrow> (\<And>s. P s \<Longrightarrow> P (offer (stamp now h e) s)) \<Longrightarrow> everySubscriber P (enqueue now e h)"
  by (auto simp: everySubscriber_def enqueue_def)

lemma everySubscriber_Subscribe:
  "everySubscriber P h \<Longrightarrow> Subscribe x c wanted cap h = Inr h' \<Longrightarrow> (0 < cap \<Longrightarrow> P (newSubscriber wanted cap))
    \<Longrightarrow> everySubscriber P h'"
  by (auto simp: everySubscriber_def Subscribe_def split: if_splits)

text \<open>A property of subscribers that the five operations keep holds in every reachable hub.\<close>

locale subscriber_invariant =
  fixes P :: "Subscriber \<Rightarrow> bool"
  assumes new: "0 < cap \<Longrightarrow> P (newSubscriber wanted cap)"
    and reset: "P s \<Longrightarrow> P (Reset s)"
    and move: "P s \<Longrightarrow> P (move c j s)"
    and offer: "P s \<Longrightarrow> P (offer e s)"
begin

lemma reachable_all: "reachable h \<Longrightarrow> everySubscriber P h"
proof (induction rule: reachable.induct)
  case start
  then show ?case by (simp add: everySubscriber_def emptyHub_def)
next
  case (subscribe h x c wanted cap h')
  then show ?case using everySubscriber_Subscribe new by blast
next
  case (publish h now e)
  then show ?case by (simp add: everySubscriber_enqueue offer)
next
  case (reset h i)
  then show ?case by (simp add: everySubscriber_at subscriber_invariant.reset [OF subscriber_invariant_axioms])
next
  case (agent h i c j)
  then show ?case by (simp add: everySubscriber_at move)
qed

lemma reachable_one: "reachable h \<Longrightarrow> s \<in> set (subscribers h) \<Longrightarrow> P s"
  using reachable_all by (auto simp: everySubscriber_def)

end

interpretation wake: subscriber_invariant wakeInv
  by unfold_locales (auto intro: wakeInv_new wakeInv_Reset wakeInv_move wakeInv_offer)

interpretation pending: subscriber_invariant queueInv
  by unfold_locales (auto intro: queueInv_new queueInv_Reset queueInv_move queueInv_offer)

section \<open>The order of the numbers\<close>

definition numbered :: "nat \<Rightarrow> Subscriber \<Rightarrow> bool" where
  "numbered n s \<longleftrightarrow> sorted_wrt (\<lambda>a b. unat (evSequence a) < unat (evSequence b)) (enqueued s)
     \<and> list_all (\<lambda>e. unat (evSequence e) \<le> n) (enqueued s)"

definition sequenceInv :: "EventHub \<Rightarrow> bool" where
  "sequenceInv h \<longleftrightarrow> (published h < 2 ^ 64 \<longrightarrow>
     unat (hubSequence h) = published h \<and> everySubscriber (numbered (published h)) h)"

lemma subseq_sorted_wrt: "subseq xs ys \<Longrightarrow> sorted_wrt R ys \<Longrightarrow> sorted_wrt R xs"
  by (induction rule: list_emb.induct) (auto dest: list_emb_set)

lemma enqueued_agentMove: "agentMove c a s = Some (s', b) \<Longrightarrow> enqueued s' = enqueued s"
  by (cases c; cases a) (auto simp: Close_def takeEvent_def split: if_splits)

lemma enqueued_move [simp]: "enqueued (move c j s) = enqueued s"
  by (auto simp: move_def enqueued_agentMove split: option.split prod.splits)

lemma enqueued_Reset [simp]: "enqueued (Reset s) = enqueued s"
  by (simp add: Reset_def Close_def)

lemma numbered_offer:
  assumes "numbered n s" and "unat (evSequence e) = Suc n"
  shows "numbered (Suc n) (offer e s)"
  using assms by (auto simp: numbered_def offer_def sorted_wrt_append list_all_iff le_Suc_eq less_Suc_eq_le)

lemma unat_next: "unat (w :: 64 word) = n \<Longrightarrow> Suc n < 2 ^ 64 \<Longrightarrow> unat (w + 1) = Suc n"
  by (simp add: unat_word_ariths)

lemma sequenceInv_enqueue: "sequenceInv h \<Longrightarrow> sequenceInv (enqueue now e h)"
  by (auto simp: sequenceInv_def enqueue_def everySubscriber_def stamp_def unat_next numbered_offer)

lemma sequenceInv_at: "sequenceInv h \<Longrightarrow> (\<And>s. enqueued (f s) = enqueued s) \<Longrightarrow> sequenceInv (at i f h)"
  using everySubscriber_at [of "numbered (published h)" h f i]
  by (auto simp: sequenceInv_def at_def numbered_def)

lemma sequenceInv_Subscribe: "sequenceInv h \<Longrightarrow> Subscribe x c wanted cap h = Inr h' \<Longrightarrow> sequenceInv h'"
  by (auto simp: sequenceInv_def Subscribe_def everySubscriber_def numbered_def newSubscriber_def split: if_splits)

lemma sequenceInv_empty: "sequenceInv emptyHub"
  by (simp add: sequenceInv_def emptyHub_def everySubscriber_def)

lemma sequenceInv_reachable: "reachable h \<Longrightarrow> sequenceInv h"
  by (induction rule: reachable.induct)
    (auto intro: sequenceInv_enqueue sequenceInv_at sequenceInv_Subscribe sequenceInv_empty)

section \<open>Draining\<close>

text \<open>The executor accepts and runs, and the callbacks return.\<close>

fun obliging :: "agent \<Rightarrow> choice" where
  "obliging Waking = PostAccepted"
| "obliging Posted = Run"
| "obliging (Draining i) = Take"
| "obliging (Calling i e) = CallbackReturned"

definition drainStep :: "Subscriber \<Rightarrow> Subscriber" where
  "drainStep s = (case agents s of [] \<Rightarrow> s | a # _ \<Rightarrow> move (obliging a) 0 s)"

fun agentWork :: "agent \<Rightarrow> nat" where
  "agentWork Waking = 3"
| "agentWork Posted = 2"
| "agentWork (Draining i) = (if Batch \<le> i then 4 else 1)"
| "agentWork (Calling i e) = 5"

definition drainWork :: "Subscriber \<Rightarrow> nat" where
  "drainWork s = 5 * length (queue s) + sum_list (map agentWork (agents s))"

lemma drainStep_Batch: "0 < Batch"
  by (simp add: Batch_def)

lemma drainStep_work:
  assumes "wakeInv s" and "active s" and "agents s \<noteq> []"
  shows "drainWork (drainStep s) < drainWork s"
  using assms
  by (cases "agents s"; cases "hd (agents s)"; cases "queue s")
    (auto simp: wakeInv_def drainStep_def move_def takeEvent_def drainWork_def Batch_def)

lemma drainStep_keeps:
  assumes "wakeInv s" and "active s" and "\<not> dropped s"
  shows "active (drainStep s) \<and> \<not> dropped (drainStep s)
    \<and> taken (drainStep s) @ queue (drainStep s) = taken s @ queue s"
  using assms
  by (cases "agents s"; cases "hd (agents s)"; cases "queue s")
    (auto simp: wakeInv_def drainStep_def move_def takeEvent_def)

lemma drainStep_wakeInv: "wakeInv s \<Longrightarrow> wakeInv (drainStep s)"
  by (simp add: drainStep_def wakeInv_move split: list.split)

lemma drains:
  assumes "wakeInv s" and "active s" and "\<not> dropped s"
  shows "\<exists>n \<le> drainWork s. let s' = (drainStep ^^ n) s in
    queue s' = [] \<and> taken s' = taken s @ queue s \<and> agents s' = [] \<and> \<not> scheduled s' \<and> active s'"
  using assms
proof (induction "drainWork s" arbitrary: s rule: less_induct)
  case less
  show ?case
  proof (cases "agents s = []")
    case True
    then show ?thesis
      using less.prems by (intro exI [of _ 0]) (auto simp: wakeInv_def)
  next
    case False
    note keeps = drainStep_keeps [OF less.prems]
    have "drainWork (drainStep s) < drainWork s"
      using drainStep_work less.prems False by blast
    from less.hyps [OF this drainStep_wakeInv] less.prems keeps
    obtain n where n: "n \<le> drainWork (drainStep s)" "queue ((drainStep ^^ n) (drainStep s)) = []"
        "taken ((drainStep ^^ n) (drainStep s)) = taken s @ queue s"
        "agents ((drainStep ^^ n) (drainStep s)) = []" "\<not> scheduled ((drainStep ^^ n) (drainStep s))"
        "active ((drainStep ^^ n) (drainStep s))"
      by (auto simp: Let_def)
    show ?thesis
      by (rule exI [of _ "Suc n"])
        (use n \<open>drainWork (drainStep s) < drainWork s\<close> in \<open>simp add: funpow_Suc_right del: funpow.simps\<close>)
  qed
qed

section \<open>\<open>Publish\<close> as a run of steps\<close>

lemma at_length [simp]:
  "at (length pre) f (h\<lparr>subscribers := pre @ s # ss\<rparr>) = h\<lparr>subscribers := pre @ f s # ss\<rparr>"
  by (simp add: at_def)

lemma scheduleAll_reachable:
  "reachable (h\<lparr>subscribers := pre @ map fst xs\<rparr>)
    \<Longrightarrow> reachable (h\<lparr>subscribers := pre @ fst (scheduleAll post k xs)\<rparr>)"
proof (induction post k xs arbitrary: pre rule: scheduleAll.induct)
  case (1 post k)
  then show ?case by simp
next
  case (2 post k s rest)
  then show ?case using "2.IH" [of "pre @ [s]"] by (simp add: split_beta)
next
  case (3 post k s rest)
  let ?f = "move (if post k then PostAccepted else PostRefused) (length (agents s) - 1)"
  have "reachable (at (length pre) ?f (h\<lparr>subscribers := pre @ s # map fst rest\<rparr>))"
    by (rule reachable.agent) (use "3.prems" in simp)
  then show ?case
    using "3.IH" [of "pre @ [?f s]"] by (simp add: split_beta del: if_split)
qed

lemma Publish_reachable: "reachable h \<Longrightarrow> reachable (fst (Publish post now e h))"
proof (cases "invalid e")
  case False
  assume "reachable h"
  then have "reachable (enqueue now e h)" by (rule reachable.publish)
  with False show ?thesis
    using scheduleAll_reachable [where pre = "[]" and h = "h\<lparr>hubSequence := hubSequence h + 1, published := Suc (published h)\<rparr>"]
    by (simp add: Publish_def enqueue_def split_beta map_fst_zip Let_def)
qed (simp add: Publish_def)

lemma offerResult_total:
  "accepted (offerResult e s r) + rejected (offerResult e s r)
     = accepted r + rejected r + (if wants s e then 1 else 0)"
  by (simp add: offerResult_def Let_def)

lemma offerResults_total:
  "accepted (fold (offerResult e) ss r) + rejected (fold (offerResult e) ss r)
     = accepted r + rejected r + length (filter (\<lambda>s. wants s e) ss)"
  by (induction ss arbitrary: r) (simp_all add: offerResult_total)

lemma scheduleAll_failed: "snd (scheduleAll post k xs) \<le> length (filter snd xs)"
  by (induction post k xs rule: scheduleAll.induct) (auto simp: split_beta)

lemma offerResults_accepted:
  "accepted r + length (filter (wakes e) ss) \<le> accepted (fold (offerResult e) ss r)"
proof (induction ss arbitrary: r)
  case (Cons s ss)
  have "accepted r + (if wakes e s then 1 else 0) \<le> accepted (offerResult e s r)"
    by (simp add: offerResult_def wakes_def Let_def)
  then show ?case
    using Cons [of "offerResult e s r"] by auto
qed simp

lemma filter_zip_map: "length (filter snd (zip (map f xs) (map P xs))) = length (filter P xs)"
  by (induction xs) auto

lemma Publish_total:
  "accepted (snd (Publish post now e h)) + rejected (snd (Publish post now e h)) =
     (if invalid e then 1 else length (filter (\<lambda>s. \<not> expired s \<and> wants s e) (subscribers h)))"
proof (cases "invalid e")
  case False
  let ?e = "stamp now h e" and ?live = "filter (\<lambda>s. \<not> expired s) (subscribers h)"
  let ?z = "\<lparr>accepted = 0, coalesced = 0, rejected = 0\<rparr>"
  let ?failed = "snd (scheduleAll post 0 (zip (map (offer ?e) ?live) (map (wakes ?e) ?live)))"
  have "?failed \<le> length (filter (wakes ?e) ?live)"
    using scheduleAll_failed [of post 0 "zip (map (offer ?e) ?live) (map (wakes ?e) ?live)"]
    by (simp add: filter_zip_map)
  also have "\<dots> \<le> accepted (fold (offerResult ?e) ?live ?z)"
    using offerResults_accepted [of ?z ?e ?live] by simp
  finally have "?failed \<le> accepted (fold (offerResult ?e) ?live ?z)" .
  moreover have "wants s ?e = wants s e" for s
    by (simp add: wants_def stamp_def)
  ultimately show ?thesis
    using False offerResults_total [of ?e ?live ?z]
    by (simp add: Publish_def enqueueResult_def split_beta conj_commute Let_def)
qed (simp add: Publish_def enqueueResult_def)

section \<open>Properties\<close>

text \<open>C30: No wake-up is lost.  In every state the hub can reach, whatever the interleaving of
  publishers, drains, callbacks and resets, an active subscriber whose executor did not
  destroy accepted work is one from which, when the executor runs the work and the callbacks
  return, the drain hands out the whole queue in order, leaving nothing pending and the
  subscriber ready to be scheduled again, in a bounded number of steps.\<close>

theorem hub_delivers:
  assumes "reachable h" and "s \<in> set (subscribers h)" and "active s" and "\<not> dropped s"
  shows "\<exists>n \<le> drainWork s. let s' = (drainStep ^^ n) s in
    queue s' = [] \<and> taken s' = taken s @ queue s \<and> agents s' = [] \<and> \<not> scheduled s' \<and> active s'"
  using drains wake.reachable_one assms by blast

definition demoEvent :: "string \<Rightarrow> EventEnvelope" where
  "demoEvent i = \<lparr>evId = i, evSchema = 1, evTime = 0, evProducer = [], evCorrelation = [],
     evCausation = [], evSequence = 0, evPayload = [], evProgress = False\<rparr>"

definition demoHub :: EventHub where
  "demoHub = enqueue 0 (demoEvent ''a'') (emptyHub\<lparr>subscribers := [newSubscriber [] 2]\<rparr>)"

lemma demoHub_reachable: "reachable demoHub"
  unfolding demoHub_def
  by (rule reachable.publish, rule reachable.subscribe [OF reachable.start, of True True "[]" 2])
    (simp add: Subscribe_def emptyHub_def)

lemma demoHub_subscribers:
  "subscribers demoHub = [(newSubscriber [] 2)\<lparr>queue := [stamp 0 emptyHub (demoEvent ''a'')],
     enqueued := [stamp 0 emptyHub (demoEvent ''a'')], scheduled := True, agents := [Waking]\<rparr>]"
  by (simp add: demoHub_def enqueue_def invalid_def demoEvent_def emptyHub_def newSubscriber_def expired_def
      offer_def wants_def room_def merged_def stamp_def)

theorem hub_delivers_witness:
  "\<exists>n. map evId (taken ((drainStep ^^ n) (hd (subscribers demoHub)))) = [''a'']"
proof -
  have "hd (subscribers demoHub) \<in> set (subscribers demoHub)" "active (hd (subscribers demoHub))"
      "\<not> dropped (hd (subscribers demoHub))" "taken (hd (subscribers demoHub)) = []"
      "map evId (queue (hd (subscribers demoHub))) = [''a'']"
    by (simp_all add: demoHub_subscribers newSubscriber_def stamp_def demoEvent_def)
  then show ?thesis
    using hub_delivers [OF demoHub_reachable, of "hd (subscribers demoHub)"]
    unfolding Let_def by (metis append_Nil)
qed

text \<open>C31: At most one drain of a subscriber exists at any time, so its callback never runs
  twice at once; an active subscriber with waiting events is scheduled, and a scheduled one
  has its drain; the queue never exceeds the capacity; while the subscriber is
  active every event ever put into its queue, progress reports apart, has been handed to the
  callback or still waits, in the order of publication; and as long as the counter has not
  wrapped the numbers of these events increase.\<close>

theorem hub_queues:
  assumes "reachable h" and "s \<in> set (subscribers h)"
  shows "length (agents s) \<le> 1 \<and> (active s \<and> queue s \<noteq> [] \<longrightarrow> scheduled s)
    \<and> (active s \<and> scheduled s \<and> \<not> dropped s \<longrightarrow> agents s \<noteq> [])
    \<and> length (queue s) \<le> capacity s
    \<and> (active s \<longrightarrow> plain (taken s @ queue s) = plain (enqueued s))
    \<and> (published h < 2 ^ 64 \<longrightarrow>
         sorted_wrt (\<lambda>a b. unat (evSequence a) < unat (evSequence b)) (taken s @ queue s))"
proof -
  have "subseq (taken s @ queue s) (enqueued s)"
    using pending.reachable_one [OF assms] by (simp add: queueInv_def)
  moreover have "published h < 2 ^ 64 \<Longrightarrow> numbered (published h) s"
    using sequenceInv_reachable [OF assms(1)] assms(2) by (simp add: sequenceInv_def everySubscriber_def)
  ultimately have "published h < 2 ^ 64 \<Longrightarrow>
      sorted_wrt (\<lambda>a b. unat (evSequence a) < unat (evSequence b)) (taken s @ queue s)"
    using subseq_sorted_wrt by (auto simp: numbered_def)
  then show ?thesis
    using wake.reachable_one [OF assms] pending.reachable_one [OF assms]
    by (simp add: wakeInv_def queueInv_def)
qed

theorem hub_queues_witness:
  "length (agents (hd (subscribers demoHub))) \<le> 1"
  using hub_queues [OF demoHub_reachable, of "hd (subscribers demoHub)"]
  by (simp add: demoHub_subscribers)



end
