(* ===== verification/Commands.thy ===== *)
theory Commands
  imports EventHub Locators
begin

text \<open>
  The command side of \<open>commonLibs/commands/commandBus.hpp\<close>: descriptors and invocations,
  \<open>ValidateInvocation\<close>, \<open>CommandRegistry\<close>, \<open>Completion\<close> and \<open>CommandDispatcher\<close>, with the
  errors, the operation context and the command context of \<open>storage.hpp\<close> they use.

  A handler is given by two functions of the invocation; \<open>None\<close> is an exception.  What the
  handler and other threads do to the event hub meanwhile is an arbitrary function of the
  hub.  A promise is the list of the values it was given.
\<close>

section \<open>Errors and contexts\<close>

datatype ErrorCategory = InvalidRequest | NotFound | AccessDenied | Unavailable | Cancelled
  | StaleRevision | Unsupported | BudgetExceeded | Internal

text \<open>The resource and the native path of an error are never set by this code.\<close>

record Error =
  category :: ErrorCategory
  code :: string
  provider :: string
  retryable :: bool
  userAction :: string

definition failure :: "ErrorCategory \<Rightarrow> string \<Rightarrow> Error" where
  "failure c e = \<lparr>category = c, code = e, provider = [], retryable = False, userAction = []\<rparr>"

type_synonym 'a Result = "Error + 'a"

text \<open>The two parts of an operation context that \<open>Check\<close> reads: whether a stop has been
  requested by a given time, and the deadline.\<close>

record OperationContext =
  stopRequested :: "nat \<Rightarrow> bool"
  deadline :: nat

definition Check :: "OperationContext \<Rightarrow> nat \<Rightarrow> string \<Rightarrow> Error option" where
  "Check ctx now p =
     (if stopRequested ctx now then Some ((failure Cancelled ''cancelled'')\<lparr>provider := p\<rparr>)
      else if deadline ctx \<le> now then
        Some \<lparr>category = Unavailable, code = ''deadline-exceeded'', provider = p, retryable = True, userAction = ''retry''\<rparr>
      else None)"

record CommandContext =
  tabId :: string
  location :: Locator
  selection :: "ResourceId list"

section \<open>Descriptors and invocations\<close>

datatype ParameterType = BooleanType | IntegerType | StringType

record ParameterSpec =
  paramType :: ParameterType
  required :: bool

record CommandDescriptor =
  descId :: string
  descSchema :: "32 word"
  descParameters :: "(string \<times> ParameterSpec) list"
  descPermission :: string

record CommandInvocation =
  invId :: string
  invSchema :: "32 word"
  invParameters :: Parameters
  invContext :: CommandContext
  invPermissions :: "string set"
  invSource :: string
  invCorrelation :: string
  invCausation :: string
  invOperation :: OperationContext

datatype Status = Completed | Accepted

record CommandOutcome =
  status :: Status
  jobId :: string

fun valueIndex :: "Value \<Rightarrow> nat" where
  "valueIndex (Boolean b) = 0"
| "valueIndex (Integer i) = 1"
| "valueIndex (String s) = 2"

fun typeNumber :: "ParameterType \<Rightarrow> nat" where
  "typeNumber BooleanType = 0"
| "typeNumber IntegerType = 1"
| "typeNumber StringType = 2"

fun checkRequired :: "Parameters \<Rightarrow> (string \<times> ParameterSpec) list \<Rightarrow> unit Result" where
  "checkRequired given [] = Inr ()"
| "checkRequired given ((name, spec) # rest) =
     (if required spec \<and> map_of given name = None
      then Inl (failure InvalidRequest (''missing-parameter:'' @ name))
      else checkRequired given rest)"

fun checkTypes :: "(string \<times> ParameterSpec) list \<Rightarrow> Parameters \<Rightarrow> unit Result" where
  "checkTypes specs [] = Inr ()"
| "checkTypes specs ((name, v) # rest) =
     (case map_of specs name of
        None \<Rightarrow> Inl (failure InvalidRequest (''parameter-type:'' @ name))
      | Some spec \<Rightarrow>
          if valueIndex v \<noteq> typeNumber (paramType spec) then Inl (failure InvalidRequest (''parameter-type:'' @ name))
          else checkTypes specs rest)"

definition ValidateInvocation :: "CommandDescriptor \<Rightarrow> CommandInvocation \<Rightarrow> unit Result" where
  "ValidateInvocation d i =
     (if invId i \<noteq> descId d \<or> invSchema i \<noteq> descSchema d then Inl (failure InvalidRequest ''schema-version'')
      else if descPermission d \<noteq> [] \<and> descPermission d \<notin> invPermissions i
        then Inl (failure AccessDenied ''permission-required'')
      else (case checkRequired (invParameters i) (descParameters d) of
              Inl e \<Rightarrow> Inl e
            | Inr _ \<Rightarrow> checkTypes (descParameters d) (invParameters i)))"

section \<open>The registry\<close>

datatype Availability = Supported | Conditional | UnsupportedOperation

record SupportDecision =
  availability :: Availability
  reason :: string

record CommandHandler =
  canExecute :: "(CommandInvocation \<Rightarrow> SupportDecision option) option"
  execute :: "(CommandInvocation \<Rightarrow> CommandOutcome Result option) option"

record RegisteredCommand =
  descriptor :: CommandDescriptor
  handler :: CommandHandler

type_synonym CommandRegistry = "string \<rightharpoonup> RegisteredCommand"

text \<open>The third argument says whether an executor is given.\<close>

definition RegisterCommand :: "CommandDescriptor \<Rightarrow> CommandHandler \<Rightarrow> bool \<Rightarrow> CommandRegistry \<Rightarrow> CommandRegistry Result" where
  "RegisterCommand d h executor reg =
     (if descId d = [] \<or> descSchema d = 0 \<or> execute h = None \<or> \<not> executor
        then Inl (failure InvalidRequest ''invalid-command'')
      else if reg (descId d) \<noteq> None then Inl (failure InvalidRequest ''duplicate-command'')
      else Inr (reg(descId d \<mapsto> \<lparr>descriptor = d, handler = h\<rparr>)))"

definition ResolveCommand :: "CommandRegistry \<Rightarrow> string \<Rightarrow> RegisteredCommand Result" where
  "ResolveCommand reg i = (case reg i of None \<Rightarrow> Inl (failure NotFound ''unknown-command'') | Some c \<Rightarrow> Inr c)"

definition Unregister :: "string \<Rightarrow> CommandRegistry \<Rightarrow> CommandRegistry" where
  "Unregister i reg = reg(i := None)"

section \<open>Dispatch\<close>

text \<open>\<open>detail::Completion\<close>: the values its promise was given.\<close>

record Completion =
  promise :: "CommandOutcome Result list"
  finished :: bool

definition newCompletion :: Completion where
  "newCompletion = \<lparr>promise = [], finished = False\<rparr>"

definition Finish :: "CommandOutcome Result \<Rightarrow> Completion \<Rightarrow> Completion" where
  "Finish v c = c\<lparr>promise := promise c @ [v], finished := True\<rparr>"

definition destroyCompletion :: "Completion \<Rightarrow> Completion" where
  "destroyCompletion c = (if finished c then c
     else c\<lparr>promise := promise c @ [Inl (failure Cancelled ''executor-closed'')]\<rparr>)"

text \<open>The work posted by \<open>Dispatch\<close>: the outcome and the invocations the handler was
  called with, first by \<open>canExecute_\<close>, then by \<open>execute_\<close>.\<close>

definition handlerException :: "CommandOutcome Result" where
  "handlerException = Inl (failure Internal ''handler-exception'')"

definition callExecute :: "CommandHandler \<Rightarrow> CommandInvocation \<Rightarrow> CommandOutcome Result" where
  "callExecute h i = (case execute h of None \<Rightarrow> handlerException
     | Some run \<Rightarrow> (case run i of None \<Rightarrow> handlerException | Some r \<Rightarrow> r))"

definition runHandler :: "nat \<Rightarrow> CommandHandler \<Rightarrow> CommandInvocation \<Rightarrow> CommandOutcome Result \<times> CommandInvocation list" where
  "runHandler now h i =
     (case Check (invOperation i) now [] of
        Some e \<Rightarrow> (Inl e, [])
      | None \<Rightarrow>
          (case canExecute h of
             None \<Rightarrow> (callExecute h i, [i])
           | Some ask \<Rightarrow>
               (case ask i of
                  None \<Rightarrow> (handlerException, [i])
                | Some d \<Rightarrow>
                    if availability d = Supported then (callExecute h i, [i, i])
                    else (Inl (failure Unsupported (reason d)), [i]))))"

definition commandEvent :: "CommandInvocation \<Rightarrow> string \<Rightarrow> string \<Rightarrow> EventEnvelope" where
  "commandEvent i kind cd = \<lparr>evId = kind, evSchema = 1, evTime = 0, evProducer = ''command-dispatcher'',
     evCorrelation = invCorrelation i, evCausation = invCausation i, evSequence = 0,
     evPayload = [(''code'', String cd), (''command'', String (invId i)), (''source'', String (invSource i))],
     evProgress = False\<rparr>"

definition finalEvent :: "CommandInvocation \<Rightarrow> CommandOutcome Result \<Rightarrow> EventEnvelope" where
  "finalEvent i r = (case r of
       Inl e \<Rightarrow> commandEvent i ''command.failed'' (code e)
     | Inr v \<Rightarrow> commandEvent i (if status v = Accepted then ''command.accepted'' else ''command.completed'') [])"

text \<open>What the executor does with the work of a dispatch.\<close>

datatype fate = Refused | DestroyedUnrun | Ran

record dispatched =
  result :: Completion
  calls :: "CommandInvocation list"
  events :: "EventEnvelope list"

definition commandWork :: "nat \<Rightarrow> RegisteredCommand \<Rightarrow> CommandInvocation \<Rightarrow> dispatched" where
  "commandWork now c i =
     (let (outcome, called) = runHandler now (handler c) i in
        \<lparr>result = destroyCompletion (Finish outcome newCompletion), calls = called,
         events = [commandEvent i ''command.started'' [], finalEvent i outcome]\<rparr>)"

text \<open>\<open>Ready\<close>: a future that has its value already.\<close>

definition ready :: "CommandOutcome Result \<Rightarrow> dispatched" where
  "ready v = \<lparr>result = \<lparr>promise = [v], finished = True\<rparr>, calls = [], events = []\<rparr>"

definition correlate :: "64 word \<Rightarrow> CommandInvocation \<Rightarrow> CommandInvocation \<times> 64 word" where
  "correlate n i = (if invCorrelation i = []
     then (i\<lparr>invCorrelation := ''command-'' @ showNat (unat (n + 1))\<rparr>, n + 1) else (i, n))"

definition Dispatch :: "CommandRegistry \<Rightarrow> fate \<Rightarrow> nat \<Rightarrow> CommandInvocation \<Rightarrow> 64 word \<Rightarrow> dispatched \<times> 64 word" where
  "Dispatch reg f now i n =
     (case ResolveCommand reg (invId i) of
        Inl e \<Rightarrow> (ready (Inl e), n)
      | Inr c \<Rightarrow>
          (case ValidateInvocation (descriptor c) i of
             Inl e \<Rightarrow> (ready (Inl e), n)
           | Inr _ \<Rightarrow>
               (let (j, n') = correlate n i in
                 (case f of
                    Refused \<Rightarrow> \<lparr>result = destroyCompletion (Finish (Inl (failure Cancelled ''executor-closed'')) newCompletion),
                        calls = [], events = []\<rparr>
                  | DestroyedUnrun \<Rightarrow> \<lparr>result = destroyCompletion newCompletion, calls = [], events = []\<rparr>
                  | Ran \<Rightarrow> commandWork now c j, n'))))"

text \<open>The same work on the hub: the handler and other threads act between the two events.\<close>

definition publishWork ::
  "(nat \<Rightarrow> nat \<Rightarrow> bool) \<Rightarrow> nat \<Rightarrow> (EventHub \<Rightarrow> EventHub) \<Rightarrow> dispatched \<Rightarrow> EventHub \<Rightarrow> EventHub" where
  "publishWork post now meanwhile d hub =
     (case events d of
        [a, b] \<Rightarrow> fst (Publish (post 1) now b (meanwhile (fst (Publish (post 0) now a hub))))
      | _ \<Rightarrow> hub)"

section \<open>Typing\<close>

inductive hasType :: "Value \<Rightarrow> ParameterType \<Rightarrow> bool" where
  "hasType (Boolean b) BooleanType"
| "hasType (Integer i) IntegerType"
| "hasType (String s) StringType"

inductive_simps hasType_simps [simp]:
  "hasType (Boolean b) t" "hasType (Integer i) t" "hasType (String s) t"

lemma hasType_index: "hasType v t \<longleftrightarrow> valueIndex v = typeNumber t"
  by (cases v; cases t) auto

definition wellTyped :: "CommandDescriptor \<Rightarrow> CommandInvocation \<Rightarrow> bool" where
  "wellTyped d i \<longleftrightarrow>
     (\<forall>(n, spec)\<in>set (descParameters d). required spec \<longrightarrow> map_of (invParameters i) n \<noteq> None)
   \<and> (\<forall>(n, v)\<in>set (invParameters i). case map_of (descParameters d) n of
          None \<Rightarrow> False | Some spec \<Rightarrow> hasType v (paramType spec))"

definition authorized :: "CommandDescriptor \<Rightarrow> CommandInvocation \<Rightarrow> bool" where
  "authorized d i \<longleftrightarrow> descPermission d = [] \<or> descPermission d \<in> invPermissions i"

lemma checkRequired_iff: "checkRequired given specs = Inr () \<longleftrightarrow>
    (\<forall>(n, spec)\<in>set specs. required spec \<longrightarrow> map_of given n \<noteq> None)"
  by (induction specs) (auto simp del: map_of_eq_None_iff split: if_splits)

lemma checkTypes_iff: "checkTypes specs given = Inr () \<longleftrightarrow>
    (\<forall>(n, v)\<in>set given. case map_of specs n of None \<Rightarrow> False | Some spec \<Rightarrow> hasType v (paramType spec))"
  by (induction given) (auto simp: hasType_index split: option.splits if_splits)

lemma wellTyped_checks: "wellTyped d i \<longleftrightarrow>
    checkRequired (invParameters i) (descParameters d) = Inr () \<and> checkTypes (descParameters d) (invParameters i) = Inr ()"
  by (simp only: wellTyped_def checkRequired_iff checkTypes_iff)

lemma ValidateInvocation_iff: "ValidateInvocation d i = Inr () \<longleftrightarrow>
    invId i = descId d \<and> invSchema i = descSchema d \<and> authorized d i \<and> wellTyped d i"
  by (auto simp: ValidateInvocation_def authorized_def wellTyped_checks split: sum.split)

section \<open>The registry keeps well-formed descriptors\<close>

text \<open>The parameters of a descriptor are a map: no name occurs twice.\<close>

definition registryOk :: "CommandRegistry \<Rightarrow> bool" where
  "registryOk reg \<longleftrightarrow> (\<forall>i r. reg i = Some r \<longrightarrow>
     descId (descriptor r) = i \<and> i \<noteq> [] \<and> descSchema (descriptor r) \<noteq> 0
   \<and> distinct (map fst (descParameters (descriptor r))) \<and> execute (handler r) \<noteq> None)"

lemma registryOk_empty: "registryOk (\<lambda>_. None)"
  by (simp add: registryOk_def)

lemma registryOk_Register:
  "registryOk reg \<Longrightarrow> distinct (map fst (descParameters d)) \<Longrightarrow> RegisterCommand d h x reg = Inr reg' \<Longrightarrow> registryOk reg'"
  unfolding registryOk_def by (auto simp: RegisterCommand_def split: if_splits) blast

lemma registryOk_Unregister: "registryOk reg \<Longrightarrow> registryOk (Unregister i reg)"
  by (auto simp: registryOk_def Unregister_def)

lemma Resolve_Register:
  "RegisterCommand d h x reg = Inr reg' \<Longrightarrow>
     ResolveCommand reg' i = (if i = descId d then Inr \<lparr>descriptor = d, handler = h\<rparr> else ResolveCommand reg i)
   \<and> ResolveCommand reg (descId d) = Inl (failure NotFound ''unknown-command'')"
  by (auto simp: RegisterCommand_def ResolveCommand_def split: if_splits)

section \<open>What a dispatch does\<close>

lemma runHandler_calls: "set (snd (runHandler now h i)) \<subseteq> {i}"
  by (auto simp: runHandler_def split: option.splits)

lemma correlate_keeps: "correlate n i = (j, n') \<Longrightarrow>
    invId j = invId i \<and> invSchema j = invSchema i \<and> invParameters j = invParameters i
  \<and> invPermissions j = invPermissions i \<and> invOperation j = invOperation i \<and> invCorrelation j \<noteq> []"
  by (auto simp: correlate_def split: if_splits)

lemma wellTyped_cong: "invParameters j = invParameters i \<Longrightarrow> wellTyped d j = wellTyped d i"
  by (simp add: wellTyped_def)

lemma Dispatch_calls:
  assumes "j \<in> set (calls (fst (Dispatch reg f now i n)))"
  obtains r where "reg (invId i) = Some r" "invId j = invId i" "invParameters j = invParameters i"
    "invPermissions j = invPermissions i"
    "authorized (descriptor r) j" "wellTyped (descriptor r) j"
proof -
  from assms obtain r where r: "reg (invId i) = Some r" "ValidateInvocation (descriptor r) i = Inr ()"
    by (auto simp: Dispatch_def ResolveCommand_def ready_def split: option.splits sum.splits)
  obtain k n' where k: "correlate n i = (k, n')" by (cases "correlate n i")
  have "j = k"
    using assms r k runHandler_calls [of now "handler r" k]
    by (auto simp: Dispatch_def ResolveCommand_def commandWork_def split_beta split: fate.splits)
  then show ?thesis
    using that r(1) r(2) correlate_keeps [OF k] wellTyped_cong [of k i]
    by (simp add: ValidateInvocation_iff authorized_def)
qed

text \<open>The events of a command keep the hub among its reachable states, whatever reachable
  states the handler and other threads leave meanwhile.\<close>

lemma publishWork_reachable:
  assumes "reachable hub" and "\<And>g. reachable g \<Longrightarrow> reachable (meanwhile g)"
  shows "reachable (publishWork post now meanwhile d hub)"
  using assms Publish_reachable by (auto simp: publishWork_def split: list.split)

lemma wellTyped_argument:
  assumes "wellTyped d i" and "distinct (map fst (descParameters d))" and "(name, spec) \<in> set (descParameters d)"
  shows "case map_of (invParameters i) name of None \<Rightarrow> \<not> required spec | Some v \<Rightarrow> hasType v (paramType spec)"
proof -
  have "map_of (descParameters d) name = Some spec"
    using assms(2,3) by simp
  then show ?thesis
    using assms(1,3) map_of_SomeD [of "invParameters i" name]
    by (fastforce simp: wellTyped_def split: option.split)
qed

lemma wellTyped_names: "wellTyped d i \<Longrightarrow> fst ` set (invParameters i) \<subseteq> fst ` set (descParameters d)"
proof
  fix n assume typed: "wellTyped d i" and "n \<in> fst ` set (invParameters i)"
  then obtain v where "(n, v) \<in> set (invParameters i)" by auto
  then have "map_of (descParameters d) n \<noteq> None"
    using typed by (auto simp: wellTyped_def split: option.splits)
  then show "n \<in> fst ` set (descParameters d)"
    by (simp add: map_of_eq_None_iff)
qed

section \<open>Properties\<close>


definition demoDescriptor :: CommandDescriptor where
  "demoDescriptor = \<lparr>descId = ''go'', descSchema = 1,
     descParameters = [(''deep'', \<lparr>paramType = BooleanType, required = True\<rparr>)], descPermission = ''nav''\<rparr>"

definition demoCommand :: RegisteredCommand where
  "demoCommand = \<lparr>descriptor = demoDescriptor,
     handler = \<lparr>canExecute = None, execute = Some (\<lambda>i. Some (Inr \<lparr>status = Completed, jobId = []\<rparr>))\<rparr>\<rparr>"

definition demoInvocation :: CommandInvocation where
  "demoInvocation = \<lparr>invId = ''go'', invSchema = 1, invParameters = [(''deep'', Boolean True)],
     invContext = \<lparr>tabId = [], location = \<lparr>locatorKind = Local, locatorRoot = [], nesting = []\<rparr>, selection = []\<rparr>,
     invPermissions = {''nav''}, invSource = [], invCorrelation = ''c'', invCausation = [],
     invOperation = \<lparr>stopRequested = \<lambda>_. False, deadline = 9\<rparr>\<rparr>"

lemma demo_calls: "calls (fst (Dispatch [''go'' \<mapsto> demoCommand] Ran 0 demoInvocation 0)) = [demoInvocation]"
  by (simp add: Dispatch_def ResolveCommand_def demoCommand_def demoDescriptor_def demoInvocation_def
      ValidateInvocation_def correlate_def commandWork_def runHandler_def Check_def)



end
