(* ===== verification/Automation.thy ===== *)
theory Automation
  imports Commands "HOL-Library.Char_ord" "HOL-Library.List_Lexorder"
begin

text \<open>
  Automation runs: \<open>Evaluate\<close> and \<open>Execution\<close> of \<open>commonLibs/commands/automation.hpp\<close> and
  \<open>automation.cpp\<close>.

  A callback of the host is a function of the moment of the call, counted in \<open>moment\<close>,
  and of its arguments; \<open>None\<close> is an exception.  A future is a function of the moment as
  well.  A part of \<open>Tick\<close> returns the execution with how it goes on: proceed, leave \<open>Tick\<close>,
  or an exception on its way to the handler at the end of \<open>Tick\<close>.  \<open>sent\<close> and
  \<open>cancels\<close> record the invocations given to the host for dispatch and for cancellation.
\<close>

section \<open>Expressions\<close>

datatype ExpressionKind = Literal | Variable | Not | And | Or | Equal | NotEqual
  | Less | LessEqual | Greater | GreaterEqual

datatype Expression = Null | Node ExpressionKind Value string Expression Expression

definition expressionError :: "string \<Rightarrow> Error" where
  "expressionError e = failure InvalidRequest (''automation-expression:'' @ e)"

text \<open>\<open>operator<\<close> of the variant on two values of one alternative.\<close>

fun valueLess :: "Value \<Rightarrow> Value \<Rightarrow> bool" where
  "valueLess (Integer a) (Integer b) = (sint a < sint b)"
| "valueLess (String a) (String b) = (a < b)"
| "valueLess (Boolean a) (Boolean b) = (\<not> a \<and> b)"
| "valueLess a b = (valueIndex a < valueIndex b)"

definition compareValues :: "ExpressionKind \<Rightarrow> Value \<Rightarrow> Value \<Rightarrow> Value Result" where
  "compareValues k l r =
     (if k = Equal then Inr (Boolean (l = r))
      else if k = NotEqual then Inr (Boolean (l \<noteq> r))
      else if valueIndex l \<noteq> valueIndex r \<or> valueIndex l = 0 then Inl (expressionError ''comparable-values-required'')
      else (case k of
          Less \<Rightarrow> Inr (Boolean (valueLess l r))
        | LessEqual \<Rightarrow> Inr (Boolean (valueLess l r \<or> l = r))
        | Greater \<Rightarrow> Inr (Boolean (\<not> valueLess l r \<and> l \<noteq> r))
        | GreaterEqual \<Rightarrow> Inr (Boolean (\<not> valueLess l r))
        | _ \<Rightarrow> Inl (expressionError ''operator'')))"

fun Evaluate :: "Expression \<Rightarrow> Parameters \<Rightarrow> nat \<Rightarrow> Value Result" where
  "Evaluate Null vars depth = Inl (expressionError ''depth-or-empty'')"
| "Evaluate (Node k lit name l r) vars depth =
     (if 32 < depth then Inl (expressionError ''depth-or-empty'')
      else if k = Literal then Inr lit
      else if k = Variable then
        (case map_of vars name of None \<Rightarrow> Inl (expressionError (''unknown-variable:'' @ name)) | Some v \<Rightarrow> Inr v)
      else (case Evaluate l vars (Suc depth) of
          Inl e \<Rightarrow> Inl e
        | Inr lv \<Rightarrow>
            if k = Not \<or> k = And \<or> k = Or then
              (case lv of
                 Boolean b \<Rightarrow>
                   if k = Not then Inr (Boolean (\<not> b))
                   else if (k = And \<and> \<not> b) \<or> (k = Or \<and> b) then Inr (Boolean b)
                   else (case Evaluate r vars (Suc depth) of
                       Inl e \<Rightarrow> Inl e
                     | Inr rv \<Rightarrow> if valueIndex rv \<noteq> 0 then Inl (expressionError ''boolean-required'') else Inr rv)
               | _ \<Rightarrow> Inl (expressionError ''boolean-required''))
            else (case Evaluate r vars (Suc depth) of Inl e \<Rightarrow> Inl e | Inr rv \<Rightarrow> compareValues k lv rv)))"

section \<open>Programs\<close>

datatype StepKind = Invoke | Assign | Branch | Jump

record Step =
  command :: string
  parameters :: Parameters
  line :: nat
  stepKind :: StepKind
  arguments :: "(string \<times> Expression) list"
  expression :: Expression
  binding :: string
  target :: nat
  pipeline :: nat

datatype FailurePolicy = StopPolicy | ContinuePolicy

record Program =
  steps :: "Step list"
  version :: nat
  failurePolicy :: FailurePolicy

section \<open>The host and the execution\<close>

datatype future = NotReady | Value "CommandOutcome Result" | Broken

record Host =
  capture :: "(nat \<Rightarrow> CommandContext Result option) option"
  hostDispatch :: "(nat \<Rightarrow> CommandInvocation \<Rightarrow> (nat \<Rightarrow> future) option) option"
  poll :: "(nat \<Rightarrow> CommandInvocation \<Rightarrow> CommandOutcome \<Rightarrow> bool Result option) option"
  cancel :: "(nat \<Rightarrow> CommandInvocation \<Rightarrow> CommandOutcome \<Rightarrow> unit option) option"
  hostOutput :: "(nat \<Rightarrow> CommandInvocation \<Rightarrow> CommandOutcome \<Rightarrow> Parameters Result option) option"
  hostClock :: "nat \<Rightarrow> nat"
  callerStop :: "nat \<Rightarrow> bool"

datatype State = Running | CompletedState | CompletedWithErrors | Failed | CancelledState

record Execution =
  program :: Program
  permissions :: "string set"
  runId :: string
  limit :: nat
  stop :: bool
  state :: State
  offset :: nat
  completed :: nat
  ticks :: nat
  invocation :: CommandInvocation
  pending :: "(nat \<Rightarrow> future) option"
  acceptedOutcome :: "CommandOutcome option"
  failureOf :: "Error option"
  errors :: "(nat \<times> Error) list"
  variables :: Parameters
  moment :: nat
  sent :: "CommandInvocation list"
  cancels :: "(CommandInvocation \<times> CommandOutcome) list"

text \<open>\<open>variables_[k] = v\<close> on the entries in the order of their keys.\<close>

fun put :: "string \<Rightarrow> Value \<Rightarrow> Parameters \<Rightarrow> Parameters" where
  "put k v [] = [(k, v)]"
| "put k v ((a, b) # m) = (if k = a then (k, v) # m else if k < a then (k, v) # (a, b) # m else (a, b) # put k v m)"

definition startsWith :: "string \<Rightarrow> string \<Rightarrow> bool" where
  "startsWith p s \<longleftrightarrow> take (length p) s = p"

definition bindPrefix :: "string \<Rightarrow> Parameters \<Rightarrow> Parameters \<Rightarrow> Parameters" where
  "bindPrefix p values m =
     fold (\<lambda>(n, v). put (p @ ''.'' @ n) v) values (filter (\<lambda>(n, v). \<not> startsWith (p @ ''.'') n) m)"

definition stepAt :: "Execution \<Rightarrow> Step" where
  "stepAt x = steps (program x) ! offset x"

definition Line :: "Execution \<Rightarrow> nat" where
  "Line x = (if offset x < length (steps (program x)) then line (stepAt x) else 0)"

definition noOutcome :: CommandOutcome where
  "noOutcome = \<lparr>status = Completed, jobId = []\<rparr>"

definition emptyContext :: CommandContext where
  "emptyContext = \<lparr>tabId = [], location = \<lparr>locatorKind = Local, locatorRoot = [], nesting = []\<rparr>, selection = []\<rparr>"

definition emptyInvocation :: CommandInvocation where
  "emptyInvocation = \<lparr>invId = [], invSchema = 1, invParameters = [], invContext = emptyContext,
     invPermissions = {}, invSource = [], invCorrelation = [], invCausation = [],
     invOperation = \<lparr>stopRequested = \<lambda>_. False, deadline = 0\<rparr>\<rparr>"

text \<open>A call of \<open>cancel_\<close>.\<close>

definition sendCancel :: "CommandOutcome \<Rightarrow> Execution \<Rightarrow> Execution" where
  "sendCancel v x = x\<lparr>cancels := cancels x @ [(invocation x, v)], moment := Suc (moment x)\<rparr>"

definition fail :: "Error \<Rightarrow> Execution \<Rightarrow> Execution" where
  "fail e x =
     (let y = (if invId (invocation x) = [] then x
               else sendCancel (case acceptedOutcome x of None \<Rightarrow> noOutcome | Some v \<Rightarrow> v) x) in
      y\<lparr>stop := True, failureOf := Some e,
        state := (if category e = Cancelled then CancelledState else Failed)\<rparr>)"

definition Cancel :: "Execution \<Rightarrow> Execution" where
  "Cancel x = (if state x = Running then fail (failure Cancelled ''automation-cancelled'') x else x)"

definition isForward :: "nat \<Rightarrow> nat \<Rightarrow> Step \<Rightarrow> bool" where
  "isForward n i s \<longleftrightarrow> (stepKind s = Branch \<or> stepKind s = Jump \<longrightarrow> i < target s \<and> target s \<le> n)"

definition allForward :: "Step list \<Rightarrow> bool" where
  "allForward ss \<longleftrightarrow> list_all (\<lambda>i. isForward (length ss) i (ss ! i)) [0..<length ss]"

text \<open>The constructor; five minutes are 300000 units of the clock.\<close>

definition Create :: "Program \<Rightarrow> Host \<Rightarrow> string set \<Rightarrow> string \<Rightarrow> nat \<Rightarrow> Execution" where
  "Create p h perms run until =
     (let x = \<lparr>program = p, permissions = perms, runId = run, limit = min until (hostClock h 0 + 300000),
        stop = False, state = Running, offset = 0, completed = 0, ticks = 0, invocation = emptyInvocation,
        pending = None, acceptedOutcome = None, failureOf = None, errors = [],
        variables = [(''result.code'', String ''not-run''), (''result.jobId'', String []), (''result.ok'', Boolean False)],
        moment = 0, sent = [], cancels = []\<rparr>;
        y = (if steps p = [] \<or> 256 < length (steps p) \<or> version p \<noteq> 1 \<or> run = [] \<or> capture h = None
               \<or> hostDispatch h = None \<or> poll h = None \<or> cancel h = None
             then fail (failure InvalidRequest ''automation-program-or-host'') x else x)
      in if allForward (steps p) then y else fail (failure InvalidRequest ''automation-forward-branch-required'') y)"

definition bindResult :: "Parameters \<Rightarrow> Execution \<Rightarrow> Execution" where
  "bindResult values x =
     (let m = bindPrefix ''result'' values (variables x) in
      x\<lparr>variables := (if binding (stepAt x) = [] then m else bindPrefix (binding (stepAt x)) values m)\<rparr>)"

datatype flow = Proceed | Leave | Raise

definition recoverable :: "Error \<Rightarrow> bool" where
  "recoverable e \<longleftrightarrow> code e \<noteq> ''deadline-exceeded'' \<and> (category e = NotFound \<or> category e = Unavailable)"

definition afterGroup :: "Execution \<Rightarrow> nat" where
  "afterGroup x =
     (let g = pipeline (stepAt x); o' = Suc (offset x) in
      if g = 0 then o' else o' + length (takeWhile (\<lambda>s. pipeline s = g) (drop o' (steps (program x)))))"

text \<open>What \<open>commandFailed\<close> does once the command is given up.\<close>

definition recordFailure :: "Error \<Rightarrow> Execution \<Rightarrow> Execution" where
  "recordFailure e x =
     (let y = bindResult [(''code'', String (code e)), (''jobId'', String []), (''ok'', Boolean False)]
                (x\<lparr>acceptedOutcome := None, errors := errors x @ [(Line x, e)]\<rparr>)
      in y\<lparr>offset := afterGroup y\<rparr>)"

definition commandFailed :: "Host \<Rightarrow> Error \<Rightarrow> Execution \<Rightarrow> Execution \<times> flow" where
  "commandFailed h e x =
     (if failurePolicy (program x) \<noteq> ContinuePolicy \<or> \<not> recoverable e then (fail e x, Proceed)
      else (case acceptedOutcome x of
          None \<Rightarrow> (recordFailure e x, Proceed)
        | Some v \<Rightarrow>
            (case the (cancel h) (moment x) (invocation x) v of
               None \<Rightarrow> (sendCancel v x, Raise)
             | Some _ \<Rightarrow> (recordFailure e (sendCancel v x), Proceed))))"

definition finishCommand :: "CommandOutcome \<Rightarrow> Parameters \<Rightarrow> Execution \<Rightarrow> Execution" where
  "finishCommand v values x =
     (let all = put ''jobId'' (String (jobId v)) (put ''code'' (String []) (put ''ok'' (Boolean True) values)) in
      if 64 < length all then fail (failure BudgetExceeded ''automation-output-fields'') x
      else (let y = bindResult all x in
            y\<lparr>acceptedOutcome := None, offset := Suc (offset y), completed := Suc (completed y)\<rparr>))"

definition commandCompleted :: "Host \<Rightarrow> CommandOutcome \<Rightarrow> Execution \<Rightarrow> Execution \<times> flow" where
  "commandCompleted h v x =
     (case hostOutput h of
        None \<Rightarrow> (finishCommand v [] x, Proceed)
      | Some out \<Rightarrow>
          (let y = x\<lparr>moment := Suc (moment x)\<rparr> in
           (case out (moment x) (invocation x) v of
              None \<Rightarrow> (y, Raise)
            | Some (Inl e) \<Rightarrow> commandFailed h e y
            | Some (Inr values) \<Rightarrow> (finishCommand v values y, Proceed))))"

section \<open>\<open>Tick\<close>\<close>

text \<open>The parts of \<open>Tick\<close> that wait: for the future of a dispatch, and for an accepted job.\<close>

definition leaveUnlessRunning :: "Execution \<times> flow \<Rightarrow> Execution \<times> flow" where
  "leaveUnlessRunning r = (case r of (x, Proceed) \<Rightarrow> (x, if state x = Running then Proceed else Leave) | _ \<Rightarrow> r)"

definition awaitDispatch :: "Host \<Rightarrow> Execution \<Rightarrow> Execution \<times> flow" where
  "awaitDispatch h x =
     (case pending x of
        None \<Rightarrow> (x, Proceed)
      | Some fut \<Rightarrow>
          (let y = x\<lparr>moment := Suc (moment x)\<rparr> in
           (case fut (moment x) of
              NotReady \<Rightarrow> (y, Leave)
            | Broken \<Rightarrow> (y, Raise)
            | Value (Inl e) \<Rightarrow> leaveUnlessRunning (commandFailed h e (y\<lparr>pending := None\<rparr>))
            | Value (Inr v) \<Rightarrow>
                if status v = Accepted then
                  if jobId v = [] then (fail (failure Internal ''automation-missing-job'') (y\<lparr>pending := None\<rparr>), Leave)
                  else (y\<lparr>pending := None, acceptedOutcome := Some v\<rparr>, Proceed)
                else leaveUnlessRunning (commandCompleted h v (y\<lparr>pending := None\<rparr>)))))"

definition awaitJob :: "Host \<Rightarrow> Execution \<Rightarrow> Execution \<times> flow" where
  "awaitJob h x =
     (case acceptedOutcome x of
        None \<Rightarrow> (x, Proceed)
      | Some v \<Rightarrow>
          (let y = x\<lparr>moment := Suc (moment x)\<rparr> in
           (case the (poll h) (moment x) (invocation x) v of
              None \<Rightarrow> (y, Raise)
            | Some (Inl e) \<Rightarrow> leaveUnlessRunning (commandFailed h e y)
            | Some (Inr isDone) \<Rightarrow>
                if isDone then leaveUnlessRunning (commandCompleted h v y) else (y, Leave))))"

text \<open>The arguments evaluated so far, and the failure of the next one.\<close>

fun evaluateArguments :: "Parameters \<Rightarrow> (string \<times> Expression) list \<Rightarrow> Parameters \<Rightarrow> Parameters \<times> Error option" where
  "evaluateArguments vars [] given = (given, None)"
| "evaluateArguments vars ((n, e) # rest) given =
     (case Evaluate e vars 0 of
        Inl f \<Rightarrow> (given, Some f)
      | Inr v \<Rightarrow> evaluateArguments vars rest (put n v given))"

text \<open>An \<open>Invoke\<close> step.  When an argument fails, the invocation so far is already that of
  the execution.  The stop token of an invocation is that of the execution, which is not
  stopped while it dispatches; that it is stopped later is the field \<open>stop\<close>.\<close>

definition begunInvocation :: "Step \<Rightarrow> Parameters \<Rightarrow> CommandInvocation" where
  "begunInvocation s given = emptyInvocation\<lparr>invId := command s, invParameters := given\<rparr>"

definition fullInvocation :: "Execution \<Rightarrow> CommandContext \<Rightarrow> Parameters \<Rightarrow> CommandInvocation" where
  "fullInvocation x ctx given = (begunInvocation (stepAt x) given)
     \<lparr>invContext := ctx, invPermissions := permissions x, invSource := ''automation'',
      invCorrelation := runId x @ '':'' @ showNat (offset x + 1), invCausation := runId x,
      invOperation := \<lparr>stopRequested = \<lambda>_. stop x, deadline = limit x\<rparr>\<rparr>"

definition invokeStep :: "Host \<Rightarrow> CommandContext \<Rightarrow> Execution \<Rightarrow> Execution \<times> flow" where
  "invokeStep h ctx x =
     (case evaluateArguments (variables x) (arguments (stepAt x)) (parameters (stepAt x)) of
        (given, Some e) \<Rightarrow> (fail e (x\<lparr>invocation := begunInvocation (stepAt x) given\<rparr>), Leave)
      | (given, None) \<Rightarrow>
          (let i = fullInvocation x ctx given;
               y = x\<lparr>invocation := i, sent := sent x @ [i], moment := Suc (moment x)\<rparr> in
           (case the (hostDispatch h) (moment x) i of
              None \<Rightarrow> (y, Raise)
            | Some fut \<Rightarrow> (y\<lparr>pending := Some fut\<rparr>, Leave))))"

definition controlStep :: "Execution \<Rightarrow> Execution \<times> flow" where
  "controlStep x =
     (if stepKind (stepAt x) = Jump then (x\<lparr>offset := target (stepAt x)\<rparr>, Proceed)
      else (case Evaluate (expression (stepAt x)) (variables x) 0 of
          Inl e \<Rightarrow> (fail e x, Leave)
        | Inr v \<Rightarrow>
            if stepKind (stepAt x) = Assign
            then (x\<lparr>variables := put (binding (stepAt x)) v (variables x), offset := Suc (offset x)\<rparr>, Proceed)
            else (case v of
                Boolean b \<Rightarrow> (x\<lparr>offset := (if b then Suc (offset x) else target (stepAt x))\<rparr>, Proceed)
              | _ \<Rightarrow> (fail (expressionError ''boolean-required'') x, Leave))))"

definition bindContext :: "CommandContext \<Rightarrow> Execution \<Rightarrow> Execution" where
  "bindContext ctx x = x\<lparr>variables :=
     put ''context.selectionCount'' (Integer (word_of_nat (length (selection ctx))))
       (put ''context.path'' (String (locatorRoot (location ctx))) (variables x))\<rparr>"

definition oneStep :: "Host \<Rightarrow> Execution \<Rightarrow> Execution \<times> flow" where
  "oneStep h x =
     (if offset x = length (steps (program x))
        then (x\<lparr>state := (if errors x = [] then CompletedState else CompletedWithErrors)\<rparr>, Leave)
      else let y = x\<lparr>ticks := Suc (ticks x)\<rparr> in
        if 1024 < ticks y \<or> 1024 < length (variables y)
          then (fail (failure BudgetExceeded ''automation-step-or-variable-limit'') y, Leave)
        else let z = y\<lparr>moment := Suc (moment y)\<rparr> in
          (case the (capture h) (moment y) of
             None \<Rightarrow> (z, Raise)
           | Some (Inl e) \<Rightarrow> (fail e z, Leave)
           | Some (Inr ctx) \<Rightarrow>
               if stepKind (stepAt z) = Invoke then invokeStep h ctx (bindContext ctx z)
               else controlStep (bindContext ctx z)))"

fun runBatch :: "Host \<Rightarrow> nat \<Rightarrow> Execution \<Rightarrow> Execution \<times> flow" where
  "runBatch h 0 x = (x, Leave)"
| "runBatch h (Suc k) x = (case oneStep h x of (y, Proceed) \<Rightarrow> runBatch h k y | r \<Rightarrow> r)"

definition continue :: "(Execution \<Rightarrow> Execution \<times> flow) \<Rightarrow> Execution \<times> flow \<Rightarrow> Execution \<times> flow" where
  "continue f r = (case r of (x, Proceed) \<Rightarrow> f x | _ \<Rightarrow> r)"

definition tickBody :: "Host \<Rightarrow> Execution \<Rightarrow> Execution \<times> flow" where
  "tickBody h x = continue (runBatch h 32) (continue (awaitJob h) (awaitDispatch h x))"

definition Tick :: "Host \<Rightarrow> Execution \<Rightarrow> Execution" where
  "Tick h x =
     (if state x \<noteq> Running then x
      else if callerStop h (moment x) then Cancel x
      else let y = x\<lparr>moment := Suc (moment x)\<rparr> in
        (case Check \<lparr>stopRequested = \<lambda>_. stop y, deadline = limit y\<rparr> (hostClock h (moment y)) ''automation'' of
           Some e \<Rightarrow> fail e y
         | None \<Rightarrow>
             (case tickBody h y of
                (z, Raise) \<Rightarrow> fail (failure Internal ''automation-host-exception'') z
              | (z, _) \<Rightarrow> z)))"

section \<open>Typed expressions\<close>

type_synonym typing = "string \<rightharpoonup> ParameterType"

inductive typed :: "typing \<Rightarrow> Expression \<Rightarrow> ParameterType \<Rightarrow> bool" for G :: typing where
  literal: "hasType v t \<Longrightarrow> typed G (Node Literal v n l r) t"
| variable: "G n = Some t \<Longrightarrow> typed G (Node Variable v n l r) t"
| negation: "typed G l BooleanType \<Longrightarrow> typed G (Node Not v n l r) BooleanType"
| connective: "k = And \<or> k = Or \<Longrightarrow> typed G l BooleanType \<Longrightarrow> typed G r BooleanType \<Longrightarrow> typed G (Node k v n l r) BooleanType"
| equality: "k = Equal \<or> k = NotEqual \<Longrightarrow> typed G l t \<Longrightarrow> typed G r t' \<Longrightarrow> typed G (Node k v n l r) BooleanType"
| ordering: "k \<in> {Less, LessEqual, Greater, GreaterEqual} \<Longrightarrow> t \<noteq> BooleanType \<Longrightarrow> typed G l t \<Longrightarrow> typed G r t
    \<Longrightarrow> typed G (Node k v n l r) BooleanType"

definition conforms :: "typing \<Rightarrow> Parameters \<Rightarrow> bool" where
  "conforms G vars \<longleftrightarrow> (\<forall>n t. G n = Some t \<longrightarrow> (\<exists>v. map_of vars n = Some v \<and> hasType v t))"

text \<open>The number of nodes on the longest path \<open>Evaluate\<close> may take.\<close>

fun height :: "Expression \<Rightarrow> nat" where
  "height Null = 1"
| "height (Node k v n l r) =
     (if k = Literal \<or> k = Variable then 1 else if k = Not then Suc (height l) else Suc (max (height l) (height r)))"

lemma hasType_Boolean: "hasType v BooleanType \<Longrightarrow> \<exists>b. v = Boolean b"
  by (cases v) auto

lemma compareValues_ordered:
  assumes "hasType a t" and "hasType b t" and "t \<noteq> BooleanType" and "k \<in> {Less, LessEqual, Greater, GreaterEqual}"
  shows "\<exists>c. compareValues k a b = Inr (Boolean c)"
  using assms by (cases a; cases b) (auto simp: compareValues_def split: ExpressionKind.split)

lemma Boolean_result: "(\<exists>v. r = Inr v \<and> hasType v BooleanType) \<longleftrightarrow> (\<exists>b. r = Inr (Boolean b))"
  by (auto dest: hasType_Boolean)

lemma Evaluate_typed:
  assumes "typed G e t" and "conforms G vars" and "depth + height e \<le> 33"
  shows "\<exists>v. Evaluate e vars depth = Inr v \<and> hasType v t"
  using assms(1,3)
proof (induction arbitrary: depth rule: typed.induct)
  case (literal v t n l r)
  then show ?case by simp
next
  case (variable n t v l r)
  moreover from variable obtain w where "map_of vars n = Some w" "hasType w t"
    using assms(2) unfolding conforms_def by blast
  ultimately show ?case by simp
next
  case (negation l v n r)
  obtain a where "Evaluate l vars (Suc depth) = Inr (Boolean a)"
    using negation.IH [of "Suc depth"] negation.prems by (auto dest!: hasType_Boolean)
  then show ?case using negation.prems by simp
next
  case (connective k l r v n)
  then have d: "Suc depth + height l \<le> 33" "Suc depth + height r \<le> 33" by auto
  obtain a b where "Evaluate l vars (Suc depth) = Inr (Boolean a)" "Evaluate r vars (Suc depth) = Inr (Boolean b)"
    using connective.IH(1) [OF d(1)] connective.IH(2) [OF d(2)] unfolding Boolean_result by blast
  then show ?case using connective.hyps(1) connective.prems by auto
next
  case (equality k l t r t' v n)
  then have d: "Suc depth + height l \<le> 33" "Suc depth + height r \<le> 33" by auto
  obtain a b where "Evaluate l vars (Suc depth) = Inr a" "Evaluate r vars (Suc depth) = Inr b"
    using equality.IH(1) [OF d(1)] equality.IH(2) [OF d(2)] by blast
  then show ?case using equality.hyps(1) equality.prems by (auto simp: compareValues_def)
next
  case (ordering k t l r v n)
  then have d: "Suc depth + height l \<le> 33" "Suc depth + height r \<le> 33" by auto
  obtain a b where ab: "Evaluate l vars (Suc depth) = Inr a" "hasType a t" "Evaluate r vars (Suc depth) = Inr b" "hasType b t"
    using ordering.IH(1) [OF d(1)] ordering.IH(2) [OF d(2)] by blast
  show ?case
    using ab compareValues_ordered [OF ab(2,4) ordering.hyps(2,1)] ordering.hyps(1) ordering.prems by auto
qed

section \<open>The invariant of an execution\<close>

abbreviation programLength :: "Execution \<Rightarrow> nat" where
  "programLength x \<equiv> length (steps (program x))"

definition outstanding :: "Execution \<Rightarrow> bool" where
  "outstanding x \<longleftrightarrow> pending x \<noteq> None \<or> acceptedOutcome x \<noteq> None"

definition invokes :: "Execution \<Rightarrow> CommandInvocation \<Rightarrow> nat \<Rightarrow> bool" where
  "invokes x i o' \<longleftrightarrow> stepKind (steps (program x) ! o') = Invoke \<and> invId i = command (steps (program x) ! o')
     \<and> invPermissions i = permissions x \<and> invCorrelation i = runId x @ '':'' @ showNat (o' + 1)"

text \<open>What was sent are invocations of steps before \<open>b\<close>, in the order of the program.\<close>

definition sentBelow :: "nat \<Rightarrow> Execution \<Rightarrow> bool" where
  "sentBelow b x \<longleftrightarrow> (\<exists>os. sorted_wrt (<) os \<and> (\<forall>o'\<in>set os. o' < b \<and> o' < programLength x)
     \<and> list_all2 (invokes x) (sent x) os)"

definition isFailed :: "Execution \<Rightarrow> bool" where
  "isFailed x \<longleftrightarrow> state x = Failed \<or> state x = CancelledState"

definition coreInv :: "Execution \<Rightarrow> bool" where
  "coreInv x \<longleftrightarrow> offset x \<le> programLength x \<and> (isFailed x \<or> allForward (steps (program x)))
     \<and> (state x = Running \<longrightarrow> \<not> stop x)
     \<and> (isFailed x \<longleftrightarrow> failureOf x \<noteq> None)
     \<and> (state x = CompletedState \<longrightarrow> errors x = [] \<and> offset x = programLength x)
     \<and> (state x = CompletedWithErrors \<longrightarrow> errors x \<noteq> [] \<and> offset x = programLength x)
     \<and> list_all (\<lambda>(l, e). recoverable e) (errors x)
     \<and> (errors x \<noteq> [] \<longrightarrow> failurePolicy (program x) = ContinuePolicy)
     \<and> (outstanding x \<longrightarrow> offset x < programLength x)
     \<and> (pending x = None \<or> acceptedOutcome x = None)
     \<and> (\<not> isFailed x \<and> \<not> outstanding x \<longrightarrow> sentBelow (offset x) x)
     \<and> sentBelow (Suc (offset x)) x"

text \<open>An exception leaves a running execution on which everything but the last dispatch is
  accounted for.\<close>

definition raisedInv :: "Execution \<Rightarrow> bool" where
  "raisedInv x \<longleftrightarrow> offset x \<le> programLength x \<and> allForward (steps (program x)) \<and> state x = Running
     \<and> \<not> stop x \<and> failureOf x = None
     \<and> list_all (\<lambda>(l, e). recoverable e) (errors x)
     \<and> (errors x \<noteq> [] \<longrightarrow> failurePolicy (program x) = ContinuePolicy)
     \<and> (outstanding x \<longrightarrow> offset x < programLength x)
     \<and> (pending x = None \<or> acceptedOutcome x = None)
     \<and> sentBelow (Suc (offset x)) x"

fun stageInv :: "Execution \<times> flow \<Rightarrow> bool" where
  "stageInv (x, Raise) = raisedInv x"
| "stageInv (x, Proceed) = (coreInv x \<and> (\<not> isFailed x \<longrightarrow> state x = Running))"
| "stageInv (x, Leave) = coreInv x"

lemma sentBelow_mono: "sentBelow b x \<Longrightarrow> b \<le> c \<Longrightarrow> sentBelow c x"
  unfolding sentBelow_def by (meson order_less_le_trans)

lemma sentBelow_same: "program y = program x \<Longrightarrow> permissions y = permissions x \<Longrightarrow> runId y = runId x
    \<Longrightarrow> sent y = sent x \<Longrightarrow> sentBelow b y = sentBelow b x"
  unfolding sentBelow_def invokes_def by simp

lemma sentBelow_send:
  assumes "sentBelow (offset x) x" and "offset x < programLength x" and "invokes x i (offset x)"
    and "program y = program x" "permissions y = permissions x" "runId y = runId x" and "sent y = sent x @ [i]"
  shows "sentBelow (Suc (offset x)) y"
proof -
  obtain os where os: "sorted_wrt (<) os" "\<forall>o'\<in>set os. o' < offset x \<and> o' < programLength x"
      "list_all2 (invokes x) (sent x) os"
    using assms(1) by (auto simp: sentBelow_def)
  have "invokes y = invokes x"
    using assms(4-6) by (auto simp: invokes_def fun_eq_iff)
  then show ?thesis
    unfolding sentBelow_def
    by (intro exI [of _ "os @ [offset x]"])
      (use os assms(2-7) in \<open>auto simp: sorted_wrt_append list_all2_appendI less_SucI\<close>)
qed

lemma coreInv_raised: "coreInv x \<Longrightarrow> state x = Running \<Longrightarrow> raisedInv x"
  by (auto simp: coreInv_def raisedInv_def isFailed_def)

text \<open>The counters of host calls and the record of cancellations are not in the invariants.\<close>

lemma coreInv_cong: "program y = program x \<Longrightarrow> permissions y = permissions x \<Longrightarrow> runId y = runId x
    \<Longrightarrow> offset y = offset x \<Longrightarrow> stop y = stop x \<Longrightarrow> state y = state x \<Longrightarrow> pending y = pending x
    \<Longrightarrow> acceptedOutcome y = acceptedOutcome x \<Longrightarrow> failureOf y = failureOf x \<Longrightarrow> errors y = errors x
    \<Longrightarrow> sent y = sent x \<Longrightarrow> coreInv y = coreInv x"
  using sentBelow_same [of y x] by (simp add: coreInv_def isFailed_def outstanding_def)

lemma coreInv_updates [simp]:
  "coreInv (x\<lparr>moment := m\<rparr>) = coreInv x" "coreInv (x\<lparr>variables := vs\<rparr>) = coreInv x"
  "coreInv (x\<lparr>ticks := m\<rparr>) = coreInv x" "coreInv (x\<lparr>invocation := i\<rparr>) = coreInv x"
  "coreInv (sendCancel v x) = coreInv x" "coreInv (bindContext ctx x) = coreInv x"
  by (rule coreInv_cong; simp add: sendCancel_def bindContext_def)+

lemma fail_fields [simp]:
  "program (fail e x) = program x" "permissions (fail e x) = permissions x" "runId (fail e x) = runId x"
  "offset (fail e x) = offset x" "errors (fail e x) = errors x" "sent (fail e x) = sent x"
  "pending (fail e x) = pending x" "acceptedOutcome (fail e x) = acceptedOutcome x"
  "failureOf (fail e x) = Some e" "isFailed (fail e x)" "state (fail e x) \<noteq> Running"
  "state (fail e x) \<noteq> CompletedState" "state (fail e x) \<noteq> CompletedWithErrors"
  by (simp_all add: fail_def sendCancel_def Let_def isFailed_def)

lemma sentBelow_fail [simp]: "sentBelow b (fail e x) = sentBelow b x"
  by (rule sentBelow_same) simp_all

lemma outstanding_fail [simp]: "outstanding (fail e x) = outstanding x"
  by (simp add: outstanding_def)

lemma fail_raised: "raisedInv x \<Longrightarrow> coreInv (fail e x)"
  by (simp add: raisedInv_def coreInv_def)

lemma fail_coreInv: "coreInv x \<Longrightarrow> state x = Running \<Longrightarrow> coreInv (fail e x)"
  using coreInv_raised fail_raised by blast

lemma bindResult_fields [simp]:
  "program (bindResult vs x) = program x" "permissions (bindResult vs x) = permissions x"
  "runId (bindResult vs x) = runId x" "offset (bindResult vs x) = offset x" "errors (bindResult vs x) = errors x"
  "sent (bindResult vs x) = sent x" "pending (bindResult vs x) = pending x" "stop (bindResult vs x) = stop x"
  "acceptedOutcome (bindResult vs x) = acceptedOutcome x" "state (bindResult vs x) = state x"
  "failureOf (bindResult vs x) = failureOf x" "completed (bindResult vs x) = completed x"
  by (simp_all add: bindResult_def Let_def)

lemma afterGroup_bounds:
  assumes "offset x < programLength x"
  shows "offset x < afterGroup x \<and> afterGroup x \<le> programLength x"
  using assms length_takeWhile_le [of _ "drop (Suc (offset x)) (steps (program x))"]
  by (auto simp: afterGroup_def Let_def le_diff_conv2 Suc_le_eq add.commute
      intro: order.trans [OF add_left_mono])

lemma raisedInv_cong: "program y = program x \<Longrightarrow> permissions y = permissions x \<Longrightarrow> runId y = runId x
    \<Longrightarrow> offset y = offset x \<Longrightarrow> stop y = stop x \<Longrightarrow> state y = state x
    \<Longrightarrow> pending y = pending x \<or> pending y = None \<Longrightarrow> acceptedOutcome y = acceptedOutcome x
    \<Longrightarrow> failureOf y = failureOf x \<Longrightarrow> errors y = errors x \<Longrightarrow> sent y = sent x \<Longrightarrow> raisedInv x \<Longrightarrow> raisedInv y"
  using sentBelow_same [of y x] by (auto simp: raisedInv_def outstanding_def)

lemma raisedInv_sendCancel: "raisedInv x \<Longrightarrow> raisedInv (sendCancel v x)"
  by (rule raisedInv_cong [of _ x]) (simp_all add: sendCancel_def)

lemma raisedInv_moment: "raisedInv x \<Longrightarrow> raisedInv (x\<lparr>moment := m\<rparr>)"
  by (rule raisedInv_cong [of _ x]) simp_all

text \<open>A running execution moves on once its command is answered.\<close>

lemma coreInv_advance:
  assumes "raisedInv x" and "offset x < b" and "b \<le> programLength x"
    and "program y = program x" "permissions y = permissions x" "runId y = runId x" "sent y = sent x"
    and "offset y = b" "state y = Running" "pending y = None" "acceptedOutcome y = None" "stop y = stop x"
    and "failureOf y = failureOf x" "list_all (\<lambda>(l, e). recoverable e) (errors y)"
    and "errors y \<noteq> [] \<longrightarrow> failurePolicy (program x) = ContinuePolicy"
  shows "coreInv y"
  using assms sentBelow_mono [of "Suc (offset x)" x b] sentBelow_mono [of "Suc (offset x)" x "Suc b"]
    sentBelow_same [of y x] by (simp add: coreInv_def raisedInv_def isFailed_def outstanding_def)

lemma recordFailure_fields [simp]:
  "program (recordFailure e x) = program x" "permissions (recordFailure e x) = permissions x"
  "runId (recordFailure e x) = runId x" "errors (recordFailure e x) = errors x @ [(Line x, e)]"
  "sent (recordFailure e x) = sent x" "pending (recordFailure e x) = pending x" "stop (recordFailure e x) = stop x"
  "acceptedOutcome (recordFailure e x) = None" "state (recordFailure e x) = state x"
  "failureOf (recordFailure e x) = failureOf x" "offset (recordFailure e x) = afterGroup x"
  by (simp_all add: recordFailure_def Let_def afterGroup_def stepAt_def)

lemma recordFailure_coreInv:
  assumes "raisedInv x" and "pending x = None" and "offset x < programLength x"
    and "failurePolicy (program x) = ContinuePolicy" and "recoverable e"
  shows "coreInv (recordFailure e x)"
proof -
  have "list_all (\<lambda>(l, e). recoverable e) (errors x)" "state x = Running"
    using assms(1) by (simp_all add: raisedInv_def)
  then show ?thesis
    by (intro coreInv_advance [OF assms(1), of "afterGroup x"])
      (use assms(2-) afterGroup_bounds [OF assms(3)] in simp_all)
qed

lemma sendCancel_fields [simp]:
  "program (sendCancel v x) = program x" "state (sendCancel v x) = state x" "pending (sendCancel v x) = pending x"
  "offset (sendCancel v x) = offset x" "acceptedOutcome (sendCancel v x) = acceptedOutcome x"
  by (simp_all add: sendCancel_def)

lemma raisedInv_Running: "raisedInv x \<Longrightarrow> state x = Running"
  by (simp add: raisedInv_def)

lemma commandFailed_stage:
  assumes "raisedInv x" and "pending x = None" and "offset x < programLength x"
  shows "stageInv (commandFailed h e x)"
proof (cases "failurePolicy (program x) \<noteq> ContinuePolicy \<or> \<not> recoverable e")
  case True
  then show ?thesis using fail_raised [OF assms(1)] by (simp add: commandFailed_def)
next
  case False
  have one: "coreInv (recordFailure e x) \<and> state (recordFailure e x) = Running"
    using assms False recordFailure_coreInv [of x e] raisedInv_Running by simp
  have two: "coreInv (recordFailure e (sendCancel v x)) \<and> state (recordFailure e (sendCancel v x)) = Running" for v
    using assms False recordFailure_coreInv [OF raisedInv_sendCancel [OF assms(1)]] raisedInv_Running by simp
  show ?thesis
    using False one two raisedInv_sendCancel [OF assms(1)]
    by (cases "acceptedOutcome x"; cases "the (cancel h) (moment x) (invocation x) (the (acceptedOutcome x))")
      (simp_all add: commandFailed_def)
qed

lemma finishCommand_stage:
  assumes "raisedInv x" and "pending x = None" and "offset x < programLength x"
  shows "coreInv (finishCommand v vs x) \<and> (\<not> isFailed (finishCommand v vs x) \<longrightarrow> state (finishCommand v vs x) = Running)"
proof -
  have "coreInv ((bindResult ws x)\<lparr>acceptedOutcome := None, offset := Suc (offset x), completed := c\<rparr>)" for ws c
    by (rule coreInv_advance [OF assms(1), of "Suc (offset x)"]) (use assms in \<open>simp_all add: raisedInv_def\<close>)
  then show ?thesis
    using raisedInv_Running [OF assms(1)] by (simp add: finishCommand_def Let_def fail_raised [OF assms(1)])
qed

lemma commandCompleted_stage:
  assumes "raisedInv x" and "pending x = None" and "offset x < programLength x"
  shows "stageInv (commandCompleted h v x)"
  using assms commandFailed_stage [of "x\<lparr>moment := Suc (moment x)\<rparr>" h] finishCommand_stage [of x v "[]"]
    finishCommand_stage [of "x\<lparr>moment := Suc (moment x)\<rparr>" v] raisedInv_moment [OF assms(1)]
  by (simp add: commandCompleted_def Let_def split: option.split sum.split)

lemma stageInv_leaveUnlessRunning: "stageInv r \<Longrightarrow> stageInv (leaveUnlessRunning r)"
  by (cases r; cases "snd r") (auto simp: leaveUnlessRunning_def split: flow.split)

section \<open>Every stage of \<open>Tick\<close> keeps the invariant\<close>

definition settled :: "Execution \<Rightarrow> bool" where
  "settled x \<longleftrightarrow> state x = Running \<and> pending x = None \<and> acceptedOutcome x = None"

lemma raisedInv_answered: "raisedInv x \<Longrightarrow> raisedInv (x\<lparr>moment := m, pending := None\<rparr>)"
  by (rule raisedInv_cong [of _ x]) simp_all

lemma awaitDispatch_stage:
  assumes "coreInv x" and "state x = Running"
  shows "stageInv (awaitDispatch h x)"
proof (cases "pending x")
  case None
  then show ?thesis using assms by (simp add: awaitDispatch_def)
next
  case (Some fut)
  let ?y = "x\<lparr>moment := Suc (moment x), pending := None\<rparr>"
  have less: "offset x < programLength x"
    using assms Some by (simp add: coreInv_def outstanding_def)
  have raised: "raisedInv ?y"
    using raisedInv_answered coreInv_raised assms by blast
  have accepted: "coreInv (?y\<lparr>acceptedOutcome := Some v\<rparr>)" for v
    using assms Some less sentBelow_same [of "?y\<lparr>acceptedOutcome := Some v\<rparr>" x]
    by (simp add: coreInv_def isFailed_def outstanding_def)
  show ?thesis
    using Some assms less raised accepted coreInv_raised [of "x\<lparr>moment := Suc (moment x)\<rparr>"] fail_raised [OF raised]
      stageInv_leaveUnlessRunning [OF commandFailed_stage [OF raised]]
      stageInv_leaveUnlessRunning [OF commandCompleted_stage [OF raised]]
    by (simp add: awaitDispatch_def Let_def split: future.split sum.split)
qed

lemma awaitJob_stage:
  assumes "coreInv x" and "state x = Running"
  shows "stageInv (awaitJob h x)"
proof (cases "acceptedOutcome x")
  case None
  then show ?thesis using assms by (simp add: awaitJob_def)
next
  case (Some v)
  let ?y = "x\<lparr>moment := Suc (moment x)\<rparr>"
  have less: "offset x < programLength x" "pending x = None"
    using assms Some by (auto simp: coreInv_def outstanding_def)
  have raised: "raisedInv ?y"
    using raisedInv_moment coreInv_raised assms by blast
  show ?thesis
    using Some assms less raised
      stageInv_leaveUnlessRunning [OF commandFailed_stage [OF raised]]
      stageInv_leaveUnlessRunning [OF commandCompleted_stage [OF raised]]
    by (simp add: awaitJob_def Let_def split: option.split sum.split)
qed

lemma coreInv_forward: "coreInv x \<Longrightarrow> state x = Running \<Longrightarrow> offset x < programLength x \<Longrightarrow> isForward (programLength x) (offset x) (stepAt x)"
  by (auto simp: coreInv_def isFailed_def allForward_def list_all_iff stepAt_def)

text \<open>The state in which the loop of \<open>Tick\<close> runs.\<close>

definition loopInv :: "Execution \<Rightarrow> bool" where
  "loopInv x \<longleftrightarrow> coreInv x \<and> settled x"

lemma loopInv_jump:
  assumes "loopInv x" and "offset x < b" and "b \<le> programLength x"
  shows "loopInv (x\<lparr>offset := b\<rparr>) \<and> loopInv (x\<lparr>variables := vs, offset := b\<rparr>)"
proof -
  have "raisedInv x" "settled x"
    using assms(1) coreInv_raised by (auto simp: loopInv_def settled_def)
  then show ?thesis
    using assms(2,3) coreInv_advance [OF \<open>raisedInv x\<close> assms(2,3), of "x\<lparr>offset := b\<rparr>"]
      coreInv_advance [OF \<open>raisedInv x\<close> assms(2,3), of "x\<lparr>variables := vs, offset := b\<rparr>"]
    by (simp add: loopInv_def settled_def raisedInv_def)
qed

definition stepDone :: "Execution \<Rightarrow> Execution \<times> flow \<Rightarrow> bool" where
  "stepDone x r = (case r of
       (y, Proceed) \<Rightarrow> loopInv y \<and> offset x < offset y \<and> programLength y = programLength x
     | (y, Leave) \<Rightarrow> coreInv y \<and> programLength y = programLength x
         \<and> (state y \<noteq> Running \<or> (pending y \<noteq> None \<and> offset y = offset x))
     | (y, Raise) \<Rightarrow> raisedInv y)"

lemma stepDone_simps [simp]:
  "stepDone x (y, Proceed) \<longleftrightarrow> loopInv y \<and> offset x < offset y \<and> programLength y = programLength x"
  "stepDone x (y, Leave) \<longleftrightarrow> coreInv y \<and> programLength y = programLength x
     \<and> (state y \<noteq> Running \<or> (pending y \<noteq> None \<and> offset y = offset x))"
  "stepDone x (y, Raise) \<longleftrightarrow> raisedInv y"
  by (simp_all add: stepDone_def)

lemma controlStep_done:
  assumes "loopInv x" and "offset x < programLength x" and "stepKind (stepAt x) \<noteq> Invoke"
  shows "stepDone x (controlStep x)"
proof -
  have inv: "coreInv x" "state x = Running"
    using assms(1) by (auto simp: loopInv_def settled_def)
  have suc: "loopInv (x\<lparr>offset := Suc (offset x)\<rparr>)" "loopInv (x\<lparr>variables := vs, offset := Suc (offset x)\<rparr>)" for vs
    using loopInv_jump [OF assms(1), of "Suc (offset x)"] assms(2) by auto
  have forward: "isForward (programLength x) (offset x) (stepAt x)"
    using coreInv_forward inv assms(2) by blast
  then have jump: "stepKind (stepAt x) = Branch \<or> stepKind (stepAt x) = Jump \<Longrightarrow>
      loopInv (x\<lparr>offset := target (stepAt x)\<rparr>) \<and> offset x < target (stepAt x)"
    using loopInv_jump [OF assms(1), of "target (stepAt x)"] by (auto simp: isForward_def)
  show ?thesis
    using suc jump fail_coreInv [OF inv] assms(3)
    by (cases "stepKind (stepAt x)") (auto simp: controlStep_def stepDone_def split: sum.split Value.split)
qed

lemma invokeStep_done:
  assumes "loopInv x" and "offset x < programLength x" and "stepKind (stepAt x) = Invoke"
  shows "stepDone x (invokeStep h ctx x)"
proof -
  have inv: "coreInv x" "state x = Running" "settled x"
    using assms(1) by (auto simp: loopInv_def settled_def)
  let ?y = "\<lambda>g. x\<lparr>invocation := fullInvocation x ctx g, sent := sent x @ [fullInvocation x ctx g], moment := Suc (moment x)\<rparr>"
  have below: "sentBelow (offset x) x"
    using inv by (simp add: coreInv_def settled_def outstanding_def isFailed_def)
  have invokes: "invokes x (fullInvocation x ctx g) (offset x)" for g
    using assms(3) by (simp add: invokes_def fullInvocation_def begunInvocation_def stepAt_def emptyInvocation_def)
  have send: "sentBelow (Suc (offset x)) (?y g)" "sentBelow (Suc (offset x)) (?y g\<lparr>pending := p\<rparr>)" for g p
    by (rule sentBelow_send [OF below assms(2) invokes]; simp)+
  have raised: "raisedInv (?y g)" for g
    using coreInv_raised [OF inv(1,2)] send(1) inv(3) assms(2) by (simp add: raisedInv_def settled_def outstanding_def)
  have waiting: "coreInv (?y g\<lparr>pending := Some f\<rparr>)" for g f
    using raised [of g] inv(3) assms(2) send(2) [where g = g and p = "Some f"]
    by (simp add: raisedInv_def coreInv_def isFailed_def outstanding_def settled_def)
  show ?thesis
    using raised waiting fail_coreInv [of "x\<lparr>invocation := i\<rparr>" for i] inv
    by (auto simp: invokeStep_def stepDone_def Let_def split: prod.split option.split)
qed

lemma loopInv_updates [simp]:
  "loopInv (x\<lparr>moment := m\<rparr>) = loopInv x" "loopInv (x\<lparr>ticks := m\<rparr>) = loopInv x" "loopInv (bindContext ctx x) = loopInv x"
  by (simp_all add: loopInv_def settled_def bindContext_def)

lemma bindContext_fields [simp]:
  "program (bindContext ctx x) = program x" "offset (bindContext ctx x) = offset x" "stepAt (bindContext ctx x) = stepAt x"
  by (simp_all add: bindContext_def stepAt_def)

lemma stepDone_same: "programLength y = programLength x \<Longrightarrow> offset y = offset x \<Longrightarrow> stepDone y r = stepDone x r"
  by (simp add: stepDone_def split: prod.split flow.split)

lemma oneStep_done:
  assumes "loopInv x"
  shows "stepDone x (oneStep h x)"
proof (cases "offset x = programLength x")
  case True
  then show ?thesis
    using assms sentBelow_same [of "x\<lparr>state := st\<rparr>" x for st]
    by (auto simp: oneStep_def stepDone_def loopInv_def settled_def coreInv_def isFailed_def outstanding_def)
next
  case False
  then have less: "offset x < programLength x"
    using assms by (auto simp: loopInv_def coreInv_def)
  let ?y = "x\<lparr>ticks := Suc (ticks x)\<rparr>"
  let ?z = "?y\<lparr>moment := Suc (moment x)\<rparr>"
  have inv: "coreInv ?y" "coreInv ?z" "state x = Running"
    using assms by (simp_all add: loopInv_def settled_def)
  have loop: "loopInv (bindContext ctx ?z)" for ctx
    using assms by simp
  have step: "stepDone x (if stepKind (stepAt ?z) = Invoke then invokeStep h ctx (bindContext ctx ?z) else controlStep (bindContext ctx ?z))" for ctx
    using invokeStep_done [OF loop] controlStep_done [OF loop] less stepDone_same [of "bindContext ctx ?z" x, symmetric]
    by (simp add: stepAt_def)
  show ?thesis
    using False step fail_coreInv [OF inv(1)] fail_coreInv [OF inv(2)] coreInv_raised [OF inv(2)] inv(3)
    by (simp add: oneStep_def Let_def split: option.split sum.split)
qed

definition batchDone :: "nat \<Rightarrow> Execution \<Rightarrow> Execution \<times> flow \<Rightarrow> bool" where
  "batchDone k x r = (case r of
       (y, Raise) \<Rightarrow> raisedInv y
     | (y, _) \<Rightarrow> coreInv y \<and> (state y = Running \<longrightarrow> programLength y = programLength x
         \<and> (settled y \<and> offset x + k \<le> offset y \<or> pending y \<noteq> None \<and> offset x \<le> offset y)))"

lemma batchDone_later:
  "batchDone k y r \<Longrightarrow> offset x < offset y \<Longrightarrow> programLength y = programLength x \<Longrightarrow> batchDone (Suc k) x r"
  by (cases r; cases "snd r") (auto simp: batchDone_def)

lemma runBatch_done: "loopInv x \<Longrightarrow> batchDone k x (runBatch h k x)"
proof (induction k arbitrary: x)
  case 0
  then show ?case by (simp add: loopInv_def batchDone_def)
next
  case (Suc k)
  obtain y fl where y: "oneStep h x = (y, fl)" by (cases "oneStep h x")
  have did: "stepDone x (y, fl)"
    using oneStep_done [OF Suc.prems] y by metis
  show ?case
  proof (cases fl)
    case Proceed
    then show ?thesis
      using batchDone_later [OF Suc.IH, of y x] did y by (simp add: stepDone_def)
  qed (use did y in \<open>auto simp: stepDone_def batchDone_def\<close>)
qed

section \<open>Reachable executions\<close>

lemma finishCommand_answered [simp]:
  "pending (finishCommand v vs x) = pending x"
  "state (finishCommand v vs x) = Running \<Longrightarrow> acceptedOutcome (finishCommand v vs x) = None \<and> offset (finishCommand v vs x) = Suc (offset x)"
  by (auto simp: finishCommand_def Let_def)

text \<open>After an answered command either the run has ended or it is ready for the next step.\<close>

definition answered :: "Execution \<Rightarrow> Execution \<times> flow \<Rightarrow> bool" where
  "answered x r = (case r of (y, Proceed) \<Rightarrow> pending y = pending x \<and>
       (state y = Running \<longrightarrow> acceptedOutcome y = None \<and> offset x < offset y \<and> programLength y = programLength x)
     | (y, Leave) \<Rightarrow> state y \<noteq> Running | _ \<Rightarrow> True)"

lemma commandFailed_answered:
  assumes "offset x < programLength x"
  shows "answered x (commandFailed h e x)"
  using assms afterGroup_bounds [of x] afterGroup_bounds [of "sendCancel v x" for v]
  by (auto simp: answered_def commandFailed_def split: option.split)

lemma answered_moment: "answered (x\<lparr>moment := m\<rparr>) r = answered x r"
  by (simp add: answered_def split: prod.split flow.split)

lemma finishCommand_program [simp]: "program (finishCommand v vs x) = program x"
  by (simp add: finishCommand_def Let_def)

lemma commandCompleted_answered:
  assumes "offset x < programLength x"
  shows "answered x (commandCompleted h v x)"
  using assms commandFailed_answered [of "x\<lparr>moment := Suc (moment x)\<rparr>" h]
  by (auto simp: answered_moment commandCompleted_def Let_def split: option.split sum.split)
    (auto simp: answered_def)

lemma answered_proceeds: "answered x r \<Longrightarrow> leaveUnlessRunning r = (y, Proceed) \<Longrightarrow>
    state y = Running \<and> pending y = pending x \<and> acceptedOutcome y = None \<and> offset x < offset y
  \<and> programLength y = programLength x"
  by (cases r; cases "snd r") (auto simp: answered_def leaveUnlessRunning_def split: if_splits)

lemma answered_leaves: "answered x r \<Longrightarrow> leaveUnlessRunning r = (y, Leave) \<Longrightarrow> state y \<noteq> Running"
  by (cases r; cases "snd r") (auto simp: answered_def leaveUnlessRunning_def split: if_splits)

lemma awaitDispatch_proceeds:
  assumes "coreInv x" and "state x = Running" and "awaitDispatch h x = (y, Proceed)"
  shows "state y = Running \<and> pending y = None \<and> programLength y = programLength x \<and> (pending x = None \<and> y = x
    \<or> pending x \<noteq> None \<and> (acceptedOutcome y \<noteq> None \<and> offset y = offset x \<or> acceptedOutcome y = None \<and> offset x < offset y))"
proof (cases "pending x")
  case None
  then show ?thesis using assms by (simp add: awaitDispatch_def)
next
  case (Some fut)
  let ?y = "x\<lparr>moment := Suc (moment x), pending := None\<rparr>"
  have "offset ?y < programLength ?y"
    using assms Some by (simp add: coreInv_def outstanding_def)
  from answered_proceeds [OF commandFailed_answered [OF this]] answered_proceeds [OF commandCompleted_answered [OF this]]
  show ?thesis
    using assms(2,3) Some by (simp add: awaitDispatch_def Let_def split: future.splits sum.splits if_splits) auto
qed

lemma awaitJob_proceeds:
  assumes "coreInv x" and "state x = Running" and "awaitJob h x = (y, Proceed)"
  shows "state y = Running \<and> acceptedOutcome y = None \<and> pending y = pending x \<and> programLength y = programLength x
    \<and> (acceptedOutcome x = None \<and> y = x \<or> acceptedOutcome x \<noteq> None \<and> offset x < offset y)"
proof (cases "acceptedOutcome x")
  case None
  then show ?thesis using assms by (simp add: awaitJob_def)
next
  case (Some v)
  let ?y = "x\<lparr>moment := Suc (moment x)\<rparr>"
  have "offset ?y < programLength ?y"
    using assms Some by (simp add: coreInv_def outstanding_def)
  from answered_proceeds [OF commandFailed_answered [OF this]] answered_proceeds [OF commandCompleted_answered [OF this]]
  show ?thesis
    using assms(3) Some by (simp add: awaitJob_def Let_def split: option.splits sum.splits if_splits)
qed

text \<open>How far a run still has to go.\<close>

definition left :: "Execution \<Rightarrow> nat" where
  "left x = 2 * (programLength x - offset x) + (if outstanding x then 0 else 1)"

lemma batchDone_left:
  assumes "batchDone 32 x (y, fl)" and "fl \<noteq> Raise" and "state y = Running" and "settled x"
  shows "coreInv y \<and> left y < left x"
proof -
  have "coreInv y" and *: "programLength y = programLength x"
      "settled y \<and> offset x + 32 \<le> offset y \<or> pending y \<noteq> None \<and> offset x \<le> offset y"
    using assms by (cases fl; simp add: batchDone_def)+
  moreover have "offset y \<le> programLength y"
    using \<open>coreInv y\<close> by (simp add: coreInv_def)
  ultimately show ?thesis
    using assms(4) by (auto simp: left_def settled_def outstanding_def)
qed

text \<open>A stage that leaves a running execution is one that waits.\<close>

lemma awaitDispatch_leaves:
  assumes "coreInv x" and "awaitDispatch h x = (y, Leave)" and "\<And>f. pending x = Some f \<Longrightarrow> f (moment x) \<noteq> NotReady"
  shows "state y \<noteq> Running"
proof (cases "pending x")
  case None
  then show ?thesis using assms by (simp add: awaitDispatch_def)
next
  case (Some fut)
  let ?y = "x\<lparr>moment := Suc (moment x), pending := None\<rparr>"
  show ?thesis
  proof (cases "offset x < programLength x")
    case True
    then have "offset ?y < programLength ?y" by simp
    from answered_leaves [OF commandFailed_answered [OF this]] answered_leaves [OF commandCompleted_answered [OF this]]
    show ?thesis
      using assms Some by (auto simp: awaitDispatch_def Let_def split: future.splits sum.splits if_splits)
  next
    case False
    then show ?thesis
      using assms(1) Some by (simp add: coreInv_def outstanding_def)
  qed
qed

lemma awaitJob_leaves:
  assumes "coreInv x" and "awaitJob h x = (y, Leave)"
    and "\<And>v. the (poll h) (moment x) (invocation x) v \<noteq> Some (Inr False)"
  shows "state y \<noteq> Running"
proof (cases "acceptedOutcome x")
  case None
  then show ?thesis using assms by (simp add: awaitJob_def)
next
  case (Some v)
  let ?y = "x\<lparr>moment := Suc (moment x)\<rparr>"
  have "offset ?y < programLength ?y"
    using assms Some by (simp add: coreInv_def outstanding_def)
  from answered_leaves [OF commandFailed_answered [OF this]] answered_leaves [OF commandCompleted_answered [OF this]]
  show ?thesis
    using assms(2) assms(3) [of v] Some by (auto simp: awaitJob_def Let_def split: option.splits sum.splits if_splits)
qed

lemma tickBody_coreInv:
  assumes "coreInv x" and "state x = Running"
  shows "case tickBody h x of (y, Raise) \<Rightarrow> raisedInv y | (y, _) \<Rightarrow> coreInv y"
proof -
  obtain y fl where y: "awaitDispatch h x = (y, fl)" by (cases "awaitDispatch h x")
  obtain z fl' where z: "awaitJob h y = (z, fl')" by (cases "awaitJob h y")
  have one: "stageInv (y, fl)" using awaitDispatch_stage [OF assms, of h] y by simp
  show ?thesis
  proof (cases fl)
    case Proceed
    then have running: "coreInv y" "state y = Running" "pending y = None"
      using one awaitDispatch_proceeds [OF assms, of h y] y by auto
    have two: "stageInv (z, fl')" using awaitJob_stage [OF running(1,2), of h] z by simp
    show ?thesis
    proof (cases fl')
      case p: Proceed
      then have "loopInv z"
        using two awaitJob_proceeds [OF running(1,2), of h z] z running(3) by (auto simp: loopInv_def settled_def)
      then show ?thesis
        using runBatch_done [of z 32 h] y z p Proceed
        by (auto simp: tickBody_def continue_def batchDone_def split: prod.splits flow.splits)
    qed (use two y z Proceed in \<open>simp_all add: tickBody_def continue_def\<close>)
  qed (use one y in \<open>simp_all add: tickBody_def continue_def\<close>)
qed

lemma Cancel_coreInv: "coreInv x \<Longrightarrow> coreInv (Cancel x)"
  by (simp add: Cancel_def fail_coreInv)

lemma Tick_coreInv: "coreInv x \<Longrightarrow> coreInv (Tick h x)"
  using tickBody_coreInv [of "x\<lparr>moment := Suc (moment x)\<rparr>" h] Cancel_coreInv [of x] fail_raised
    fail_coreInv [of "x\<lparr>moment := Suc (moment x)\<rparr>"]
  by (auto simp: Tick_def Let_def split: option.split prod.split flow.split)

lemma sentBelow_none: "sent x = [] \<Longrightarrow> sentBelow b x"
  unfolding sentBelow_def by (intro exI [of _ "[]"]) simp

lemma Create_coreInv: "coreInv (Create p h perms run until)"
proof -
  have "coreInv y \<Longrightarrow> failureOf y \<noteq> None \<Longrightarrow> coreInv (fail e y)" for e y
    by (simp add: coreInv_def)
  moreover have "raisedInv x \<Longrightarrow> coreInv (fail e x)" for e x by (rule fail_raised)
  ultimately show ?thesis
    by (auto simp: Create_def Let_def coreInv_def outstanding_def sentBelow_none isFailed_def [of "_\<lparr>state := _\<rparr>"])
      (simp_all add: isFailed_def)
qed

inductive executionRun :: "Host \<Rightarrow> Execution \<Rightarrow> bool" for h :: Host where
  created: "executionRun h (Create p h perms run until)"
| ticked: "executionRun h x \<Longrightarrow> executionRun h (Tick h x)"
| cancelled: "executionRun h x \<Longrightarrow> executionRun h (Cancel x)"

lemma executionRun_coreInv: "executionRun h x \<Longrightarrow> coreInv x"
  by (induction rule: executionRun.induct) (simp_all add: Create_coreInv Tick_coreInv Cancel_coreInv)

section \<open>A host that answers\<close>

definition prompt :: "Host \<Rightarrow> bool" where
  "prompt h \<longleftrightarrow> (\<forall>t i v. the (poll h) t i v \<noteq> Some (Inr False))
     \<and> (\<forall>t i f t'. the (hostDispatch h) t i = Some f \<longrightarrow> f t' \<noteq> NotReady)"

definition pendingReady :: "Execution \<Rightarrow> bool" where
  "pendingReady x \<longleftrightarrow> (\<forall>f t. pending x = Some f \<longrightarrow> f t \<noteq> NotReady)"

lemma pendingReady_same: "pending y = pending x \<or> pending y = None \<Longrightarrow> pendingReady x \<Longrightarrow> pendingReady y"
  by (auto simp: pendingReady_def)

lemma fst_leaveUnlessRunning [simp]: "fst (leaveUnlessRunning r) = fst r"
  by (cases r; cases "snd r") (auto simp: leaveUnlessRunning_def)

lemma pending_commandFailed [simp]: "pending (fst (commandFailed h e x)) = pending x"
  by (simp add: commandFailed_def split: option.split)

lemma pending_commandCompleted [simp]: "pending (fst (commandCompleted h v x)) = pending x"
  by (simp add: commandCompleted_def Let_def split: option.split sum.split)

lemma pending_awaitDispatch: "pendingReady x \<Longrightarrow> pendingReady (fst (awaitDispatch h x))"
  by (rule pendingReady_same [of _ x]) (auto simp: awaitDispatch_def Let_def split: option.split future.split sum.split)

lemma pending_awaitJob: "pendingReady x \<Longrightarrow> pendingReady (fst (awaitJob h x))"
  by (rule pendingReady_same [of _ x]) (auto simp: awaitJob_def Let_def split: option.split sum.split)

lemma pending_oneStep: "prompt h \<Longrightarrow> pendingReady x \<Longrightarrow> pendingReady (fst (oneStep h x))"
  by (simp add: oneStep_def invokeStep_def controlStep_def bindContext_def Let_def pendingReady_def prompt_def
      split: option.split sum.split prod.split Value.split)

lemma pending_runBatch: "prompt h \<Longrightarrow> pendingReady x \<Longrightarrow> pendingReady (fst (runBatch h k x))"
proof (induction k arbitrary: x)
  case (Suc k)
  then show ?case using pending_oneStep [of h x] by (auto split: prod.split flow.split)
qed simp

lemma pending_continue: "pendingReady (fst r) \<Longrightarrow> (\<And>x. pendingReady x \<Longrightarrow> pendingReady (fst (f x)))
    \<Longrightarrow> pendingReady (fst (continue f r))"
  by (cases r; cases "snd r") (auto simp: continue_def)

lemma pending_fail: "pendingReady (fail e x) = pendingReady x"
  by (simp add: pendingReady_def)

lemma pending_Tick:
  assumes "prompt h" and "pendingReady x"
  shows "pendingReady (Tick h x)"
proof -
  let ?y = "x\<lparr>moment := Suc (moment x)\<rparr>"
  have "pendingReady ?y" using assms(2) by (simp add: pendingReady_def)
  moreover from this have "pendingReady (fst (tickBody h ?y))"
    using assms(1) unfolding tickBody_def
    by (intro pending_continue pending_awaitDispatch pending_awaitJob pending_runBatch)
  ultimately show ?thesis
    using assms(2) by (auto simp: Tick_def Cancel_def Let_def pending_fail split: option.split prod.split flow.split)
qed

lemma Tick_left:
  assumes "prompt h" and "coreInv x" and "pendingReady x" and "state x = Running" and "state (Tick h x) = Running"
  shows "left (Tick h x) < left x"
proof -
  let ?x = "x\<lparr>moment := Suc (moment x)\<rparr>"
  obtain r fl where r: "tickBody h ?x = (r, fl)" by (cases "tickBody h ?x")
  have x: "coreInv ?x" "state ?x = Running" "left ?x = left x"
    using assms(2,4) by (simp_all add: left_def outstanding_def)
  have tick: "Tick h x = r" "fl \<noteq> Raise"
    using assms(4,5) r by (cases fl; auto simp: Tick_def Cancel_def Let_def split: if_splits option.splits)+
  obtain y fl1 where y: "awaitDispatch h ?x = (y, fl1)" by (cases "awaitDispatch h ?x")
  obtain z fl2 where z: "awaitJob h y = (z, fl2)" by (cases "awaitJob h y")
  have "fl1 = Proceed"
    using awaitDispatch_leaves [OF x(1), of h y] assms(3,5) y r tick
    by (cases fl1) (auto simp: tickBody_def continue_def pendingReady_def)
  then have y': "coreInv y" "state y = Running" "pending y = None"
      "pending ?x = None \<and> y = ?x \<or> pending ?x \<noteq> None \<and> (acceptedOutcome y \<noteq> None \<and> offset y = offset ?x \<or> acceptedOutcome y = None \<and> offset ?x < offset y)"
      "programLength y = programLength ?x"
    using awaitDispatch_stage [OF x(1,2), of h] awaitDispatch_proceeds [OF x(1,2), of h y] y by auto
  have "fl2 = Proceed"
    using awaitJob_leaves [OF y'(1), of h z] assms(1,5) y z r tick \<open>fl1 = Proceed\<close>
    by (cases fl2) (auto simp: tickBody_def continue_def prompt_def)
  then have z': "coreInv z" "settled z" "programLength z = programLength y"
      "acceptedOutcome y = None \<and> z = y \<or> acceptedOutcome y \<noteq> None \<and> offset y < offset z"
    using awaitJob_stage [OF y'(1,2), of h] awaitJob_proceeds [OF y'(1,2), of h z] z y'(3) by (auto simp: settled_def)
  have "runBatch h 32 z = (r, fl)"
    using r y z \<open>fl1 = Proceed\<close> \<open>fl2 = Proceed\<close> by (simp add: tickBody_def continue_def)
  then have "left r < left z"
    using runBatch_done [of z 32 h] batchDone_left [of z r fl] z' tick assms(5) by (auto simp: loopInv_def)
  moreover have "offset z \<le> programLength z" using z'(1) by (simp add: coreInv_def)
  moreover have "left z \<le> left ?x \<or> left z = left ?x"
    using y'(3-5) z' \<open>offset z \<le> programLength z\<close> by (auto simp: left_def outstanding_def settled_def split: if_splits)
  ultimately show ?thesis using tick x(3) by auto
qed

lemma Tick_bounded:
  assumes "prompt h"
  shows "coreInv x \<Longrightarrow> pendingReady x \<Longrightarrow> left x < n \<Longrightarrow> state ((Tick h ^^ n) x) \<noteq> Running"
proof (induction n arbitrary: x)
  case (Suc n)
  have stays: "state x \<noteq> Running \<Longrightarrow> (Tick h ^^ k) x = x" for k
    by (induction k) (simp_all add: Tick_def)
  have stays': "state (Tick h x) \<noteq> Running \<Longrightarrow> (Tick h ^^ k) (Tick h x) = Tick h x" for k
    by (induction k) (simp_all add: Tick_def)
  show ?case
  proof (cases "state x = Running \<and> state (Tick h x) = Running")
    case True
    then have "left (Tick h x) < n"
      using Tick_left [OF assms Suc.prems(1,2)] Suc.prems(3) by simp
    then show ?thesis
      using Suc.IH Tick_coreInv [OF Suc.prems(1)] pending_Tick [OF assms Suc.prems(2)]
      by (simp add: funpow_Suc_right del: funpow.simps)
  next
    case False
    then show ?thesis
      using stays [of "Suc n"] stays' [of n] by (metis comp_apply funpow_Suc_right)
  qed
qed simp

section \<open>Properties\<close>

text \<open>C35: Expressions are type safe.  An expression that is well typed for the types of the
  variables, and no deeper than the evaluator allows, evaluates to a value of its type:
  no unknown variable, no operand of the wrong kind and no exhausted depth.\<close>

theorem Evaluate_sound:
  assumes "typed G e t" and "conforms G vars" and "height e \<le> 33"
  shows "\<exists>v. Evaluate e vars 0 = Inr v \<and> hasType v t"
  using Evaluate_typed [OF assms(1,2), of 0] assms(3) by simp

definition demoExpression :: Expression where
  "demoExpression = Node And (Boolean False) []
     (Node Less (Boolean False) [] (Node Variable (Boolean False) ''n'' Null Null) (Node Literal (Integer 5) [] Null Null))
     (Node Not (Boolean False) [] (Node Variable (Boolean False) ''ok'' Null Null) Null)"

theorem Evaluate_sound_witness:
  "\<exists>v. Evaluate demoExpression [(''n'', Integer 3), (''ok'', Boolean False)] 0 = Inr v \<and> hasType v BooleanType"
proof (rule Evaluate_sound [of "[''n'' \<mapsto> IntegerType, ''ok'' \<mapsto> BooleanType]"])
  have "typed [''n'' \<mapsto> IntegerType, ''ok'' \<mapsto> BooleanType] (Node Less (Boolean False) []
      (Node Variable (Boolean False) ''n'' Null Null) (Node Literal (Integer 5) [] Null Null)) BooleanType"
    by (rule typed.ordering [of _ IntegerType]) (auto intro: typed.intros)
  moreover have "typed [''n'' \<mapsto> IntegerType, ''ok'' \<mapsto> BooleanType]
      (Node Not (Boolean False) [] (Node Variable (Boolean False) ''ok'' Null Null) Null) BooleanType"
    by (rule typed.negation, rule typed.variable) simp
  ultimately show "typed [''n'' \<mapsto> IntegerType, ''ok'' \<mapsto> BooleanType] demoExpression BooleanType"
    unfolding demoExpression_def by (rule typed.connective [rotated]) simp
qed (auto simp: conforms_def demoExpression_def)

lemma showNat_inject: "showNat a = showNat b \<longleftrightarrow> a = b"
  by (metis readNat_showNat)

lemma invokes_correlation:
  "list_all2 (invokes x) is os \<Longrightarrow> map invCorrelation is = map (\<lambda>o'. runId x @ '':'' @ showNat (o' + 1)) os"
  by (induction rule: list_all2_induct) (auto simp: invokes_def)

text \<open>C36: A run executes every command of its program at most once.  Whatever the host answers
  or throws and whenever the run is cancelled, the invocations given to the host belong to
  pairwise different \<open>Invoke\<close> steps in the order of the program, carry the
  command of their step and the permissions of the run, and no two share a correlation.\<close>

theorem automation_once:
  assumes "executionRun h x"
  shows "\<exists>os. sorted_wrt (<) os \<and> length os = length (sent x) \<and> distinct (map invCorrelation (sent x))
    \<and> list_all2 (\<lambda>i o'. o' < programLength x \<and> stepKind (steps (program x) ! o') = Invoke
         \<and> invId i = command (steps (program x) ! o') \<and> invPermissions i = permissions x) (sent x) os"
proof -
  obtain os where os: "sorted_wrt (<) os" "\<forall>o'\<in>set os. o' < programLength x" "list_all2 (invokes x) (sent x) os"
    using executionRun_coreInv [OF assms] by (auto simp: coreInv_def sentBelow_def)
  have "distinct (map (\<lambda>o'. runId x @ '':'' @ showNat (o' + 1)) os)"
    using os(1) by (simp add: distinct_map inj_on_def strict_sorted_iff showNat_inject)
  moreover have "list_all2 (\<lambda>i o'. o' < programLength x \<and> stepKind (steps (program x) ! o') = Invoke
         \<and> invId i = command (steps (program x) ! o') \<and> invPermissions i = permissions x) (sent x) os"
    using os(2,3) by (auto simp: list_all2_conv_all_nth invokes_def)
  ultimately show ?thesis
    using os(1) list_all2_lengthD [OF os(3)] invokes_correlation [OF os(3)] by auto
qed

definition demoHost :: Host where
  "demoHost = \<lparr>capture = Some (\<lambda>_. Some (Inr emptyContext)),
     hostDispatch = Some (\<lambda>_ _. Some (\<lambda>_. Value (Inr noOutcome))), poll = Some (\<lambda>_ _ _. Some (Inr True)),
     cancel = Some (\<lambda>_ _ _. Some ()), hostOutput = None, hostClock = (\<lambda>_. 0), callerStop = (\<lambda>_. False)\<rparr>"

definition demoStep :: Step where
  "demoStep = \<lparr>command = ''go'', parameters = [], line = 1, stepKind = Invoke, arguments = [],
     expression = Null, binding = [], target = 0, pipeline = 0\<rparr>"

definition demoProgram :: Program where
  "demoProgram = \<lparr>steps = [demoStep], version = 1, failurePolicy = StopPolicy\<rparr>"

theorem automation_once_witness:
  "distinct (map invCorrelation (sent (Tick demoHost (Create demoProgram demoHost {} ''r'' 9))))"
  using automation_once [OF executionRun.ticked [OF executionRun.created]] by blast

text \<open>C38: Every run ends.  The jumps of a program lead forward, so with a host whose futures
  and jobs are ready when asked, whatever they answer, a run has stopped running after at most two
  ticks for each step of its program and two more.\<close>

theorem automation_ends:
  assumes "prompt h"
  shows "state ((Tick h ^^ (2 * length (steps p) + 2)) (Create p h perms run until)) \<noteq> Running"
proof (rule Tick_bounded [OF assms Create_coreInv])
  show "pendingReady (Create p h perms run until)"
    by (simp add: pendingReady_def Create_def Let_def)
  show "left (Create p h perms run until) < 2 * length (steps p) + 2"
    by (simp add: left_def outstanding_def Create_def Let_def)
qed

theorem automation_ends_witness:
  "state ((Tick demoHost ^^ (2 * length (steps demoProgram) + 2)) (Create demoProgram demoHost {} ''r'' 9)) \<noteq> Running"
  by (rule automation_ends) (simp add: prompt_def demoHost_def)



lemma sent_permissions: "executionRun h x \<Longrightarrow> i \<in> set (sent x) \<Longrightarrow> invPermissions i = permissions x"
  using executionRun_coreInv [of h x]
  by (auto simp: coreInv_def sentBelow_def list_all2_conv_all_nth invokes_def in_set_conv_nth)


lemma runBatch_32: "runBatch h 32 x = (case oneStep h x of (y, Proceed) \<Rightarrow> runBatch h 31 y | r \<Rightarrow> r)"
  using runBatch.simps(2) [of h 31 x] by simp

definition demoSent :: CommandInvocation where
  "demoSent = \<lparr>invId = ''go'', invSchema = 1, invParameters = [], invContext = emptyContext, invPermissions = {''nav''},
     invSource = ''automation'', invCorrelation = ''r:1'', invCausation = ''r'',
     invOperation = \<lparr>stopRequested = \<lambda>_. False, deadline = 9\<rparr>\<rparr>"

definition demoRun :: Execution where
  "demoRun = Tick demoHost (Create demoProgram demoHost {''nav''} ''r'' 9)"

lemma demo_create: "Create demoProgram demoHost {''nav''} ''r'' 9 = \<lparr>program = demoProgram, permissions = {''nav''},
    runId = ''r'', limit = 9, stop = False, state = Running, offset = 0, completed = 0, ticks = 0,
    invocation = emptyInvocation, pending = None, acceptedOutcome = None, failureOf = None, errors = [],
    variables = [(''result.code'', String ''not-run''), (''result.jobId'', String []), (''result.ok'', Boolean False)],
    moment = 0, sent = [], cancels = []\<rparr>"
  by (simp add: Create_def demoHost_def demoProgram_def Let_def allForward_def isForward_def demoStep_def)

lemma demo_digit: "digitChar 1 = CHR ''1''"
  by code_simp

lemma demo_sent: "sent demoRun = [demoSent] \<and> permissions demoRun = {''nav''}"
  unfolding demoRun_def demo_create
  by (simp add: Tick_def demoHost_def demoProgram_def Let_def demoStep_def Check_def tickBody_def continue_def
      awaitDispatch_def awaitJob_def runBatch_32 oneStep_def stepAt_def invokeStep_def bindContext_def
      fullInvocation_def begunInvocation_def emptyInvocation_def demoSent_def showNat_small demo_digit [simplified])

definition demoRegistry :: CommandRegistry where
  "demoRegistry = [''go'' \<mapsto> demoCommand\<lparr>descriptor := demoDescriptor\<lparr>descParameters := []\<rparr>\<rparr>]"


end
