(* ===== verification/FileNameGlob.thy ===== *)
theory FileNameGlob
  imports Main
begin

text \<open>
  The globs of file names, \<open>commonLibs/fileNameGlob.hpp\<close>: \<open>Compile\<close>, the two ways \<open>Matches\<close>
  decides (two rows of a table, or runs of literals between stars), and what the pattern means.
  The lemmas show that every way decides that meaning.

  A UTF-16 unit and a code point are natural numbers.  The case tables of Qt, its case-insensitive
  comparison and \<open>QString::toUcs4\<close> are the parameter \<open>cases\<close>.
\<close>

section \<open>Patterns\<close>

record cases =
  toCaseFolded :: "nat \<Rightarrow> nat"
  toLower :: "nat \<Rightarrow> nat"
  toUpper :: "nat \<Rightarrow> nat"
  toUcs4 :: "nat list \<Rightarrow> nat list"
  equalInsensitive :: "nat list \<Rightarrow> nat list \<Rightarrow> bool"

datatype Kind = Literal | Any | Star | Class

record Token =
  kind :: Kind
  character :: nat
  negate :: bool
  ranges :: "(nat \<times> nat) list"
  classes :: "(nat \<times> bool) list"

definition newToken :: "Kind \<Rightarrow> Token" where
  "newToken k = \<lparr>kind = k, character = 0, negate = False, ranges = [], classes = []\<rparr>"

definition ascii :: "string \<Rightarrow> nat list" where
  "ascii s = map of_char s"

abbreviation asterisk :: nat where "asterisk \<equiv> 42"
abbreviation question :: nat where "question \<equiv> 63"
abbreviation openBracket :: nat where "openBracket \<equiv> 91"
abbreviation closeBracket :: nat where "closeBracket \<equiv> 93"
abbreviation exclamation :: nat where "exclamation \<equiv> 33"
abbreviation caret :: nat where "caret \<equiv> 94"
abbreviation colonPoint :: nat where "colonPoint \<equiv> 58"
abbreviation hyphen :: nat where "hyphen \<equiv> 45"

definition separator :: "nat \<Rightarrow> bool" where
  "separator p \<longleftrightarrow> p = 47 \<or> p = 92"

datatype globError = BadPosixSet | UnknownPosixSet | ReversedRange | UnclosedSet

section \<open>\<open>Compile\<close>\<close>

text \<open>The points before the next \<open>:]\<close> and those after it.\<close>

fun posixEnd :: "nat list \<Rightarrow> (nat list \<times> nat list) option" where
  "posixEnd (a # b # ps) =
     (if a = colonPoint \<and> b = closeBracket then Some ([], ps)
      else map_option (\<lambda>(name, rest). (a # name, rest)) (posixEnd (b # ps)))"
| "posixEnd ps = None"

definition posixNames :: "string list" where
  "posixNames = [''alnum'', ''alpha'', ''ascii'', ''blank'', ''cntrl'', ''digit'', ''graph'', ''lower'', ''print'',
     ''punct'', ''space'', ''upper'', ''word'', ''xdigit'']"

definition posixIndex :: "nat list \<Rightarrow> nat option" where
  "posixIndex name = List.find (\<lambda>i. ascii (posixNames ! i) = name) [0..<length posixNames]"

definition posixClass :: "nat list \<Rightarrow> (nat \<times> bool) option" where
  "posixClass name =
     (let neg = (name \<noteq> [] \<and> hd name = caret) in
      map_option (\<lambda>i. (i, neg)) (posixIndex (if neg then tl name else name)))"

lemma posixEnd_length: "posixEnd ps = Some (name, rest) \<Longrightarrow> length rest < length ps"
  by (induction ps arbitrary: name rule: posixEnd.induct) (auto split: if_splits)

text \<open>The body of a set after the negation; the result ends with the points after the set.\<close>

function classBody :: "nat list \<Rightarrow> (nat \<times> nat) list \<Rightarrow> (nat \<times> bool) list
    \<Rightarrow> globError + (nat \<times> nat) list \<times> (nat \<times> bool) list \<times> nat list" where
  "classBody [] rs cs = Inl UnclosedSet"
| "classBody (c # ps) rs cs =
     (if c = closeBracket \<and> (rs \<noteq> [] \<or> cs \<noteq> []) then Inr (rs, cs, ps)
      else if c = openBracket \<and> ps \<noteq> [] \<and> hd ps = colonPoint then
        (case posixEnd (tl ps) of
           None \<Rightarrow> Inl BadPosixSet
         | Some (name, rest) \<Rightarrow>
             (case posixClass name of
                None \<Rightarrow> Inl UnknownPosixSet
              | Some k \<Rightarrow> classBody rest rs (cs @ [k])))
      else if 2 \<le> length ps \<and> hd ps = hyphen \<and> ps ! 1 \<noteq> closeBracket then
        (if ps ! 1 < c then Inl ReversedRange else classBody (drop 2 ps) (rs @ [(c, ps ! 1)]) cs)
      else classBody ps (rs @ [(c, c)]) cs)"
  by pat_completeness auto
termination
  by (relation "measure (\<lambda>(ps, _, _). length ps)")
    (auto dest!: posixEnd_length)

definition lastPoint :: nat where "lastPoint = 0x10ffff"

definition reverseCases :: "cases \<Rightarrow> (nat \<times> nat) list" where
  "reverseCases t = map (\<lambda>c. (c, toCaseFolded t c))
     (filter (\<lambda>c. let f = toCaseFolded t c in c \<noteq> f \<and> c \<noteq> toLower t f \<and> c \<noteq> toUpper t f) [128..<Suc lastPoint])"

definition withReverse :: "cases \<Rightarrow> (nat \<times> nat) list \<Rightarrow> (nat \<times> nat) list" where
  "withReverse t rs =
     (if list_ex (\<lambda>(a, b). 128 \<le> b) rs
      then rs @ map (\<lambda>(c, f). (f, f)) (filter (\<lambda>(c, f). list_ex (\<lambda>(a, b). a \<le> c \<and> c \<le> b) rs) (reverseCases t))
      else rs)"

lemma classBody_length: "classBody ps rs cs = Inr (rs', cs', rest) \<Longrightarrow> length rest < length ps"
proof (induction ps rs cs rule: classBody.induct)
  case (2 c ps rs cs)
  show ?case
    using "2.prems" "2.IH" posixEnd_length [of "tl ps"]
    by (auto split: if_splits option.splits; fastforce)
qed simp

text \<open>One token after the other; consecutive stars are one.\<close>

function compileTokens :: "cases \<Rightarrow> nat list \<Rightarrow> Token list \<Rightarrow> globError + Token list" where
  "compileTokens t [] toks = Inr toks"
| "compileTokens t (c # ps) toks =
     (if c = asterisk then
        (if toks \<noteq> [] \<and> kind (last toks) = Star then compileTokens t ps toks
         else compileTokens t ps (toks @ [newToken Star]))
      else if c = question then compileTokens t ps (toks @ [newToken Any])
      else if c = openBracket then
        (let neg = (ps \<noteq> [] \<and> (hd ps = exclamation \<or> hd ps = caret)) in
         (case classBody (if neg then tl ps else ps) [] [] of
            Inl e \<Rightarrow> Inl e
          | Inr (rs, cs, rest) \<Rightarrow>
              compileTokens t rest (toks @ [(newToken Class)\<lparr>negate := neg, ranges := withReverse t rs, classes := cs\<rparr>])))
      else compileTokens t ps (toks @ [(newToken Literal)\<lparr>character := toCaseFolded t c\<rparr>]))"
  by pat_completeness auto
termination
  by (relation "measure (\<lambda>(_, ps, _). length ps)") (auto dest!: classBody_length split: if_splits)

record FileNameGlob =
  tokens :: "Token list"
  literal :: "nat list"
  runs :: "nat list list"
  simple :: bool

definition plainToken :: "Token \<Rightarrow> bool" where
  "plainToken T \<longleftrightarrow> kind T = Star \<or> kind T = Literal \<and> \<not> separator (character T)"

text \<open>The runs of literals between the stars.\<close>

definition addToRuns :: "nat list list \<Rightarrow> Token \<Rightarrow> nat list list" where
  "addToRuns rs T = (if kind T = Star then rs @ [[]] else butlast rs @ [last rs @ [character T]])"

definition runsOf :: "Token list \<Rightarrow> nat list list" where
  "runsOf toks = foldl addToRuns [[]] toks"

definition Compile :: "cases \<Rightarrow> nat list \<Rightarrow> globError + FileNameGlob" where
  "Compile t pattern =
     (case compileTokens t (toUcs4 t pattern) [] of
        Inl e \<Rightarrow> Inl e
      | Inr toks \<Rightarrow>
          (let s = list_all (\<lambda>T. kind T = Literal) toks in
           Inr \<lparr>tokens = toks, literal = (if s then pattern else []),
                runs = (if \<not> s \<and> list_all plainToken toks then runsOf toks else []), simple = s\<rparr>))"

section \<open>Names\<close>

definition isHigh :: "nat \<Rightarrow> bool" where
  "isHigh u \<longleftrightarrow> 0xd800 \<le> u \<and> u < 0xdc00"

definition isLow :: "nat \<Rightarrow> bool" where
  "isLow u \<longleftrightarrow> 0xdc00 \<le> u \<and> u < 0xe000"

definition surrogateToUcs4 :: "nat \<Rightarrow> nat \<Rightarrow> nat" where
  "surrogateToUcs4 h l = 0x10000 + (h - 0xd800) * 0x400 + (l - 0xdc00)"

definition nextPoint :: "nat list \<Rightarrow> nat \<Rightarrow> nat \<times> nat" where
  "nextPoint name i =
     (if isHigh (name ! i) \<and> Suc i < length name \<and> isLow (name ! Suc i)
      then (surrogateToUcs4 (name ! i) (name ! Suc i), i + 2) else (name ! i, Suc i))"

definition previousPoint :: "nat list \<Rightarrow> nat \<Rightarrow> nat \<times> nat" where
  "previousPoint name i =
     (if isLow (name ! (i - 1)) \<and> 0 < i - 1 \<and> isHigh (name ! (i - 2))
      then (surrogateToUcs4 (name ! (i - 2)) (name ! (i - 1)), i - 2) else (name ! (i - 1), i - 1))"

text \<open>\<open>Point - U'A' < 26u\<close> on unsigned numbers.\<close>

definition foldPoint :: "cases \<Rightarrow> nat \<Rightarrow> nat" where
  "foldPoint t p = (if p < 128 then (if 65 \<le> p \<and> p - 65 < 26 then p + 32 else p) else toCaseFolded t p)"

definition isAlpha :: "nat \<Rightarrow> bool" where
  "isAlpha c \<longleftrightarrow> 97 \<le> c \<and> c \<le> 122 \<or> 65 \<le> c \<and> c \<le> 90"

definition isDigit :: "nat \<Rightarrow> bool" where
  "isDigit c \<longleftrightarrow> 48 \<le> c \<and> c \<le> 57"

definition classHit :: "nat \<Rightarrow> nat \<Rightarrow> bool" where
  "classHit k c =
     (if k = 0 then isAlpha c \<or> isDigit c else if k = 1 then isAlpha c else if k = 2 then c \<le> 127
      else if k = 3 then c = 32 \<or> c = 9 else if k = 4 then c < 32 \<or> c = 127 else if k = 5 then isDigit c
      else if k = 6 then 33 \<le> c \<and> c \<le> 126 else if k = 7 \<or> k = 11 then isAlpha c
      else if k = 8 then 32 \<le> c \<and> c \<le> 126 else if k = 9 then 33 \<le> c \<and> c \<le> 126 \<and> \<not> isAlpha c \<and> \<not> isDigit c
      else if k = 10 then c = 32 \<or> 9 \<le> c \<and> c \<le> 13 else if k = 12 then isAlpha c \<or> isDigit c \<or> c = 95
      else if k = 13 then isDigit c \<or> 97 \<le> c \<and> c \<le> 102 \<or> 65 \<le> c \<and> c \<le> 70 else False)"

definition variants :: "cases \<Rightarrow> nat \<Rightarrow> nat list" where
  "variants t p = [p, toLower t p, toUpper t p, toCaseFolded t p, toUpper t (toCaseFolded t p)]"

definition accepts :: "cases \<Rightarrow> Token \<Rightarrow> nat \<Rightarrow> bool" where
  "accepts t T p =
     (if kind T = Literal then foldPoint t p = character T
      else if kind T = Any then \<not> separator p
      else ((list_ex (\<lambda>(a, b). list_ex (\<lambda>v. a \<le> v \<and> v \<le> b) (variants t p)) (ranges T)
              \<or> list_ex (\<lambda>(k, neg). classHit k p \<noteq> neg) (classes T)) \<noteq> negate T))"

section \<open>\<open>Matches\<close>\<close>

definition firstRow :: "Token list \<Rightarrow> bool list" where
  "firstRow toks = (let n = length (takeWhile (\<lambda>T. kind T = Star) toks) in
     True # replicate n True @ replicate (length toks - n) False)"

text \<open>\<open>row t toks previous left p\<close>: the cells of the next row from \<open>left\<close> on.\<close>

fun row :: "cases \<Rightarrow> Token list \<Rightarrow> bool list \<Rightarrow> bool \<Rightarrow> nat \<Rightarrow> bool list" where
  "row t (T # toks) (a # b # previous) left p =
     left # row t toks (b # previous)
       (if kind T = Star then left \<or> (b \<and> \<not> separator p) else a \<and> accepts t T p) p"
| "row t toks previous left p = [left]"

text \<open>The loop over the name; every pass moves on by at least one unit.\<close>

function tableLoop :: "cases \<Rightarrow> Token list \<Rightarrow> nat list \<Rightarrow> nat \<Rightarrow> bool list \<Rightarrow> bool list" where
  "tableLoop t toks name i previous =
     (if i < length name
      then (let (p, i') = nextPoint name i in tableLoop t toks name i' (row t toks previous False p))
      else previous)"
  by pat_completeness auto
termination
  by (relation "measure (\<lambda>(_, _, name, i, _). length name - i)") (auto simp: nextPoint_def split: if_splits)

text \<open>A run of literals read forwards from \<open>i\<close>, or backwards from \<open>i\<close>, within the bounds: the
  position after it.\<close>

fun forwards :: "cases \<Rightarrow> nat list \<Rightarrow> nat \<Rightarrow> nat list \<Rightarrow> nat \<Rightarrow> nat option" where
  "forwards t name limit [] i = Some i"
| "forwards t name limit (c # cs) i =
     (if limit \<le> i then None
      else let (p, i') = nextPoint name i in if foldPoint t p = c then forwards t name limit cs i' else None)"

fun backwards :: "cases \<Rightarrow> nat list \<Rightarrow> nat \<Rightarrow> nat list \<Rightarrow> nat \<Rightarrow> nat option" where
  "backwards t name limit [] i = Some i"
| "backwards t name limit (c # cs) i =
     (if i \<le> limit then None
      else let (p, i') = previousPoint name i in if foldPoint t p = c then backwards t name limit cs i' else None)"

function search :: "cases \<Rightarrow> nat list \<Rightarrow> nat \<Rightarrow> nat list \<Rightarrow> nat \<Rightarrow> nat option" where
  "search t name limit run i =
     (if limit \<le> i then None
      else (case forwards t name limit run i of
          Some j \<Rightarrow> Some j
        | None \<Rightarrow> search t name limit run (snd (nextPoint name i))))"
  by pat_completeness auto
termination
  by (relation "measure (\<lambda>(_, name, limit, _, i). limit - i)") (auto simp: nextPoint_def split: if_splits)

fun searchAll :: "cases \<Rightarrow> nat list \<Rightarrow> nat \<Rightarrow> nat list list \<Rightarrow> nat \<Rightarrow> bool" where
  "searchAll t name limit [] i = True"
| "searchAll t name limit (run # rest) i =
     (case search t name limit run i of None \<Rightarrow> False | Some j \<Rightarrow> searchAll t name limit rest j)"

definition matchesRuns :: "cases \<Rightarrow> nat list list \<Rightarrow> nat list \<Rightarrow> bool" where
  "matchesRuns t rs name =
     (case forwards t name (length name) (hd rs) 0 of
        None \<Rightarrow> False
      | Some b \<Rightarrow>
          (case backwards t name b (rev (last rs)) (length name) of
             None \<Rightarrow> False
           | Some e \<Rightarrow> searchAll t name e (butlast (tl rs)) b \<and> 47 \<notin> set name \<and> 92 \<notin> set name))"

definition Matches :: "cases \<Rightarrow> FileNameGlob \<Rightarrow> nat list \<Rightarrow> bool" where
  "Matches t g name =
     (if simple g then equalInsensitive t name (literal g)
      else if runs g \<noteq> [] then matchesRuns t (runs g) name
      else last (tableLoop t (tokens g) name 0 (firstRow (tokens g))))"

section \<open>What a pattern means\<close>

text \<open>The points of a name, and a pattern matched against points: a star takes any points but
  separators.\<close>

fun decode :: "nat list \<Rightarrow> nat list" where
  "decode (u # v # us) = (if isHigh u \<and> isLow v then surrogateToUcs4 u v # decode us else u # decode (v # us))"
| "decode us = us"

fun globMatch :: "cases \<Rightarrow> Token list \<Rightarrow> nat list \<Rightarrow> bool" where
  "globMatch t [] ps = (ps = [])"
| "globMatch t (T # ts) ps =
     (if kind T = Star then list_ex (\<lambda>k. list_all (\<lambda>p. \<not> separator p) (take k ps) \<and> globMatch t ts (drop k ps)) [0..<Suc (length ps)]
      else (case ps of [] \<Rightarrow> False | p # qs \<Rightarrow> accepts t T p \<and> globMatch t ts qs))"

definition noSeparator :: "nat list \<Rightarrow> bool" where
  "noSeparator ps \<longleftrightarrow> list_all (\<lambda>p. \<not> separator p) ps"

lemma noSeparator_simps [simp]:
  "noSeparator []" "noSeparator (p # ps) \<longleftrightarrow> \<not> separator p \<and> noSeparator ps"
  "noSeparator (ps @ qs) \<longleftrightarrow> noSeparator ps \<and> noSeparator qs"
  by (simp_all add: noSeparator_def)

declare globMatch.simps(2) [simp del]

lemma split_take_drop: "(\<exists>k\<in>{0..<Suc (length ps)}. P (take k ps) \<and> Q (drop k ps)) \<longleftrightarrow> (\<exists>a b. ps = a @ b \<and> P a \<and> Q b)"
proof
  assume "\<exists>a b. ps = a @ b \<and> P a \<and> Q b"
  then obtain a b where "ps = a @ b" "P a" "Q b" by blast
  then show "\<exists>k\<in>{0..<Suc (length ps)}. P (take k ps) \<and> Q (drop k ps)"
    by (intro bexI [of _ "length a"]) simp_all
qed (metis append_take_drop_id)

lemma globMatch_Star: "kind T = Star \<Longrightarrow>
    globMatch t (T # ts) ps \<longleftrightarrow> (\<exists>a b. ps = a @ b \<and> noSeparator a \<and> globMatch t ts b)"
  unfolding noSeparator_def globMatch.simps(2) list_ex_iff set_upt
  by (simp only: simp_thms if_True split_take_drop)

lemma globMatch_one: "kind T \<noteq> Star \<Longrightarrow>
    globMatch t (T # ts) ps \<longleftrightarrow> (\<exists>p qs. ps = p # qs \<and> accepts t T p \<and> globMatch t ts qs)"
  by (auto simp: globMatch.simps(2) split: list.split)

lemma globMatch_single: "globMatch t [T] ps \<longleftrightarrow>
    (if kind T = Star then noSeparator ps else \<exists>p. ps = [p] \<and> accepts t T p)"
  by (auto simp: globMatch_Star globMatch_one)

lemma globMatch_append: "globMatch t (ts @ us) ps \<longleftrightarrow> (\<exists>a b. ps = a @ b \<and> globMatch t ts a \<and> globMatch t us b)"
proof (induction ts arbitrary: ps)
  case (Cons T ts)
  show ?case
  proof (cases "kind T = Star")
    case True
    show ?thesis
      unfolding append_Cons globMatch_Star [OF True] Cons.IH by (metis append.assoc)
  next
    case False
    show ?thesis
      unfolding append_Cons globMatch_one [OF False] Cons.IH by (metis append_Cons)
  qed
qed simp

section \<open>The table decides the meaning\<close>

text \<open>Cell \<open>j\<close> of a row says whether the first \<open>j\<close> tokens match the points read so far.\<close>

definition isRow :: "cases \<Rightarrow> Token list \<Rightarrow> nat list \<Rightarrow> bool list \<Rightarrow> bool" where
  "isRow t toks ps cells \<longleftrightarrow> cells = map (\<lambda>j. globMatch t (take j toks) ps) [0..<Suc (length toks)]"

lemma globMatch_last_Star:
  assumes "kind T = Star"
  shows "globMatch t (ts @ [T]) (ps @ [p]) \<longleftrightarrow> globMatch t ts (ps @ [p]) \<or> (globMatch t (ts @ [T]) ps \<and> \<not> separator p)"
proof -
  have star: "globMatch t [T] b \<longleftrightarrow> noSeparator b" for b
    using assms by (simp add: globMatch_single)
  have "globMatch t (ts @ [T]) (ps @ [p]) \<longleftrightarrow> (\<exists>a b. ps @ [p] = a @ b \<and> globMatch t ts a \<and> noSeparator b)"
    by (simp add: globMatch_append star)
  also have "\<dots> \<longleftrightarrow> globMatch t ts (ps @ [p]) \<or> (\<exists>a b. ps = a @ b \<and> globMatch t ts a \<and> noSeparator (b @ [p]))" (is "?l \<longleftrightarrow> ?r")
  proof
    assume ?l
    then obtain a b where ab: "ps @ [p] = a @ b" "globMatch t ts a" "noSeparator b" by blast
    then show ?r by (cases b rule: rev_cases) auto
  next
    assume ?r
    then show ?l
    proof
      assume "globMatch t ts (ps @ [p])"
      then show ?l by (intro exI [of _ "ps @ [p]"] exI [of _ "[]"]) simp
    next
      assume "\<exists>a b. ps = a @ b \<and> globMatch t ts a \<and> noSeparator (b @ [p])"
      then obtain a b where "ps = a @ b" "globMatch t ts a" "noSeparator (b @ [p])" by blast
      then show ?l by (intro exI [of _ a] exI [of _ "b @ [p]"]) simp
    qed
  qed
  finally show ?thesis
    by (auto simp: globMatch_append star)
qed

lemma globMatch_last_one:
  assumes "kind T \<noteq> Star"
  shows "globMatch t (ts @ [T]) (ps @ [p]) \<longleftrightarrow> globMatch t ts ps \<and> accepts t T p"
proof -
  show ?thesis
    using assms by (auto simp: globMatch_append globMatch_single)
qed

lemma globMatch_last_Nil:
  "globMatch t (ts @ [T]) [] \<longleftrightarrow> globMatch t ts [] \<and> kind T = Star"
  by (auto simp: globMatch_append globMatch_single)

lemma map_take_Cons: "map (\<lambda>j. F (take j (T # ts))) [0..<Suc (length (T # ts))]
    = F [] # map (\<lambda>j. F (T # take j ts)) [0..<Suc (length ts)]"
  by (simp add: map_upt_Suc del: upt_Suc)

lemma row_correct:
  assumes "left = globMatch t pre (ps @ [p])"
    and "previous = map (\<lambda>j. globMatch t (pre @ take j toks) ps) [0..<Suc (length toks)]"
  shows "row t toks previous left p = map (\<lambda>j. globMatch t (pre @ take j toks) (ps @ [p])) [0..<Suc (length toks)]"
  using assms
proof (induction toks arbitrary: pre previous left)
  case Nil
  then show ?case by simp
next
  case (Cons T toks)
  define rest where "rest = map (\<lambda>j. globMatch t ((pre @ [T]) @ take j toks) ps) [0..<Suc (length toks)]"
  have prev: "previous = globMatch t pre ps # rest"
    using map_take_Cons [of "\<lambda>x. globMatch t (pre @ x) ps" T toks] by (simp add: Cons.prems(2) rest_def del: upt_Suc)
  obtain b cells where rest: "rest = b # cells" "b = globMatch t (pre @ [T]) ps"
    unfolding rest_def by (simp add: upt_conv_Cons del: upt_Suc)
  have "(if kind T = Star then left \<or> (b \<and> \<not> separator p) else globMatch t pre ps \<and> accepts t T p)
      = globMatch t (pre @ [T]) (ps @ [p])"
    using Cons.prems(1) rest(2) globMatch_last_Star [of T t pre ps p] globMatch_last_one [of T t pre ps p] by simp
  then have "row t (T # toks) previous left p = left # row t toks rest (globMatch t (pre @ [T]) (ps @ [p])) p"
    unfolding prev rest(1) by simp
  also have "\<dots> = left # map (\<lambda>j. globMatch t ((pre @ [T]) @ take j toks) (ps @ [p])) [0..<Suc (length toks)]"
    using Cons.IH [OF refl, of rest "pre @ [T]"] by (simp add: rest_def)
  also have "\<dots> = map (\<lambda>j. globMatch t (pre @ take j (T # toks)) (ps @ [p])) [0..<Suc (length (T # toks))]"
    using map_take_Cons [of "\<lambda>x. globMatch t (pre @ x) (ps @ [p])" T toks] Cons.prems(1) by (simp del: upt_Suc)
  finally show ?case .
qed

lemma row_isRow: "isRow t toks ps previous \<Longrightarrow> isRow t toks (ps @ [p]) (row t toks previous False p)"
  using row_correct [of False t "[]" ps p previous toks] by (simp add: isRow_def)

lemma firstRow_isRow: "isRow t toks [] (firstRow toks)"
proof -
  let ?n = "length (takeWhile (\<lambda>T. kind T = Star) toks)"
  have stars: "globMatch t (take j toks) [] \<longleftrightarrow> j \<le> ?n \<or> length toks \<le> ?n" if "j \<le> length toks" for j
    using that
  proof (induction toks arbitrary: j)
    case (Cons T toks)
    then show ?case
      by (cases j) (auto simp: globMatch_Star globMatch_one)
  qed simp
  have "?n \<le> length toks" by (rule length_takeWhile_le)
  then show ?thesis
    using stars unfolding isRow_def firstRow_def Let_def
    by (intro nth_equalityI) (auto simp: nth_Cons nth_append less_Suc_eq_le simp del: upt_Suc split: nat.split)
qed

section \<open>Positions in a name\<close>

text \<open>A boundary is a position that is not inside a surrogate pair.\<close>

definition boundary :: "nat list \<Rightarrow> nat \<Rightarrow> bool" where
  "boundary name i \<longleftrightarrow> i \<le> length name \<and> \<not> (0 < i \<and> i < length name \<and> isHigh (name ! (i - 1)) \<and> isLow (name ! i))"

definition window :: "nat list \<Rightarrow> nat \<Rightarrow> nat \<Rightarrow> nat list" where
  "window name i j = decode (drop i (take j name))"

lemma low_not_high: "isLow u \<Longrightarrow> \<not> isHigh u"
  by (simp add: isLow_def isHigh_def)

lemma decode_Cons: "\<not> (isHigh u \<and> us \<noteq> [] \<and> isLow (hd us)) \<Longrightarrow> decode (u # us) = u # decode us"
  by (cases us) auto

lemma decode_append: "xs = [] \<or> ys = [] \<or> \<not> (isHigh (last xs) \<and> isLow (hd ys)) \<Longrightarrow> decode (xs @ ys) = decode xs @ decode ys"
  by (induction xs rule: decode.induct) (auto simp: decode_Cons low_not_high split: if_splits)

lemma units_split:
  assumes "i \<le> k" and "k \<le> j" and "j \<le> length xs"
  shows "drop i (take j xs) = drop i (take k xs) @ drop k (take j xs)"
proof -
  have "take j xs = take k xs @ drop k (take j xs)"
    using append_take_drop_id [of k "take j xs"] assms(2) by (simp add: min_absorb1)
  then have "drop i (take j xs) = drop i (take k xs @ drop k (take j xs))" by simp
  then show ?thesis using assms by simp
qed

lemma last_slice: "i < k \<Longrightarrow> k \<le> length xs \<Longrightarrow> last (drop i (take k xs)) = xs ! (k - 1)"
  by (simp add: last_conv_nth)

lemma hd_slice: "k < j \<Longrightarrow> j \<le> length xs \<Longrightarrow> hd (drop k (take j xs)) = xs ! k"
  by (simp add: hd_drop_conv_nth)

lemma slice_one: "i < length xs \<Longrightarrow> drop i (take (Suc i) xs) = [xs ! i]"
  by (simp add: take_Suc_conv_app_nth)

lemma slice_two: "Suc i < length xs \<Longrightarrow> drop i (take (Suc (Suc i)) xs) = [xs ! i, xs ! Suc i]"
  by (simp add: take_Suc_conv_app_nth)

lemma window_split:
  assumes "boundary name k" and "i \<le> k" and "k \<le> j" and "j \<le> length name"
  shows "window name i j = window name i k @ window name k j"
proof (cases "i < k \<and> k < j")
  case True
  have "last (drop i (take k name)) = name ! (k - 1)"
    by (rule last_slice) (use True assms(4) in auto)
  moreover have "hd (drop k (take j name)) = name ! k"
    by (rule hd_slice) (use True assms(4) in auto)
  ultimately have "\<not> (isHigh (last (drop i (take k name))) \<and> isLow (hd (drop k (take j name))))"
    using True assms(1,4) by (simp only: boundary_def) auto
  then show ?thesis
    using units_split [OF assms(2-4)] by (simp add: window_def decode_append)
next
  case False
  then show ?thesis
    using assms(2,3) by (auto simp: window_def)
qed

lemma window_empty [simp]: "window name i i = []"
  by (simp add: window_def)

lemma window_one: "i < length name \<Longrightarrow> window name i (Suc i) = [name ! i]"
  by (simp add: window_def slice_one)

lemma window_two: "Suc i < length name \<Longrightarrow> isHigh (name ! i) \<Longrightarrow> isLow (name ! Suc i)
    \<Longrightarrow> window name i (Suc (Suc i)) = [surrogateToUcs4 (name ! i) (name ! Suc i)]"
  by (simp add: window_def slice_two)

lemma not_inside: "boundary name j \<Longrightarrow> i < j \<Longrightarrow> isHigh (name ! i) \<Longrightarrow> Suc i < length name \<Longrightarrow> isLow (name ! Suc i) \<Longrightarrow> Suc i < j"
  by (cases "j = Suc i") (auto simp: boundary_def)

text \<open>Both directions read the same points.\<close>

lemma nextPoint_window:
  assumes "boundary name i" and "boundary name j" and "i < j" and "nextPoint name i = (p, i')"
  shows "i < i' \<and> i' \<le> j \<and> boundary name i' \<and> window name i j = p # window name i' j"
proof -
  have j: "j \<le> length name" using assms(2) by (simp add: boundary_def)
  have "i < i' \<and> i' \<le> j \<and> boundary name i' \<and> window name i i' = [p]"
  proof (cases "isHigh (name ! i) \<and> Suc i < length name \<and> isLow (name ! Suc i)")
    case True
    then have "Suc i < j" using not_inside assms(2,3) by blast
    then show ?thesis
      using True assms(4) j low_not_high by (auto simp: nextPoint_def boundary_def window_two)
  next
    case False
    then show ?thesis
      using assms(3,4) j by (auto simp: nextPoint_def boundary_def window_one)
  qed
  then show ?thesis
    using window_split [of name i' i j] j by simp
qed

lemma previousPoint_window:
  assumes "boundary name i" and "boundary name j" and "i < j" and "previousPoint name j = (p, j')"
  shows "i \<le> j' \<and> j' < j \<and> boundary name j' \<and> window name i j = window name i j' @ [p]"
proof -
  have j: "j \<le> length name" using assms(2) by (simp add: boundary_def)
  obtain k where k: "j = Suc k" using assms(3) by (cases j) auto
  have "i \<le> j' \<and> j' < j \<and> boundary name j' \<and> window name j' j = [p]"
  proof (cases "isLow (name ! k) \<and> 0 < k \<and> isHigh (name ! (k - 1))")
    case True
    then obtain m where m: "k = Suc m" by (cases k) auto
    have "i \<noteq> k" using True assms(1) j k by (auto simp: boundary_def)
    then show ?thesis
      using True assms(3,4) j k m low_not_high by (auto simp: previousPoint_def boundary_def window_two)
  next
    case False
    then show ?thesis
      using assms(3,4) j k window_one [of k name] by (auto simp: previousPoint_def boundary_def)
  qed
  then show ?thesis
    using window_split [of name j' i j] j by simp
qed

lemma boundary_start [simp]: "boundary name 0"
  by (simp add: boundary_def)

lemma boundary_end [simp]: "boundary name (length name)"
  by (simp add: boundary_def)

lemma window_whole: "window name 0 (length name) = decode name"
  by (simp add: window_def)

lemma window_Nil_iff: "boundary name i \<Longrightarrow> boundary name j \<Longrightarrow> i \<le> j \<Longrightarrow> window name i j = [] \<longleftrightarrow> i = j"
proof (cases "i = j")
  case False
  assume "boundary name i" "boundary name j" "i \<le> j"
  moreover obtain p i' where "nextPoint name i = (p, i')" by (cases "nextPoint name i")
  ultimately have "window name i j = p # window name i' j"
    using nextPoint_window [of name i j p i'] False by simp
  with False show ?thesis by simp
qed simp

section \<open>The table over a name\<close>

lemma tableLoop_isRow:
  assumes "boundary name i" and "isRow t toks ps previous"
  shows "isRow t toks (ps @ window name i (length name)) (tableLoop t toks name i previous)"
  using assms
proof (induction t toks name i previous arbitrary: ps rule: tableLoop.induct)
  case (1 t toks name i previous)
  show ?case
  proof (cases "i < length name")
    case True
    obtain p i' where next': "nextPoint name i = (p, i')" by (cases "nextPoint name i")
    note step = nextPoint_window [OF "1.prems"(1) boundary_end True next']
    have "isRow t toks ((ps @ [p]) @ window name i' (length name)) (tableLoop t toks name i' (row t toks previous False p))"
      by (rule "1.IH" [OF True next' [symmetric]]) (use step row_isRow [OF "1.prems"(2)] in auto)
    then show ?thesis
      using True next' step by (simp add: tableLoop.simps [of t toks name i])
  next
    case False
    then show ?thesis
      using "1.prems" window_Nil_iff [of name i "length name"]
      by (simp add: tableLoop.simps [of t toks name i] boundary_def)
  qed
qed

lemma isRow_last: "isRow t toks ps cells \<Longrightarrow> last cells = globMatch t toks ps"
  by (simp add: isRow_def)

lemma table_decides: "last (tableLoop t toks name 0 (firstRow toks)) = globMatch t toks (decode name)"
  using isRow_last [OF tableLoop_isRow [OF boundary_start firstRow_isRow, where name = name]] by (simp add: window_whole)

section \<open>Runs\<close>

text \<open>A run of literals read within a window.\<close>

definition spells :: "cases \<Rightarrow> nat list \<Rightarrow> nat list \<Rightarrow> bool" where
  "spells t ps run \<longleftrightarrow> map (foldPoint t) ps = run"

lemma forwards_window:
  assumes "boundary name i" and "boundary name j" and "i \<le> j"
  shows "case forwards t name j run i of
      None \<Rightarrow> \<not> (\<exists>a b. window name i j = a @ b \<and> spells t a run)
    | Some k \<Rightarrow> boundary name k \<and> i \<le> k \<and> k \<le> j \<and> (\<exists>a. window name i j = a @ window name k j \<and> spells t a run)"
  using assms
proof (induction run arbitrary: i)
  case Nil
  then show ?case by (simp add: spells_def)
next
  case (Cons c run)
  show ?case
  proof (cases "i = j")
    case True
    then show ?thesis by (simp add: spells_def)
  next
    case False
    obtain p i' where next': "nextPoint name i = (p, i')" by (cases "nextPoint name i")
    have "i < j" using Cons.prems False by simp
    note step = nextPoint_window [OF Cons.prems(1,2) this next']
    show ?thesis
    proof (cases "foldPoint t p = c")
      case True
      have "case forwards t name j run i' of
          None \<Rightarrow> \<not> (\<exists>a b. window name i' j = a @ b \<and> spells t a run)
        | Some k \<Rightarrow> boundary name k \<and> i' \<le> k \<and> k \<le> j \<and> (\<exists>a. window name i' j = a @ window name k j \<and> spells t a run)"
        by (rule Cons.IH) (use step Cons.prems in auto)
      moreover have "(\<exists>a b. p # window name i' j = a @ b \<and> spells t a (c # run)) \<Longrightarrow> \<exists>a b. window name i' j = a @ b \<and> spells t a run"
        by (auto simp: spells_def Cons_eq_append_conv)
      moreover have "spells t a run \<Longrightarrow> spells t (p # a) (c # run)" for a
        using True by (simp add: spells_def)
      ultimately show ?thesis
        using True \<open>i < j\<close> next' step by (auto split: option.splits)
    next
      case no: False
      then have "\<not> (\<exists>a b. p # w = a @ b \<and> spells t a (c # run))" for w
        by (auto simp: spells_def Cons_eq_append_conv)
      then show ?thesis
        using no \<open>i < j\<close> next' step by simp
    qed
  qed
qed

lemma backwards_window:
  assumes "boundary name i" and "boundary name j" and "i \<le> j"
  shows "case backwards t name i (rev run) j of
      None \<Rightarrow> \<not> (\<exists>a b. window name i j = a @ b \<and> spells t b run)
    | Some k \<Rightarrow> boundary name k \<and> i \<le> k \<and> k \<le> j \<and> (\<exists>b. window name i j = window name i k @ b \<and> spells t b run)"
  using assms
proof (induction run arbitrary: j rule: rev_induct)
  case Nil
  then show ?case by (simp add: spells_def)
next
  case (snoc c run)
  show ?case
  proof (cases "i = j")
    case True
    then show ?thesis by (simp add: spells_def)
  next
    case False
    obtain p j' where prev: "previousPoint name j = (p, j')" by (cases "previousPoint name j")
    have "i < j" using snoc.prems False by simp
    note step = previousPoint_window [OF snoc.prems(1,2) this prev]
    show ?thesis
    proof (cases "foldPoint t p = c")
      case True
      have "case backwards t name i (rev run) j' of
          None \<Rightarrow> \<not> (\<exists>a b. window name i j' = a @ b \<and> spells t b run)
        | Some k \<Rightarrow> boundary name k \<and> i \<le> k \<and> k \<le> j' \<and> (\<exists>b. window name i j' = window name i k @ b \<and> spells t b run)"
        by (rule snoc.IH) (use step snoc.prems in auto)
      moreover have "w @ [p] = a @ b \<Longrightarrow> spells t b (run @ [c]) \<Longrightarrow> \<exists>a b. w = a @ b \<and> spells t b run" for w a b
        by (cases b rule: rev_cases) (auto simp: spells_def)
      moreover have "spells t b run \<Longrightarrow> spells t (b @ [p]) (run @ [c])" for b
        using True by (simp add: spells_def)
      ultimately show ?thesis
        using True \<open>i < j\<close> prev step by (auto split: option.splits) blast+
    next
      case no: False
      then have "\<not> (\<exists>a b. w @ [p] = a @ b \<and> spells t b (run @ [c]))" for w
        by (auto simp: spells_def append_eq_append_conv2 append_eq_Cons_conv map_eq_append_conv)
      then show ?thesis
        using no \<open>i < j\<close> prev step by simp
    qed
  qed
qed

definition leftmost :: "cases \<Rightarrow> nat list \<Rightarrow> nat list \<Rightarrow> nat list \<Rightarrow> bool" where
  "leftmost t run ps rest \<longleftrightarrow> (\<exists>x a. ps = x @ a @ rest \<and> spells t a run)
     \<and> (\<forall>x a b. ps = x @ a @ b \<and> spells t a run \<longrightarrow> (\<exists>y. rest = y @ b))"

lemma spells_length: "spells t a run \<Longrightarrow> length a = length run"
  by (auto simp: spells_def)

lemma leftmost_here: "ps = a @ rest \<Longrightarrow> spells t a run \<Longrightarrow> leftmost t run ps rest"
proof -
  assume *: "ps = a @ rest" "spells t a run"
  have "\<exists>y. rest = y @ b" if "ps = x @ a' @ b" "spells t a' run" for x a' b
  proof -
    have "length a = length a'" using spells_length * that by metis
    moreover have "rest = drop (length a) (x @ a' @ b)"
      using *(1) that(1) by (metis append_eq_conv_conj)
    ultimately have "rest = drop (length a) (x @ a') @ b" by simp
    then show ?thesis by blast
  qed
  then show ?thesis using * by (auto simp: leftmost_def intro: exI [of _ "[]"])
qed

lemma leftmost_later:
  assumes "leftmost t run ps rest" and "\<not> (\<exists>a b. p # ps = a @ b \<and> spells t a run)"
  shows "leftmost t run (p # ps) rest"
proof -
  obtain x a where "ps = x @ a @ rest" "spells t a run"
    using assms(1) by (auto simp: leftmost_def)
  then have "p # ps = (p # x) @ a @ rest \<and> spells t a run" by simp
  moreover have "\<exists>y. rest = y @ b" if "p # ps = x @ a @ b" "spells t a run" for x a b
    using that assms by (cases x) (auto simp: leftmost_def)
  ultimately show ?thesis unfolding leftmost_def by blast
qed

lemma not_later:
  assumes "\<not> (\<exists>x a b. w = x @ a @ b \<and> spells t a run)" and "\<not> (\<exists>a b. p # w = a @ b \<and> spells t a run)"
  shows "\<not> (\<exists>x a b. p # w = x @ a @ b \<and> spells t a run)"
proof
  assume "\<exists>x a b. p # w = x @ a @ b \<and> spells t a run"
  then obtain x a b where "p # w = x @ a @ b" "spells t a run" by blast
  then show False
  proof (cases x)
    case Nil
    then show ?thesis using assms(2) \<open>p # w = x @ a @ b\<close> \<open>spells t a run\<close> by auto
  next
    case (Cons q y)
    then show ?thesis using assms(1) \<open>p # w = x @ a @ b\<close> \<open>spells t a run\<close> by auto
  qed
qed

declare search.simps [simp del]

lemma search_window:
  assumes "boundary name i" and "boundary name j" and "i \<le> j" and "run \<noteq> []"
  shows "case search t name j run i of
      None \<Rightarrow> \<not> (\<exists>x a b. window name i j = x @ a @ b \<and> spells t a run)
    | Some k \<Rightarrow> boundary name k \<and> i \<le> k \<and> k \<le> j \<and> leftmost t run (window name i j) (window name k j)"
  using assms(1,3)
proof (induction "j - i" arbitrary: i rule: less_induct)
  case less
  show ?case
  proof (cases "i = j")
    case True
    then show ?thesis using assms(4) by (auto simp: search.simps [of t name j run j] spells_def)
  next
    case False
    then have "i < j" using less.prems by simp
    note here = forwards_window [OF less.prems(1) assms(2) less.prems(2), of t run]
    show ?thesis
    proof (cases "forwards t name j run i")
      case (Some k)
      then obtain a where "window name i j = a @ window name k j" "spells t a run"
          "boundary name k" "i \<le> k" "k \<le> j"
        using here by auto
      then show ?thesis
        using Some \<open>i < j\<close> leftmost_here [of "window name i j" a "window name k j" t run]
        by (simp add: search.simps [of t name j run i])
    next
      case None
      obtain p i' where next': "nextPoint name i = (p, i')" by (cases "nextPoint name i")
      note step = nextPoint_window [OF less.prems(1) assms(2) \<open>i < j\<close> next']
      have no: "\<not> (\<exists>a b. p # window name i' j = a @ b \<and> spells t a run)"
        using here None step by auto
      have "case search t name j run i' of
          None \<Rightarrow> \<not> (\<exists>x a b. window name i' j = x @ a @ b \<and> spells t a run)
        | Some k \<Rightarrow> boundary name k \<and> i' \<le> k \<and> k \<le> j \<and> leftmost t run (window name i' j) (window name k j)"
        by (rule less.hyps) (use step \<open>i < j\<close> in auto)
      moreover have "search t name j run i = search t name j run i'"
        using None \<open>i < j\<close> next' by (simp add: search.simps [of t name j run i])
      ultimately show ?thesis
        using step not_later [OF _ no] leftmost_later [OF _ no, of "window name k j" for k] by (cases "search t name j run i'") auto
    qed
  qed
qed

fun placed :: "cases \<Rightarrow> nat list list \<Rightarrow> nat list \<Rightarrow> bool" where
  "placed t [] ps = True"
| "placed t (run # rest) ps = (\<exists>x a b. ps = x @ a @ b \<and> spells t a run \<and> placed t rest b)"

lemma placed_mono: "placed t rs ps \<Longrightarrow> placed t rs (y @ ps)"
  by (cases rs) (auto, metis append_assoc)

lemma placed_leftmost: "leftmost t run ps rest \<Longrightarrow> placed t (run # rs) ps \<longleftrightarrow> placed t rs rest"
  unfolding placed.simps leftmost_def using placed_mono by metis

lemma searchAll_window:
  assumes "boundary name i" and "boundary name j" and "i \<le> j" and "list_all (\<lambda>r. r \<noteq> []) rs"
  shows "searchAll t name j rs i \<longleftrightarrow> placed t rs (window name i j)"
  using assms
proof (induction rs arbitrary: i)
  case (Cons r rs)
  then have "r \<noteq> []" by simp
  note found = search_window [OF Cons.prems(1-3) this, of t]
  show ?case
  proof (cases "search t name j r i")
    case None
    then show ?thesis using found by auto
  next
    case (Some k)
    then have "placed t (r # rs) (window name i j) \<longleftrightarrow> placed t rs (window name k j)"
      using found by (simp add: placed_leftmost del: placed.simps)
    then show ?thesis
      using Some found Cons.IH [of k] Cons.prems by (simp del: placed.simps)
  qed
qed simp

section \<open>The runs of a pattern\<close>

fun runsFrom :: "Token list \<Rightarrow> nat list list" where
  "runsFrom [] = [[]]"
| "runsFrom (T # ts) =
     (if kind T = Star then [] # runsFrom ts else (character T # hd (runsFrom ts)) # tl (runsFrom ts))"

lemma runsFrom_not_Nil [simp]: "runsFrom ts \<noteq> []"
  by (cases ts) auto

lemma addToRuns_foldl: "acc \<noteq> [] \<Longrightarrow>
    foldl addToRuns acc ts = butlast acc @ (last acc @ hd (runsFrom ts)) # tl (runsFrom ts)"
proof (induction ts arbitrary: acc)
  case (Cons T ts)
  then show ?case
    by (auto simp: addToRuns_def butlast_append)
qed simp

lemma runsOf_runsFrom: "runsOf ts = runsFrom ts"
  by (simp add: runsOf_def addToRuns_foldl)

fun restMatch :: "cases \<Rightarrow> nat list list \<Rightarrow> nat list \<Rightarrow> bool" where
  "restMatch t [] ps = (ps = [])"
| "restMatch t (r # rs) ps = (\<exists>x a b. ps = x @ a @ b \<and> spells t a r \<and> (if rs = [] then b = [] else restMatch t rs b))"

lemma foldPoint_separator: "foldPoint t p = c \<Longrightarrow> \<not> separator c \<Longrightarrow> \<not> separator p"
  by (auto simp: foldPoint_def separator_def)

lemma star_shape: "(\<exists>x b. ps = x @ b \<and> noSeparator x \<and> noSeparator b \<and> (\<exists>a c. b = a @ c \<and> S a \<and> R c))
    \<longleftrightarrow> noSeparator ps \<and> (\<exists>x a c. ps = x @ a @ c \<and> S a \<and> R c)"
proof
  assume "noSeparator ps \<and> (\<exists>x a c. ps = x @ a @ c \<and> S a \<and> R c)"
  then obtain x a c where "noSeparator ps" "ps = x @ a @ c" "S a" "R c" by blast
  then show "\<exists>x b. ps = x @ b \<and> noSeparator x \<and> noSeparator b \<and> (\<exists>a c. b = a @ c \<and> S a \<and> R c)"
    by (intro exI [of _ x] exI [of _ "a @ c"]) auto
qed auto

lemma literal_shape:
  assumes "\<And>p. foldPoint t p = c \<Longrightarrow> \<not> separator p"
  shows "(\<exists>p qs. ps = p # qs \<and> foldPoint t p = c \<and> noSeparator qs \<and> (\<exists>a b. qs = a @ b \<and> spells t a r \<and> R b))
    \<longleftrightarrow> noSeparator ps \<and> (\<exists>a b. ps = a @ b \<and> spells t a (c # r) \<and> R b)"
proof
  assume "\<exists>p qs. ps = p # qs \<and> foldPoint t p = c \<and> noSeparator qs \<and> (\<exists>a b. qs = a @ b \<and> spells t a r \<and> R b)"
  then obtain p a b where "ps = p # a @ b" "foldPoint t p = c" "noSeparator (a @ b)" "spells t a r" "R b" by auto
  then show "noSeparator ps \<and> (\<exists>a b. ps = a @ b \<and> spells t a (c # r) \<and> R b)"
    using assms [of p] by (intro conjI exI [of _ "p # a"] exI [of _ b]) (auto simp: spells_def)
next
  assume "noSeparator ps \<and> (\<exists>a b. ps = a @ b \<and> spells t a (c # r) \<and> R b)"
  then obtain a b where ab: "noSeparator ps" "ps = a @ b" "spells t a (c # r)" "R b" by blast
  then obtain p a' where "a = p # a'" "foldPoint t p = c" "spells t a' r"
    by (auto simp: spells_def)
  then show "\<exists>p qs. ps = p # qs \<and> foldPoint t p = c \<and> noSeparator qs \<and> (\<exists>a b. qs = a @ b \<and> spells t a r \<and> R b)"
    using ab by auto
qed

lemma runs_match:
  assumes "list_all plainToken ts"
  shows "globMatch t ts ps \<longleftrightarrow> noSeparator ps \<and> (\<exists>a b. ps = a @ b \<and> spells t a (hd (runsFrom ts))
    \<and> (if tl (runsFrom ts) = [] then b = [] else restMatch t (tl (runsFrom ts)) b))"
  using assms
proof (induction ts arbitrary: ps)
  case Nil
  then show ?case by (auto simp: spells_def)
next
  case (Cons T ts)
  let ?r = "hd (runsFrom ts)" and ?rs = "tl (runsFrom ts)"
  let ?tail = "\<lambda>b. if ?rs = [] then b = [] else restMatch t ?rs b"
  have IH: "globMatch t ts b \<longleftrightarrow> noSeparator b \<and> (\<exists>a c. b = a @ c \<and> spells t a ?r \<and> ?tail c)" for b
    using Cons by simp
  show ?case
  proof (cases "kind T = Star")
    case True
    have "restMatch t (runsFrom ts) ps \<longleftrightarrow> (\<exists>x a c. ps = x @ a @ c \<and> spells t a ?r \<and> ?tail c)"
      by (cases "runsFrom ts") simp_all
    moreover have "globMatch t (T # ts) ps \<longleftrightarrow> noSeparator ps \<and> (\<exists>x a c. ps = x @ a @ c \<and> spells t a ?r \<and> ?tail c)"
      unfolding globMatch_Star [OF True] IH by (rule star_shape)
    moreover have "spells t a [] \<longleftrightarrow> a = []" for a by (simp add: spells_def)
    ultimately show ?thesis using True by simp
  next
    case False
    then have lit: "kind T = Literal" "\<not> separator (character T)"
      using Cons.prems by (auto simp: plainToken_def)
    have "globMatch t (T # ts) ps \<longleftrightarrow> (\<exists>p qs. ps = p # qs \<and> foldPoint t p = character T \<and> noSeparator qs
        \<and> (\<exists>a c. qs = a @ c \<and> spells t a ?r \<and> ?tail c))"
      unfolding globMatch_one [OF False] IH using lit by (simp add: accepts_def)
    also have "\<dots> \<longleftrightarrow> noSeparator ps \<and> (\<exists>a c. ps = a @ c \<and> spells t a (character T # ?r) \<and> ?tail c)"
      by (rule literal_shape) (rule foldPoint_separator [OF _ lit(2)])
    finally show ?thesis using False by simp
  qed
qed

lemma restMatch_placed: "rs \<noteq> [] \<Longrightarrow> restMatch t rs ps \<longleftrightarrow> (\<exists>w z. ps = w @ z \<and> spells t z (last rs) \<and> placed t (butlast rs) w)"
proof (induction rs arbitrary: ps)
  case (Cons r rs)
  show ?case
  proof (cases "rs = []")
    case True
    then show ?thesis by simp
  next
    case False
    have "restMatch t (r # rs) ps \<longleftrightarrow> (\<exists>x a w z. ps = x @ a @ w @ z \<and> spells t a r \<and> spells t z (last rs) \<and> placed t (butlast rs) w)"
      using False Cons.IH by (simp add: append_eq_append_conv2 del: append_eq_append_conv) blast
    also have "\<dots> \<longleftrightarrow> (\<exists>w z. ps = w @ z \<and> spells t z (last rs) \<and> placed t (r # butlast rs) w)"
      by (simp, metis append_assoc)
    finally show ?thesis using False by simp
  qed
qed simp

lemma inner_runs:
  assumes "successively (\<lambda>a b. \<not> (kind a = Star \<and> kind b = Star)) ts"
  shows "list_all (\<lambda>r. r \<noteq> []) (butlast (tl (runsFrom ts)))
    \<and> (ts \<noteq> [] \<and> kind (hd ts) \<noteq> Star \<longrightarrow> hd (runsFrom ts) \<noteq> []) \<and> (ts = [] \<longrightarrow> tl (runsFrom ts) = [])"
  using assms
proof (induction ts)
  case (Cons T ts)
  then have IH: "list_all (\<lambda>r. r \<noteq> []) (butlast (tl (runsFrom ts)))"
      "ts \<noteq> [] \<and> kind (hd ts) \<noteq> Star \<longrightarrow> hd (runsFrom ts) \<noteq> []" "ts = [] \<longrightarrow> tl (runsFrom ts) = []"
    by (auto simp: successively_Cons)
  have "kind T = Star \<Longrightarrow> ts = [] \<or> kind (hd ts) \<noteq> Star"
    using Cons.prems by (auto simp: successively_Cons)
  then show ?case
    using IH by (cases "runsFrom ts") auto
qed simp

lemma contains_decode: "\<not> isHigh u \<Longrightarrow> \<not> isLow u \<Longrightarrow> u < 0x10000 \<Longrightarrow> u \<in> set name \<longleftrightarrow> u \<in> set (decode name)"
  by (induction name rule: decode.induct) (auto simp: surrogateToUcs4_def split: if_splits)

lemma noSeparator_decode: "noSeparator (decode name) \<longleftrightarrow> 47 \<notin> set name \<and> 92 \<notin> set name"
  using contains_decode [of 47 name] contains_decode [of 92 name]
  by (auto simp: noSeparator_def list_all_iff separator_def isHigh_def isLow_def)

lemma spells_unique: "spells t a r \<Longrightarrow> spells t a' r \<Longrightarrow> a @ b = a' @ b' \<Longrightarrow> b = b'"
  using spells_length by fastforce

lemma spells_unique_last: "spells t a r \<Longrightarrow> spells t a' r \<Longrightarrow> b @ a = b' @ a' \<Longrightarrow> b = b'"
  using spells_length by fastforce

lemma matchesRuns_window:
  assumes "tl rs \<noteq> []" and "list_all (\<lambda>r. r \<noteq> []) (butlast (tl rs))"
  shows "matchesRuns t rs name \<longleftrightarrow> noSeparator (decode name)
    \<and> (\<exists>a b. decode name = a @ b \<and> spells t a (hd rs) \<and> restMatch t (tl rs) b)"
proof -
  let ?n = "length name"
  note one = forwards_window [OF boundary_start [of name] boundary_end le0, of t "hd rs", unfolded window_whole]
  show ?thesis
  proof (cases "forwards t name ?n (hd rs) 0")
    case None
    then show ?thesis using one by (auto simp: matchesRuns_def)
  next
    case (Some b)
    then obtain a where b: "boundary name b" "b \<le> ?n" "decode name = a @ window name b ?n" "spells t a (hd rs)"
      using one by auto
    have first: "(\<exists>a c. decode name = a @ c \<and> spells t a (hd rs) \<and> restMatch t (tl rs) c) \<longleftrightarrow> restMatch t (tl rs) (window name b ?n)"
      using b(3,4) spells_unique [OF b(4)] by metis
    note two = backwards_window [OF b(1) boundary_end b(2), of t "last (tl rs)"]
    have last: "last rs = last (tl rs)" using assms(1) by (cases rs) auto
    show ?thesis
    proof (cases "backwards t name b (rev (last rs)) ?n")
      case None
      then have "\<not> restMatch t (tl rs) (window name b ?n)"
        using two last restMatch_placed [OF assms(1)] by auto
      then show ?thesis
        using Some None first by (simp add: matchesRuns_def)
    next
      case e: (Some e)
      then obtain z where z: "boundary name e" "b \<le> e" "window name b ?n = window name b e @ z" "spells t z (last (tl rs))"
        using two last by auto
      have "restMatch t (tl rs) (window name b ?n) \<longleftrightarrow> placed t (butlast (tl rs)) (window name b e)"
        unfolding restMatch_placed [OF assms(1)] using z(3,4) spells_unique_last [OF z(4)] by metis
      then show ?thesis
        using Some e first searchAll_window [OF b(1) z(1,2) assms(2), of t] by (auto simp: matchesRuns_def noSeparator_decode)
    qed
  qed
qed

lemma runs_decide:
  assumes "list_all plainToken ts" and "successively (\<lambda>a b. \<not> (kind a = Star \<and> kind b = Star)) ts"
    and "\<not> list_all (\<lambda>T. kind T = Literal) ts"
  shows "matchesRuns t (runsOf ts) name = globMatch t ts (decode name)"
proof -
  have "tl (runsFrom ts) \<noteq> []"
    using assms(1,3) by (induction ts) (auto simp: plainToken_def)
  then show ?thesis
    using matchesRuns_window [of "runsFrom ts" t name] inner_runs [OF assms(2)] runs_match [OF assms(1), of t "decode name"]
    by (simp add: runsOf_runsFrom)
qed

section \<open>What \<open>Compile\<close> returns\<close>

abbreviation starsApart :: "Token list \<Rightarrow> bool" where
  "starsApart ts \<equiv> successively (\<lambda>a b. \<not> (kind a = Star \<and> kind b = Star)) ts"

lemma starsApart_snoc: "starsApart ts \<Longrightarrow> kind T \<noteq> Star \<or> ts = [] \<or> kind (last ts) \<noteq> Star \<Longrightarrow> starsApart (ts @ [T])"
  by (auto simp: successively_append_iff)

lemma newToken_kind [simp]: "kind (newToken k) = k"
  by (simp add: newToken_def)

lemma compileTokens_apart: "compileTokens t ps toks = Inr toks' \<Longrightarrow> starsApart toks \<Longrightarrow> starsApart toks'"
proof (induction t ps toks rule: compileTokens.induct)
  case (2 t c ps toks)
  show ?case
  proof (cases "c = openBracket")
    case True
    then show ?thesis
      using 2 starsApart_snoc [of toks] by (auto simp: Let_def split: sum.splits)
  next
    case False
    then show ?thesis
      using 2 starsApart_snoc [of toks] by (auto split: if_splits)
  qed
qed simp

text \<open>How the tokens of a pattern go on after the first point.\<close>

lemma compileTokens_step:
  assumes "compileTokens t (c # ps) toks = Inr toks'"
  obtains (skip) "c = asterisk" "toks \<noteq> []" "kind (last toks) = Star" "compileTokens t ps toks = Inr toks'"
  | (special) T rest where "kind T \<noteq> Literal" "length rest \<le> length ps" "compileTokens t rest (toks @ [T]) = Inr toks'"
  | (literal) "compileTokens t ps (toks @ [(newToken Literal)\<lparr>character := toCaseFolded t c\<rparr>]) = Inr toks'"
proof (cases "c = openBracket")
  case True
  then obtain rs cs rest where r: "classBody (if ps \<noteq> [] \<and> (hd ps = exclamation \<or> hd ps = caret) then tl ps else ps) [] [] = Inr (rs, cs, rest)"
      "compileTokens t rest (toks @ [(newToken Class)\<lparr>negate := ps \<noteq> [] \<and> (hd ps = exclamation \<or> hd ps = caret),
          ranges := withReverse t rs, classes := cs\<rparr>]) = Inr toks'"
    using assms by (auto simp: Let_def split: sum.splits prod.splits)
  have "length rest \<le> length ps"
    using classBody_length [OF r(1)] by (auto split: if_splits)
  then show thesis using special [OF _ _ r(2)] by simp
next
  case False
  show thesis
  proof (cases "c = asterisk")
    case True
    then show thesis
      using assms skip special [of "newToken Star" ps] by (auto split: if_splits)
  next
    case no: False
    then show thesis
      using False assms special [of "newToken Any" ps] literal by (auto split: if_splits)
  qed
qed

lemma compileTokens_extends: "compileTokens t ps toks = Inr toks' \<Longrightarrow> \<exists>more. toks' = toks @ more"
proof (induction ps arbitrary: toks rule: length_induct)
  case (1 ps)
  show ?case
  proof (cases ps)
    case Nil
    then show ?thesis using "1.prems" by simp
  next
    case (Cons c qs)
    have IH: "length rest \<le> length qs \<Longrightarrow> compileTokens t rest ts = Inr toks' \<Longrightarrow> \<exists>more. toks' = ts @ more" for rest ts
      using "1.IH" Cons by (simp add: less_Suc_eq_le)
    from "1.prems" [unfolded Cons] show ?thesis
      by (rule compileTokens_step) (use IH in fastforce)+
  qed
qed

lemma compileTokens_literals:
  "compileTokens t ps toks = Inr toks' \<Longrightarrow> list_all (\<lambda>T. kind T = Literal) toks'
    \<Longrightarrow> map character toks' = map character toks @ map (toCaseFolded t) ps"
proof (induction ps arbitrary: toks)
  case (Cons c ps)
  from Cons.prems(1) show ?case
  proof (rule compileTokens_step)
    assume "toks \<noteq> []" "kind (last toks) = Star" "compileTokens t ps toks = Inr toks'"
    then show ?thesis
      using compileTokens_extends [of t ps toks toks'] Cons.prems(2) by (auto simp: list_all_iff dest: last_in_set)
  next
    fix T rest
    assume "kind T \<noteq> Literal" "compileTokens t rest (toks @ [T]) = Inr toks'"
    then show ?thesis
      using compileTokens_extends [of t rest "toks @ [T]" toks'] Cons.prems(2) by auto
  next
    assume "compileTokens t ps (toks @ [(newToken Literal)\<lparr>character := toCaseFolded t c\<rparr>]) = Inr toks'"
    then show ?thesis using Cons.IH Cons.prems(2) by simp
  qed
qed simp

lemma literals_match: "list_all (\<lambda>T. kind T = Literal) ts \<Longrightarrow> globMatch t ts ps \<longleftrightarrow> map (foldPoint t) ps = map character ts"
proof (induction ts arbitrary: ps)
  case (Cons T ts)
  then have "kind T \<noteq> Star" by simp
  show ?case
    unfolding globMatch_one [OF \<open>kind T \<noteq> Star\<close>] using Cons by (auto simp: accepts_def)
qed simp

text \<open>What is relied on of Qt: the case folding of ASCII, and that the case-insensitive
  comparison compares folded points.\<close>

definition foldsLikeQt :: "cases \<Rightarrow> bool" where
  "foldsLikeQt t \<longleftrightarrow> (\<forall>p. p < 128 \<longrightarrow> toCaseFolded t p = (if 65 \<le> p \<and> p \<le> 90 then p + 32 else p))
     \<and> (\<forall>a b. equalInsensitive t a b \<longleftrightarrow> map (toCaseFolded t) (decode a) = map (toCaseFolded t) (decode b))"

lemma foldPoint_folded: "foldsLikeQt t \<Longrightarrow> foldPoint t p = toCaseFolded t p"
  by (auto simp: foldsLikeQt_def foldPoint_def)

lemma simple_decides:
  assumes "foldsLikeQt t" and "list_all (\<lambda>T. kind T = Literal) ts" and "map character ts = map (toCaseFolded t) (decode pattern)"
  shows "equalInsensitive t name pattern = globMatch t ts (decode name)"
proof -
  have "foldPoint t = toCaseFolded t"
    using foldPoint_folded [OF assms(1)] by (rule ext)
  then show ?thesis
    using assms literals_match [OF assms(2), of t "decode name"] by (simp add: foldsLikeQt_def)
qed

section \<open>Properties\<close>

text \<open>C40: However a compiled pattern decides, by comparing with a plain text, by the two rows
  of the table or by searching the runs between its stars from both ends, its answer is the
  meaning of the pattern: every token takes one code point it accepts and a star takes any
  number of points, none of them a separator.  This holds for every pattern without lone
  surrogates and for every name, lone surrogates included.\<close>

theorem glob_decides:
  assumes "foldsLikeQt t" and "toUcs4 t pattern = decode pattern" and "Compile t pattern = Inr g"
  shows "Matches t g name = globMatch t (tokens g) (decode name)"
proof -
  obtain ts where ts: "compileTokens t (decode pattern) [] = Inr ts"
    using assms(2,3) by (auto simp: Compile_def split: sum.splits)
  have apart: "starsApart ts" by (rule compileTokens_apart [OF ts]) simp
  have chars: "list_all (\<lambda>T. kind T = Literal) ts \<Longrightarrow> map character ts = map (toCaseFolded t) (decode pattern)"
    using compileTokens_literals [OF ts] by simp
  show ?thesis
  proof (cases "list_all (\<lambda>T. kind T = Literal) ts")
    case True
    then show ?thesis
      using assms ts simple_decides [OF assms(1) True chars] by (auto simp: Compile_def Matches_def)
  next
    case False
    then have g: "g = \<lparr>tokens = ts, literal = [], runs = (if list_all plainToken ts then runsOf ts else []), simple = False\<rparr>"
      using assms(2,3) ts by (simp add: Compile_def)
    show ?thesis
    proof (cases "list_all plainToken ts")
      case True
      then show ?thesis
        using runs_decide [OF True apart False, of t name] by (simp add: g Matches_def runsOf_runsFrom)
    next
      case no: False
      show ?thesis
        using no table_decides [of t ts name] by (simp add: g Matches_def del: tableLoop.simps)
    qed
  qed
qed

definition asciiFold :: "nat \<Rightarrow> nat" where
  "asciiFold p = (if 65 \<le> p \<and> p \<le> 90 then p + 32 else p)"

definition asciiCases :: cases where
  "asciiCases = \<lparr>toCaseFolded = asciiFold, toLower = asciiFold, toUpper = id, toUcs4 = decode,
     equalInsensitive = (\<lambda>a b. map asciiFold (decode a) = map asciiFold (decode b))\<rparr>"

theorem glob_decides_witness:
  "case Compile asciiCases [42, 46, 84] of Inl e \<Rightarrow> False
   | Inr g \<Rightarrow> Matches asciiCases g [120, 46, 116] = globMatch asciiCases (tokens g) (decode [120, 46, 116])"
proof -
  have "foldsLikeQt asciiCases" "toUcs4 asciiCases [42, 46, 84] = decode [42, 46, 84]"
    by (simp_all add: foldsLikeQt_def asciiCases_def asciiFold_def)
  moreover obtain g where "Compile asciiCases [42, 46, 84] = Inr g"
    by (simp add: Compile_def asciiCases_def isHigh_def)
  ultimately show ?thesis
    using glob_decides [of asciiCases "[42, 46, 84]" g "[120, 46, 116]"] by (simp only: sum.case)
qed

end
