(* ===== verification/DecisionPlan.thy ===== *)
theory DecisionPlan
  imports MergeModel
begin

text \<open>
  Decision plans, \<open>HyperCompare/runtime/decisionPlan.cpp\<close>: the document that identifies a merge
  session and lists its blocks (\<open>MakeDecisionPlan\<close>), and the application of such a document
  with the user's choices (\<open>ApplyDecisionPlan\<close>) on the plan of the session.

  A JSON value is a \<open>json\<close> and its object the list of its members in the order of their names;
  reading the bytes (\<open>ReadCompareJson\<close>) and writing them is left to Qt.  Texts are their UTF-8
  bytes.  \<open>digest\<close> is the hexadecimal SHA-256 and \<open>compact\<close> the writer \<open>QJsonDocument::toJson\<close>;
  they and the decimal digits of a number are parameters.  The work runs under a budget.
\<close>

section \<open>Documents and sessions\<close>

datatype json = Undefined | JBool bool | JNumber int | JString str | JArray "json list" | JObject "(str \<times> json) list"

type_synonym object = "(str \<times> json) list"

definition member :: "object \<Rightarrow> str \<Rightarrow> json" where
  "member obj k = (case map_of obj k of None \<Rightarrow> Undefined | Some v \<Rightarrow> v)"

definition without :: "object \<Rightarrow> str \<Rightarrow> object" where
  "without obj k = filter (\<lambda>(n, v). n \<noteq> k) obj"

definition text_of :: "json \<Rightarrow> str" where
  "text_of v = (case v of JString t \<Rightarrow> t | _ \<Rightarrow> [])"

record hashing =
  digest :: "str \<Rightarrow> str"
  compact :: "object \<Rightarrow> str"
  decimal :: "nat \<Rightarrow> str"

record snapshot =
  path :: str
  raw :: str
  utf8 :: str
  encoding :: str
  bom :: bool

record request =
  requestEncoding :: str
  takeAll :: str

record session =
  sessionPlan :: "mergePlan option"
  inputs :: "snapshot list"
  mergedText :: str
  resultText :: str
  exitCode :: nat
  errorName :: string
  outcome :: string

definition resultLimit :: nat where "resultLimit = 33554432"
definition decisionBlockLimit :: nat where "decisionBlockLimit = 100000"

text \<open>The text the blocks of the plan lie in before any decision.\<close>

definition seedText :: "session \<Rightarrow> mergePlan \<Rightarrow> str" where
  "seedText s p = (if hasBase p then mergedText s else utf8 (hd (inputs s)))"

section \<open>\<open>DecisionIdentity\<close> and \<open>MakeDecisionPlan\<close>\<close>

fun identityInputs :: "hashing \<Rightarrow> budget \<Rightarrow> nat \<Rightarrow> snapshot list \<Rightarrow> json list comp" where
  "identityInputs h L i [] = ret []"
| "identityInputs h L i (x # xs) = seq (check L) (\<lambda>_. seq (identityInputs h L (Suc i) xs) (\<lambda>rest.
     ret (JObject [(''bom'', JBool (bom x)), (''encoding'', JString (encoding x)), (''path'', JString (path x)),
        (''role'', JString (if i = 0 then ''left'' else if i = 1 then ''right'' else ''base'')),
        (''sha256'', JString (digest h (raw x)))] # rest)))"

definition policy :: "request \<Rightarrow> mergePlan \<Rightarrow> object" where
  "policy r p =
     (if hasBase p then [(''blockLayout'', JString ''all-change-regions-v1'')] else [])
     @ [(''comparison'', JString ''exact-lines-v1''), (''encoding'', JString (requestEncoding r)),
        (''outputEncoding'', JString ''left''),
        (''seed'', JString (if hasBase p then ''base-with-independent-changes'' else ''left''))]"

definition engineVersion :: str where "engineVersion = ''myers-bounded-4''"

definition DecisionIdentity :: "hashing \<Rightarrow> budget \<Rightarrow> request \<Rightarrow> session \<Rightarrow> object comp" where
  "DecisionIdentity h L r s =
     (case sessionPlan s of
        None \<Rightarrow> throw ''InvalidDecisionSession''
      | Some p \<Rightarrow>
          if length (inputs s) < 2 then throw ''InvalidDecisionSession''
          else if decisionBlockLimit < length (blocks p) then throw ''DecisionBlockLimit''
          else seq (identityInputs h L 0 (inputs s)) (\<lambda>ins.
            let before = (''engineVersion'', JString (engineVersion));
                rest = [(''inputs'', JArray ins), (''kind'', JString ''text-merge-decisions''),
                  (''policyDigest'', JString (digest h (compact h (policy r p)))), (''schemaVersion'', JNumber 1)];
                generation = digest h (compact h (before # rest))
            in ret (before # (''generation'', JString generation) # rest)))"

definition baseLineOf :: "mergePlan \<Rightarrow> mergeBlock \<Rightarrow> int" where
  "baseLineOf p b = (if hasBase p then int (bBaseLine b) + 1 else 0)"

definition choiceName :: "Resolution \<Rightarrow> str" where
  "choiceName c = (if c = ChooseLeft then ''left'' else if c = ChooseRight then ''right'' else ''unresolved'')"

text \<open>The part of a block in the document that identifies it, and the whole of it.\<close>

definition blockIdentity :: "hashing \<Rightarrow> str \<Rightarrow> str \<Rightarrow> mergePlan \<Rightarrow> nat \<Rightarrow> mergeBlock \<Rightarrow> blockState \<Rightarrow> object" where
  "blockIdentity h generation seed p i b st =
     (let span = digest h (slice seed (sBegin st) (sEnd st)) in
      [(''baseLine'', JNumber (baseLineOf p b)),
       (''changeId'', JString (digest h (generation @ '':'' @ decimal h i @ '':'' @ span))),
       (''expectedSpanDigest'', JString span), (''leftLine'', JNumber (int (bLeftLine b) + 1)),
       (''rightLine'', JNumber (int (bRightLine b) + 1))])"

definition insertMember :: "str \<Rightarrow> json \<Rightarrow> object \<Rightarrow> object" where
  "insertMember k v obj = filter (\<lambda>(n, _). n < k) obj @ (k, v) # filter (\<lambda>(n, _). k < n) obj"

definition blockObject :: "hashing \<Rightarrow> str \<Rightarrow> str \<Rightarrow> mergePlan \<Rightarrow> nat \<Rightarrow> mergeBlock \<Rightarrow> blockState \<Rightarrow> object" where
  "blockObject h generation seed p i b st =
     insertMember ''choice'' (JString (choiceName (sResolution st)))
       (insertMember ''replacement'' (JString []) (blockIdentity h generation seed p i b st))"

fun planBlocks :: "hashing \<Rightarrow> budget \<Rightarrow> str \<Rightarrow> str \<Rightarrow> mergePlan \<Rightarrow> nat \<Rightarrow> (mergeBlock \<times> blockState) list \<Rightarrow> json list comp" where
  "planBlocks h L generation seed p i [] = ret []"
| "planBlocks h L generation seed p i ((b, st) # rest) = seq (check L) (\<lambda>_.
     if sEnd st < sBegin st \<or> length seed < sEnd st then throw ''InvalidMergeLocation''
     else seq (planBlocks h L generation seed p (Suc i) rest) (\<lambda>objs.
       ret (JObject (blockObject h generation seed p i b st) # objs)))"

definition MakeDecisionPlan :: "hashing \<Rightarrow> budget \<Rightarrow> request \<Rightarrow> session \<Rightarrow> object comp" where
  "MakeDecisionPlan h L r s =
     (if takeAll r \<noteq> [] then throw ''InvalidDecisionSession''
      else seq (DecisionIdentity h L r s) (\<lambda>identity.
        let p = the (sessionPlan s); generation = text_of (member identity ''generation'') in
        seq (planBlocks h L generation (seedText s p) p 0 (zip (blocks p) (initial p))) (\<lambda>objs.
          ret (insertMember ''blocks'' (JArray objs) identity))))"

section \<open>\<open>ApplyDecisionPlan\<close>\<close>

definition choiceNames :: "str list" where
  "choiceNames = [''unresolved'', ''left'', ''right'', ''base'', ''leftThenRight'', ''rightThenLeft'', ''manual'', ''omit'']"

definition resolutionOf :: "nat \<Rightarrow> Resolution" where
  "resolutionOf i = [Unresolved, ChooseLeft, ChooseRight, ChooseBase, LeftThenRight, RightThenLeft, Manual, Omit] ! i"

definition nameIndex :: "str \<Rightarrow> nat option" where
  "nameIndex n = List.find (\<lambda>i. choiceNames ! i = n) [0..<length choiceNames]"

definition isText :: "json \<Rightarrow> bool" where
  "isText v = (case v of JString _ \<Rightarrow> True | _ \<Rightarrow> False)"

text \<open>One entry of the document against the expected one: the resolution and the text of a
  manual decision.\<close>

definition readChoice :: "mergePlan \<Rightarrow> json \<Rightarrow> json \<Rightarrow> (Resolution \<times> str) comp" where
  "readChoice p given expected =
     (case (given, expected) of
        (JObject choice, JObject reference) \<Rightarrow>
          if map fst choice \<noteq> map fst reference \<or> \<not> isText (member choice ''choice'') \<or> \<not> isText (member choice ''replacement'')
            then throw ''InvalidDecisionPlan''
          else let name = text_of (member choice ''choice''); manual = text_of (member choice ''replacement'') in
            if without (without choice ''choice'') ''replacement'' \<noteq> without (without reference ''choice'') ''replacement''
              then throw ''StalePlan''
            else (case nameIndex name of
                None \<Rightarrow> throw ''InvalidDecisionChoice''
              | Some i \<Rightarrow> if i = 3 \<and> \<not> hasBase p \<or> i \<noteq> 6 \<and> manual \<noteq> [] then throw ''InvalidDecisionChoice''
                  else ret (resolutionOf i, manual))
      | _ \<Rightarrow> throw ''InvalidDecisionPlan'')"

definition appendResult :: "str \<Rightarrow> str \<Rightarrow> str comp" where
  "appendResult out bytes = (if resultLimit < length out + length bytes then throw ''ResultSizeLimit'' else ret (out @ bytes))"

definition ofSum :: "failure + 'a \<Rightarrow> 'a comp" where
  "ofSum v = (case v of Inl e \<Rightarrow> throw e | Inr a \<Rightarrow> ret a)"

text \<open>The text that goes into the place of a block.\<close>

definition decidedText :: "mergeModel \<Rightarrow> str \<Rightarrow> nat \<Rightarrow> blockState \<Rightarrow> Resolution \<Rightarrow> str \<Rightarrow> str comp" where
  "decidedText m seed i st c manual =
     (if c = Unresolved then ret (slice seed (sBegin st) (sEnd st))
      else if c = Manual then ret manual
      else seq (ofSum (Prepare m (Suc i) (revision m) c)) (\<lambda>d. ret (deReplacement d)))"

text \<open>The loop: the position in the seed, the output so far, and the new states of the blocks.\<close>

fun decideBlocks :: "budget \<Rightarrow> mergeModel \<Rightarrow> str \<Rightarrow> nat \<Rightarrow> nat \<Rightarrow> str \<Rightarrow> (json \<times> json) list
    \<Rightarrow> (str \<times> nat \<times> blockState list) comp" where
  "decideBlocks L m seed i cursor out [] = ret (out, cursor, [])"
| "decideBlocks L m seed i cursor out ((given, expected) # rest) = seq (check L) (\<lambda>_.
     seq (readChoice (plan m) given expected) (\<lambda>(c, manual).
     let st = blockStates m ! i in
     if sBegin st < cursor \<or> length seed < sEnd st then throw ''InvalidMergeLocation''
     else seq (appendResult out (slice seed cursor (sBegin st))) (\<lambda>out1.
       seq (decidedText m seed i st c manual) (\<lambda>t.
       seq (appendResult out1 t) (\<lambda>out2.
       seq (decideBlocks L m seed (Suc i) (sEnd st) out2 rest) (\<lambda>(final, cursor', states).
         ret (final, cursor', \<lparr>sBegin = length out1, sEnd = length out2, sResolution = c, sMapped = True\<rparr> # states)))))))"

text \<open>Published only after every decision has been validated.\<close>

definition publishDecisions :: "session \<Rightarrow> mergePlan \<Rightarrow> blockState list \<Rightarrow> str \<Rightarrow> session" where
  "publishDecisions s p states final =
     (let unresolved = list_ex (\<lambda>st. sResolution st = Unresolved) states in
      s\<lparr>sessionPlan := Some (p\<lparr>initial := states\<rparr>), resultText := final,
        exitCode := (if unresolved then 1 else 0), errorName := (if unresolved then ''DecisionsRequired'' else []),
        outcome := (if unresolved then ''Conflicted'' else ''Planned'')\<rparr>)"

definition ApplyDecisionPlan :: "hashing \<Rightarrow> budget \<Rightarrow> request \<Rightarrow> nat \<Rightarrow> object \<Rightarrow> session \<Rightarrow> session comp" where
  "ApplyDecisionPlan h L r counter document s =
     seq (MakeDecisionPlan h L r s) (\<lambda>expected.
     if map fst document \<noteq> map fst expected then throw ''InvalidDecisionPlan''
     else if member document ''schemaVersion'' \<noteq> JNumber 1 then throw ''UnsupportedDecisionSchema''
     else (case (member document ''blocks'', member expected ''blocks'') of
         (JArray choices, JArray references) \<Rightarrow>
           if without document ''blocks'' \<noteq> without expected ''blocks'' then throw ''StalePlan''
           else if length choices \<noteq> length references then throw ''IncompleteDecisionPlan''
           else seq (ofSum (fst (newMergeModel (sessionPlan s) counter))) (\<lambda>m.
             let p = plan m; seed = seedText s p in
             seq (decideBlocks L m seed 0 0 [] (zip choices references)) (\<lambda>(out, cursor, states).
             seq (appendResult out (drop cursor seed)) (\<lambda>final.
             seq (check L) (\<lambda>_.
               ret (publishDecisions s p states final)))))
       | _ \<Rightarrow> throw ''InvalidDecisionPlan''))"

section \<open>What an applied plan is\<close>

definition field :: "json \<Rightarrow> str \<Rightarrow> json" where
  "field v k = (case v of JObject obj \<Rightarrow> member obj k | _ \<Rightarrow> Undefined)"

text \<open>The region \<open>n\<close> of the result \<open>T\<close> holds what the entry \<open>given\<close> of the document says for the
  block \<open>b\<close>, whose region in the seed is \<open>st\<close>.\<close>

definition regionDecided :: "str \<Rightarrow> str \<Rightarrow> mergeBlock \<Rightarrow> blockState \<Rightarrow> json \<Rightarrow> blockState \<Rightarrow> bool" where
  "regionDecided seed T b st given n \<longleftrightarrow> sMapped n \<and> within T n
     \<and> map_option resolutionOf (nameIndex (text_of (field given ''choice''))) = Some (sResolution n)
     \<and> (if sResolution n = Unresolved then spanText T n = spanText seed st
        else if sResolution n = Manual then spanText T n = text_of (field given ''replacement'')
        else chosenText b (sResolution n) = Some (spanText T n))"

text \<open>From \<open>a\<close> on the result is the seed from \<open>cursor\<close> on with the regions replaced: between two
  regions it is unchanged, and so it is after the last.\<close>

fun replaced :: "str \<Rightarrow> str \<Rightarrow> nat \<Rightarrow> nat \<Rightarrow> ((mergeBlock \<times> blockState) \<times> json) list \<Rightarrow> blockState list \<Rightarrow> bool" where
  "replaced seed T a cursor [] [] = (a \<le> length T \<and> drop a T = drop cursor seed)"
| "replaced seed T a cursor (((b, st), given) # rest) (n # ns) =
     (cursor \<le> sBegin st \<and> sEnd st \<le> length seed \<and> a \<le> sBegin n
      \<and> slice T a (sBegin n) = slice seed cursor (sBegin st)
      \<and> regionDecided seed T b st given n \<and> replaced seed T (sEnd n) (sEnd st) rest ns)"
| "replaced seed T a cursor _ _ = False"

lemma readChoice_Inr:
  assumes "readChoice p given expected w = (Inr (c, manual), w')"
  shows "map_option resolutionOf (nameIndex (text_of (field given ''choice''))) = Some c
    \<and> manual = text_of (field given ''replacement'')"
  using assms by (auto simp: readChoice_def Let_def throw_def ret_def field_def split: json.splits if_splits option.splits)

lemma decidedText_Inr:
  assumes "decidedText m seed i st c manual w = (Inr t, w')"
  shows "(c = Unresolved \<longrightarrow> t = slice seed (sBegin st) (sEnd st)) \<and> (c = Manual \<longrightarrow> t = manual)
    \<and> (c \<noteq> Unresolved \<and> c \<noteq> Manual \<longrightarrow> chosenText (blocks (plan m) ! i) c = Some t)"
  using assms
  by (auto simp: decidedText_def ret_def ofSum_def throw_def dest!: seq_Inr split: if_splits sum.splits elim!: Prepare_Inr)

lemma appendResult_Inr: "appendResult out bytes w = (Inr out', w') \<Longrightarrow> out' = out @ bytes"
  by (auto simp: appendResult_def ret_def throw_def split: if_splits)

lemma decideBlocks_step:
  assumes "decideBlocks L m seed i cursor out ((given, expected) # rest) w = (Inr (final, cursor', states), w')"
  obtains c t ns v where "states = \<lparr>sBegin = length (out @ slice seed cursor (sBegin (blockStates m ! i))),
        sEnd = length (out @ slice seed cursor (sBegin (blockStates m ! i)) @ t), sResolution = c, sMapped = True\<rparr> # ns"
    "cursor \<le> sBegin (blockStates m ! i)" "sEnd (blockStates m ! i) \<le> length seed"
    "decideBlocks L m seed (Suc i) (sEnd (blockStates m ! i)) (out @ slice seed cursor (sBegin (blockStates m ! i)) @ t) rest v
       = (Inr (final, cursor', ns), w')"
    "map_option resolutionOf (nameIndex (text_of (field given ''choice''))) = Some c"
    "if c = Unresolved then t = spanText seed (blockStates m ! i) else if c = Manual then t = text_of (field given ''replacement'')
      else chosenText (blocks (plan m) ! i) c = Some t"
proof -
  let ?st = "blockStates m ! i"
  from assms obtain w1 c manual w2 w3 t w4 v ns where c: "readChoice (plan m) given expected w1 = (Inr (c, manual), w2)"
      "cursor \<le> sBegin ?st" "sEnd ?st \<le> length seed"
      "decidedText m seed i ?st c manual w3 = (Inr t, w4)"
      "decideBlocks L m seed (Suc i) (sEnd ?st) (out @ slice seed cursor (sBegin ?st) @ t) rest v = (Inr (final, cursor', ns), w')"
      "states = \<lparr>sBegin = length (out @ slice seed cursor (sBegin ?st)),
        sEnd = length (out @ slice seed cursor (sBegin ?st) @ t), sResolution = c, sMapped = True\<rparr> # ns"
    by (auto simp: Let_def ret_def throw_def dest!: seq_Inr appendResult_Inr split: if_splits)
  show thesis
    using that [OF c(6,2,3,5)] readChoice_Inr [OF c(1)] decidedText_Inr [OF c(4)]
    by (simp add: spanText_def)
qed

lemma slice_middle: "slice (a @ g @ x) (length a) (length (a @ g)) = g"
  by (simp add: slice_def)

lemma decideBlocks_replaced:
  assumes "decideBlocks L m seed i cursor out pairs w = (Inr (final, cursor', states), w')"
    and "i + length pairs = length (zip (blocks (plan m)) (blockStates m))"
  shows "(\<exists>tail. final = out @ tail)
    \<and> replaced seed (final @ drop cursor' seed) (length out) cursor
        (zip (drop i (zip (blocks (plan m)) (blockStates m))) (map fst pairs)) states"
  using assms
proof (induction pairs arbitrary: i cursor out states w)
  case Nil
  then show ?case by (simp add: ret_def)
next
  case (Cons pair rest)
  let ?zs = "zip (blocks (plan m)) (blockStates m)" and ?st = "blockStates m ! i"
  obtain given expected where pair: "pair = (given, expected)" by (cases pair)
  from Cons.prems(1) [unfolded pair] obtain c t ns v where *:
    "states = \<lparr>sBegin = length (out @ slice seed cursor (sBegin ?st)),
        sEnd = length (out @ slice seed cursor (sBegin ?st) @ t), sResolution = c, sMapped = True\<rparr> # ns"
    "cursor \<le> sBegin ?st" "sEnd ?st \<le> length seed"
    "decideBlocks L m seed (Suc i) (sEnd ?st) (out @ slice seed cursor (sBegin ?st) @ t) rest v = (Inr (final, cursor', ns), w')"
    "map_option resolutionOf (nameIndex (text_of (field given ''choice''))) = Some c"
    "if c = Unresolved then t = spanText seed ?st else if c = Manual then t = text_of (field given ''replacement'')
      else chosenText (blocks (plan m) ! i) c = Some t"
    by (rule decideBlocks_step)
  let ?gap = "slice seed cursor (sBegin ?st)"
  have "Suc i + length rest = length ?zs" using Cons.prems(2) by simp
  from Cons.IH [OF *(4) this] obtain tail where tail: "final = (out @ ?gap @ t) @ tail"
      "replaced seed (final @ drop cursor' seed) (length (out @ ?gap @ t)) (sEnd ?st)
        (zip (drop (Suc i) ?zs) (map fst rest)) ns"
    by blast
  have i: "i < length ?zs" using Cons.prems(2) by (simp del: length_zip)
  then have drop: "drop i ?zs = (blocks (plan m) ! i, ?st) # drop (Suc i) ?zs"
    by (simp add: Cons_nth_drop_Suc [symmetric])
  let ?T = "final @ drop cursor' seed"
  let ?n = "\<lparr>sBegin = length (out @ ?gap), sEnd = length (out @ ?gap @ t), sResolution = c, sMapped = True\<rparr>"
  have T: "?T = out @ ?gap @ t @ tail @ drop cursor' seed" using tail(1) by simp
  have "slice ?T (length out) (length (out @ ?gap)) = ?gap"
    unfolding T by (rule slice_middle)
  moreover have span: "spanText ?T ?n = t"
    unfolding T spanText_def using slice_middle [of "out @ ?gap" t] by simp
  moreover have "within ?T ?n" unfolding T within_def by simp
  moreover define n where "n = ?n"
  moreover have "sMapped n" "sResolution n = c" by (simp_all add: n_def)
  ultimately have "regionDecided seed ?T (blocks (plan m) ! i) ?st given ?n"
    using *(5,6) unfolding n_def [symmetric] regionDecided_def by (auto split: if_splits)
  then show ?case
    using *(1-3) tail drop pair \<open>slice ?T (length out) (length (out @ ?gap)) = ?gap\<close> by simp
qed

lemma replaced_begins: "replaced seed T a cursor es ns \<Longrightarrow> n \<in> set ns \<Longrightarrow> a \<le> sBegin n"
proof (induction seed T a cursor es ns rule: replaced.induct)
  case (2 seed T a cursor b st given rest m ns)
  then show ?case
    by (auto simp: regionDecided_def within_def)
qed simp_all

lemma inOrder_Cons: "inOrder ns \<Longrightarrow> (\<And>n. n \<in> set ns \<Longrightarrow> sEnd m \<le> sBegin n) \<Longrightarrow> inOrder (m # ns)"
  unfolding inOrder_def by (auto simp: nth_Cons split: nat.splits)

lemma replaced_wellPlaced: "replaced seed T a cursor es ns \<Longrightarrow> wellPlaced T ns"
proof (induction seed T a cursor es ns rule: replaced.induct)
  case (1 seed T a cursor)
  then show ?case by (simp add: wellPlaced_def located_def inOrder_def)
next
  case (2 seed T a cursor b st given rest m ns)
  have rest: "replaced seed T (sEnd m) (sEnd st) rest ns" "regionDecided seed T b st given m"
    using "2.prems" by simp_all
  from "2.IH" [OF rest(1)] inOrder_Cons [of ns m] replaced_begins [OF rest(1)] rest(2)
  show ?case by (simp add: wellPlaced_def located_def regionDecided_def)
qed simp_all

lemma planBlocks_length: "planBlocks h L generation seed p i bs w = (Inr objs, w') \<Longrightarrow> length objs = length bs"
  by (induction h L generation seed p i bs arbitrary: w objs rule: planBlocks.induct)
    (auto simp: ret_def throw_def dest!: seq_Inr split: if_splits)

lemma member_insertMember [simp]: "member (insertMember k v obj) k = v"
proof -
  have "map_of (filter (\<lambda>(n, _). n < k) obj) k = None"
    by (auto simp: map_of_eq_None_iff)
  then show ?thesis by (simp add: member_def insertMember_def map_add_def)
qed

lemma MakeDecisionPlan_blocks:
  assumes "MakeDecisionPlan h L r s w = (Inr expected, w')" and "sessionPlan s = Some p"
  shows "\<exists>objs. member expected ''blocks'' = JArray objs \<and> length objs = length (zip (blocks p) (initial p))"
  using assms
  by (auto simp: MakeDecisionPlan_def Let_def throw_def ret_def dest!: seq_Inr planBlocks_length split: if_splits)

definition entries :: "object \<Rightarrow> json list" where
  "entries document = (case member document ''blocks'' of JArray es \<Rightarrow> es | _ \<Rightarrow> [])"

lemma ApplyDecisionPlan_Inr:
  assumes "ApplyDecisionPlan h L r counter document s w = (Inr s', w')"
    and "sessionPlan s = Some p" and "length (initial p) = length (blocks p)"
  shows "\<exists>states. sessionPlan s' = Some (p\<lparr>initial := states\<rparr>)
    \<and> replaced (seedText s p) (resultText s') 0 0 (zip (zip (blocks p) (initial p)) (entries document)) states
    \<and> exitCode s' = (if list_ex (\<lambda>st. sResolution st = Unresolved) states then 1 else 0)
    \<and> outcome s' = (if list_ex (\<lambda>st. sResolution st = Unresolved) states then ''Conflicted'' else ''Planned'')"
proof -
  from assms(1) obtain expected w1 choices references m w2 out cursor states w3 w4 v4 where a:
    "MakeDecisionPlan h L r s w = (Inr expected, w1)"
    "member document ''blocks'' = JArray choices" "member expected ''blocks'' = JArray references"
    "length choices = length references"
    "ofSum (fst (newMergeModel (sessionPlan s) counter)) w1 = (Inr m, w2)"
    "decideBlocks L m (seedText s (plan m)) 0 0 [] (zip choices references) w2 = (Inr (out, cursor, states), w3)"
    "s' = publishDecisions s (plan m) states (out @ drop cursor (seedText s (plan m)))"
    by (auto simp: ApplyDecisionPlan_def Let_def ret_def throw_def dest!: seq_Inr appendResult_Inr split: if_splits json.splits)
  have m: "plan m = p" "blockStates m = initial p"
    using a(5) assms(2) by (auto simp: newMergeModel_def ofSum_def ret_def)
  have len: "length choices = length (zip (blocks p) (initial p))"
    using MakeDecisionPlan_blocks [OF a(1) assms(2)] a(3,4) by auto
  have "0 + length (zip choices references) = length (zip (blocks (plan m)) (blockStates m))"
    using len a(4) m by simp
  from decideBlocks_replaced [OF a(6) this]
  have "replaced (seedText s p) (out @ drop cursor (seedText s p)) 0 0 (zip (zip (blocks p) (initial p)) choices) states"
    using a(4) m by simp
  then show ?thesis
    by (intro exI [of _ states]) (simp add: a(2,7) m entries_def publishDecisions_def Let_def)
qed

section \<open>Properties\<close>

text \<open>C9: A decision plan that is accepted is carried out exactly.  The result is the text of
  the session with the region of every block replaced by what the entry of that block in the
  document chooses, its own text when the block stays unresolved, and unchanged before, between
  and after the regions; the new regions lie in the result in order and hold
  these texts; and the session is ready to be written only when no block is unresolved.\<close>

theorem decisions_applied:
  assumes "sessionPlan s = Some p" and "length (initial p) = length (blocks p)"
  shows "case fst (ApplyDecisionPlan h L r counter document s w) of Inl e \<Rightarrow> True | Inr s' \<Rightarrow>
    \<exists>states. sessionPlan s' = Some (p\<lparr>initial := states\<rparr>)
    \<and> replaced (seedText s p) (resultText s') 0 0 (zip (zip (blocks p) (initial p)) (entries document)) states
    \<and> wellPlaced (resultText s') states
    \<and> (exitCode s' = 0 \<longleftrightarrow> outcome s' = ''Planned'')
    \<and> (exitCode s' = 0 \<longleftrightarrow> list_all (\<lambda>st. sResolution st \<noteq> Unresolved) states)"
proof (cases "ApplyDecisionPlan h L r counter document s w")
  case (Pair result w')
  show ?thesis
  proof (cases result)
    case (Inr s')
    from ApplyDecisionPlan_Inr [OF Pair [unfolded Inr] assms] obtain states where
      "sessionPlan s' = Some (p\<lparr>initial := states\<rparr>)"
      "replaced (seedText s p) (resultText s') 0 0 (zip (zip (blocks p) (initial p)) (entries document)) states"
      "exitCode s' = (if list_ex (\<lambda>st. sResolution st = Unresolved) states then 1 else 0)"
      "outcome s' = (if list_ex (\<lambda>st. sResolution st = Unresolved) states then ''Conflicted'' else ''Planned'')"
      by blast
    then have "\<exists>states. sessionPlan s' = Some (p\<lparr>initial := states\<rparr>)
      \<and> replaced (seedText s p) (resultText s') 0 0 (zip (zip (blocks p) (initial p)) (entries document)) states
      \<and> wellPlaced (resultText s') states
      \<and> (exitCode s' = 0 \<longleftrightarrow> outcome s' = ''Planned'')
      \<and> (exitCode s' = 0 \<longleftrightarrow> list_all (\<lambda>st. sResolution st \<noteq> Unresolved) states)"
      using replaced_wellPlaced by (intro exI [of _ states]) (auto simp: list_ex_iff list_all_iff)
    then show ?thesis using Pair Inr by simp
  qed (simp add: Pair)
qed

definition demoPlan :: mergePlan where
  "demoPlan = \<lparr>hasBase = False, blocks = [\<lparr>bId = 1, bLeftBegin = 1, bRightBegin = 1, bBaseBegin = 0, bLeftLine = 0,
       bRightLine = 0, bBaseLine = 0, bLeft = ''b'', bRight = ''xy'', bBase = [], bAutomatic = False\<rparr>],
     initial = [\<lparr>sBegin = 1, sEnd = 2, sResolution = ChooseLeft, sMapped = True\<rparr>]\<rparr>"

definition demoSnapshot :: "str \<Rightarrow> snapshot" where
  "demoSnapshot t = \<lparr>path = ''p'', raw = t, utf8 = t, encoding = ''UTF-8'', bom = False\<rparr>"

definition demoSession :: session where
  "demoSession = \<lparr>sessionPlan = Some demoPlan, inputs = [demoSnapshot ''abc'', demoSnapshot ''axyc''], mergedText = [],
     resultText = [], exitCode = 0, errorName = [], outcome = []\<rparr>"

definition demoHash :: hashing where
  "demoHash = \<lparr>digest = (\<lambda>_. ''d''), compact = (\<lambda>_. []), decimal = (\<lambda>_. ''0'')\<rparr>"

definition demoRequest :: request where
  "demoRequest = \<lparr>requestEncoding = [], takeAll = []\<rparr>"

definition demoBlock :: "str \<Rightarrow> object" where
  "demoBlock c = [(''baseLine'', JNumber 0), (''changeId'', JString ''d''), (''choice'', JString c),
     (''expectedSpanDigest'', JString ''d''), (''leftLine'', JNumber 1), (''replacement'', JString []),
     (''rightLine'', JNumber 1)]"

definition demoInput :: "str \<Rightarrow> json" where
  "demoInput role = JObject [(''bom'', JBool False), (''encoding'', JString ''UTF-8''), (''path'', JString ''p''),
     (''role'', JString role), (''sha256'', JString ''d'')]"

definition demoDocument :: "str \<Rightarrow> object" where
  "demoDocument c = [(''blocks'', JArray [JObject (demoBlock c)]), (''engineVersion'', JString ''myers-bounded-4''),
     (''generation'', JString ''d''), (''inputs'', JArray [demoInput ''left'', demoInput ''right'']),
     (''kind'', JString ''text-merge-decisions''), (''policyDigest'', JString ''d''), (''schemaVersion'', JNumber 1)]"

lemma demo_check: "check defaultBudget w = (Inr (), w\<lparr>ticks := Suc (ticks w)\<rparr>)"
  by (simp add: check_def seq_def tick_def observe_def defaultBudget_def)

lemmas demo_run = seq_def ret_def throw_def demo_check demoHash_def demoRequest_def demoSession_def demoPlan_def demoSnapshot_def

lemma demo_plan: "\<exists>w'. MakeDecisionPlan demoHash defaultBudget demoRequest demoSession w = (Inr (demoDocument ''left''), w')"
  by (simp add: MakeDecisionPlan_def DecisionIdentity_def demo_run decisionBlockLimit_def engineVersion_def member_def
      text_of_def seedText_def insertMember_def blockObject_def blockIdentity_def baseLineOf_def choiceName_def slice_def
      demoDocument_def demoBlock_def demoInput_def Let_def)

lemma demo_choice: "readChoice p (JObject (demoBlock ''right'')) (JObject (demoBlock ''left'')) w = (Inr (ChooseRight, []), w)"
  by (simp add: readChoice_def demoBlock_def member_def without_def text_of_def isText_def nameIndex_def choiceNames_def
      resolutionOf_def ret_def)

lemma demo_applied: "case fst (ApplyDecisionPlan demoHash defaultBudget demoRequest 0 (demoDocument ''right'') demoSession world0) of
    Inl e \<Rightarrow> False | Inr s' \<Rightarrow> resultText s' = ''axyc''"
proof -
  obtain w' where "MakeDecisionPlan demoHash defaultBudget demoRequest demoSession world0 = (Inr (demoDocument ''left''), w')"
    using demo_plan by blast
  then show ?thesis
    by (simp add: ApplyDecisionPlan_def seq_def) (simp add: demoDocument_def member_def without_def ofSum_def newMergeModel_def demoSession_def
        ret_def throw_def seq_def demo_check demo_choice demoPlan_def seedText_def demoSnapshot_def appendResult_def resultLimit_def
        slice_def decidedText_def Prepare_def blockIndex_def Let_def publishDecisions_def)
qed

theorem decisions_applied_witness:
  "case fst (ApplyDecisionPlan demoHash defaultBudget demoRequest 0 (demoDocument ''right'') demoSession world0) of
     Inl e \<Rightarrow> False | Inr s' \<Rightarrow> resultText s' = ''axyc'' \<and> (\<exists>states. wellPlaced ''axyc'' states
       \<and> sessionPlan s' = Some (demoPlan\<lparr>initial := states\<rparr>))"
proof -
  have "sessionPlan demoSession = Some demoPlan" "length (initial demoPlan) = length (blocks demoPlan)"
    by (simp_all add: demoSession_def demoPlan_def)
  from decisions_applied [OF this, where h = demoHash and L = defaultBudget and r = demoRequest and counter = 0
      and document = "demoDocument ''right''" and w = world0] demo_applied
  show ?thesis by (auto split: sum.splits)
qed

end
