(* ===== verification/Spec2Isabelle.thy ===== *)
theory Spec2Isabelle
  imports MergePlans MultiAlignment InlineDiff OverviewMap Lanes IsoImageWriter Locators Automation FileNameGlob DecisionPlan
begin

text \<open>
  Verification of the core of HyperCommander, a file manager in C++: the comparison engine
  behind HyperCompare, the scheduler of background jobs, the command bus and the automation runs on
  top of it, the library that reads and writes ISO images, the persistence format of storage
  locations, and the globs of file names.

  \<^bold>\<open>Parts and theories.\<close>

  \<^item> \<open>Prelude\<close>: texts, the execution budget (\<open>struct Budget\<close> of \<open>HyperCompare/core/compare.hpp\<close>)
    and computations under it, with the rules \<open>yields\<close> and \<open>spec\<close> all engines are verified with.
  \<^item> \<open>Lines\<close>, \<open>EditScript\<close>, \<open>CommonSubsequence\<close>, \<open>Myers\<close>, \<open>WalkBack\<close>, \<open>LinearDiff\<close>, \<open>Patience\<close>,
    \<open>SparseDiff\<close>, \<open>Diff\<close>, \<open>Merge\<close>: \<open>HyperCompare/core/compare.cpp\<close> and \<open>linearDiff.cpp\<close>.  \<open>Diff\<close>
    splits both texts (\<open>SplitLines\<close>), strips what they share at both ends, and searches the
    middle with the greedy algorithm (\<open>depthLoop\<close>, \<open>backtrack\<close>, \<open>editsOf\<close>); when its history does
    not fit, \<open>SparseDiff\<close> anchors rare lines and \<open>LinearDiff\<close> divides and conquers.
  \<^item> \<open>MergeModel\<close>, \<open>MergePlans\<close>: \<open>mergeModel.cpp\<close>, the state of an interactive merge and its plans.
  \<^item> \<open>AlignmentMap\<close>, \<open>MultiAlignment\<close>: \<open>alignmentMap.cpp\<close>, the rows that show two or more texts side by
    side, and their refinement by similar lines.
  \<^item> \<open>InlineDiff\<close>: \<open>inlineDiff.cpp\<close>, the differences inside changed lines.
  \<^item> \<open>OverviewMap\<close>: \<open>overviewMap.cpp\<close>, strokes of a document and the raster beside the scroll bar.
  \<^item> \<open>Jobs\<close>, \<open>Scheduler\<close>, \<open>Worker\<close>: \<open>commonLibs/operations/jobScheduler.cpp\<close>.  One definition per section
    the code runs under its mutex; the answers of the task, of the journal and of the item ledger are
    arguments.  \<open>Lanes\<close> gathers the sections into the step relation \<open>schedStep\<close>, whose runs are all
    interleavings of callers and workers.  The stop requests that \<open>Control\<close> makes right after it leaves the
    mutex are part of its step.
  \<^item> \<open>IsoCodec\<close>, \<open>IsoReader\<close>, \<open>IsoWriter\<close>, \<open>IsoImageWriter\<close>:
    \<open>HyperCommanderBuiltInPlugin/IsoImage/src\<close>.  The writer lays an inventory out in up to three
    namespaces and opens what it wrote with the reader.
  \<^item> \<open>Locators\<close>: \<open>commonLibs/storage/storage.hpp\<close>, the framed texts of locators and resources.
  \<^item> \<open>EventHub\<close>, \<open>Commands\<close>: \<open>commonLibs/commands/commandBus.hpp\<close>.  \<open>EventHub\<close> has subscribers with
    bounded queues; \<open>enqueue\<close> is what \<open>Publish\<close> does under its locks, \<open>move\<close> one step of what is in
    flight for a subscriber between locks, and \<open>reachable\<close> all interleavings of them.  \<open>Commands\<close> has the
    registry, \<open>ValidateInvocation\<close> and \<open>Dispatch\<close>, which publishes on the hub.
  \<^item> \<open>Automation\<close>: \<open>commonLibs/commands/automation.cpp\<close>, expressions (\<open>Evaluate\<close>) and runs
    (\<open>Create\<close>, \<open>Tick\<close>, \<open>Cancel\<close>), which dispatch commands through their host.
  \<^item> \<open>DecisionPlan\<close>: \<open>HyperCompare/runtime/decisionPlan.cpp\<close>, the document that lists the blocks of a merge
    session and its application, which prepares its decisions with \<open>MergeModel\<close>.
  \<^item> \<open>FileNameGlob\<close>: \<open>commonLibs/fileNameGlob.hpp\<close>, \<open>Compile\<close> and \<open>Matches\<close>.

  \<^bold>\<open>How state and failure are modelled.\<close>  A C++ record is a \<open>record\<close>, an enumeration a \<open>datatype\<close>, a vector
  a list, a \<open>std::string\<close> a list of characters or bytes.  A function that throws returns a sum; the
  engines of the comparison also thread the number of checks and of steps of their budget, and whatever a run
  reads from outside (clock, cancellation, memory callbacks) is a field of the budget indexed by
  the number of checks, so that two reads may differ.  Unsigned subtraction that may pass below zero is
  written with its wrap-around (\<open>minus64\<close>, \<open>plus64\<close>).

  \<^bold>\<open>What the lemmas show.\<close>  \<open>Diff\<close> answers with an ordered, separated script that turns the left text into
  the right one, to the byte, on every path through the engines; the script is a shortest one when the
  greedy history fits, and a quiet run returns it.  Merge sessions keep their regions inside the
  text and in order, edits keep the text of other regions, stale decisions are refused; an accepted
  decision plan replaces exactly the regions of its blocks.  Alignment
  maps tile both texts; rows and lines convert back and forth.  Inline ranges are
  ascending, inside their lines and leave equal texts.  The raster computes what it stands for.  A
  descriptor that was tagged passes the check, names survive both encodings, an opened image only has safe
  unique paths with extents inside the image, and reading a file gives the bytes of
  its extents however the host splits the reads; a
  build that succeeds returns an image that reads back as its sources in every namespace.  Locators and resources parse back.  In every
  reachable state of the scheduler the occupied lanes are exactly those of the jobs that hold them, ended jobs
  hold none, and no job holds a path above the path of another job.  In every reachable state of the
  event hub a subscriber has at most one drain and no wake-up is lost: what was accepted is delivered, in
  order and at most its capacity waiting.  Handlers only see well-typed, authorized invocations, and
  every dispatch is answered once.  Well-typed expressions evaluate; a run sends each command of its
  program at most once and in order, never reaches a handler beyond its permissions, ends when its host answers, and its final state agrees with its errors.
  The three ways to match a glob decide one meaning.

  \<^bold>\<open>Bounds and fuel.\<close>  Recursion over data is structural.  Where the code loops on positions, the definitions
  have a measure or a fuel argument that the callers compute: \<open>hostLoop\<close> takes the bytes wanted (every
  pass delivers one at least), \<open>isoRecords\<close> and \<open>identifiers\<close> the bytes of the directory, the walks 129
  levels as in the code, \<open>allocations\<close> the bytes of the descriptors, \<open>makeDirectory\<close> the length of the path,
  \<open>numberDirectories\<close> the number of nodes, \<open>fileRecords\<close> and \<open>shortAds\<close> the number of extents of a file,
  \<open>parseHops\<close> the 32 hops the code allows.  \<open>drainWork\<close> bounds the steps of a drain and \<open>left\<close> the ticks
  of a run; \<open>runBatch\<close> takes the 32 steps of a tick, \<open>Evaluate\<close> stops at depth 32 as in the code.

  \<^bold>\<open>Not modelled.\<close>  The windows and widgets (\<open>HyperCommander/UIs\<close>, \<open>HyperCompare/widgets\<close>, \<open>HyperEditor\<close>,
  \<open>HyperViewer\<close>), the services around Windows, Qt and COM (\<open>HyperCommanderAdmin\<close>, \<open>HyperCommanderUpdater\<close>,
  \<open>UniqueLibs/system\<close>, \<open>commonLibs/win32api\<close>, plug-in hosts), archive, audio and document formats whose work is done
  by third-party libraries (\<open>UniqueLibs\<close>, \<open>HyperCommanderBuiltInPlugin/SevenZip\<close>), and the vendored
  \<open>externalLibs\<close> and \<open>fmt\<close>.  JSON is read and written by Qt.  Of the modelled parts, waking threads, wrapping write checkpoints, shared ownership of
  plans and writing to the output stream of an image have no state of their own here.
\<close>

end
